(* ===== verification/Prelude.thy ===== *)
theory Prelude
  imports Main "HOL-Library.Word" "HOL-Library.Monad_Syntax"
begin

text \<open>
  Shared vocabulary of the development.

  \<^item> Machine integers. The kernel and its run-time are built for ia32 (\<^verbatim>\<open>hurd/stddef.h\<close>
    refuses every other architecture), so \<open>int\<close>, \<open>l4_word_t\<close>, \<open>uintptr_t\<close> and
    \<open>size_t\<close> are 32 bits wide and \<open>uint64_t\<close> is 64 bits wide. Bit fields are words of
    their declared width.
  \<^item> Failure. A function of the C code that contains an \<open>assert\<close>, an \<open>assertx\<close> or a
    \<open>panic\<close> returns an \<open>option\<close>: \<open>None\<close> says that the C code stops there. Sequencing
    is the \<open>do\<close> notation of \<open>Monad_Syntax\<close>; state is passed explicitly.
  \<^item> Generic lemmas on words, lists, options and finite searches that the components share.
\<close>

unbundle bit_operations_syntax

type_synonym u8 = "8 word"
type_synonym u32 = "32 word"
type_synonym u64 = "64 word"

named_theorems c_ops \<open>definitions of the small inline operations of the C code\<close>
named_theorems c_inv \<open>preservation of the component invariants\<close>

subsection \<open>Assertions\<close>

definition c_assert :: "bool \<Rightarrow> unit option" where
  "c_assert b = (if b then Some () else None)"

lemma c_assert_True [simp]: "c_assert True = Some ()"
  by (simp add: c_assert_def)

lemma c_assert_False [simp]: "c_assert False = None"
  by (simp add: c_assert_def)

lemma c_assert_bind [simp]:
  "(c_assert b \<bind> f = Some x) \<longleftrightarrow> (b \<and> f () = Some x)"
  by (cases b) simp_all

lemma c_assert_bind_if: "c_assert b \<bind> f = (if b then f () else None)"
  by (cases b) simp_all

lemma c_assert_eq_Some [simp]: "(c_assert b = Some u) \<longleftrightarrow> b"
  by (cases b) simp_all

subsection \<open>Searching an interval of natural numbers\<close>

text \<open>\<open>List.find\<close> over an interval returns the least index that satisfies the predicate.\<close>

lemma find_upt_Some:
  "List.find P [m..<n] = Some i \<longleftrightarrow> (m \<le> i \<and> i < n \<and> P i \<and> (\<forall>j. m \<le> j \<and> j < i \<longrightarrow> \<not> P j))"
proof (induction "n - m" arbitrary: m)
  case 0
  then show ?case by auto
next
  case (Suc k)
  then have mn: "m < n" by simp
  from Suc.hyps(2) have "k = n - Suc m" by simp
  note IH = Suc.hyps(1) [OF this]
  show ?case
  proof (cases "P m")
    case True
    with mn show ?thesis
      by (auto simp: upt_conv_Cons)
  next
    case False
    with mn have "List.find P [m..<n] = List.find P [Suc m..<n]"
      by (simp add: upt_conv_Cons)
    with IH False show ?thesis
      by (metis Suc_leD Suc_leI le_neq_implies_less)
  qed
qed

lemma find_upt_None: "List.find P [m..<n] = None \<longleftrightarrow> (\<forall>i. m \<le> i \<and> i < n \<longrightarrow> \<not> P i)"
  by (auto simp: find_None_iff)

subsection \<open>Words\<close>

lemma word_eq_bitI:
  fixes v w :: "'a::len word"
  assumes "\<And>n. n < LENGTH('a) \<Longrightarrow> bit v n \<longleftrightarrow> bit w n"
  shows "v = w"
  using assms by (intro bit_word_eqI)

lemma word_neq_0_bit: "(w :: 'a::len word) \<noteq> 0 \<longleftrightarrow> (\<exists>n < LENGTH('a). bit w n)"
  by (metis bit_0_eq bit_imp_le_length bot_apply bot_bool_def linorder_not_le word_eq_bitI)

lemma bit_word_lt_exp:
  fixes w :: "'a::len word"
  assumes "unat w < 2 ^ k" and "bit w n"
  shows "n < k"
proof (rule ccontr)
  assume "\<not> n < k"
  then have "(2::nat) ^ k \<le> 2 ^ n" by (simp add: power_increasing)
  moreover have "2 ^ n \<le> unat w"
  proof -
    from assms(2) have "bit (unat w) n"
      by (simp add: bit_unsigned_iff)
    then have "odd (unat w div 2 ^ n)"
      by (simp add: bit_iff_odd)
    then show ?thesis
      by (metis div_less even_zero linorder_not_le)
  qed
  ultimately show False using assms(1) by linarith
qed

lemma word_lt_exp_bits:
  fixes w :: "'a::len word"
  assumes "\<And>n. bit w n \<Longrightarrow> n < k"
  shows "unat w < 2 ^ k"
proof -
  have "take_bit k w = w"
    using assms by (intro bit_word_eqI) (auto simp: bit_take_bit_iff)
  then have "unat w = take_bit k (unat w)"
    by (metis unsigned_take_bit_eq)
  then show ?thesis
    by (metis take_bit_nat_less_exp)
qed

lemma word_lt_exp_iff_bits: "unat (w :: 'a::len word) < 2 ^ k \<longleftrightarrow> (\<forall>n. bit w n \<longrightarrow> n < k)"
  using bit_word_lt_exp word_lt_exp_bits by blast

subsection \<open>Shifts\<close>

text \<open>The C operators \<open><<\<close> and \<open>>>\<close> on unsigned operands.\<close>

definition shl :: "'a::len word \<Rightarrow> nat \<Rightarrow> 'a word" where
  "shl w n = push_bit n w"

definition shr :: "'a::len word \<Rightarrow> nat \<Rightarrow> 'a word" where
  "shr w n = drop_bit n w"

lemma bit_shl: "bit (shl w n :: 'a::len word) k \<longleftrightarrow> k < LENGTH('a) \<and> n \<le> k \<and> bit w (k - n)"
  by (auto simp: shl_def bit_push_bit_iff)

lemma bit_shl_1: "bit (shl 1 n :: 'a::len word) k \<longleftrightarrow> k = n \<and> n < LENGTH('a)"
  by (auto simp: bit_shl bit_1_iff)

lemma bit_shr: "bit (shr w n :: 'a::len word) k \<longleftrightarrow> bit w (n + k)"
  by (simp add: shr_def bit_drop_bit_eq)

lemma shl_1_minus_1: "shl 1 k - 1 = (mask k :: 'a::len word)"
  by (simp add: shl_def mask_eq_exp_minus_1)

lemma bit_mask_word: "bit (mask k :: 'a::len word) n \<longleftrightarrow> n < k \<and> n < LENGTH('a)"
  by (auto simp: bit_mask_iff)

lemmas c_bits = bit_1_iff bit_shl_1 bit_shl bit_shr shl_1_minus_1 bit_mask_word bit_and_iff bit_or_iff
  bit_not_iff bit_unsigned_iff

lemma unat_shl_1: "k < LENGTH('a) \<Longrightarrow> unat (shl 1 k :: 'a::len word) = 2 ^ k"
  unfolding shl_def unsigned_push_bit_eq by (simp add: take_bit_nat_eq_self)

lemma lt_shl_1: "k < LENGTH('a) \<Longrightarrow> (w :: 'a::len word) < shl 1 k \<longleftrightarrow> (\<forall>n. bit w n \<longrightarrow> n < k)"
  by (simp add: word_less_nat_alt unat_shl_1 word_lt_exp_iff_bits)

lemma unat_shl: "unat (w :: 'a::len word) * 2 ^ k < 2 ^ LENGTH('a) \<Longrightarrow> unat (shl w k) = unat w * 2 ^ k"
  unfolding shl_def unsigned_push_bit_eq by (simp add: take_bit_nat_eq_self push_bit_eq_mult)

lemma unat_shr: "unat (shr w k :: 'a::len word) = unat w div 2 ^ k"
  using unsigned_drop_bit_eq [of k w, where ?'a = nat]
  by (simp add: shr_def drop_bit_eq_div take_bit_nat_eq_self)

lemma shl_0_left [simp]: "shl 0 n = 0" and shr_0_left [simp]: "shr 0 n = 0"
  by (simp_all add: shl_def shr_def)

lemma word_and_0I: "(\<And>n. bit a n \<Longrightarrow> bit b n \<Longrightarrow> False) \<Longrightarrow> (a AND b :: 'a::len word) = 0"
  by (rule bit_word_eqI) (auto simp: bit_and_iff)

end
