(* ===== verification/L4_Math.thy ===== *)
theory L4_Math
  imports Prelude
begin

text \<open>
  The bit-scan helpers of \<^verbatim>\<open>libl4/l4/math.h\<close> and \<^verbatim>\<open>libl4/ia32/l4/bits/math.h\<close>:
  \<open>_L4_msb\<close>, \<open>_L4_msb64\<close>, \<open>_L4_lsb\<close> and \<open>_L4_lsb64\<close> return 0 for 0 and otherwise the
  position of the most (least) significant bit set, counted from 1.

  The run-time path executes the ia32 instructions \<open>bsr\<close> and \<open>bsf\<close>. The path that gcc takes
  when the argument is a compile-time constant is a chain of comparisons and is modelled
  separately (\<open>l4_msb_const\<close>, \<open>l4_lsb_const\<close>).
\<close>

subsection \<open>The ia32 scan instructions\<close>

text \<open>\<open>bsf\<close> scans from bit 0 upwards, \<open>bsr\<close> from the top bit downwards; both leave their
  destination unspecified for 0, which the callers exclude.\<close>

definition bsf :: "u32 \<Rightarrow> nat option" where
  "bsf w = List.find (bit w) [0..<32]"

definition bsr :: "u32 \<Rightarrow> nat option" where
  "bsr w = List.find (bit w) (rev [0..<32])"

definition arch_l4_msb :: "u32 \<Rightarrow> nat" where
  "arch_l4_msb data = (case bsr data of Some msb \<Rightarrow> msb + 1 | None \<Rightarrow> 0)"

definition arch_l4_lsb :: "u32 \<Rightarrow> nat" where
  "arch_l4_lsb data = (case bsf data of Some lsb \<Rightarrow> lsb + 1 | None \<Rightarrow> 0)"

subsection \<open>The run-time functions\<close>

definition l4_msb :: "u32 \<Rightarrow> nat" where
  "l4_msb data = (if data \<noteq> 0 then arch_l4_msb data else 0)"

definition l4_msb64 :: "u64 \<Rightarrow> nat" where
  "l4_msb64 data =
     (let d = l4_msb (ucast (shr data 32))
      in if d \<noteq> 0 then d + 32 else l4_msb (ucast data))"

definition l4_lsb :: "u32 \<Rightarrow> nat" where
  "l4_lsb data = (if data \<noteq> 0 then arch_l4_lsb data else 0)"

definition l4_lsb64 :: "u64 \<Rightarrow> nat" where
  "l4_lsb64 data =
     (let d = l4_lsb (ucast data)
      in if d \<noteq> 0 then d
         else let d = l4_lsb (ucast (shr data 32))
              in if d \<noteq> 0 then d + 32 else 0)"

subsection \<open>The compile-time constant paths\<close>

text \<open>\<open>__L4_MSB_TRY (b)\<close> for b = 1, ..., 31 returns the first b with \<open>data < (1 << b)\<close>;
  \<open>__L4_MSB_IS (32)\<close> ends the chain.\<close>

definition l4_msb_const :: "u32 \<Rightarrow> nat" where
  "l4_msb_const data =
     (if data = 0 then 0
      else case List.find (\<lambda>b. data < shl 1 b) [1..<32] of Some b \<Rightarrow> b | None \<Rightarrow> 32)"

text \<open>\<open>__L4_LSB_TRY (b)\<close> for b = 32, ..., 2 returns the first b with
  \<open>data >= (1 << (b - 1))\<close>; \<open>__L4_LSB_IS (1)\<close> ends the chain.\<close>

definition l4_lsb_const :: "u32 \<Rightarrow> nat" where
  "l4_lsb_const data =
     (if data = 0 then 0
      else case List.find (\<lambda>b. data \<ge> shl 1 (b - 1)) (rev [2..<33]) of
             Some b \<Rightarrow> b | None \<Rightarrow> 1)"

subsection \<open>What the functions compute\<close>

lemma find_rev_upt_Some:
  "List.find P (rev [m..<n]) = Some i \<longleftrightarrow>
     (m \<le> i \<and> i < n \<and> P i \<and> (\<forall>j. i < j \<and> j < n \<longrightarrow> \<not> P j))"
proof (induction n)
  case 0
  then show ?case by simp
next
  case (Suc n)
  then show ?case
    by (cases "m \<le> n") (auto simp: less_Suc_eq)
qed

lemma find_rev_upt_None:
  "List.find P (rev [m..<n]) = None \<longleftrightarrow> (\<forall>i. m \<le> i \<and> i < n \<longrightarrow> \<not> P i)"
  by (auto simp: find_None_iff)

lemma word32_eq_0: "(w :: u32) = 0 \<longleftrightarrow> (\<forall>i<32. \<not> bit w i)"
  using word_neq_0_bit [of w] by auto

lemma bsf_None [simp]: "bsf w = None \<longleftrightarrow> w = 0"
  by (simp add: bsf_def find_upt_None word32_eq_0)

lemma bsr_None [simp]: "bsr w = None \<longleftrightarrow> w = 0"
  by (simp add: bsr_def find_rev_upt_None word32_eq_0)

lemma bit32_less: "bit (w :: u32) j \<Longrightarrow> j < 32"
  by (auto dest: bit_imp_le_length)

lemma bit64_less: "bit (w :: u64) j \<Longrightarrow> j < 64"
  by (auto dest: bit_imp_le_length)

lemma bsf_Some: "bsf w = Some i \<longleftrightarrow> bit w i \<and> (\<forall>j<i. \<not> bit w j)"
  by (auto simp: bsf_def find_upt_Some bit32_less)

lemma bsr_Some: "bsr w = Some i \<longleftrightarrow> bit w i \<and> (\<forall>j>i. \<not> bit w j)"
  using bit32_less [of w] by (auto simp: bsr_def find_rev_upt_Some)

lemma bsf_0 [simp]: "bsf 0 = None" and bsr_0 [simp]: "bsr 0 = None"
  by simp_all

lemma l4_lsb_0 [simp]: "l4_lsb 0 = 0" and l4_msb_0 [simp]: "l4_msb 0 = 0"
  by (simp_all add: l4_lsb_def l4_msb_def)

lemma l4_lsb64_0 [simp]: "l4_lsb64 0 = 0" and l4_msb64_0 [simp]: "l4_msb64 0 = 0"
  by (simp_all add: l4_lsb64_def l4_msb64_def)

lemma l4_lsb_eq_0 [simp]: "l4_lsb w = 0 \<longleftrightarrow> w = 0"
  by (auto simp: l4_lsb_def arch_l4_lsb_def split: option.splits)

lemma l4_msb_eq_0 [simp]: "l4_msb w = 0 \<longleftrightarrow> w = 0"
  by (auto simp: l4_msb_def arch_l4_msb_def split: option.splits)

lemma l4_lsb_Suc: "l4_lsb w = Suc i \<longleftrightarrow> bit w i \<and> (\<forall>j<i. \<not> bit w j)"
  by (auto simp: l4_lsb_def arch_l4_lsb_def bsf_Some [symmetric] split: option.splits)

lemma l4_msb_Suc: "l4_msb w = Suc i \<longleftrightarrow> bit w i \<and> (\<forall>j>i. \<not> bit w j)"
  by (auto simp: l4_msb_def arch_l4_msb_def bsr_Some [symmetric] split: option.splits)

lemma bit_ucast_low: "bit (ucast (d :: u64) :: u32) i \<longleftrightarrow> i < 32 \<and> bit d i"
  by (auto simp: c_bits)

lemma bit_ucast_high: "bit (ucast (shr (d :: u64) 32) :: u32) i \<longleftrightarrow> i < 32 \<and> bit d (i + 32)"
  by (auto simp: c_bits ac_simps)

lemma word64_halves: "(d :: u64) \<noteq> 0 \<longleftrightarrow>
    (ucast d :: u32) \<noteq> 0 \<or> (ucast (shr d 32) :: u32) \<noteq> 0"
proof -
  have "(\<exists>n<64. bit d n) \<longleftrightarrow> (\<exists>n<32. bit d n) \<or> (\<exists>n<32. bit d (32 + n))"
  proof
    assume "\<exists>n<64. bit d n"
    then obtain n where n: "n < 64" "bit d n" by blast
    then have "n < 32 \<or> (n - 32 < 32 \<and> bit d (32 + (n - 32)))" by (cases "n < 32") auto
    with n(2) show "(\<exists>n<32. bit d n) \<or> (\<exists>n<32. bit d (32 + n))" by blast
  qed (auto dest: bit64_less)
  then show ?thesis
    by (simp add: word_neq_0_bit c_bits add.commute [of _ "32::nat"])
qed

text \<open>The interface the address code relies on: the 64-bit scans, by the position found.\<close>

lemma l4_lsb64_eq_0 [simp]: "l4_lsb64 d = 0 \<longleftrightarrow> d = 0"
  using word64_halves [of d] by (auto simp: l4_lsb64_def Let_def)

lemma l4_msb64_eq_0 [simp]: "l4_msb64 d = 0 \<longleftrightarrow> d = 0"
  using word64_halves [of d] by (auto simp: l4_msb64_def Let_def)

lemma l4_lsb64_SucI:
  assumes b: "bit d i" and least: "\<And>j. j < i \<Longrightarrow> \<not> bit d j"
  shows "l4_lsb64 d = Suc i"
proof (cases "i < 32")
  case True
  with b least have "l4_lsb (ucast d) = Suc i"
    by (simp add: l4_lsb_Suc bit_ucast_low)
  then show ?thesis by (simp add: l4_lsb64_def Let_def)
next
  case False
  from b have "i < 64" by (auto dest: bit_imp_le_length)
  from False least have "l4_lsb (ucast d) = 0"
    by (simp add: word32_eq_0 bit_ucast_low)
  moreover from False \<open>i < 64\<close> b least have "l4_lsb (ucast (shr d 32)) = Suc (i - 32)"
    by (simp add: l4_lsb_Suc bit_ucast_high)
  ultimately show ?thesis using False by (simp add: l4_lsb64_def Let_def)
qed

lemma l4_msb64_SucI:
  assumes b: "bit d i" and greatest: "\<And>j. i < j \<Longrightarrow> \<not> bit d j"
  shows "l4_msb64 d = Suc i"
proof (cases "i < 32")
  case True
  with greatest have "l4_msb (ucast (shr d 32)) = 0"
    by (simp add: word32_eq_0 bit_ucast_high)
  moreover from True b greatest have "l4_msb (ucast d) = Suc i"
    by (simp add: l4_msb_Suc bit_ucast_low)
  ultimately show ?thesis by (simp add: l4_msb64_def Let_def)
next
  case False
  from b have "i < 64" by (auto dest: bit_imp_le_length)
  with False b greatest have "l4_msb (ucast (shr d 32)) = Suc (i - 32)"
    by (simp add: l4_msb_Suc bit_ucast_high)
  with False show ?thesis by (simp add: l4_msb64_def Let_def)
qed

lemma ex_least_bit: "(d :: 'a::len word) \<noteq> 0 \<Longrightarrow> \<exists>i. bit d i \<and> (\<forall>j<i. \<not> bit d j)"
  by (metis exists_least_iff word_neq_0_bit)

lemma ex_greatest_bit: "(d :: 'a::len word) \<noteq> 0 \<Longrightarrow> \<exists>i. bit d i \<and> (\<forall>j>i. \<not> bit d j)"
proof -
  assume "d \<noteq> 0"
  then obtain n where "bit d n" by (auto simp: word_neq_0_bit)
  then have "bit d (Greatest (bit d)) \<and> (\<forall>j. bit d j \<longrightarrow> j \<le> Greatest (bit d))"
    using GreatestI_nat [of "bit d" n "LENGTH('a)"] Greatest_le_nat [of "bit d" _ "LENGTH('a)"]
    by (metis bit_imp_le_length less_imp_le)
  then show ?thesis by (metis linorder_not_le)
qed

lemma l4_lsb64_Suc: "l4_lsb64 d = Suc i \<longleftrightarrow> bit d i \<and> (\<forall>j<i. \<not> bit d j)"
proof
  assume h: "l4_lsb64 d = Suc i"
  then have "d \<noteq> 0" using l4_lsb64_eq_0 [of d] by simp
  then obtain k where k: "bit d k" "\<forall>j<k. \<not> bit d j" using ex_least_bit by blast
  then have "l4_lsb64 d = Suc k" by (simp add: l4_lsb64_SucI)
  with h k show "bit d i \<and> (\<forall>j<i. \<not> bit d j)" by simp
qed (simp add: l4_lsb64_SucI)

lemma l4_msb64_Suc: "l4_msb64 d = Suc i \<longleftrightarrow> bit d i \<and> (\<forall>j>i. \<not> bit d j)"
proof
  assume h: "l4_msb64 d = Suc i"
  then have "d \<noteq> 0" using l4_msb64_eq_0 [of d] by simp
  then obtain k where k: "bit d k" "\<forall>j>k. \<not> bit d j" using ex_greatest_bit by blast
  then have "l4_msb64 d = Suc k" by (simp add: l4_msb64_SucI)
  with h k show "bit d i \<and> (\<forall>j>i. \<not> bit d j)" by simp
qed (simp add: l4_msb64_SucI)

lemma l4_msb64_le_iff: "l4_msb64 d \<le> k \<longleftrightarrow> unat d < 2 ^ k"
proof (cases "l4_msb64 d")
  case 0
  then show ?thesis by simp
next
  case (Suc i)
  then have i: "bit d i" "\<forall>j>i. \<not> bit d j" by (simp_all add: l4_msb64_Suc)
  then have "(\<forall>n. bit d n \<longrightarrow> n < k) \<longleftrightarrow> i < k"
    by (metis linorder_neqE_nat order.strict_trans)
  with Suc show ?thesis by (simp add: word_lt_exp_iff_bits Suc_le_eq)
qed

lemma l4_lsb64_le [simp]: "l4_lsb64 d \<le> 64"
proof (cases "l4_lsb64 d")
  case (Suc i)
  then have "bit d i" by (simp add: l4_lsb64_Suc)
  then have "i < 64" by (auto dest: bit_imp_le_length)
  with Suc show ?thesis by simp
qed simp

end
