(* ===== verification/Addr.thy ===== *)
theory Addr
  imports L4_Math
begin

text \<open>
  Capability addresses, \<^verbatim>\<open>hurd/addr.h\<close>: a 64-bit word holding a prefix of \<open>depth\<close> bits
  in its upper bits, a boundary bit, and \<open>63 - depth\<close> zero bits. The constructors and accessors
  are translated on words; the round-trip, extension, truncation and stepping laws follow.
\<close>

record addr_t =
  raw :: u64

definition ADDR_BITS :: int where
  "ADDR_BITS = 63"

text \<open>The C expression \<open>1 << n\<close> with an \<open>int\<close> left operand, as ia32 evaluates it: a 32-bit
  shift whose count is taken modulo 32, here widened to \<open>uint64_t\<close> (sign extension) after the
  subtraction of 1. The standard gives no meaning to counts of 31 and above.\<close>

definition int_mask :: "int \<Rightarrow> u64" where
  "int_mask n = scast (shl (1 :: u32) (nat (n mod 32)) - 1)"

definition ADDR :: "u64 \<Rightarrow> int \<Rightarrow> addr_t option" where
  "ADDR p d = do {
     c_assert (0 \<le> d \<and> d \<le> ADDR_BITS);
     c_assert ((p AND int_mask (ADDR_BITS - d)) = 0);
     c_assert (p < shl 1 63);
     Some \<lparr>raw = shl p 1 OR shl 1 (nat (ADDR_BITS - d))\<rparr>
   }"

definition ADDR_INIT :: "u64 \<Rightarrow> int \<Rightarrow> addr_t" where
  "ADDR_INIT p d = \<lparr>raw = shl (shl p 1 OR 1) (nat (ADDR_BITS - d))\<rparr>"

definition ADDR_VOID :: addr_t where
  "ADDR_VOID = \<lparr>raw = 0\<rparr>"

definition ADDR_EQ :: "addr_t \<Rightarrow> addr_t \<Rightarrow> bool" where
  "ADDR_EQ a b \<longleftrightarrow> raw a = raw b"

definition ADDR_IS_VOID :: "addr_t \<Rightarrow> bool" where
  "ADDR_IS_VOID a \<longleftrightarrow> ADDR_EQ a ADDR_VOID"

definition addr_depth :: "addr_t \<Rightarrow> int" where
  "addr_depth addr = ADDR_BITS - (int (l4_lsb64 (raw addr)) - 1)"

definition addr_prefix :: "addr_t \<Rightarrow> u64" where
  "addr_prefix addr =
     shr (raw addr AND NOT (shl 1 (nat (ADDR_BITS - addr_depth addr)))) 1"

definition addr_extend :: "addr_t \<Rightarrow> u64 \<Rightarrow> int \<Rightarrow> addr_t option" where
  "addr_extend a p d = do {
     c_assert (d \<ge> 0);
     c_assert (addr_depth a + d \<le> ADDR_BITS);
     c_assert (p < shl 1 (nat d));
     ADDR (addr_prefix a OR shl p (nat (ADDR_BITS - addr_depth a - d))) (addr_depth a + d)
   }"

definition addr_chop :: "addr_t \<Rightarrow> int \<Rightarrow> addr_t option" where
  "addr_chop addr depth = (let d = addr_depth addr - depth in do {
     c_assert (d \<ge> 0);
     ADDR (addr_prefix addr AND NOT (shl 1 (nat (ADDR_BITS - d)) - 1)) d
   })"

definition addr_extract :: "addr_t \<Rightarrow> int \<Rightarrow> u64 option" where
  "addr_extract addr width = do {
     c_assert (width \<le> addr_depth addr);
     Some (shr (addr_prefix addr) (nat (ADDR_BITS - addr_depth addr))
           AND (shl 1 (nat width) - 1))
   }"

definition ADDR_TO_PTR :: "addr_t \<Rightarrow> u32 option" where
  "ADDR_TO_PTR addr = do {
     c_assert (addr_prefix addr < ucast (- 1 :: u32));
     c_assert (addr_depth addr = ADDR_BITS);
     Some (ucast (addr_prefix addr))
   }"

definition PTR_TO_ADDR :: "u32 \<Rightarrow> addr_t option" where
  "PTR_TO_ADDR ptr = ADDR (ucast ptr) ADDR_BITS"

definition addr_add :: "addr_t \<Rightarrow> u64 \<Rightarrow> addr_t option" where
  "addr_add addr count = (let w = ADDR_BITS - addr_depth addr
     in ADDR (addr_prefix addr + shl count (nat w)) (addr_depth addr))"

definition addr_sub :: "addr_t \<Rightarrow> u64 \<Rightarrow> addr_t option" where
  "addr_sub addr count = addr_add addr (- count)"

subsection \<open>Well-formed prefixes\<close>

text \<open>What \<open>ADDR\<close> means to require of its arguments: a depth of at most 63 and a prefix of at
  most 63 bits whose \<open>63 - d\<close> least significant bits are clear.\<close>

definition prefix_ok :: "u64 \<Rightarrow> nat \<Rightarrow> bool" where
  "prefix_ok p d \<longleftrightarrow> d \<le> 63 \<and> (\<forall>n. bit p n \<longrightarrow> n < 63 \<and> 63 - d \<le> n)"

lemma prefix_ok_depth: "prefix_ok p d \<Longrightarrow> d \<le> 63"
  by (simp add: prefix_ok_def)

lemma lt_2_63: "p < shl (1 :: u64) 63 \<longleftrightarrow> (\<forall>n. bit p n \<longrightarrow> n < 63)"
proof -
  have "p < shl (1 :: u64) 63 \<longleftrightarrow> unat p < 2 ^ 63"
    by (simp add: word_less_nat_alt unat_shl_1)
  then show ?thesis using word_lt_exp_iff_bits [of p 63] by blast
qed

lemma int_mask_eq: "int_mask n = mask (nat (n mod 32))"
proof (rule bit_word_eqI)
  fix k :: nat
  assume "k < LENGTH(64)"
  have m: "nat (n mod 32) < 32" by simp
  then show "bit (int_mask n) k \<longleftrightarrow> bit (mask (nat (n mod 32)) :: u64) k"
    using \<open>k < LENGTH(64)\<close>
    by (auto simp: int_mask_def bit_signed_iff c_bits)
qed

text \<open>The raw word of the address with prefix \<open>p\<close> and depth \<open>d\<close>.\<close>

definition addr_enc :: "u64 \<Rightarrow> nat \<Rightarrow> addr_t" where
  "addr_enc p d = \<lparr>raw = shl p 1 OR shl 1 (63 - d)\<rparr>"

lemma bit_addr_enc:
  "bit (raw (addr_enc p d)) n \<longleftrightarrow> n < 64 \<and> ((0 < n \<and> bit p (n - 1)) \<or> n = 63 - d)"
  by (auto simp: addr_enc_def c_bits)

lemma prefix_ok_mask: "prefix_ok p d \<Longrightarrow> p AND int_mask (63 - int d) = 0"
proof (rule word_and_0I)
  fix n
  assume ok: "prefix_ok p d" and n: "bit p n" "bit (int_mask (63 - int d)) n"
  have "(63 - int d) mod 32 \<le> 63 - int d"
    using prefix_ok_depth [OF ok] by (simp add: zmod_le_nonneg_dividend)
  moreover have "int n < (63 - int d) mod 32" using n(2) by (simp add: int_mask_eq c_bits zless_nat_eq_int_zless)
  ultimately have "int n < 63 - int d" by linarith
  moreover have "63 - d \<le> n" using ok n(1) by (simp add: prefix_ok_def)
  ultimately show False by linarith
qed

lemma ADDR_eq_Some:
  assumes "prefix_ok p d"
  shows "ADDR p (int d) = Some (addr_enc p d)"
proof -
  have "p < shl 1 63" using assms by (auto simp: lt_2_63 prefix_ok_def)
  moreover have "nat (63 - int d) = 63 - d" by simp
  ultimately show ?thesis
    using prefix_ok_depth [OF assms] prefix_ok_mask [OF assms]
    by (simp add: ADDR_def ADDR_BITS_def addr_enc_def)
qed

lemma addr_depth_enc:
  assumes "prefix_ok p d"
  shows "addr_depth (addr_enc p d) = int d"
proof -
  have "bit (raw (addr_enc p d)) (63 - d)" by (simp add: bit_addr_enc)
  moreover have "\<not> bit (raw (addr_enc p d)) j" if "j < 63 - d" for j
  proof
    assume "bit (raw (addr_enc p d)) j"
    with that have "bit p (j - 1)" by (auto simp: bit_addr_enc)
    with assms that show False by (auto simp: prefix_ok_def dest!: spec [of _ "j - 1"])
  qed
  ultimately have "l4_lsb64 (raw (addr_enc p d)) = Suc (63 - d)" by (rule l4_lsb64_SucI)
  then show ?thesis
    using prefix_ok_depth [OF assms] by (simp add: addr_depth_def ADDR_BITS_def)
qed

lemma addr_prefix_enc:
  assumes "prefix_ok p d"
  shows "addr_prefix (addr_enc p d) = p"
proof -
  have nat_d: "nat (ADDR_BITS - int d) = 63 - d" by (simp add: ADDR_BITS_def)
  show ?thesis
  proof (rule bit_word_eqI)
    fix n :: nat
    assume "n < LENGTH(64)"
    then show "bit (addr_prefix (addr_enc p d)) n \<longleftrightarrow> bit p n"
      using assms spec [of "\<lambda>n. bit p n \<longrightarrow> n < 63 \<and> 63 - d \<le> n" n]
      by (auto simp: addr_prefix_def addr_depth_enc nat_d c_bits bit_addr_enc prefix_ok_def)
  qed
qed

text \<open>Conversely every non-void address decodes to a well-formed prefix and depth, and encoding
  these gives the address back.\<close>

lemma addr_decode:
  assumes "raw a \<noteq> 0"
  obtains d where "addr_depth a = int d" "prefix_ok (addr_prefix a) d" "addr_enc (addr_prefix a) d = a"
proof -
  from assms obtain i where i: "bit (raw a) i" "\<forall>j<i. \<not> bit (raw a) j"
    using ex_least_bit by blast
  then have lsb: "l4_lsb64 (raw a) = Suc i" and i64: "i < 64"
    by (simp_all add: l4_lsb64_Suc bit64_less)
  then have d: "addr_depth a = int (63 - i)" by (simp add: addr_depth_def ADDR_BITS_def)
  have bit_prefix: "bit (addr_prefix a) n \<longleftrightarrow> bit (raw a) (Suc n) \<and> Suc n \<noteq> i" for n
    using i64 d by (auto simp: addr_prefix_def ADDR_BITS_def c_bits dest: bit64_less)
  have ok: "prefix_ok (addr_prefix a) (63 - i)"
    unfolding prefix_ok_def
  proof (intro conjI allI impI)
    fix n
    assume "bit (addr_prefix a) n"
    then have n: "bit (raw a) (Suc n)" "Suc n \<noteq> i" by (simp_all add: bit_prefix)
    show "n < 63" using bit64_less [OF n(1)] by simp
    have "\<not> Suc n < i" using n i(2) by blast
    with n(2) i64 show "63 - (63 - i) \<le> n" by simp
  qed simp
  have "raw (addr_enc (addr_prefix a) (63 - i)) = raw a"
  proof (rule bit_word_eqI)
    fix n :: nat
    assume "n < LENGTH(64)"
    with i i64 show "bit (raw (addr_enc (addr_prefix a) (63 - i))) n \<longleftrightarrow> bit (raw a) n"
      by (cases n) (auto simp: bit_addr_enc bit_prefix)
  qed
  then have "addr_enc (addr_prefix a) (63 - i) = a" by simp
  with d ok show ?thesis by (rule that)
qed

lemma not_void_raw: "\<not> ADDR_IS_VOID a \<longleftrightarrow> raw a \<noteq> 0"
  by (simp add: ADDR_IS_VOID_def ADDR_EQ_def ADDR_VOID_def)

lemma addr_enc_not_void: "\<not> ADDR_IS_VOID (addr_enc p d)"
proof -
  have "bit (raw (addr_enc p d)) (63 - d)" by (simp add: bit_addr_enc)
  then show ?thesis by (auto simp: not_void_raw)
qed

lemmas addr_enc_simps = ADDR_eq_Some addr_depth_enc addr_prefix_enc addr_enc_not_void

subsection \<open>Extension, truncation, extraction\<close>

lemma prefix_ok_extend:
  assumes "prefix_ok q k" and "k + d \<le> 63" and "\<forall>n. bit p n \<longrightarrow> n < d"
  shows "prefix_ok (q OR shl p (63 - k - d)) (k + d)"
  using assms by (fastforce simp: prefix_ok_def c_bits)

lemma extract_extend:
  assumes "prefix_ok q k" and "k + d \<le> 63" and "\<forall>n. bit p n \<longrightarrow> n < d"
  shows "shr (q OR shl p (63 - k - d)) (63 - (k + d)) AND (shl 1 d - 1) = p"
proof (rule bit_word_eqI)
  fix n :: nat
  have "bit q (63 - (k + d) + n) \<Longrightarrow> n < d \<Longrightarrow> False"
    using assms(1,2) by (fastforce simp: prefix_ok_def)
  moreover have "bit p n \<Longrightarrow> n < d \<and> n < 64"
    using assms(3) by (auto dest: bit64_less)
  ultimately show "bit (shr (q OR shl p (63 - k - d)) (63 - (k + d)) AND (shl 1 d - 1)) n \<longleftrightarrow> bit p n"
    using assms(2) by (auto simp: c_bits)
qed

lemma chop_extend:
  assumes "prefix_ok q k" and "k + d \<le> 63" and "\<forall>n. bit p n \<longrightarrow> n < d"
  shows "(q OR shl p (63 - k - d)) AND NOT (shl 1 (63 - k) - 1) = q"
proof (rule bit_word_eqI)
  fix n :: nat
  assume "n < LENGTH(64)"
  have "bit p (n - (63 - k - d)) \<Longrightarrow> 63 - k \<le> n \<Longrightarrow> False"
    using assms(2,3) by fastforce
  moreover have "bit q n \<Longrightarrow> 63 - k \<le> n"
    using assms(1) by (simp add: prefix_ok_def)
  ultimately show "bit ((q OR shl p (63 - k - d)) AND NOT (shl 1 (63 - k) - 1)) n \<longleftrightarrow> bit q n"
    using \<open>n < LENGTH(64)\<close> by (auto simp: c_bits)
qed

lemma prefix_ok_chop:
  assumes "d \<le> 63"
  shows "prefix_ok (addr_prefix a AND NOT (shl 1 (63 - d) - 1)) d"
  using assms by (auto simp: prefix_ok_def addr_prefix_def c_bits dest: bit64_less)

lemma addr_chop_eq:
  "addr_chop a k = (if 0 \<le> addr_depth a - k \<and> addr_depth a - k \<le> 63
     then Some (addr_enc (addr_prefix a AND NOT (shl 1 (63 - nat (addr_depth a - k)) - 1)) (nat (addr_depth a - k)))
     else None)"
proof (cases "0 \<le> addr_depth a - k \<and> addr_depth a - k \<le> 63")
  case True
  then obtain n where n: "addr_depth a - k = int n" by (metis nonneg_int_cases)
  with True have "n \<le> 63" by simp
  with ADDR_eq_Some [OF prefix_ok_chop [OF this]] show ?thesis
    by (simp add: addr_chop_def Let_def ADDR_BITS_def n nat_diff_distrib)
next
  case False
  then show ?thesis
    by (subst if_not_P) (auto simp: addr_chop_def ADDR_def ADDR_BITS_def Let_def c_assert_bind_if)
qed

subsection \<open>Stepping to a sibling\<close>

lemma low_bits_add:
  fixes p q :: u64
  assumes "\<forall>n. bit p n \<longrightarrow> w \<le> n" and "\<forall>n. bit q n \<longrightarrow> w \<le> n"
  shows "\<forall>n. bit (p + q) n \<longrightarrow> w \<le> n"
proof -
  have "p = shl (shr p w) w" and "q = shl (shr q w) w"
    using assms by (auto intro!: bit_word_eqI simp: c_bits)
  then have "p + q = shl (shr p w + shr q w) w"
    by (metis shl_def push_bit_add)
  then show ?thesis by (simp add: bit_shl)
qed

lemma ADDR_lt: "ADDR p d = Some a \<Longrightarrow> p < shl 1 63"
  by (auto simp: ADDR_def)

lemma addr_add_enc:
  assumes ok: "prefix_ok p d" and add: "addr_add (addr_enc p d) n = Some b"
  shows "prefix_ok (p + shl n (63 - d)) d \<and> b = addr_enc (p + shl n (63 - d)) d"
proof -
  let ?q = "p + shl n (63 - d)"
  have nat_d: "nat (63 - int d) = 63 - d" by simp
  with ok add have q: "ADDR ?q (int d) = Some b"
    by (simp add: addr_add_def addr_enc_simps ADDR_BITS_def Let_def)
  have "\<forall>k. bit ?q k \<longrightarrow> 63 - d \<le> k"
    using ok by (intro low_bits_add) (auto simp: prefix_ok_def c_bits)
  with ADDR_lt [OF q] prefix_ok_depth [OF ok] have "prefix_ok ?q d"
    by (auto simp: prefix_ok_def lt_2_63)
  with q show ?thesis by (simp add: ADDR_eq_Some)
qed

subsection \<open>Properties\<close>

text \<open>\<open>ADDR\<close>, \<open>addr_prefix\<close> and \<open>addr_depth\<close> are inverse to each other: every prefix that fits
  its depth encodes to a non-void address from which both are read back, and every non-void
  address is the encoding of its own prefix and depth.\<close>

theorem ADDR_roundtrip:
  "(prefix_ok p d \<longrightarrow>
      (\<exists>a. ADDR p (int d) = Some a \<and> addr_prefix a = p \<and> addr_depth a = int d \<and> \<not> ADDR_IS_VOID a))
   \<and> (\<not> ADDR_IS_VOID b \<longrightarrow> ADDR (addr_prefix b) (addr_depth b) = Some b)"
proof (intro conjI impI)
  assume "prefix_ok p d"
  then show "\<exists>a. ADDR p (int d) = Some a \<and> addr_prefix a = p \<and> addr_depth a = int d \<and> \<not> ADDR_IS_VOID a"
    by (simp add: addr_enc_simps)
next
  assume "\<not> ADDR_IS_VOID b"
  then obtain d where "addr_depth b = int d" "prefix_ok (addr_prefix b) d" "addr_enc (addr_prefix b) d = b"
    by (auto simp: not_void_raw elim: addr_decode)
  then show "ADDR (addr_prefix b) (addr_depth b) = Some b" by (simp add: ADDR_eq_Some)
qed

lemma prefix_ok_shl: "d \<le> 63 \<Longrightarrow> unat q < 2 ^ d \<Longrightarrow> prefix_ok (shl q (63 - d)) d"
  by (fastforce simp: prefix_ok_def c_bits word_lt_exp_iff_bits)

theorem ADDR_roundtrip_witness:
  "\<exists>a. ADDR (shl 0x804b 12) 51 = Some a \<and> addr_prefix a = shl 0x804b 12 \<and> addr_depth a = 51
     \<and> ADDR (addr_prefix a) (addr_depth a) = Some a"
proof -
  have "prefix_ok (shl 0x804b 12) 51" using prefix_ok_shl [of 51 "0x804b"] by simp
  then obtain a where a: "ADDR (shl 0x804b 12) (int 51) = Some a" "addr_prefix a = shl 0x804b 12"
      "addr_depth a = int 51" "\<not> ADDR_IS_VOID a"
    using ADDR_roundtrip [of "shl 0x804b 12" 51 ADDR_VOID] by blast
  moreover have "ADDR (addr_prefix a) (addr_depth a) = Some a"
    using ADDR_roundtrip [of 0 0 a] a(4) by blast
  ultimately show ?thesis by auto
qed

text \<open>\<open>addr_extend\<close> by \<open>d\<close> bits never fails on an address with room for them; the result is
  \<open>d\<close> bits deeper, its last \<open>d\<close> bits are the ones appended and chopping \<open>d\<close> bits restores the
  address.\<close>

theorem addr_extend_spec:
  assumes "\<not> ADDR_IS_VOID a" and "addr_depth a + int d \<le> 63" and "unat p < 2 ^ d"
  shows "\<exists>b. addr_extend a p (int d) = Some b \<and> addr_depth b = addr_depth a + int d
      \<and> addr_extract b (int d) = Some p \<and> addr_chop b (int d) = Some a"
proof -
  from assms(1) obtain k where k: "addr_depth a = int k" "prefix_ok (addr_prefix a) k"
      "addr_enc (addr_prefix a) k = a"
    by (auto simp: not_void_raw elim: addr_decode)
  let ?q = "addr_prefix a" and ?b = "addr_enc (addr_prefix a OR shl p (63 - k - d)) (k + d)"
  have kd: "k + d \<le> 63" using assms(2) k(1) by linarith
  have p: "\<forall>n. bit p n \<longrightarrow> n < d" using assms(3) by (simp add: word_lt_exp_iff_bits)
  note ok = prefix_ok_extend [OF k(2) kd p]
  have "p < shl 1 d" using p kd by (simp add: lt_shl_1)
  moreover have "nat (63 - int k - int d) = 63 - k - d" by simp
  ultimately have ext: "addr_extend a p (int d) = Some ?b"
    using k kd ADDR_eq_Some [OF ok] by (simp add: addr_extend_def ADDR_BITS_def)
  have "nat (63 - (int k + int d)) = 63 - (k + d)" by simp
  then have extr: "addr_extract ?b (int d) = Some p"
    using extract_extend [OF k(2) kd p] ok by (simp add: addr_extract_def addr_enc_simps ADDR_BITS_def)
  have "nat (63 - int k) = 63 - k" by simp
  then have "addr_chop ?b (int d) = Some a"
    using chop_extend [OF k(2) kd p] ok k by (simp add: addr_chop_def addr_enc_simps ADDR_BITS_def Let_def)
  with ext extr ok k show ?thesis by (auto simp: addr_depth_enc)
qed

theorem addr_extend_spec_witness:
  "\<exists>b. addr_extend \<lparr>raw = 0x8000000000000000\<rparr> 5 3 = Some b \<and> addr_depth b = 3
     \<and> addr_extract b 3 = Some 5 \<and> addr_chop b 3 = Some \<lparr>raw = 0x8000000000000000\<rparr>"
proof -
  have d: "addr_depth \<lparr>raw = 0x8000000000000000\<rparr> = 0" by code_simp
  have v: "\<not> ADDR_IS_VOID \<lparr>raw = 0x8000000000000000\<rparr>" by code_simp
  show ?thesis using addr_extend_spec [OF v, of 3 5] d by simp
qed

text \<open>\<open>addr_sub\<close> undoes \<open>addr_add\<close>: whenever stepping \<open>n\<close> siblings forward succeeds, the depth
  is unchanged and stepping \<open>n\<close> siblings back returns to the address, also when \<open>n\<close> wraps.\<close>

theorem addr_add_sub:
  assumes "\<not> ADDR_IS_VOID a" and "addr_add a n = Some b"
  shows "addr_depth b = addr_depth a \<and> addr_sub b n = Some a"
proof -
  from assms(1) obtain d where d: "addr_depth a = int d" "prefix_ok (addr_prefix a) d"
      "addr_enc (addr_prefix a) d = a"
    by (auto simp: not_void_raw elim: addr_decode)
  have b: "prefix_ok (addr_prefix a + shl n (63 - d)) d" "b = addr_enc (addr_prefix a + shl n (63 - d)) d"
    using addr_add_enc [OF d(2), of n b] assms(2) d(3) by simp_all
  have "shl n (63 - d) + shl (- n) (63 - d) = 0" by (simp add: shl_def push_bit_eq_mult)
  then have [simp]: "addr_prefix a + shl n (63 - d) + shl (- n) (63 - d) = addr_prefix a"
    by (simp add: add.assoc)
  moreover have "nat (63 - int d) = 63 - d" by simp
  ultimately have "addr_sub b n = ADDR (addr_prefix a) (int d)"
    using b d by (simp add: addr_sub_def addr_add_def addr_enc_simps ADDR_BITS_def Let_def)
  with b d show ?thesis by (simp add: addr_enc_simps)
qed

theorem addr_add_sub_witness:
  "\<exists>b. addr_add \<lparr>raw = 0x8001\<rparr> 3 = Some b \<and> addr_depth b = 63 \<and> addr_sub b 3 = Some \<lparr>raw = 0x8001\<rparr>"
proof -
  have v: "\<not> ADDR_IS_VOID \<lparr>raw = 0x8001\<rparr>" and d: "addr_depth \<lparr>raw = 0x8001\<rparr> = 63" by code_simp+
  have a: "addr_add \<lparr>raw = 0x8001\<rparr> 3 = Some \<lparr>raw = 0x8007\<rparr>" by code_simp
  show ?thesis using addr_add_sub [OF v a] a d by simp
qed

text \<open>The alignment assertion of \<open>ADDR\<close> shifts an \<open>int\<close>, so on ia32 it checks only
  \<open>(63 - d) mod 32\<close> bits: at every depth of at most 31 the macro accepts the misaligned prefix
  \<open>2 ^ (31 - d)\<close> and returns an address whose depth is \<open>d + 31\<close> instead of \<open>d\<close>.\<close>

theorem ADDR_accepts_misaligned:
  assumes "d \<le> 31"
  shows "\<not> prefix_ok (shl 1 (31 - d)) d
    \<and> (\<exists>a. ADDR (shl 1 (31 - d)) (int d) = Some a \<and> addr_depth a = int d + 31)"
proof -
  have "(63 - int d) mod 32 = 31 - int d"
  proof -
    have "(63 - int d) mod 32 = ((31 - int d) + 32) mod 32" by simp
    also have "\<dots> = (31 - int d) mod 32" by (rule mod_add_self2)
    also have "\<dots> = 31 - int d" using assms by (intro mod_pos_pos_trivial) simp_all
    finally show ?thesis .
  qed
  then have "shl 1 (31 - d) AND int_mask (63 - int d) = 0"
    using assms by (intro word_and_0I) (auto simp: int_mask_eq c_bits)
  moreover have "shl 1 (31 - d) < shl (1 :: u64) 63"
    using assms by (auto simp: lt_shl_1 bit_shl_1)
  moreover have "nat (63 - int d) = 63 - d" by simp
  ultimately have "ADDR (shl 1 (31 - d)) (int d) = Some (addr_enc (shl 1 (31 - d)) d)"
    using assms by (simp add: ADDR_def ADDR_BITS_def addr_enc_def)
  moreover have "l4_lsb64 (raw (addr_enc (shl 1 (31 - d)) d)) = Suc (32 - d)"
    using assms by (intro l4_lsb64_SucI) (auto simp: bit_addr_enc bit_shl_1)
  moreover have "\<not> prefix_ok (shl 1 (31 - d)) d"
    using assms by (auto simp: prefix_ok_def bit_shl_1 intro!: exI [of _ "31 - d"])
  ultimately show ?thesis using assms by (simp add: addr_depth_def ADDR_BITS_def)
qed

theorem ADDR_accepts_misaligned_witness:
  "\<exists>a. ADDR (shl 1 (31 - 20)) (int 20) = Some a \<and> addr_depth a = int 20 + 31"
  using ADDR_accepts_misaligned [of 20] by simp

end
