(* ===== verification/Addr_Trans.thy ===== *)
theory Addr_Trans
  imports Addr
begin

text \<open>
  Address translation descriptors, \<^verbatim>\<open>hurd/addr-trans.h\<close>: the guard and the subpage window that
  the page-table walker applies when it passes through a capability. The bit fields keep their
  declared widths; assigning to one truncates.
\<close>

definition CAP_ADDR_TRANS_GUARD_SUBPAGE_BITS :: int where
  "CAP_ADDR_TRANS_GUARD_SUBPAGE_BITS = 22"

record cap_addr_trans =
  guard_subpage :: "22 word"
  subpages_log2 :: "4 word"
  gdepth :: "6 word"

definition CAP_ADDR_TRANS_VOID :: cap_addr_trans where
  "CAP_ADDR_TRANS_VOID = \<lparr>guard_subpage = 0, subpages_log2 = 0, gdepth = 0\<rparr>"

definition CAP_ADDR_TRANS_SUBPAGES_LOG2 :: "cap_addr_trans \<Rightarrow> nat" where
  "CAP_ADDR_TRANS_SUBPAGES_LOG2 t = unat (subpages_log2 t)"

definition CAP_ADDR_TRANS_SUBPAGES :: "cap_addr_trans \<Rightarrow> int" where
  "CAP_ADDR_TRANS_SUBPAGES t = push_bit (CAP_ADDR_TRANS_SUBPAGES_LOG2 t) 1"

definition CAP_ADDR_TRANS_SUBPAGE :: "cap_addr_trans \<Rightarrow> int" where
  "CAP_ADDR_TRANS_SUBPAGE t = uint (guard_subpage t) AND (CAP_ADDR_TRANS_SUBPAGES t - 1)"

definition CAP_ADDR_TRANS_SUBPAGE_SIZE_LOG2 :: "cap_addr_trans \<Rightarrow> int" where
  "CAP_ADDR_TRANS_SUBPAGE_SIZE_LOG2 t = 8 - int (CAP_ADDR_TRANS_SUBPAGES_LOG2 t)"

text \<open>The shift counts below are only meaningful for at most 256 subpages; every descriptor that
  the setters accept satisfies this (\<open>at_ok\<close>).\<close>

definition CAP_ADDR_TRANS_SUBPAGE_SIZE :: "cap_addr_trans \<Rightarrow> int" where
  "CAP_ADDR_TRANS_SUBPAGE_SIZE t = push_bit (nat (CAP_ADDR_TRANS_SUBPAGE_SIZE_LOG2 t)) 1"

definition CAP_ADDR_TRANS_SUBPAGE_OFFSET :: "cap_addr_trans \<Rightarrow> int" where
  "CAP_ADDR_TRANS_SUBPAGE_OFFSET t = CAP_ADDR_TRANS_SUBPAGE t * CAP_ADDR_TRANS_SUBPAGE_SIZE t"

definition CAP_ADDR_TRANS_GUARD_BITS :: "cap_addr_trans \<Rightarrow> int" where
  "CAP_ADDR_TRANS_GUARD_BITS t = uint (gdepth t)"

definition CAP_ADDR_TRANS_GUARD :: "cap_addr_trans \<Rightarrow> u64" where
  "CAP_ADDR_TRANS_GUARD t = ucast (shr (guard_subpage t) (CAP_ADDR_TRANS_SUBPAGES_LOG2 t))"

text \<open>The setter evaluates all its checks (each failed one clears the result and prints a message)
  and writes the descriptor only if all of them passed. The result is the pair of the macro's value
  and the descriptor afterwards.\<close>

definition set_guard_subpage_ok :: "u64 \<Rightarrow> int \<Rightarrow> int \<Rightarrow> int \<Rightarrow> bool" where
  "set_guard_subpage_ok guard gdep subpage subpages =
     (let log2 = int (l4_msb (word_of_int subpages)) - 1;
          gbits = int (l4_msb64 guard)
      in subpages > 0 \<and> (subpages AND (subpages - 1)) = 0 \<and> log2 \<le> 8
         \<and> 0 \<le> subpage \<and> subpage < subpages
         \<and> gbits \<le> gdep \<and> gbits + log2 \<le> CAP_ADDR_TRANS_GUARD_SUBPAGE_BITS)"

definition CAP_ADDR_TRANS_SET_GUARD_SUBPAGE ::
  "cap_addr_trans \<Rightarrow> u64 \<Rightarrow> int \<Rightarrow> int \<Rightarrow> int \<Rightarrow> bool \<times> cap_addr_trans" where
  "CAP_ADDR_TRANS_SET_GUARD_SUBPAGE t guard gdep subpage subpages =
     (let log2 = int (l4_msb (word_of_int subpages)) - 1
      in if set_guard_subpage_ok guard gdep subpage subpages
         then (True, \<lparr>guard_subpage = ucast (shl guard (nat log2) OR word_of_int subpage),
                      subpages_log2 = word_of_int log2,
                      gdepth = word_of_int gdep\<rparr>)
         else (False, t))"

definition CAP_ADDR_TRANS_SET_GUARD :: "cap_addr_trans \<Rightarrow> u64 \<Rightarrow> int \<Rightarrow> bool \<times> cap_addr_trans" where
  "CAP_ADDR_TRANS_SET_GUARD t guard gdep =
     CAP_ADDR_TRANS_SET_GUARD_SUBPAGE t guard gdep (CAP_ADDR_TRANS_SUBPAGE t) (CAP_ADDR_TRANS_SUBPAGES t)"

definition CAP_ADDR_TRANS_SET_SUBPAGE :: "cap_addr_trans \<Rightarrow> int \<Rightarrow> int \<Rightarrow> bool \<times> cap_addr_trans" where
  "CAP_ADDR_TRANS_SET_SUBPAGE t subpage subpages =
     CAP_ADDR_TRANS_SET_GUARD_SUBPAGE t (CAP_ADDR_TRANS_GUARD t) (CAP_ADDR_TRANS_GUARD_BITS t)
       subpage subpages"

definition CAP_ADDR_TRANS_VALID :: "cap_addr_trans \<Rightarrow> bool" where
  "CAP_ADDR_TRANS_VALID t \<longleftrightarrow>
     CAP_ADDR_TRANS_GUARD_BITS t \<le> 32
     \<and> CAP_ADDR_TRANS_SUBPAGES_LOG2 t \<le> 8
     \<and> int (l4_msb (ucast (CAP_ADDR_TRANS_GUARD t))) \<le> CAP_ADDR_TRANS_GUARD_BITS t"

subsection \<open>Well-formed descriptors and their windows\<close>

definition at_ok :: "cap_addr_trans \<Rightarrow> bool" where
  "at_ok t \<longleftrightarrow> CAP_ADDR_TRANS_SUBPAGES_LOG2 t \<le> 8"

text \<open>The capability slots of the designated page that the descriptor makes reachable.\<close>

definition at_window :: "cap_addr_trans \<Rightarrow> int set" where
  "at_window t = {CAP_ADDR_TRANS_SUBPAGE_OFFSET t ..<
                  CAP_ADDR_TRANS_SUBPAGE_OFFSET t + CAP_ADDR_TRANS_SUBPAGE_SIZE t}"

lemma SUBPAGES_power: "CAP_ADDR_TRANS_SUBPAGES t = 2 ^ CAP_ADDR_TRANS_SUBPAGES_LOG2 t"
  by (simp add: CAP_ADDR_TRANS_SUBPAGES_def)

lemma SUBPAGE_mod: "CAP_ADDR_TRANS_SUBPAGE t = uint (guard_subpage t) mod CAP_ADDR_TRANS_SUBPAGES t"
  unfolding CAP_ADDR_TRANS_SUBPAGE_def SUBPAGES_power
  by (simp add: mask_eq_exp_minus_1 [symmetric] take_bit_eq_mask [symmetric] take_bit_eq_mod)

lemma SUBPAGE_range: "0 \<le> CAP_ADDR_TRANS_SUBPAGE t \<and> CAP_ADDR_TRANS_SUBPAGE t < CAP_ADDR_TRANS_SUBPAGES t"
  by (simp add: SUBPAGE_mod SUBPAGES_power)

lemma SUBPAGE_SIZE_div: "at_ok t \<Longrightarrow> CAP_ADDR_TRANS_SUBPAGE_SIZE t = 256 div CAP_ADDR_TRANS_SUBPAGES t"
proof -
  assume ok: "at_ok t"
  define k where "k = CAP_ADDR_TRANS_SUBPAGES_LOG2 t"
  have k: "k \<le> 8" using ok by (simp add: at_ok_def k_def)
  then have "nat (8 - int k) = 8 - k" by simp
  then have "CAP_ADDR_TRANS_SUBPAGE_SIZE t = 2 ^ (8 - k)"
    by (simp add: CAP_ADDR_TRANS_SUBPAGE_SIZE_def CAP_ADDR_TRANS_SUBPAGE_SIZE_LOG2_def k_def)
  also have "\<dots> = (2 :: int) ^ 8 div 2 ^ k" by (rule power_diff) (use k in simp_all)
  finally show ?thesis by (simp add: SUBPAGES_power k_def)
qed

lemma SUBPAGES_times_SIZE: "at_ok t \<Longrightarrow> CAP_ADDR_TRANS_SUBPAGES t * CAP_ADDR_TRANS_SUBPAGE_SIZE t = 256"
proof -
  assume ok: "at_ok t"
  then have "2 ^ CAP_ADDR_TRANS_SUBPAGES_LOG2 t dvd (2 :: int) ^ 8"
    by (intro le_imp_power_dvd) (simp add: at_ok_def)
  with ok show ?thesis by (simp add: SUBPAGE_SIZE_div SUBPAGES_power)
qed

lemma SUBPAGE_SIZE_pos: "0 < CAP_ADDR_TRANS_SUBPAGE_SIZE t"
  by (simp add: CAP_ADDR_TRANS_SUBPAGE_SIZE_def)

lemma at_window_bounds: "at_ok t \<Longrightarrow> at_window t \<subseteq> {0..<256}"
proof -
  assume ok: "at_ok t"
  have "0 \<le> CAP_ADDR_TRANS_SUBPAGE_OFFSET t"
    using SUBPAGE_range [of t] SUBPAGE_SIZE_pos [of t] by (simp add: CAP_ADDR_TRANS_SUBPAGE_OFFSET_def)
  moreover have "(CAP_ADDR_TRANS_SUBPAGE t + 1) * CAP_ADDR_TRANS_SUBPAGE_SIZE t
      \<le> CAP_ADDR_TRANS_SUBPAGES t * CAP_ADDR_TRANS_SUBPAGE_SIZE t"
    using SUBPAGE_range [of t] SUBPAGE_SIZE_pos [of t] by (intro mult_right_mono) auto
  ultimately show ?thesis
    using SUBPAGES_times_SIZE [OF ok]
    by (auto simp: at_window_def CAP_ADDR_TRANS_SUBPAGE_OFFSET_def algebra_simps)
qed

lemma bit_int_range: "2 ^ k \<le> x \<Longrightarrow> x < 2 ^ Suc k \<Longrightarrow> bit (x :: int) k"
proof -
  assume x: "2 ^ k \<le> x" "x < 2 ^ Suc k"
  then have "x div 2 ^ k = 1"
    by (intro int_div_pos_eq [of _ _ _ "x - 2 ^ k"]) auto
  then show ?thesis by (simp add: bit_iff_odd)
qed

lemma power_of_two_msb:
  assumes "0 < n" and "n < 2 ^ 31" and "n AND (n - 1) = (0 :: int)"
  shows "n = 2 ^ (l4_msb (word_of_int n) - 1)"
proof -
  define w where "w = (word_of_int n :: u32)"
  have w: "uint w = n" using assms by (simp add: w_def uint_word_of_int)
  with assms(1) have "w \<noteq> 0" by auto
  then obtain k where k: "l4_msb w = Suc k"
    using l4_msb_eq_0 [of w] by (cases "l4_msb w") auto
  then have "bit w k" and hi: "\<forall>j>k. \<not> bit w j" by (simp_all add: l4_msb_Suc)
  have "\<forall>j. bit w j \<longrightarrow> j < Suc k" using hi by (metis not_less_eq)
  then have "unat w < 2 ^ Suc k" by (simp only: word_lt_exp_iff_bits)
  then have lt: "n < 2 ^ Suc k"
    using w by (metis uint_nat of_nat_less_iff of_nat_power of_nat_numeral)
  have ge: "2 ^ k \<le> n"
    using \<open>bit w k\<close> bit_word_lt_exp [of w k k] w
    by (metis uint_nat of_nat_less_iff of_nat_power of_nat_numeral linorder_not_le nat_neq_iff)
  have "n = 2 ^ k"
  proof (rule ccontr)
    assume "n \<noteq> 2 ^ k"
    with ge have "2 ^ k \<le> n - 1" by simp
    with lt ge have "bit n k" "bit (n - 1) k" by (auto intro!: bit_int_range)
    then have "bit (n AND (n - 1)) k" by (simp add: bit_and_iff)
    with assms(3) show False by simp
  qed
  with k show ?thesis by (simp add: w_def)
qed

lemma set_ok_shape:
  assumes ok: "set_guard_subpage_ok guard gdep subpage subpages" and "subpages < 2 ^ 31"
  obtains k where "l4_msb (word_of_int subpages) = Suc k" "k \<le> 8" "subpages = 2 ^ k"
    "0 \<le> subpage" "subpage < 2 ^ k" "unat guard < 2 ^ (22 - k)" "unat guard < 2 ^ nat gdep" "0 \<le> gdep"
proof -
  let ?m = "l4_msb (word_of_int subpages)"
  have p: "0 < subpages" "subpages AND (subpages - 1) = 0" "0 \<le> subpage" "subpage < subpages"
    using ok by (auto simp: set_guard_subpage_ok_def Let_def)
  then have eq: "subpages = 2 ^ (?m - 1)" using assms(2) by (intro power_of_two_msb) simp_all
  have "?m \<noteq> 0"
  proof
    assume "?m = 0"
    then have "word_of_int subpages = (0 :: u32)" by simp
    then have "uint (word_of_int subpages :: u32) = 0" by simp
    then show False using p(1) assms(2) by (simp add: uint_word_of_int)
  qed
  then obtain k where k: "?m = Suc k" by (cases ?m) auto
  with ok have c: "k \<le> 8" "int (l4_msb64 guard) \<le> gdep" "int (l4_msb64 guard) + int k \<le> 22"
    by (auto simp: set_guard_subpage_ok_def Let_def CAP_ADDR_TRANS_GUARD_SUBPAGE_BITS_def)
  have g: "unat guard < 2 ^ (22 - k)"
    using c l4_msb64_le_iff [of guard "22 - k"] by linarith
  have "l4_msb64 guard \<le> nat gdep" using c by simp
  then have "unat guard < 2 ^ nat gdep" by (simp add: l4_msb64_le_iff)
  with k c g eq p show ?thesis by (intro that [of k]) auto
qed

text \<open>What the setter stores, field by field.\<close>

lemma uint_guard_bound:
  assumes "k \<le> 8" and "unat (guard :: u64) < 2 ^ (22 - k)" and "subpage < 2 ^ k"
  shows "uint guard * 2 ^ k + subpage < 2 ^ 22"
proof -
  have "int (unat guard) < int (2 ^ (22 - k))" using assms(2) by (simp only: of_nat_less_iff)
  then have "uint guard + 1 \<le> 2 ^ (22 - k)" by simp
  then have "(uint guard + 1) * 2 ^ k \<le> 2 ^ (22 - k) * 2 ^ k" by (intro mult_right_mono) auto
  also have "\<dots> = 2 ^ 22" using assms(1) by (simp flip: power_add)
  finally show ?thesis using assms(3) by (simp add: algebra_simps)
qed

lemma guard_subpage_uint:
  fixes guard :: u64
  assumes k: "k \<le> 8" and g: "unat guard < 2 ^ (22 - k)" and s0: "0 \<le> subpage" and s1: "subpage < 2 ^ k"
  shows "uint (ucast (shl guard k OR word_of_int subpage) :: 22 word) = uint guard * 2 ^ k + subpage"
proof -
  note bound = uint_guard_bound [OF k g s1]
  have "0 \<le> uint guard * 2 ^ k" by simp
  then have sp22: "subpage < 2 ^ 22" and gk: "uint guard * 2 ^ k < 2 ^ 22" using bound s0 by linarith+
  then have sp: "uint (word_of_int subpage :: u64) = subpage"
    using s0 by (simp add: uint_word_of_int)
  have shl: "uint (shl guard k) = uint guard * 2 ^ k"
  proof -
    have "int (unat guard * 2 ^ k) < int (2 ^ LENGTH(64))" using gk by simp
    then have "unat guard * 2 ^ k < 2 ^ LENGTH(64)" by (simp only: of_nat_less_iff)
    then have "int (unat (shl guard k)) = int (unat guard * 2 ^ k)" by (simp only: unat_shl)
    then show ?thesis by simp
  qed
  have disj: "shl guard k AND word_of_int subpage = 0"
  proof (rule word_and_0I)
    fix n
    assume "bit (shl guard k) n" and b: "bit (word_of_int subpage :: u64) n"
    then have "k \<le> n" by (simp add: bit_shl)
    moreover have "unat (word_of_int subpage :: u64) < 2 ^ k"
      using sp s1 by (metis uint_nat of_nat_less_iff of_nat_power of_nat_numeral)
    then have "n < k" using b by (rule bit_word_lt_exp)
    ultimately show False by simp
  qed
  have "uint (shl guard k OR word_of_int subpage) = uint guard * 2 ^ k + subpage"
    using bound s0 gk unfolding disjunctive_add_eq_or [OF disj, symmetric]
    by (simp add: uint_word_ariths shl sp)
  then show ?thesis using bound s0 by (simp add: unsigned_ucast_eq take_bit_int_eq_self)
qed

lemma uint_shr: "uint (shr w k :: 'a::len word) = uint w div 2 ^ k"
proof -
  have "int (unat (shr w k)) = int (unat w div 2 ^ k)" by (simp only: unat_shr)
  then show ?thesis by (simp add: zdiv_int)
qed

lemma set_guard_subpage_result:
  assumes set: "CAP_ADDR_TRANS_SET_GUARD_SUBPAGE t guard gdep subpage subpages = (True, t')"
    and "subpages < 2 ^ 31"
  shows "at_ok t'" "CAP_ADDR_TRANS_GUARD t' = guard" "CAP_ADDR_TRANS_SUBPAGE t' = subpage"
    "CAP_ADDR_TRANS_SUBPAGES t' = subpages" "CAP_ADDR_TRANS_GUARD_BITS t' = gdep mod 64"
proof -
  have ok: "set_guard_subpage_ok guard gdep subpage subpages"
    using set by (auto simp: CAP_ADDR_TRANS_SET_GUARD_SUBPAGE_def Let_def split: if_splits)
  obtain k where k: "l4_msb (word_of_int subpages) = Suc k" "k \<le> 8" "subpages = 2 ^ k"
      "0 \<le> subpage" "subpage < 2 ^ k" "unat guard < 2 ^ (22 - k)"
    using set_ok_shape [OF ok assms(2)] by metis
  have t': "t' = \<lparr>guard_subpage = ucast (shl guard k OR word_of_int subpage),
                   subpages_log2 = word_of_int (int k), gdepth = word_of_int gdep\<rparr>"
    using set ok k(1) by (simp add: CAP_ADDR_TRANS_SET_GUARD_SUBPAGE_def Let_def)
  have "unat (word_of_nat k :: 4 word) = k" using k(2) by (simp add: unat_of_nat)
  then have log2: "CAP_ADDR_TRANS_SUBPAGES_LOG2 t' = k"
    by (simp add: CAP_ADDR_TRANS_SUBPAGES_LOG2_def t')
  then show "at_ok t'" and sp: "CAP_ADDR_TRANS_SUBPAGES t' = subpages"
    using k by (simp_all add: at_ok_def SUBPAGES_power)
  have gs: "uint (guard_subpage t') = uint guard * 2 ^ k + subpage"
    using guard_subpage_uint [of k guard subpage] k by (simp add: t')
  then show "CAP_ADDR_TRANS_SUBPAGE t' = subpage"
    using sp k by (simp add: SUBPAGE_mod)
  have "uint (shr (guard_subpage t') k) = uint guard"
    using gs k by (simp add: uint_shr)
  then have "uint (CAP_ADDR_TRANS_GUARD t') = uint guard"
    using uint_lt2p [of guard]
    by (simp add: CAP_ADDR_TRANS_GUARD_def log2 unsigned_ucast_eq take_bit_int_eq_self)
  then show "CAP_ADDR_TRANS_GUARD t' = guard" by (simp add: word_uint_eq_iff)
  show "CAP_ADDR_TRANS_GUARD_BITS t' = gdep mod 64"
    by (simp add: CAP_ADDR_TRANS_GUARD_BITS_def t' uint_word_of_int)
qed

subsection \<open>Properties\<close>

text \<open>C39: when \<open>CAP_ADDR_TRANS_SET_GUARD_SUBPAGE\<close> succeeds on a guard depth of at most 63, the
  descriptor reads back exactly the guard, guard depth, subpage and number of subpages that were
  given and the slots it exposes lie inside the 256-slot page; when it fails, the descriptor is
  left unchanged.\<close>

theorem set_guard_subpage_roundtrip:
  assumes "CAP_ADDR_TRANS_SET_GUARD_SUBPAGE t guard gdep subpage subpages = (r, t')"
    and "subpages < 2 ^ 31" and "gdep < 64"
  shows "if r then CAP_ADDR_TRANS_GUARD t' = guard \<and> CAP_ADDR_TRANS_GUARD_BITS t' = gdep
                 \<and> CAP_ADDR_TRANS_SUBPAGE t' = subpage \<and> CAP_ADDR_TRANS_SUBPAGES t' = subpages
                 \<and> at_ok t' \<and> at_window t' \<subseteq> {0..<256}
         else t' = t"
proof (cases r)
  case True
  with assms have set: "CAP_ADDR_TRANS_SET_GUARD_SUBPAGE t guard gdep subpage subpages = (True, t')" by simp
  then have "0 \<le> gdep"
    by (auto simp: CAP_ADDR_TRANS_SET_GUARD_SUBPAGE_def set_guard_subpage_ok_def Let_def split: if_splits)
  with True assms(3) show ?thesis
    using set_guard_subpage_result [OF set assms(2)] at_window_bounds [of t'] by simp
next
  case False
  with assms(1) show ?thesis
    by (auto simp: CAP_ADDR_TRANS_SET_GUARD_SUBPAGE_def Let_def split: if_splits)
qed

theorem set_guard_subpage_roundtrip_witness:
  "\<exists>t'. CAP_ADDR_TRANS_SET_GUARD_SUBPAGE CAP_ADDR_TRANS_VOID 5 11 3 4 = (True, t')
     \<and> CAP_ADDR_TRANS_GUARD t' = 5 \<and> CAP_ADDR_TRANS_GUARD_BITS t' = 11
     \<and> CAP_ADDR_TRANS_SUBPAGE t' = 3 \<and> CAP_ADDR_TRANS_SUBPAGES t' = 4 \<and> at_window t' \<subseteq> {0..<256}"
proof -
  have r: "fst (CAP_ADDR_TRANS_SET_GUARD_SUBPAGE CAP_ADDR_TRANS_VOID 5 11 3 4)" by code_simp
  then obtain t' where t': "CAP_ADDR_TRANS_SET_GUARD_SUBPAGE CAP_ADDR_TRANS_VOID 5 11 3 4 = (True, t')"
    by (cases "CAP_ADDR_TRANS_SET_GUARD_SUBPAGE CAP_ADDR_TRANS_VOID 5 11 3 4") auto
  show ?thesis using set_guard_subpage_roundtrip [OF t'] t' by simp
qed

text \<open>The setter has no check that the guard depth fits its 6-bit field: whenever it accepts a
  depth \<open>gdep\<close> it stores \<open>gdep mod 64\<close>, so a depth of 64 or more is accepted and silently shortened.\<close>

theorem set_guard_subpage_truncates_depth:
  assumes "set_guard_subpage_ok guard gdep subpage subpages" and "subpages < 2 ^ 31"
  shows "\<exists>t'. CAP_ADDR_TRANS_SET_GUARD_SUBPAGE t guard (gdep + 64) subpage subpages = (True, t')
      \<and> CAP_ADDR_TRANS_GUARD_BITS t' = gdep mod 64"
proof -
  have ok: "set_guard_subpage_ok guard (gdep + 64) subpage subpages"
    using assms(1) by (auto simp: set_guard_subpage_ok_def Let_def)
  then obtain t' where t': "CAP_ADDR_TRANS_SET_GUARD_SUBPAGE t guard (gdep + 64) subpage subpages = (True, t')"
    by (simp add: CAP_ADDR_TRANS_SET_GUARD_SUBPAGE_def Let_def)
  then show ?thesis using set_guard_subpage_result(5) [OF t' assms(2)] by simp
qed

theorem set_guard_subpage_truncates_depth_witness:
  "\<exists>t'. CAP_ADDR_TRANS_SET_GUARD_SUBPAGE CAP_ADDR_TRANS_VOID 0 (0 + 64) 0 1 = (True, t')
     \<and> CAP_ADDR_TRANS_GUARD_BITS t' = 0 mod 64"
proof -
  have "set_guard_subpage_ok 0 0 0 1" by code_simp
  then show ?thesis using set_guard_subpage_truncates_depth [of 0 0 0 1 CAP_ADDR_TRANS_VOID] by simp
qed

end
