(* ===== verification/Cap.thy ===== *)
theory Cap
  imports Addr_Trans
begin

text \<open>
  Capabilities, \<^verbatim>\<open>hurd/cap.h\<close>. The fields that the kernel and the user-space representation of
  \<open>struct cap\<close> share form the record \<open>cap\<close>; the kernel (\<open>RM_INTERN\<close>) extends it with the object
  identifier and version (\<open>kcap\<close>), user space with the shadow pointer (\<open>ucap\<close>). The type predicates,
  the policy and property accessors, the guard and subpage setters and the copy operation
  \<open>cap_copy_x\<close> in its kernel form are translated here.
\<close>

subsection \<open>Object types\<close>

datatype cap_type = cap_void | cap_page | cap_rpage | cap_cappage | cap_rcappage | cap_folio
  | cap_activity | cap_activity_control | cap_thread

definition cap_type_string :: "cap_type \<Rightarrow> string" where
  "cap_type_string type = (case type of
     cap_void \<Rightarrow> ''void'' | cap_page \<Rightarrow> ''page'' | cap_rpage \<Rightarrow> ''rpage''
   | cap_cappage \<Rightarrow> ''cappage'' | cap_rcappage \<Rightarrow> ''rcappage'' | cap_folio \<Rightarrow> ''folio''
   | cap_activity \<Rightarrow> ''activity'' | cap_activity_control \<Rightarrow> ''activity_control''
   | cap_thread \<Rightarrow> ''thread'')"

definition cap_types_compatible :: "cap_type \<Rightarrow> cap_type \<Rightarrow> bool" where
  "cap_types_compatible a b \<longleftrightarrow>
     (if a = b then True
      else if a = cap_page \<and> b = cap_rpage then True
      else if a = cap_rpage \<and> b = cap_page then True
      else if a = cap_cappage \<and> b = cap_rcappage then True
      else if a = cap_rcappage \<and> b = cap_cappage then True
      else if a = cap_activity \<and> b = cap_activity_control then True
      else if a = cap_activity_control \<and> b = cap_activity then True
      else False)"

definition cap_type_weak_p :: "cap_type \<Rightarrow> bool" where
  "cap_type_weak_p type = (case type of
     cap_rpage \<Rightarrow> True | cap_rcappage \<Rightarrow> True | cap_activity \<Rightarrow> True | _ \<Rightarrow> False)"

definition cap_type_weaken :: "cap_type \<Rightarrow> cap_type" where
  "cap_type_weaken type = (case type of
     cap_page \<Rightarrow> cap_rpage | cap_rpage \<Rightarrow> cap_rpage
   | cap_cappage \<Rightarrow> cap_rcappage | cap_rcappage \<Rightarrow> cap_rcappage
   | cap_activity_control \<Rightarrow> cap_activity | cap_activity \<Rightarrow> cap_activity
   | _ \<Rightarrow> cap_void)"

definition cap_type_strengthen :: "cap_type \<Rightarrow> cap_type" where
  "cap_type_strengthen type = (case type of
     cap_page \<Rightarrow> cap_page | cap_rpage \<Rightarrow> cap_page
   | cap_cappage \<Rightarrow> cap_cappage | cap_rcappage \<Rightarrow> cap_cappage
   | cap_activity_control \<Rightarrow> cap_activity_control | cap_activity \<Rightarrow> cap_activity_control
   | _ \<Rightarrow> type)"

subsection \<open>Policies and properties\<close>

text \<open>Priorities are 10-bit fields, signed in \<open>struct object_policy\<close> and unsigned in \<open>struct cap\<close>;
  as words both hold the same bits, and \<open>sint\<close> reads the signed value.\<close>

record object_policy =
  pol_discardable :: bool
  pol_priority :: "10 word"

definition OBJECT_PRIORITY_MIN :: int where
  "OBJECT_PRIORITY_MIN = - (push_bit (10 - 1) 1)"

definition OBJECT_PRIORITY_MAX :: int where
  "OBJECT_PRIORITY_MAX = push_bit (10 - 1) 1 - 1"

definition OBJECT_PRIORITY_LRU :: "10 word" where
  "OBJECT_PRIORITY_LRU = 0"

definition OBJECT_POLICY :: "bool \<Rightarrow> 10 word \<Rightarrow> object_policy" where
  "OBJECT_POLICY d p = \<lparr>pol_discardable = d, pol_priority = p\<rparr>"

definition OBJECT_POLICY_VOID :: object_policy where
  "OBJECT_POLICY_VOID = OBJECT_POLICY False OBJECT_PRIORITY_LRU"

record cap_properties =
  policy :: object_policy
  prop_addr_trans :: cap_addr_trans

definition CAP_PROPERTIES_VOID :: cap_properties where
  "CAP_PROPERTIES_VOID = \<lparr>policy = OBJECT_POLICY_VOID, prop_addr_trans = CAP_ADDR_TRANS_VOID\<rparr>"

subsection \<open>Capabilities\<close>

type_synonym oid_t = u64
type_synonym version_t = "20 word"

record cap =
  ctype :: cap_type
  discardable :: bool
  priority :: "10 word"
  addr_trans :: cap_addr_trans

record kcap = cap +
  oid :: "58 word"
  version :: version_t
  weak_p :: bool

definition CAP_POLICY_GET :: "'a cap_scheme \<Rightarrow> object_policy" where
  "CAP_POLICY_GET c = OBJECT_POLICY (discardable c) (priority c)"

definition CAP_POLICY_SET :: "'a cap_scheme \<Rightarrow> object_policy \<Rightarrow> 'a cap_scheme" where
  "CAP_POLICY_SET c p = c\<lparr>discardable := pol_discardable p, priority := pol_priority p\<rparr>"

definition CAP_PROPERTIES_GET :: "'a cap_scheme \<Rightarrow> cap_properties" where
  "CAP_PROPERTIES_GET c = \<lparr>policy = CAP_POLICY_GET c, prop_addr_trans = addr_trans c\<rparr>"

definition CAP_PROPERTIES_SET :: "'a cap_scheme \<Rightarrow> cap_properties \<Rightarrow> 'a cap_scheme" where
  "CAP_PROPERTIES_SET c p = (CAP_POLICY_SET c (policy p))\<lparr>addr_trans := prop_addr_trans p\<rparr>"

abbreviation CAP_SUBPAGES :: "'a cap_scheme \<Rightarrow> int" where
  "CAP_SUBPAGES c \<equiv> CAP_ADDR_TRANS_SUBPAGES (addr_trans c)"

abbreviation CAP_SUBPAGE :: "'a cap_scheme \<Rightarrow> int" where
  "CAP_SUBPAGE c \<equiv> CAP_ADDR_TRANS_SUBPAGE (addr_trans c)"

abbreviation CAP_SUBPAGE_SIZE_LOG2 :: "'a cap_scheme \<Rightarrow> int" where
  "CAP_SUBPAGE_SIZE_LOG2 c \<equiv> CAP_ADDR_TRANS_SUBPAGE_SIZE_LOG2 (addr_trans c)"

abbreviation CAP_SUBPAGE_SIZE :: "'a cap_scheme \<Rightarrow> int" where
  "CAP_SUBPAGE_SIZE c \<equiv> CAP_ADDR_TRANS_SUBPAGE_SIZE (addr_trans c)"

abbreviation CAP_SUBPAGE_OFFSET :: "'a cap_scheme \<Rightarrow> int" where
  "CAP_SUBPAGE_OFFSET c \<equiv> CAP_ADDR_TRANS_SUBPAGE_OFFSET (addr_trans c)"

abbreviation CAP_GUARD_BITS :: "'a cap_scheme \<Rightarrow> int" where
  "CAP_GUARD_BITS c \<equiv> CAP_ADDR_TRANS_GUARD_BITS (addr_trans c)"

abbreviation CAP_GUARD :: "'a cap_scheme \<Rightarrow> u64" where
  "CAP_GUARD c \<equiv> CAP_ADDR_TRANS_GUARD (addr_trans c)"

definition CAP_SET_GUARD_SUBPAGE ::
  "'a cap_scheme \<Rightarrow> u64 \<Rightarrow> int \<Rightarrow> int \<Rightarrow> int \<Rightarrow> bool \<times> 'a cap_scheme" where
  "CAP_SET_GUARD_SUBPAGE c guard gdep subpage subpages =
     (if subpages \<noteq> 1 \<and> \<not> (ctype c = cap_cappage \<or> ctype c = cap_rcappage) then (False, c)
      else let (r, t) = CAP_ADDR_TRANS_SET_GUARD_SUBPAGE (addr_trans c) guard gdep subpage subpages
           in (r, c\<lparr>addr_trans := t\<rparr>))"

definition CAP_SET_GUARD :: "'a cap_scheme \<Rightarrow> u64 \<Rightarrow> int \<Rightarrow> bool \<times> 'a cap_scheme" where
  "CAP_SET_GUARD c guard gdep =
     CAP_SET_GUARD_SUBPAGE c guard gdep (CAP_SUBPAGE c) (CAP_SUBPAGES c)"

definition CAP_SET_SUBPAGE :: "'a cap_scheme \<Rightarrow> int \<Rightarrow> int \<Rightarrow> bool \<times> 'a cap_scheme" where
  "CAP_SET_SUBPAGE c subpage subpages =
     CAP_SET_GUARD_SUBPAGE c (CAP_GUARD c) (CAP_GUARD_BITS c) subpage subpages"

definition CAPPAGE_SLOTS :: nat where
  "CAPPAGE_SLOTS = 256"

subsection \<open>Copying\<close>

text \<open>The flag bits of \<open>cap_copy\<close>.\<close>

record copy_flags =
  COPY_ADDR_TRANS_SUBPAGE :: bool
  COPY_ADDR_TRANS_GUARD :: bool
  COPY_SOURCE_GUARD :: bool
  WEAKEN :: bool
  DISCARDABLE_SET :: bool
  PRIORITY_SET :: bool

text \<open>The subpage descriptor the copy receives; \<open>None\<close> where the function returns false.\<close>

definition copy_subpage :: "kcap \<Rightarrow> copy_flags \<Rightarrow> cap_addr_trans \<Rightarrow> (int \<times> int) option" where
  "copy_subpage source flags t =
     (let subpage = CAP_SUBPAGE source; subpages = CAP_SUBPAGES source in
      if COPY_ADDR_TRANS_SUBPAGE flags then
        (if CAP_ADDR_TRANS_SUBPAGES t \<noteq> 1
            \<and> (ctype source \<noteq> cap_cappage \<and> ctype source \<noteq> cap_rcappage) then None
         else if \<not> (subpage * (256 div subpages)
                      \<le> CAP_ADDR_TRANS_SUBPAGE t * (256 div CAP_ADDR_TRANS_SUBPAGES t)
                    \<and> (CAP_ADDR_TRANS_SUBPAGE t + 1) * (256 div CAP_ADDR_TRANS_SUBPAGES t)
                      \<le> (subpage + 1) * (256 div subpages)) then None
         else Some (CAP_ADDR_TRANS_SUBPAGE t, CAP_ADDR_TRANS_SUBPAGES t))
      else Some (subpage, subpages))"

definition copy_guard :: "kcap \<Rightarrow> kcap \<Rightarrow> copy_flags \<Rightarrow> cap_addr_trans \<Rightarrow> u64 \<times> int" where
  "copy_guard target source flags t =
     (if COPY_ADDR_TRANS_GUARD flags then (CAP_ADDR_TRANS_GUARD t, CAP_ADDR_TRANS_GUARD_BITS t)
      else if COPY_SOURCE_GUARD flags then (CAP_GUARD source, CAP_GUARD_BITS source)
      else (CAP_GUARD target, CAP_GUARD_BITS target))"

text \<open>Whether the kernel considers that the copy changes how addresses translate.\<close>

definition changes_translation ::
  "kcap \<Rightarrow> kcap \<Rightarrow> copy_flags \<Rightarrow> int \<times> int \<Rightarrow> u64 \<times> int \<Rightarrow> bool" where
  "changes_translation target source flags sp g =
     (oid target \<noteq> oid source
      \<or> version target \<noteq> version source
      \<or> fst sp \<noteq> CAP_SUBPAGE target \<or> snd sp \<noteq> CAP_SUBPAGES target
      \<or> fst g \<noteq> CAP_GUARD target \<or> snd g \<noteq> CAP_GUARD_BITS target
      \<or> (ctype target \<noteq> ctype source
         \<and> \<not> (WEAKEN flags \<and> cap_type_weaken (ctype source) = ctype target)))"

text \<open>The kernel's \<open>cap_copy_x\<close>. The result is the function's boolean, the target slot and the
  kernel state afterwards; \<open>cap_shootdown\<close> is the function declared \<open>extern\<close> in the header.\<close>

definition cap_copy_x ::
  "('s \<Rightarrow> kcap \<Rightarrow> 's option) \<Rightarrow> 's \<Rightarrow> kcap \<Rightarrow> kcap \<Rightarrow> copy_flags \<Rightarrow> cap_properties
   \<Rightarrow> (bool \<times> kcap \<times> 's) option" where
  "cap_copy_x cap_shootdown s target source flags props =
     (case copy_subpage source flags (prop_addr_trans props) of
        None \<Rightarrow> Some (False, target, s)
      | Some (subpage, subpages) \<Rightarrow>
          let (guard, gbits) = copy_guard target source flags (prop_addr_trans props) in do {
            s \<leftarrow> (if changes_translation target source flags (subpage, subpages) (guard, gbits)
                 then cap_shootdown s target else Some s);
            let (r, t) = CAP_ADDR_TRANS_SET_GUARD_SUBPAGE (prop_addr_trans props)
                           guard gbits subpage subpages
            in if \<not> r then Some (False, target, s)
               else let tg = source\<lparr>addr_trans := t\<rparr>;
                        tg = (if WEAKEN flags then tg\<lparr>ctype := cap_type_weaken (ctype tg)\<rparr> else tg);
                        tg = (if DISCARDABLE_SET flags
                              then tg\<lparr>discardable := pol_discardable (policy props)\<rparr> else tg);
                        tg = (if PRIORITY_SET flags
                              then tg\<lparr>priority := pol_priority (policy props)\<rparr> else tg)
                    in Some (True, tg, s)
          })"

definition cap_copy ::
  "('s \<Rightarrow> kcap \<Rightarrow> 's option) \<Rightarrow> 's \<Rightarrow> kcap \<Rightarrow> kcap \<Rightarrow> (bool \<times> kcap \<times> 's) option" where
  "cap_copy cap_shootdown s target source =
     cap_copy_x cap_shootdown s target source
       \<lparr>COPY_ADDR_TRANS_SUBPAGE = False, COPY_ADDR_TRANS_GUARD = False, COPY_SOURCE_GUARD = False,
        WEAKEN = False, DISCARDABLE_SET = True, PRIORITY_SET = True\<rparr>
       (CAP_PROPERTIES_GET source)"

subsection \<open>Weak and strong types\<close>

lemma weaken_weak: "cap_type_weaken t \<noteq> cap_void \<Longrightarrow> cap_type_weak_p (cap_type_weaken t)"
  by (cases t) (simp_all add: cap_type_weaken_def cap_type_weak_p_def)

lemma weaken_compatible:
  "cap_type_weaken t \<noteq> cap_void \<Longrightarrow> cap_types_compatible t (cap_type_weaken t)"
  by (cases t) (simp_all add: cap_type_weaken_def cap_types_compatible_def)

lemma weaken_idem [simp]: "cap_type_weaken (cap_type_weaken t) = cap_type_weaken t"
  by (cases t) (simp_all add: cap_type_weaken_def)

lemma strengthen_idem [simp]: "cap_type_strengthen (cap_type_strengthen t) = cap_type_strengthen t"
  by (cases t) (simp_all add: cap_type_strengthen_def)

lemma strengthen_not_weak: "\<not> cap_type_weak_p (cap_type_strengthen t)"
  by (cases t) (simp_all add: cap_type_strengthen_def cap_type_weak_p_def)

lemma strengthen_void [simp]: "cap_type_strengthen t = cap_void \<longleftrightarrow> t = cap_void"
  by (cases t) (simp_all add: cap_type_strengthen_def)

lemma cap_types_compatible_iff:
  "cap_types_compatible a b \<longleftrightarrow> cap_type_strengthen a = cap_type_strengthen b"
  by (cases a; cases b) (simp_all add: cap_types_compatible_def cap_type_strengthen_def)

lemma weak_strengthen_strong:
  "cap_type_strengthen t = u \<Longrightarrow> t \<noteq> u \<Longrightarrow> cap_type_weak_p t"
  by (cases t) (auto simp: cap_type_strengthen_def cap_type_weak_p_def)

subsection \<open>What a copy confers\<close>

lemma SUBPAGES_bound: "CAP_ADDR_TRANS_SUBPAGES t < 2 ^ 31" "0 < CAP_ADDR_TRANS_SUBPAGES t"
proof -
  have "unat (subpages_log2 t) < 2 ^ LENGTH(4)" by (rule unsigned_less)
  then have "CAP_ADDR_TRANS_SUBPAGES_LOG2 t < 31" by (simp add: CAP_ADDR_TRANS_SUBPAGES_LOG2_def)
  then have "(2 :: int) ^ CAP_ADDR_TRANS_SUBPAGES_LOG2 t < 2 ^ 31"
    by (intro power_strict_increasing) simp_all
  then show "CAP_ADDR_TRANS_SUBPAGES t < 2 ^ 31" "0 < CAP_ADDR_TRANS_SUBPAGES t"
    by (simp_all only: SUBPAGES_power zero_less_power zero_less_numeral)
qed

lemma at_window_div:
  "at_ok t \<Longrightarrow> at_window t = {CAP_ADDR_TRANS_SUBPAGE t * (256 div CAP_ADDR_TRANS_SUBPAGES t) ..<
      (CAP_ADDR_TRANS_SUBPAGE t + 1) * (256 div CAP_ADDR_TRANS_SUBPAGES t)}"
  by (simp add: at_window_def CAP_ADDR_TRANS_SUBPAGE_OFFSET_def SUBPAGE_SIZE_div algebra_simps)

lemma not_at_ok_div: "\<not> at_ok t \<Longrightarrow> 256 div CAP_ADDR_TRANS_SUBPAGES t = 0"
proof -
  assume "\<not> at_ok t"
  then have "(2 :: int) ^ 9 \<le> 2 ^ CAP_ADDR_TRANS_SUBPAGES_LOG2 t"
    by (intro power_increasing) (simp_all add: at_ok_def)
  then show ?thesis by (simp add: SUBPAGES_power div_pos_pos_trivial)
qed

lemma copy_subpage_source:
  assumes "copy_subpage source flags t = Some (sp, sps)"
  shows "sps < 2 ^ 31"
    and "at_ok t' \<Longrightarrow> CAP_ADDR_TRANS_SUBPAGE t' = sp \<Longrightarrow> CAP_ADDR_TRANS_SUBPAGES t' = sps
         \<Longrightarrow> at_window t' \<subseteq> at_window (addr_trans source)"
proof -
  show "sps < 2 ^ 31"
    using assms SUBPAGES_bound(1) by (auto simp: copy_subpage_def Let_def split: if_splits)
next
  assume t': "at_ok t'" "CAP_ADDR_TRANS_SUBPAGE t' = sp" "CAP_ADDR_TRANS_SUBPAGES t' = sps"
  show "at_window t' \<subseteq> at_window (addr_trans source)"
  proof (cases "at_ok (addr_trans source)")
    case True
    then show ?thesis
      using assms t' by (auto simp: copy_subpage_def Let_def at_window_div split: if_splits)
  next
    case False
    have pos: "0 < (sp + 1) * (256 div sps)"
      using SUBPAGE_range [of t'] SUBPAGE_SIZE_pos [of t'] SUBPAGE_SIZE_div [OF t'(1)] t' by simp
    show ?thesis
    proof (cases "COPY_ADDR_TRANS_SUBPAGE flags")
      case True
      with assms False pos show ?thesis
        by (auto simp: copy_subpage_def Let_def not_at_ok_div split: if_splits)
    next
      case copy: False
      with assms have "sps = CAP_SUBPAGES source" by (simp add: copy_subpage_def Let_def)
      with t' False have "at_ok (addr_trans source)"
        using SUBPAGES_power [of t'] SUBPAGES_power [of "addr_trans source"]
        by (simp add: at_ok_def)
      with False show ?thesis by simp
    qed
  qed
qed

text \<open>A successful copy, step by step.\<close>

lemma cap_copy_x_True:
  assumes "cap_copy_x sd s target source flags props = Some (True, target', s')"
  obtains sp sps guard gbits t where
    "copy_subpage source flags (prop_addr_trans props) = Some (sp, sps)"
    "copy_guard target source flags (prop_addr_trans props) = (guard, gbits)"
    "(if changes_translation target source flags (sp, sps) (guard, gbits) then sd s target else Some s) = Some s'"
    "CAP_ADDR_TRANS_SET_GUARD_SUBPAGE (prop_addr_trans props) guard gbits sp sps = (True, t)"
    "addr_trans target' = t" "oid target' = oid source" "version target' = version source"
    "ctype target' = (if WEAKEN flags then cap_type_weaken (ctype source) else ctype source)"
  using assms unfolding cap_copy_x_def
  by (auto simp: Let_def split: option.splits prod.splits if_splits elim!: Option.bind_eq_Some_conv [THEN iffD1, elim_format])

subsection \<open>Properties\<close>

text \<open>C2: \<open>cap_copy_x\<close> never amplifies authority. If it succeeds, the new capability designates the
  same object and version as the source, is of the source's type or (with the weaken flag) of its
  weakened type, and exposes only capability slots that the source exposes.\<close>

theorem cap_copy_x_no_amplification:
  assumes "cap_copy_x cap_shootdown s target source flags props = Some (True, target', s')"
  shows "oid target' = oid source \<and> version target' = version source
    \<and> ctype target' = (if WEAKEN flags then cap_type_weaken (ctype source) else ctype source)
    \<and> at_window (addr_trans target') \<subseteq> at_window (addr_trans source)"
  using assms
proof (rule cap_copy_x_True)
  fix sp sps guard gbits t
  assume sub: "copy_subpage source flags (prop_addr_trans props) = Some (sp, sps)"
    and set: "CAP_ADDR_TRANS_SET_GUARD_SUBPAGE (prop_addr_trans props) guard gbits sp sps = (True, t)"
    and eqs: "addr_trans target' = t" "oid target' = oid source" "version target' = version source"
      "ctype target' = (if WEAKEN flags then cap_type_weaken (ctype source) else ctype source)"
  note set_guard_subpage_result [OF set copy_subpage_source(1) [OF sub]]
  then have "at_window t \<subseteq> at_window (addr_trans source)"
    by (intro copy_subpage_source(2) [OF sub])
  with eqs show ?thesis by simp
qed

definition example_cap :: kcap where
  "example_cap = \<lparr>ctype = cap_cappage, discardable = False, priority = 0,
     addr_trans = \<lparr>guard_subpage = 1, subpages_log2 = 1, gdepth = 0\<rparr>,
     oid = 7, version = 3, weak_p = False\<rparr>"

definition example_flags :: copy_flags where
  "example_flags = \<lparr>COPY_ADDR_TRANS_SUBPAGE = False, COPY_ADDR_TRANS_GUARD = False,
     COPY_SOURCE_GUARD = False, WEAKEN = True, DISCARDABLE_SET = False, PRIORITY_SET = False\<rparr>"

lemma example_cap_ok: "set_guard_subpage_ok (CAP_GUARD example_cap) (CAP_GUARD_BITS example_cap)
    (CAP_SUBPAGE example_cap) (CAP_SUBPAGES example_cap)"
  by code_simp

lemma cap_copy_x_self:
  assumes "set_guard_subpage_ok (CAP_GUARD c) (CAP_GUARD_BITS c) (CAP_SUBPAGE c) (CAP_SUBPAGES c)"
    and "\<not> COPY_ADDR_TRANS_SUBPAGE flags" "\<not> COPY_ADDR_TRANS_GUARD flags" "\<not> COPY_SOURCE_GUARD flags"
  shows "\<exists>c'. cap_copy_x cap_shootdown s c c flags props = Some (True, c', s)
      \<and> ctype c' = (if WEAKEN flags then cap_type_weaken (ctype c) else ctype c)"
  using assms
  by (simp add: cap_copy_x_def copy_subpage_def copy_guard_def changes_translation_def Let_def
      CAP_ADDR_TRANS_SET_GUARD_SUBPAGE_def)

theorem cap_copy_x_no_amplification_witness:
  "\<exists>c. cap_copy_x (\<lambda>s _. Some s) () example_cap example_cap example_flags CAP_PROPERTIES_VOID
         = Some (True, c, ())
     \<and> oid c = 7 \<and> ctype c = cap_rcappage
     \<and> at_window (addr_trans c) \<subseteq> at_window (addr_trans example_cap)"
proof -
  obtain c where c: "cap_copy_x (\<lambda>s _. Some s) () example_cap example_cap example_flags
      CAP_PROPERTIES_VOID = Some (True, c, ())"
    using cap_copy_x_self [OF example_cap_ok, of example_flags "\<lambda>s _. Some s" "()" CAP_PROPERTIES_VOID]
    by (auto simp: example_flags_def)
  show ?thesis
    using cap_copy_x_no_amplification [OF c] c
    by (auto simp: example_cap_def example_flags_def cap_type_weaken_def)
qed

text \<open>Weakening a capability in place is not noticed by the translation check. Copying a strong
  capability onto itself with only the weaken flag replaces it by its weak form without calling
  \<open>cap_shootdown\<close>: the kernel state, with the mappings established through the strong capability,
  is unchanged.\<close>

theorem cap_copy_x_weaken_in_place:
  assumes "cap_type_weaken (ctype c) \<noteq> ctype c"
    and "set_guard_subpage_ok (CAP_GUARD c) (CAP_GUARD_BITS c) (CAP_SUBPAGE c) (CAP_SUBPAGES c)"
    and "WEAKEN flags" "\<not> COPY_ADDR_TRANS_SUBPAGE flags" "\<not> COPY_ADDR_TRANS_GUARD flags"
      "\<not> COPY_SOURCE_GUARD flags"
  shows "\<exists>c'. cap_copy_x cap_shootdown s c c flags props = Some (True, c', s)
      \<and> ctype c' = cap_type_weaken (ctype c) \<and> ctype c' \<noteq> ctype c"
  using cap_copy_x_self [OF assms(2,4,5,6), of cap_shootdown s props] assms(1,3) by auto

theorem cap_copy_x_weaken_in_place_witness:
  "\<exists>c'. cap_copy_x (\<lambda>s _. None) () example_cap example_cap example_flags CAP_PROPERTIES_VOID
          = Some (True, c', ())
      \<and> ctype c' = cap_type_weaken (ctype example_cap) \<and> ctype c' \<noteq> ctype example_cap"
proof -
  have 1: "cap_type_weaken (ctype example_cap) \<noteq> ctype example_cap" by code_simp
  show ?thesis
    by (rule cap_copy_x_weaken_in_place [OF 1 example_cap_ok]) (simp_all add: example_flags_def)
qed

end
