(* ===== verification/Bits.thy ===== *)
theory Bits
  imports Prelude
begin

text \<open>
  Bit-field extraction, \<^verbatim>\<open>libhurd-mm/bits.h\<close>: \<open>c\<close> bits of a word starting at bit \<open>s\<close>
  (\<open>extract_bits\<close>) or ending at bit \<open>e\<close> (\<open>extract_bits_inv\<close>), on 32-bit and 64-bit words.
\<close>

definition extract_bits :: "u32 \<Rightarrow> int \<Rightarrow> int \<Rightarrow> u32 option" where
  "extract_bits w s c = do {
     c_assert (0 \<le> s \<and> s < 32);
     c_assert (0 \<le> c \<and> s + c \<le> 32);
     if c = 32 then do { c_assert (s = 0); Some w }
     else Some (ucast ((ucast (shr w (nat s)) :: u64) AND (shl 1 (nat c) - 1)))
   }"

definition extract_bits64 :: "u64 \<Rightarrow> int \<Rightarrow> int \<Rightarrow> u64 option" where
  "extract_bits64 w s c = do {
     c_assert (0 \<le> s \<and> s < 64);
     c_assert (0 \<le> c \<and> s + c \<le> 64);
     if c = 64 then do { c_assert (s = 0); Some w }
     else Some (shr w (nat s) AND (shl 1 (nat c) - 1))
   }"

definition extract_bits_inv :: "u32 \<Rightarrow> int \<Rightarrow> int \<Rightarrow> u32 option" where
  "extract_bits_inv w e c = (if c = 0 then Some 0 else extract_bits w (e - c + 1) c)"

definition extract_bits64_inv :: "u64 \<Rightarrow> int \<Rightarrow> int \<Rightarrow> u64 option" where
  "extract_bits64_inv w e c = (if c = 0 then Some 0 else extract_bits64 w (e - c + 1) c)"

text \<open>The arithmetic reading: the field of \<open>c\<close> bits that starts at bit \<open>s\<close> of a number.\<close>

definition field :: "nat \<Rightarrow> nat \<Rightarrow> nat \<Rightarrow> nat" where
  "field x s c = x div 2 ^ s mod 2 ^ c"

lemma field_less: "field x s c < 2 ^ c"
  by (simp add: field_def)

lemma unat_shr_mask:
  "unat (shr (w :: 'a::len word) s AND (shl 1 c - 1)) = field (unat w) s c"
proof -
  have "shr w s AND (shl 1 c - 1) = take_bit c (shr w s)"
    by (simp add: shl_1_minus_1 take_bit_eq_mask)
  then have "unat (shr w s AND (shl 1 c - 1)) = take_bit c (unat (shr w s))"
    by (simp add: unsigned_take_bit_eq)
  then show ?thesis by (simp add: unat_shr field_def take_bit_eq_mod)
qed

text \<open>Inside its bounds \<open>extract_bits64\<close> never trips an assertion and returns the \<open>c\<close> bits of
  \<open>w\<close> from bit \<open>s\<close> upwards, including the full-width case that C cannot compute with a shift;
  \<open>extract_bits64_inv\<close> returns the \<open>c\<close> bits that end at bit \<open>e\<close>.\<close>

theorem extract_bits64_spec:
  assumes "s < 64" and "s + c \<le> 64"
  shows "\<exists>x. extract_bits64 w (int s) (int c) = Some x \<and> unat x = field (unat w) s c
      \<and> extract_bits64_inv w (int s + int c - 1) (int c) = Some x"
proof -
  have "\<exists>x. extract_bits64 w (int s) (int c) = Some x \<and> unat x = field (unat w) s c"
  proof (cases "c = 64")
    case True
    moreover have "unat w < 2 ^ 64" using unsigned_less [of w] by simp
    ultimately show ?thesis using assms by (simp add: extract_bits64_def field_def)
  next
    case False
    with assms show ?thesis by (simp add: extract_bits64_def unat_shr_mask)
  qed
  then obtain x where x: "extract_bits64 w (int s) (int c) = Some x" "unat x = field (unat w) s c"
    by blast
  moreover have "extract_bits64_inv w (int s + int c - 1) (int c) = Some x"
  proof (cases "c = 0")
    case True
    with x(2) have "x = 0" by (simp add: field_def unat_eq_zero)
    with True show ?thesis by (simp add: extract_bits64_inv_def)
  next
    case False
    with x(1) show ?thesis by (simp add: extract_bits64_inv_def)
  qed
  ultimately show ?thesis by blast
qed

theorem extract_bits64_spec_witness:
  "\<exists>x. extract_bits64 0xABCD (int 4) (int 8) = Some x \<and> unat x = field (unat (0xABCD :: u64)) 4 8
     \<and> extract_bits64_inv 0xABCD (int 4 + int 8 - 1) (int 8) = Some x"
  by (rule extract_bits64_spec) simp_all

lemma extract_bits64_inv_unat:
  assumes "0 \<le> c" "c \<le> rem" "rem \<le> 63"
  obtains x where "extract_bits64_inv w (rem - 1) c = Some x"
    "unat x = field (unat w) (nat (rem - c)) (nat c)"
proof (cases "c = 0")
  case True
  then show ?thesis by (intro that [of 0]) (simp_all add: extract_bits64_inv_def field_def)
next
  case False
  with assms have "extract_bits64_inv w (rem - 1) c =
      Some (shr w (nat (rem - c)) AND (shl 1 (nat c) - 1))"
    by (simp add: extract_bits64_inv_def extract_bits64_def)
  then show ?thesis using unat_shr_mask by (rule that)
qed

end
