(* ===== verification/As_Lookup.thy ===== *)
theory As_Lookup
  imports Cap Bits
begin

text \<open>
  The address-space walker of \<^verbatim>\<open>libhurd-mm/as-lookup.c\<close> in its user-space form, where
  \<open>cap_to_object\<close> follows the shadow pointer of a capability, together with the guard calculator of
  \<^verbatim>\<open>libhurd-mm/as-compute-gbits.h\<close>.

  A shadow object is an array of capability slots (256 for a cappage, 128 for a folio), the shadow
  heap a function from object pointers to such arrays. A slot is the root slot the caller passes or
  a slot of a shadow object. The walk is a loop over the slot, the number of untranslated bits and
  the write permission; one iteration is \<open>as_lookup_step\<close>. The loop need not end, so it is a
  \<open>partial_function\<close>: \<open>None\<close> stands for a failed assertion and for a walk that never returns.

  This is the build with assertions enabled. There \<open>DUMP_OR_RET (false)\<close> repeats the walk with
  debugging output before it returns false. The walk has no side effects and the repetition meets the
  same capabilities, so it is modelled by its value and by the one assertion that can fail in the
  output of the repetition: printing the address below a guard that is longer than the bits left.
\<close>

subsection \<open>Shadow objects and slots\<close>

type_synonym ptr = nat

record ucap = cap +
  shadow :: "ptr option"

type_synonym shadow_heap = "ptr \<Rightarrow> nat \<Rightarrow> ucap"

datatype slot = Root | Slot ptr nat

primrec slot_cap :: "shadow_heap \<Rightarrow> ucap \<Rightarrow> slot \<Rightarrow> ucap" where
  "slot_cap h root Root = root"
| "slot_cap h root (Slot p i) = h p i"

definition cap_get_shadow :: "ucap \<Rightarrow> ptr option" where
  "cap_get_shadow c = shadow c"

definition cap_set_shadow :: "ucap \<Rightarrow> ptr option \<Rightarrow> ucap" where
  "cap_set_shadow c p = c\<lparr>shadow := p\<rparr>"

definition cap_to_object_user :: "ucap \<Rightarrow> ptr option" where
  "cap_to_object_user c = cap_get_shadow c"

definition FOLIO_OBJECTS_LOG2 :: int where
  "FOLIO_OBJECTS_LOG2 = 7"

definition PAGESIZE_LOG2 :: int where
  "PAGESIZE_LOG2 = 12"

definition CAPPAGE_SLOTS_LOG2 :: int where
  "CAPPAGE_SLOTS_LOG2 = PAGESIZE_LOG2 - 4"

datatype as_lookup_mode = as_lookup_want_cap | as_lookup_want_slot | as_lookup_want_object

datatype as_lookup_ret = Capp slot | CapVal ucap

datatype step = Fail | Done slot bool | Next slot int bool

subsection \<open>One iteration of the walk\<close>

text \<open>The guard test. The extracted bits are stored in an \<open>int\<close>, so they are cut to 32 bits and sign
  extended again for the comparison with the 64-bit guard.\<close>

definition guard_matches :: "addr_t \<Rightarrow> u64 \<Rightarrow> int \<Rightarrow> ucap \<Rightarrow> bool option" where
  "guard_matches address addr remaining c =
     (if CAP_GUARD_BITS c = 0 then Some True
      else if CAP_GUARD_BITS c > remaining then do {
        \<comment> \<open>the repeated walk prints this address\<close>
        addr_chop address (remaining - CAP_GUARD_BITS c);
        Some False
      }
      else do {
        x \<leftarrow> extract_bits64_inv addr (remaining - 1) (CAP_GUARD_BITS c);
        let guard = (ucast x :: u32);
        Some (CAP_GUARD c = scast guard)
      })"

definition index_done :: "shadow_heap \<Rightarrow> ucap \<Rightarrow> as_lookup_mode \<Rightarrow> slot \<Rightarrow> int \<Rightarrow> bool \<Rightarrow> step" where
  "index_done h root mode s remaining w =
     (if remaining = 0 then
        (if CAP_GUARD_BITS (slot_cap h root s) \<noteq> 0 \<and> mode = as_lookup_want_object then Fail
         else Done s w)
      else Next s remaining w)"

definition as_lookup_index ::
  "shadow_heap \<Rightarrow> ucap \<Rightarrow> u64 \<Rightarrow> as_lookup_mode \<Rightarrow> ucap \<Rightarrow> int \<Rightarrow> bool \<Rightarrow> step option" where
  "as_lookup_index h root addr mode c remaining w =
     (if ctype c = cap_cappage \<or> ctype c = cap_rcappage then
        (let bits = CAP_SUBPAGE_SIZE_LOG2 c in
         \<comment> \<open>an unsigned comparison: a negative width exceeds every word\<close>
         if bits < 0 \<or> remaining < bits then Some Fail
         else case cap_to_object_user c of
           None \<Rightarrow> Some Fail
         | Some p \<Rightarrow> do {
             x \<leftarrow> extract_bits64_inv addr (remaining - 1) bits;
             let offset = CAP_SUBPAGE_OFFSET c + uint x;
             c_assert (0 \<le> offset \<and> offset < int CAPPAGE_SLOTS);
             Some (index_done h root mode (Slot p (nat offset)) (remaining - bits) w)
           })
      else if ctype c = cap_folio then
        (if remaining < FOLIO_OBJECTS_LOG2 then Some Fail
         else case cap_to_object_user c of
           None \<Rightarrow> Some Fail
         | Some p \<Rightarrow> do {
             x \<leftarrow> extract_bits64_inv addr (remaining - 1) FOLIO_OBJECTS_LOG2;
             Some (index_done h root mode (Slot p (unat x)) (remaining - FOLIO_OBJECTS_LOG2) w)
           })
      else Some Fail)"

definition as_lookup_step ::
  "shadow_heap \<Rightarrow> ucap \<Rightarrow> addr_t \<Rightarrow> u64 \<Rightarrow> cap_type option \<Rightarrow> as_lookup_mode \<Rightarrow> slot \<Rightarrow> int \<Rightarrow> bool
   \<Rightarrow> step option" where
  "as_lookup_step h root address addr type mode s remaining w =
     (let c = slot_cap h root s in
      if ctype c = cap_rcappage \<and> (case type of None \<Rightarrow> False | Some t \<Rightarrow> \<not> cap_type_weak_p t)
      then do {
        addr_chop address (remaining - CAP_GUARD_BITS c);
        Some Fail
      }
      else let w = (if ctype c = cap_rcappage then False else w) in do {
        matches \<leftarrow> guard_matches address addr remaining c;
        if \<not> matches then Some Fail
        else let remaining = remaining - CAP_GUARD_BITS c in
          if remaining = 0 then Some (Done s w)
          else as_lookup_index h root addr mode c remaining w
      })"

subsection \<open>The walk\<close>

partial_function (option) as_lookup_loop ::
  "shadow_heap \<Rightarrow> ucap \<Rightarrow> addr_t \<Rightarrow> u64 \<Rightarrow> cap_type option \<Rightarrow> as_lookup_mode \<Rightarrow> slot \<Rightarrow> int \<Rightarrow> bool
   \<Rightarrow> (slot \<times> bool) option option" where
  "as_lookup_loop h root address addr type mode s remaining w =
     (if remaining = 0 then Some (Some (s, w))
      else as_lookup_step h root address addr type mode s remaining w \<bind>
        (\<lambda>r. case r of Fail \<Rightarrow> Some None
             | Done s' w' \<Rightarrow> Some (Some (s', w'))
             | Next s' remaining' w' \<Rightarrow> as_lookup_loop h root address addr type mode s' remaining' w'))"

text \<open>The type test and the results after the loop.\<close>

definition as_lookup_finish ::
  "shadow_heap \<Rightarrow> ucap \<Rightarrow> cap_type option \<Rightarrow> as_lookup_mode \<Rightarrow> slot \<Rightarrow> bool
   \<Rightarrow> (as_lookup_ret \<times> bool) option" where
  "as_lookup_finish h root type mode s w =
     (let c = slot_cap h root s in
      if (case type of None \<Rightarrow> False
          | Some t \<Rightarrow> t \<noteq> ctype c \<and> cap_type_strengthen t \<noteq> ctype c) then None
      else let w = (if mode = as_lookup_want_object \<and> cap_type_weak_p (ctype c) then False else w)
        in Some (if mode = as_lookup_want_slot then Capp s else CapVal c, w))"

definition as_lookup_rel ::
  "shadow_heap \<Rightarrow> ucap \<Rightarrow> addr_t \<Rightarrow> cap_type option \<Rightarrow> as_lookup_mode
   \<Rightarrow> (as_lookup_ret \<times> bool) option option" where
  "as_lookup_rel h root address type mode =
     (let remaining = addr_depth address;
          addr = shr (addr_prefix address) (nat (ADDR_BITS - remaining)) in do {
        r \<leftarrow> as_lookup_loop h root address addr type mode Root remaining True;
        Some (case r of None \<Rightarrow> None | Some (s, w) \<Rightarrow> as_lookup_finish h root type mode s w)
      })"

subsection \<open>Where to put the next cappage\<close>

definition as_compute_gbits_cappage :: "int \<Rightarrow> int \<Rightarrow> int \<Rightarrow> (int \<times> int) option" where
  "as_compute_gbits_cappage untranslated_bits to_translate gbits = do {
     c_assert (untranslated_bits > 0 \<and> to_translate > 0 \<and> gbits \<ge> 0
       \<and> untranslated_bits \<ge> to_translate \<and> untranslated_bits \<ge> gbits \<and> to_translate \<ge> gbits);
     let gbits =
       (if untranslated_bits \<le> PAGESIZE_LOG2 then gbits
        else if untranslated_bits - gbits \<le> PAGESIZE_LOG2 then untranslated_bits - PAGESIZE_LOG2
        else if untranslated_bits - gbits \<le> FOLIO_OBJECTS_LOG2 + PAGESIZE_LOG2
        then untranslated_bits - FOLIO_OBJECTS_LOG2 - PAGESIZE_LOG2
        else let remainder = untranslated_bits - gbits - FOLIO_OBJECTS_LOG2 - PAGESIZE_LOG2;
                 to_remove = CAPPAGE_SLOTS_LOG2 - (remainder mod CAPPAGE_SLOTS_LOG2)
             in if to_remove < gbits then gbits - to_remove else 0);
     c_assert (gbits \<ge> 0);
     let width = (if untranslated_bits - gbits = FOLIO_OBJECTS_LOG2 + PAGESIZE_LOG2
                  then FOLIO_OBJECTS_LOG2 else CAPPAGE_SLOTS_LOG2);
     let width = (if gbits + width > to_translate then to_translate - gbits else width);
     Some (gbits, width)
   }"

subsection \<open>Reference semantics of address translation\<close>

text \<open>Translation as the documentation describes it: a capability's guard must equal the next bits
  of the address, then the bits that index the designated cappage window or folio select the next
  slot. \<open>resolves s r t path\<close> says that translating the \<open>r\<close> least significant bits of the address
  from slot \<open>s\<close> leads to slot \<open>t\<close>; \<open>path\<close> lists the capabilities that translated bits.\<close>

definition guard_spec :: "u64 \<Rightarrow> int \<Rightarrow> ucap \<Rightarrow> bool" where
  "guard_spec addr remaining c \<longleftrightarrow> CAP_GUARD_BITS c = 0 \<or>
     (CAP_GUARD_BITS c \<le> remaining
      \<and> field (unat addr) (nat (remaining - CAP_GUARD_BITS c)) (nat (CAP_GUARD_BITS c)) = unat (CAP_GUARD c))"

definition index_spec :: "u64 \<Rightarrow> ucap \<Rightarrow> int \<Rightarrow> (slot \<times> int) option" where
  "index_spec addr c remaining =
     (if ctype c = cap_cappage \<or> ctype c = cap_rcappage then
        (let bits = CAP_SUBPAGE_SIZE_LOG2 c in
         if 0 \<le> bits \<and> bits \<le> remaining then
           map_option (\<lambda>p. (Slot p (nat (CAP_SUBPAGE_OFFSET c)
                                    + field (unat addr) (nat (remaining - bits)) (nat bits)),
                            remaining - bits)) (shadow c)
         else None)
      else if ctype c = cap_folio \<and> 7 \<le> remaining then
        map_option (\<lambda>p. (Slot p (field (unat addr) (nat (remaining - 7)) 7), remaining - 7)) (shadow c)
      else None)"

inductive resolves :: "shadow_heap \<Rightarrow> ucap \<Rightarrow> u64 \<Rightarrow> as_lookup_mode
    \<Rightarrow> slot \<Rightarrow> int \<Rightarrow> slot \<Rightarrow> ucap list \<Rightarrow> bool"
  for h root addr mode where
  at_slot: "(mode = as_lookup_want_object \<Longrightarrow> CAP_GUARD_BITS (slot_cap h root s) = 0)
     \<Longrightarrow> resolves h root addr mode s 0 s []"
| at_guard: "0 < r \<Longrightarrow> guard_spec addr r (slot_cap h root s) \<Longrightarrow> CAP_GUARD_BITS (slot_cap h root s) = r
     \<Longrightarrow> resolves h root addr mode s r s [slot_cap h root s]"
| hop: "c = slot_cap h root s \<Longrightarrow> 0 < r \<Longrightarrow> guard_spec addr r c \<Longrightarrow> CAP_GUARD_BITS c < r
     \<Longrightarrow> index_spec addr c (r - CAP_GUARD_BITS c) = Some (s', r')
     \<Longrightarrow> resolves h root addr mode s' r' t path
     \<Longrightarrow> resolves h root addr mode s r t (c # path)"

inductive_cases resolves_0E: "resolves h root addr mode s 0 t path"

text \<open>The permission a path confers: a walk that must give write access may not pass through a
  read-only cappage.\<close>

definition path_allowed :: "cap_type option \<Rightarrow> ucap list \<Rightarrow> bool" where
  "path_allowed type path \<longleftrightarrow>
     (case type of None \<Rightarrow> True
      | Some t \<Rightarrow> cap_type_weak_p t \<or> cap_rcappage \<notin> ctype ` set path)"

text \<open>The failed assertion in the debugging output: the guard is longer than the bits left, by more than
  the address can be extended.\<close>

definition dump_asserts :: "addr_t \<Rightarrow> int \<Rightarrow> ucap \<Rightarrow> bool" where
  "dump_asserts a r c \<longleftrightarrow> r < CAP_GUARD_BITS c \<and> 63 < addr_depth a - r + CAP_GUARD_BITS c"

definition path_writable :: "ucap list \<Rightarrow> bool" where
  "path_writable path \<longleftrightarrow> cap_rcappage \<notin> ctype ` set path"

subsection \<open>The iteration computes one step of the reference semantics\<close>

lemma GUARD_BITS_range: "0 \<le> CAP_ADDR_TRANS_GUARD_BITS t" "CAP_ADDR_TRANS_GUARD_BITS t \<le> 63"
  using uint_lt2p [of "gdepth t"] by (simp_all add: CAP_ADDR_TRANS_GUARD_BITS_def)

lemma size_log2_at_ok: "0 \<le> CAP_ADDR_TRANS_SUBPAGE_SIZE_LOG2 t \<Longrightarrow> at_ok t"
  by (simp add: CAP_ADDR_TRANS_SUBPAGE_SIZE_LOG2_def at_ok_def)

lemma offset_in_page:
  assumes "0 \<le> CAP_ADDR_TRANS_SUBPAGE_SIZE_LOG2 t"
    and x: "x < 2 ^ nat (CAP_ADDR_TRANS_SUBPAGE_SIZE_LOG2 t)"
  shows "0 \<le> CAP_ADDR_TRANS_SUBPAGE_OFFSET t" "CAP_ADDR_TRANS_SUBPAGE_OFFSET t + int x < 256"
proof -
  have "at_ok t" using assms(1) by (rule size_log2_at_ok)
  then have sub: "at_window t \<subseteq> {0..<256}" by (rule at_window_bounds)
  have "int x < int (2 ^ nat (CAP_ADDR_TRANS_SUBPAGE_SIZE_LOG2 t))"
    using x by (simp only: of_nat_less_iff)
  then have "int x < CAP_ADDR_TRANS_SUBPAGE_SIZE t"
    by (simp add: CAP_ADDR_TRANS_SUBPAGE_SIZE_def)
  then have "CAP_ADDR_TRANS_SUBPAGE_OFFSET t + int x \<in> at_window t"
    and "CAP_ADDR_TRANS_SUBPAGE_OFFSET t \<in> at_window t"
    by (simp_all add: at_window_def SUBPAGE_SIZE_pos)
  with sub show "0 \<le> CAP_ADDR_TRANS_SUBPAGE_OFFSET t" "CAP_ADDR_TRANS_SUBPAGE_OFFSET t + int x < 256"
    by auto
qed

lemma as_lookup_index_eq:
  assumes "0 < r" "r \<le> 63"
  shows "as_lookup_index h root addr mode c r w =
    Some (case index_spec addr c r of None \<Rightarrow> Fail | Some (s', r') \<Rightarrow> index_done h root mode s' r' w)"
proof -
  let ?b = "CAP_SUBPAGE_SIZE_LOG2 c"
  consider (cappage) p where "ctype c = cap_cappage \<or> ctype c = cap_rcappage" "0 \<le> ?b" "?b \<le> r" "shadow c = Some p"
    | (folio) p where "ctype c = cap_folio" "7 \<le> r" "shadow c = Some p"
    | (none) "index_spec addr c r = None"
  proof (cases "index_spec addr c r")
    case (Some a)
    with that show thesis by (auto simp: index_spec_def Let_def split: if_splits)
  qed (rule that(3))
  then show ?thesis
  proof cases
    case cappage
    obtain x where x: "extract_bits64_inv addr (r - 1) ?b = Some x"
        "unat x = field (unat addr) (nat (r - ?b)) (nat ?b)"
      using extract_bits64_inv_unat [OF cappage(2,3) assms(2)] by metis
    then have ux: "uint x = int (field (unat addr) (nat (r - ?b)) (nat ?b))"
      by (simp flip: x(2))
    have off: "0 \<le> CAP_SUBPAGE_OFFSET c" "CAP_SUBPAGE_OFFSET c + int (field (unat addr) (nat (r - ?b)) (nat ?b)) < 256"
      using offset_in_page [OF cappage(2) field_less] by simp_all
    then have "nat (CAP_SUBPAGE_OFFSET c + int (field (unat addr) (nat (r - ?b)) (nat ?b))) =
        nat (CAP_SUBPAGE_OFFSET c) + field (unat addr) (nat (r - ?b)) (nat ?b)"
      by (simp add: nat_add_distrib)
    with cappage x(1) ux off show ?thesis
      by (simp add: as_lookup_index_def index_spec_def Let_def cap_to_object_user_def
          cap_get_shadow_def CAPPAGE_SLOTS_def)
  next
    case folio
    obtain x where "extract_bits64_inv addr (r - 1) 7 = Some x"
        "unat x = field (unat addr) (nat (r - 7)) (nat 7)"
      using extract_bits64_inv_unat [of 7 r addr] folio(2) assms(2) by auto
    with folio show ?thesis
      by (simp add: as_lookup_index_def index_spec_def FOLIO_OBJECTS_LOG2_def cap_to_object_user_def
          cap_get_shadow_def)
  next
    case none
    then show ?thesis
      by (auto simp: as_lookup_index_def index_spec_def Let_def FOLIO_OBJECTS_LOG2_def
          cap_to_object_user_def cap_get_shadow_def split: if_splits)
  qed
qed

lemma scast_ucast_small: "unat (x :: u64) < 2 ^ 31 \<Longrightarrow> scast (ucast x :: u32) = x"
proof (rule bit_word_eqI)
  fix n :: nat
  assume x: "unat x < 2 ^ 31" and "n < LENGTH(64)"
  have "31 \<le> m \<Longrightarrow> \<not> bit x m" for m using bit_word_lt_exp [OF x, of m] by auto
  then show "bit (scast (ucast x :: u32) :: u64) n \<longleftrightarrow> bit x n"
    using \<open>n < LENGTH(64)\<close> by (auto simp: bit_signed_iff bit_unsigned_iff min_def)
qed

lemma chop_guard:
  assumes "0 < r" "r \<le> addr_depth a" "addr_depth a \<le> 63"
  shows "addr_chop a (r - CAP_GUARD_BITS c) \<bind> (\<lambda>_. Some x) = (if dump_asserts a r c then None else Some x)"
  using assms GUARD_BITS_range [of "addr_trans c"] by (auto simp: addr_chop_eq dump_asserts_def)

lemma guard_matches_wide:
  assumes "0 < r" "r \<le> addr_depth a" "addr_depth a \<le> 63"
  obtains b where "guard_matches a addr r c = (if dump_asserts a r c then None else Some b)"
    and "b \<longrightarrow> CAP_GUARD_BITS c \<le> r" "CAP_GUARD_BITS c \<le> 31 \<Longrightarrow> b = guard_spec addr r c"
proof (cases "CAP_GUARD_BITS c = 0 \<or> CAP_GUARD_BITS c > r")
  case True
  with assms chop_guard [OF assms, of c False] that [of "CAP_GUARD_BITS c = 0"] show thesis
    by (auto simp: guard_matches_def guard_spec_def dump_asserts_def)
next
  case False
  let ?g = "CAP_GUARD_BITS c"
  obtain x where x: "extract_bits64_inv addr (r - 1) ?g = Some x"
      "unat x = field (unat addr) (nat (r - ?g)) (nat ?g)"
    using extract_bits64_inv_unat [of ?g r addr] GUARD_BITS_range [of "addr_trans c"] False assms(2,3)
    by (metis linorder_not_le order_trans)
  have small: "scast (ucast x :: u32) = x" if "?g \<le> 31"
  proof (rule scast_ucast_small)
    have "unat x < 2 ^ nat ?g" using x(2) field_less by simp
    also have "\<dots> \<le> 2 ^ 31" using that by (intro power_increasing) auto
    finally show "unat x < 2 ^ 31" .
  qed
  show thesis
  proof (rule that [of "CAP_GUARD c = scast (ucast x :: u32)"])
    show "CAP_GUARD c = scast (ucast x :: u32) \<longleftrightarrow> guard_spec addr r c" if "?g \<le> 31"
      using False x(2) small [OF that] by (auto simp: guard_spec_def word_unat_eq_iff)
  qed (use False x(1) in \<open>auto simp: guard_matches_def dump_asserts_def\<close>)
qed

lemma index_spec_range:
  assumes "index_spec addr c r = Some (s', r')" "0 < r"
  shows "0 \<le> r'" "r' \<le> r" "CAP_SUBPAGE_SIZE_LOG2 c \<noteq> 0 \<Longrightarrow> r' < r"
  using assms by (auto simp: index_spec_def Let_def split: if_splits)

lemma index_done_Next:
  "index_done h root mode s r w = Next s' r' w' \<longleftrightarrow> s' = s \<and> r' = r \<and> w' = w \<and> r \<noteq> 0"
  by (auto simp: index_done_def)

lemma as_lookup_step_total:
  assumes "0 < r" "r \<le> addr_depth a" "addr_depth a \<le> 63" "\<not> dump_asserts a r (slot_cap h root s)"
  obtains x where "as_lookup_step h root a addr type mode s r w = Some x"
    and "\<And>s' r' w'. x = Next s' r' w' \<Longrightarrow> 0 < r' \<and> r' \<le> r
          \<and> (CAP_SUBPAGE_SIZE_LOG2 (slot_cap h root s) \<noteq> 0 \<longrightarrow> r' < r)"
proof -
  let ?c = "slot_cap h root s"
  let ?blocked = "ctype ?c = cap_rcappage \<and> (case type of None \<Rightarrow> False | Some t \<Rightarrow> \<not> cap_type_weak_p t)"
  let ?w = "if ctype ?c = cap_rcappage then False else w"
  obtain b where b: "guard_matches a addr r ?c = Some b" "b \<longrightarrow> CAP_GUARD_BITS ?c \<le> r"
    using guard_matches_wide [OF assms(1-3), of addr ?c] assms(4) by metis
  show thesis
  proof (cases "?blocked \<or> \<not> b \<or> r - CAP_GUARD_BITS ?c = 0")
    case True
    then have "as_lookup_step h root a addr type mode s r w = Some Fail
        \<or> as_lookup_step h root a addr type mode s r w = Some (Done s ?w)"
      using b(1) chop_guard [OF assms(1-3), of ?c Fail] assms(4) by (auto simp: as_lookup_step_def Let_def)
    then show thesis using that by auto
  next
    case False
    let ?r = "r - CAP_GUARD_BITS ?c"
    have r: "0 < ?r" "?r \<le> 63" "?r \<le> r"
      using False b(2) GUARD_BITS_range [of "addr_trans ?c"] assms by auto
    have step: "as_lookup_step h root a addr type mode s r w = Some (case index_spec addr ?c ?r of
        None \<Rightarrow> Fail | Some (s', r') \<Rightarrow> index_done h root mode s' r' ?w)"
      using False b(1) as_lookup_index_eq [OF r(1,2)] by (simp add: as_lookup_step_def Let_def)
    show thesis
    proof (rule that [OF step])
      fix s' r' w'
      assume "(case index_spec addr ?c ?r of None \<Rightarrow> Fail
        | Some (s', r') \<Rightarrow> index_done h root mode s' r' ?w) = Next s' r' w'"
      then have sp: "index_spec addr ?c ?r = Some (s', r')" and "r' \<noteq> 0"
        by (auto simp: index_done_Next split: option.splits)
      with index_spec_range [OF sp r(1)] r show "0 < r' \<and> r' \<le> r
          \<and> (CAP_SUBPAGE_SIZE_LOG2 ?c \<noteq> 0 \<longrightarrow> r' < r)" by linarith
    qed
  qed
qed

text \<open>Under the guard width that the 32-bit comparison can hold, the iteration is the reference step.\<close>

lemma as_lookup_step_eq:
  assumes "0 < r" "r \<le> addr_depth a" "addr_depth a \<le> 63" and "CAP_GUARD_BITS (slot_cap h root s) \<le> 31"
  shows "as_lookup_step h root a addr type mode s r w =
    (let c = slot_cap h root s; w = (w \<and> ctype c \<noteq> cap_rcappage) in
     if dump_asserts a r c then None
     else Some (if \<not> path_allowed type [c] \<or> \<not> guard_spec addr r c then Fail
     else if r = CAP_GUARD_BITS c then Done s w
     else case index_spec addr c (r - CAP_GUARD_BITS c) of
            None \<Rightarrow> Fail | Some (s', r') \<Rightarrow> index_done h root mode s' r' w))"
proof -
  let ?c = "slot_cap h root s"
  have blocked: "(ctype ?c = cap_rcappage \<and> (case type of None \<Rightarrow> False | Some t \<Rightarrow> \<not> cap_type_weak_p t))
      \<longleftrightarrow> \<not> path_allowed type [?c]"
    by (auto simp: path_allowed_def split: option.splits)
  have index: "as_lookup_index h root addr mode ?c (r - CAP_GUARD_BITS ?c) w' =
      Some (case index_spec addr ?c (r - CAP_GUARD_BITS ?c) of
        None \<Rightarrow> Fail | Some (s', r') \<Rightarrow> index_done h root mode s' r' w')"
    if "guard_spec addr r ?c" "r \<noteq> CAP_GUARD_BITS ?c" for w'
    using that assms GUARD_BITS_range [of "addr_trans ?c"]
    by (intro as_lookup_index_eq) (auto simp: guard_spec_def)
  have w: "(if ctype ?c = cap_rcappage then False else w) = (w \<and> ctype ?c \<noteq> cap_rcappage)"
    by simp
  have m: "guard_matches a addr r ?c = (if dump_asserts a r ?c then None else Some (guard_spec addr r ?c))"
    by (rule guard_matches_wide [OF assms(1-3), of addr ?c]) (use assms(4) in simp)
  show ?thesis
    unfolding as_lookup_step_def Let_def blocked w m chop_guard [OF assms(1-3)]
    using index by simp
qed

subsection \<open>The whole walk\<close>

definition guards_narrow :: "shadow_heap \<Rightarrow> ucap \<Rightarrow> bool" where
  "guards_narrow h root \<longleftrightarrow> (\<forall>s. CAP_GUARD_BITS (slot_cap h root s) \<le> 31)"

definition windows_wide :: "shadow_heap \<Rightarrow> ucap \<Rightarrow> bool" where
  "windows_wide h root \<longleftrightarrow> (\<forall>s. CAP_SUBPAGE_SIZE_LOG2 (slot_cap h root s) \<noteq> 0)"

lemma as_lookup_loop_total:
  assumes "windows_wide h root" "addr_depth a \<le> 63" and short: "\<And>s. CAP_GUARD_BITS (slot_cap h root s) \<le> 64 - addr_depth a"
    and "0 \<le> r" "r \<le> addr_depth a"
  shows "\<exists>y. as_lookup_loop h root a addr type mode s r w = Some y"
  using assms(4,5)
proof (induction "nat r" arbitrary: s r w rule: less_induct)
  case less
  show ?case
  proof (cases "r = 0")
    case True
    then show ?thesis by (simp add: as_lookup_loop.simps)
  next
    case False
    then have r: "0 < r" using less.prems by simp
    obtain x where x: "as_lookup_step h root a addr type mode s r w = Some x"
      and decr: "\<And>s' r' w'. x = Next s' r' w' \<Longrightarrow> 0 < r' \<and> r' < r"
      using as_lookup_step_total [OF r less.prems(2) assms(2), of h root s addr type mode w] assms(1)
        short [of s] r unfolding windows_wide_def dump_asserts_def by (smt (verit, best))
    show ?thesis
    proof (cases x)
      case (Next s' r' w')
      with decr have "0 < r'" "r' < r" by blast+
      with less.prems have "\<exists>y. as_lookup_loop h root a addr type mode s' r' w' = Some y"
        by (intro less.hyps) auto
      with Next x False show ?thesis by (simp add: as_lookup_loop.simps [of h root a addr type mode s r w])
    qed (use x False in \<open>simp_all add: as_lookup_loop.simps [of h root a addr type mode s r w]\<close>)
  qed
qed

lemma path_allowed_Cons: "path_allowed type (c # path) \<longleftrightarrow> path_allowed type [c] \<and> path_allowed type path"
  by (auto simp: path_allowed_def split: option.splits)

lemma path_writable_simps [simp]:
  "path_writable []" "path_writable (c # path) \<longleftrightarrow> ctype c \<noteq> cap_rcappage \<and> path_writable path"
  by (auto simp: path_writable_def)

lemma path_allowed_Nil [simp]: "path_allowed type []"
  by (simp add: path_allowed_def split: option.splits)

text \<open>Where the walk starts: no bits left means that the loop body is never entered.\<close>

definition walks_to ::
  "shadow_heap \<Rightarrow> ucap \<Rightarrow> u64 \<Rightarrow> as_lookup_mode \<Rightarrow> slot \<Rightarrow> int \<Rightarrow> slot \<Rightarrow> ucap list \<Rightarrow> bool" where
  "walks_to h root addr mode s r t path \<longleftrightarrow>
     (if r = 0 then t = s \<and> path = [] else resolves h root addr mode s r t path)"

lemma resolves_nonzero:
  "0 < r \<Longrightarrow> resolves h root addr mode s r t path \<longleftrightarrow>
     (let c = slot_cap h root s in
      guard_spec addr r c \<and>
      ((CAP_GUARD_BITS c = r \<and> t = s \<and> path = [c])
       \<or> (\<exists>s' r' path'. CAP_GUARD_BITS c < r \<and> index_spec addr c (r - CAP_GUARD_BITS c) = Some (s', r')
            \<and> resolves h root addr mode s' r' t path' \<and> path = c # path')))"
  by (subst resolves.simps) (auto simp: Let_def)

lemma resolves_0: "resolves h root addr mode s 0 t path \<longleftrightarrow>
    t = s \<and> path = [] \<and> (mode = as_lookup_want_object \<longrightarrow> CAP_GUARD_BITS (slot_cap h root s) = 0)"
  by (subst resolves.simps) auto

lemma loop_step:
  assumes "0 < r" "r \<le> addr_depth a" "addr_depth a \<le> 63" and "guards_narrow h root"
    and "\<not> dump_asserts a r (slot_cap h root s)"
  shows "as_lookup_loop h root a addr type mode s r w =
    (let c = slot_cap h root s; w = (w \<and> ctype c \<noteq> cap_rcappage) in
     if \<not> path_allowed type [c] \<or> \<not> guard_spec addr r c then Some None
     else if r = CAP_GUARD_BITS c then Some (Some (s, w))
     else case index_spec addr c (r - CAP_GUARD_BITS c) of
            None \<Rightarrow> Some None
          | Some (s', r') \<Rightarrow>
              if r' = 0 then
                (if CAP_GUARD_BITS (slot_cap h root s') \<noteq> 0 \<and> mode = as_lookup_want_object
                 then Some None else Some (Some (s', w)))
              else as_lookup_loop h root a addr type mode s' r' w)"
proof -
  have g: "CAP_GUARD_BITS (slot_cap h root s) \<le> 31" using assms(4) by (simp add: guards_narrow_def)
  show ?thesis
    using assms(1,5) as_lookup_step_eq [OF assms(1-3) g, of addr type mode w]
    by (subst as_lookup_loop.simps) (auto simp: Let_def index_done_def split: option.splits)
qed

text \<open>Soundness and completeness of the loop with respect to the reference semantics.\<close>

definition found ::
  "shadow_heap \<Rightarrow> ucap \<Rightarrow> u64 \<Rightarrow> cap_type option \<Rightarrow> as_lookup_mode \<Rightarrow> slot \<Rightarrow> int \<Rightarrow> bool \<Rightarrow> slot \<Rightarrow> bool \<Rightarrow> bool"
where
  "found h root addr type mode s r w t w' \<longleftrightarrow>
     (\<exists>path. walks_to h root addr mode s r t path \<and> path_allowed type path \<and> w' = (w \<and> path_writable path))"

lemma found_here: "found h root addr type mode s 0 w s w"
  by (auto simp: found_def walks_to_def)

lemma found_guard:
  "0 < r \<Longrightarrow> guard_spec addr r (slot_cap h root s) \<Longrightarrow> CAP_GUARD_BITS (slot_cap h root s) = r
   \<Longrightarrow> path_allowed type [slot_cap h root s]
   \<Longrightarrow> found h root addr type mode s r w s (w \<and> ctype (slot_cap h root s) \<noteq> cap_rcappage)"
  by (auto simp: found_def walks_to_def resolves_nonzero Let_def)

lemma found_hop:
  assumes "0 < r" "c = slot_cap h root s" "guard_spec addr r c" "CAP_GUARD_BITS c < r"
    and "path_allowed type [c]" "index_spec addr c (r - CAP_GUARD_BITS c) = Some (s', r')"
    and "found h root addr type mode s' r' (w \<and> ctype c \<noteq> cap_rcappage) t w'"
    and "r' = 0 \<Longrightarrow> mode = as_lookup_want_object \<Longrightarrow> CAP_GUARD_BITS (slot_cap h root s') = 0"
  shows "found h root addr type mode s r w t w'"
proof -
  from assms(7) obtain path where path: "walks_to h root addr mode s' r' t path"
      "path_allowed type path" "w' = ((w \<and> ctype c \<noteq> cap_rcappage) \<and> path_writable path)"
    by (auto simp: found_def)
  have "resolves h root addr mode s' r' t path"
    using path(1) assms(8) by (auto simp: walks_to_def resolves_0 split: if_splits)
  with assms path have "walks_to h root addr mode s r t (c # path)"
    by (auto simp: walks_to_def resolves_nonzero Let_def)
  with path assms(5) show ?thesis
    by (auto simp: found_def path_allowed_Cons [of type c path] intro!: exI [of _ "c # path"])
qed

lemma loop_sound:
  assumes ret: "as_lookup_loop h root a addr type mode s r w = Some y"
  shows "guards_narrow h root \<longrightarrow> 0 \<le> r \<longrightarrow> r \<le> addr_depth a \<longrightarrow> addr_depth a \<le> 63 \<longrightarrow>
    (\<forall>t w'. y = Some (t, w') \<longrightarrow> found h root addr type mode s r w t w')"
proof (rule as_lookup_loop.raw_induct [OF _ ret, where P = "\<lambda>h root a addr type mode s r w y.
    guards_narrow h root \<longrightarrow> 0 \<le> r \<longrightarrow> r \<le> addr_depth a \<longrightarrow> addr_depth a \<le> 63 \<longrightarrow>
    (\<forall>t w'. y = Some (t, w') \<longrightarrow> found h root addr type mode s r w t w')"], intro impI allI)
  fix loop :: "shadow_heap \<Rightarrow> ucap \<Rightarrow> addr_t \<Rightarrow> u64 \<Rightarrow> cap_type option \<Rightarrow> as_lookup_mode \<Rightarrow> slot \<Rightarrow> int \<Rightarrow> bool
      \<Rightarrow> (slot \<times> bool) option option"
  fix h root a addr type mode s r w y t w'
  assume IH: "\<And>h root a addr type mode s r w y. loop h root a addr type mode s r w = Some y \<Longrightarrow>
      guards_narrow h root \<longrightarrow> 0 \<le> r \<longrightarrow> r \<le> addr_depth a \<longrightarrow> addr_depth a \<le> 63 \<longrightarrow>
      (\<forall>t w'. y = Some (t, w') \<longrightarrow> found h root addr type mode s r w t w')"
    and eq: "(if r = 0 then Some (Some (s, w))
      else as_lookup_step h root a addr type mode s r w \<bind>
        (\<lambda>x. case x of Fail \<Rightarrow> Some None | Done s' w' \<Rightarrow> Some (Some (s', w'))
             | Next s' r' w' \<Rightarrow> loop h root a addr type mode s' r' w')) = Some y"
    and g: "guards_narrow h root" and r: "0 \<le> r" "r \<le> addr_depth a" "addr_depth a \<le> 63" and y: "y = Some (t, w')"
  let ?c = "slot_cap h root s" and ?w = "w \<and> ctype (slot_cap h root s) \<noteq> cap_rcappage"
  show "found h root addr type mode s r w t w'"
  proof (cases "r = 0")
    case True
    with eq y show ?thesis by (auto simp: found_here)
  next
    case False
    with r have r0: "0 < r" by simp
    have gn: "CAP_GUARD_BITS ?c \<le> 31" using g by (simp add: guards_narrow_def)
    note step = as_lookup_step_eq [OF r0 r(2,3) gn, of addr type mode w]
    have ok: "path_allowed type [?c]" "guard_spec addr r ?c" "\<not> dump_asserts a r ?c"
      using eq False unfolding y step Let_def by (simp_all split: if_splits)
    show ?thesis
    proof (cases "r = CAP_GUARD_BITS ?c")
      case True
      have "Some (Some (s, ?w)) = Some (Some (t, w'))"
        using eq False True [symmetric] ok unfolding y step Let_def by auto
      then have "t = s" "w' = ?w" by auto
      with found_guard [OF r0 ok(2) True [symmetric] ok(1), of mode w] show ?thesis by (simp only:)
    next
      case nguard: False
      then have lt: "CAP_GUARD_BITS ?c < r" using ok(2) r0 by (auto simp: guard_spec_def)
      let ?x = "index_spec addr ?c (r - CAP_GUARD_BITS ?c)"
      have body: "(case (case ?x of None \<Rightarrow> Fail | Some (s', r') \<Rightarrow> index_done h root mode s' r' ?w) of
          Fail \<Rightarrow> Some None | Done s' w' \<Rightarrow> Some (Some (s', w'))
        | Next s' r' w' \<Rightarrow> loop h root a addr type mode s' r' w') = Some (Some (t, w'))"
        using eq False nguard ok unfolding y step Let_def by simp
      then obtain s' r' where sp: "?x = Some (s', r')" by (cases ?x) auto
      have r': "0 \<le> r'" "r' \<le> addr_depth a"
        using index_spec_range [OF sp] lt r GUARD_BITS_range [of "addr_trans ?c"] by auto
      show ?thesis
      proof (rule found_hop [OF r0 refl ok(2) lt ok(1) sp])
        show "found h root addr type mode s' r' ?w t w'"
        proof (cases "r' = 0")
          case True
          with body sp have "t = s'" "w' = ?w" by (auto simp: index_done_def split: if_splits)
          with True show ?thesis by (auto simp: found_here)
        next
          case False
          with body sp have "loop h root a addr type mode s' r' ?w = Some (Some (t, w'))"
            by (simp add: index_done_def)
          from IH [OF this] g r' r(3) show ?thesis by blast
        qed
      qed (use body sp in \<open>auto simp: index_done_def split: if_splits\<close>)
    qed
  qed
qed

lemma loop_complete:
  assumes "resolves h root addr mode s r t path" and g: "guards_narrow h root" and d: "addr_depth a \<le> 63"
  shows "r \<le> addr_depth a \<Longrightarrow> 0 < r \<Longrightarrow> path_allowed type path \<Longrightarrow>
     as_lookup_loop h root a addr type mode s r w = Some (Some (t, w \<and> path_writable path))"
  using assms(1)
proof (induction arbitrary: w rule: resolves.induct)
  case (at_guard r s)
  then show ?case using g by (simp add: loop_step [OF _ _ d g] dump_asserts_def Let_def)
next
  case (hop c s r s' r' t path)
  have ok: "path_allowed type [c]" "path_allowed type path"
    using hop.prems(3) by (simp_all add: path_allowed_Cons [of type c path])
  have r': "0 \<le> r'" "r' \<le> addr_depth a"
    using index_spec_range [OF hop.hyps(5)] hop.hyps(4) hop.prems(1)
      GUARD_BITS_range [of "addr_trans c"] by auto
  show ?case
  proof (cases "r' = 0")
    case True
    then have "t = s'" "path = []" "mode = as_lookup_want_object \<longrightarrow> CAP_GUARD_BITS (slot_cap h root s') = 0"
      using hop.hyps(6) by (auto simp: resolves_0)
    with True hop ok show ?thesis by (auto simp: loop_step [OF _ _ d g] dump_asserts_def Let_def)
  next
    case False
    with r' have "0 < r'" by simp
    note IH = hop.IH [OF r'(2) this ok(2), of "w \<and> ctype c \<noteq> cap_rcappage"]
    from False hop ok IH show ?thesis by (auto simp: loop_step [OF _ _ d g] dump_asserts_def Let_def conj_assoc)
  qed
qed simp

lemma loop_complete_0: "as_lookup_loop h root a addr type mode s 0 w = Some (Some (s, w))"
  by (simp add: as_lookup_loop.simps)

lemma loop_found:
  assumes "guards_narrow h root" "addr_depth a \<le> 63" "0 \<le> r" "r \<le> addr_depth a"
  shows "as_lookup_loop h root a addr type mode s r w = Some (Some (t, w')) \<longleftrightarrow>
    found h root addr type mode s r w t w'"
proof
  assume "as_lookup_loop h root a addr type mode s r w = Some (Some (t, w'))"
  from loop_sound [OF this] assms show "found h root addr type mode s r w t w'" by blast
next
  assume "found h root addr type mode s r w t w'"
  then obtain path where path: "walks_to h root addr mode s r t path" "path_allowed type path"
      "w' = (w \<and> path_writable path)" by (auto simp: found_def)
  show "as_lookup_loop h root a addr type mode s r w = Some (Some (t, w'))"
  proof (cases "r = 0")
    case True
    with path show ?thesis by (simp add: walks_to_def loop_complete_0)
  next
    case False
    with path assms loop_complete [OF _ assms(1,2)] show ?thesis by (simp add: walks_to_def)
  qed
qed

lemma depth_range:
  assumes "\<not> ADDR_IS_VOID a"
  shows "0 \<le> addr_depth a" "addr_depth a \<le> 63"
proof -
  obtain d where "addr_depth a = int d" "prefix_ok (addr_prefix a) d"
    using assms addr_decode unfolding not_void_raw by metis
  then show "0 \<le> addr_depth a" "addr_depth a \<le> 63" using prefix_ok_depth by auto
qed


definition lookup_bits :: "addr_t \<Rightarrow> u64" where
  "lookup_bits a = shr (addr_prefix a) (nat (ADDR_BITS - addr_depth a))"

text \<open>C7: The walk ends. If no capability has a window of zero index bits and no guard is longer than
  the address can be extended by (plus the one bit that is always left), a lookup of any non-void
  address returns: no assertion of the walker fails and the loop terminates.\<close>

theorem as_lookup_rel_returns:
  assumes "windows_wide h root" "\<not> ADDR_IS_VOID a"
    and "\<And>s. CAP_GUARD_BITS (slot_cap h root s) \<le> 64 - addr_depth a"
  shows "\<exists>y. as_lookup_rel h root a type mode = Some y"
proof -
  obtain y where "as_lookup_loop h root a (lookup_bits a) type mode Root (addr_depth a) True = Some y"
    using as_lookup_loop_total [OF assms(1) depth_range(2) [OF assms(2)] assms(3)
        depth_range(1) [OF assms(2)] order_refl] by metis
  then show ?thesis by (simp add: as_lookup_rel_def Let_def lookup_bits_def)
qed

lemma prefix_ok_push:
  assumes "unat (x :: u64) < 2 ^ d" "d \<le> 63"
  shows "prefix_ok (push_bit (63 - d) x) d"
  using assms(2) bit_word_lt_exp [OF assms(1)] unfolding prefix_ok_def
  by (fastforce simp: bit_push_bit_iff)

text \<open>Concrete capabilities for the examples: a root cappage whose slots all hold a page behind the
  four-bit guard 0xa.\<close>

definition example_trans :: "22 word \<Rightarrow> 4 word \<Rightarrow> 6 word \<Rightarrow> cap_addr_trans" where
  "example_trans g l d = \<lparr>guard_subpage = g, subpages_log2 = l, gdepth = d\<rparr>"

definition example_ucap :: "cap_type \<Rightarrow> cap_addr_trans \<Rightarrow> ptr option \<Rightarrow> ucap" where
  "example_ucap ty t p = \<lparr>ctype = ty, discardable = False, priority = 0, addr_trans = t, shadow = p\<rparr>"

definition example_root :: ucap where
  "example_root = example_ucap cap_cappage (example_trans 0 0 0) (Some 0)"

definition example_page :: ucap where
  "example_page = example_ucap cap_page (example_trans 0xa 0 4) None"

definition example_heap :: shadow_heap where
  "example_heap p i = example_page"

definition example_addr :: addr_t where
  "example_addr = addr_enc (push_bit 51 0x03a) 12"

lemmas example_defs = example_trans_def example_ucap_def example_root_def example_page_def
  example_heap_def CAP_ADDR_TRANS_GUARD_BITS_def CAP_ADDR_TRANS_GUARD_def
  CAP_ADDR_TRANS_SUBPAGE_SIZE_LOG2_def CAP_ADDR_TRANS_SUBPAGES_LOG2_def
  CAP_ADDR_TRANS_SUBPAGE_OFFSET_def CAP_ADDR_TRANS_SUBPAGE_def CAP_ADDR_TRANS_SUBPAGES_def shr_def

lemma example_addr_facts [simp]:
  "\<not> ADDR_IS_VOID example_addr" "addr_depth example_addr = 12" "lookup_bits example_addr = 0x03a"
proof -
  have ok: "prefix_ok (push_bit 51 0x03a) 12"
    using prefix_ok_push [of "0x03a" 12] by simp
  show "\<not> ADDR_IS_VOID example_addr" "addr_depth example_addr = 12"
    using addr_depth_enc [OF ok] by (simp_all add: example_addr_def addr_enc_not_void)
  then show "lookup_bits example_addr = 0x03a"
    using addr_prefix_enc [OF ok] by (simp add: lookup_bits_def example_addr_def ADDR_BITS_def shr_def)
qed

lemma example_slots: "slot_cap example_heap example_root s \<in> {example_root, example_page}"
  by (cases s) (simp_all add: example_heap_def)

lemma example_heap_ok: "guards_narrow example_heap example_root" "windows_wide example_heap example_root"
proof -
  have "CAP_GUARD_BITS (slot_cap example_heap example_root s) \<le> 31
      \<and> CAP_SUBPAGE_SIZE_LOG2 (slot_cap example_heap example_root s) \<noteq> 0" for s
    using example_slots [of s] by (auto simp: example_defs)
  then show "guards_narrow example_heap example_root" "windows_wide example_heap example_root"
    by (simp_all add: guards_narrow_def windows_wide_def)
qed

theorem as_lookup_rel_returns_witness:
  "\<exists>y. as_lookup_rel example_heap example_root example_addr (Some cap_page) as_lookup_want_object = Some y"
  using guards_narrow_def example_heap_ok(1)
  by (intro as_lookup_rel_returns) (auto simp: example_heap_ok(2) intro: order_trans)

lemma as_lookup_finish_eq:
  "as_lookup_finish h root type mode t w = Some (ret, w') \<longleftrightarrow>
     (type = None \<or> type = Some (ctype (slot_cap h root t))
      \<or> map_option cap_type_strengthen type = Some (ctype (slot_cap h root t)))
     \<and> ret = (if mode = as_lookup_want_slot then Capp t else CapVal (slot_cap h root t))
     \<and> w' = (w \<and> \<not> (mode = as_lookup_want_object \<and> cap_type_weak_p (ctype (slot_cap h root t))))"
  by (cases type) (auto simp: as_lookup_finish_def Let_def)

lemma as_lookup_rel_iff:
  "as_lookup_rel h root a type mode = Some (Some (ret, w)) \<longleftrightarrow>
      (\<exists>t w'. as_lookup_loop h root a (lookup_bits a) type mode Root (addr_depth a) True = Some (Some (t, w'))
         \<and> as_lookup_finish h root type mode t w' = Some (ret, w))"
  by (auto simp: as_lookup_rel_def Let_def lookup_bits_def bind_eq_Some_conv split: option.splits)

text \<open>C1: The walker implements address translation. On a heap whose guards have at most 31 bits, a
  lookup succeeds exactly when the reference semantics translates the whole address, the path does
  not pass a read-only cappage for a strong type, and the type of the slot reached is the requested
  type or its strong form. The result is that slot (or the capability in it), and it is writable
  exactly when no read-only cappage was passed and, for an object lookup, its type is strong.\<close>

theorem as_lookup_rel_correct:
  assumes "guards_narrow h root" "\<not> ADDR_IS_VOID a"
  shows "as_lookup_rel h root a type mode = Some (Some (ret, w)) \<longleftrightarrow>
    (\<exists>t path. walks_to h root (lookup_bits a) mode Root (addr_depth a) t path
       \<and> path_allowed type path
       \<and> (type = None \<or> type = Some (ctype (slot_cap h root t))
          \<or> map_option cap_type_strengthen type = Some (ctype (slot_cap h root t)))
       \<and> ret = (if mode = as_lookup_want_slot then Capp t else CapVal (slot_cap h root t))
       \<and> w = (path_writable path
              \<and> \<not> (mode = as_lookup_want_object \<and> cap_type_weak_p (ctype (slot_cap h root t)))))"
proof -
  have "as_lookup_rel h root a type mode = Some (Some (ret, w)) \<longleftrightarrow> (\<exists>t path. walks_to h root (lookup_bits a) mode Root (addr_depth a) t path
      \<and> path_allowed type path \<and> as_lookup_finish h root type mode t (path_writable path) = Some (ret, w))"
    unfolding as_lookup_rel_iff loop_found [OF assms(1) depth_range(2,1) [OF assms(2)] order_refl] found_def by auto
  then show ?thesis unfolding as_lookup_finish_eq .
qed

lemma example_walk:
  "walks_to example_heap example_root 0x03a mode Root 12 (Slot 0 3) [example_root, example_page]"
proof -
  have page: "resolves example_heap example_root 0x03a mode (Slot 0 3) 4 (Slot 0 3) [example_page]"
    using resolves.at_guard [of 4 "0x03a" example_heap example_root "Slot 0 3" mode]
    by (simp add: guard_spec_def example_defs field_def)
  have "resolves example_heap example_root 0x03a mode Root 12 (Slot 0 3) [example_root, example_page]"
    by (rule resolves.hop [OF _ _ _ _ _ page])
      (simp_all add: guard_spec_def index_spec_def Let_def example_defs field_def)
  then show ?thesis by (simp add: walks_to_def)
qed

theorem as_lookup_rel_correct_witness:
  "as_lookup_rel example_heap example_root example_addr (Some cap_rpage) as_lookup_want_slot
     = Some (Some (Capp (Slot 0 3), True))"
proof -
  have "as_lookup_rel example_heap example_root example_addr (Some cap_rpage) as_lookup_want_slot
     = Some (Some (Capp (Slot 0 3), True))"
    using as_lookup_rel_correct [OF example_heap_ok(1) example_addr_facts(1),
        of "Some cap_rpage" as_lookup_want_slot "Capp (Slot 0 3)" True]
      example_walk [of as_lookup_want_slot]
    by (auto simp: path_allowed_def example_defs cap_type_weak_p_def cap_type_strengthen_def
        intro!: exI [of _ "Slot 0 3"] exI [of _ "[example_root, example_page]"])
  then show ?thesis .
qed

subsection \<open>Write access\<close>

lemma as_lookup_step_strong:
  assumes "as_lookup_step h root a addr (Some ty) mode s r w = Some x" "\<not> cap_type_weak_p ty"
  shows "x = Fail \<or> (\<exists>s'. x = Done s' w) \<or> (\<exists>s' r'. x = Next s' r' w)"
  using assms
  by (auto simp: as_lookup_step_def as_lookup_index_def index_done_def Let_def bind_eq_Some_conv
      split: if_splits option.splits)

lemma loop_strong:
  assumes ret: "as_lookup_loop h root a addr type mode s r w = Some y"
  shows "\<forall>ty t w'. type = Some ty \<longrightarrow> \<not> cap_type_weak_p ty \<longrightarrow> y = Some (t, w') \<longrightarrow> w' = w"
proof (rule as_lookup_loop.raw_induct [OF _ ret, where P = "\<lambda>h root a addr type mode s r w y.
    \<forall>ty t w'. type = Some ty \<longrightarrow> \<not> cap_type_weak_p ty \<longrightarrow> y = Some (t, w') \<longrightarrow> w' = w"], intro impI allI)
  fix loop :: "shadow_heap \<Rightarrow> ucap \<Rightarrow> addr_t \<Rightarrow> u64 \<Rightarrow> cap_type option \<Rightarrow> as_lookup_mode \<Rightarrow> slot \<Rightarrow> int \<Rightarrow> bool
      \<Rightarrow> (slot \<times> bool) option option"
  fix h root a addr type mode s r w y ty t w'
  assume IH: "\<And>h root a addr type mode s r w y. loop h root a addr type mode s r w = Some y \<Longrightarrow>
      \<forall>ty t w'. type = Some ty \<longrightarrow> \<not> cap_type_weak_p ty \<longrightarrow> y = Some (t, w') \<longrightarrow> w' = w"
    and eq: "(if r = 0 then Some (Some (s, w))
      else as_lookup_step h root a addr type mode s r w \<bind>
        (\<lambda>x. case x of Fail \<Rightarrow> Some None | Done s' w' \<Rightarrow> Some (Some (s', w'))
             | Next s' r' w' \<Rightarrow> loop h root a addr type mode s' r' w')) = Some y"
    and ty: "type = Some ty" "\<not> cap_type_weak_p ty" and y: "y = Some (t, w')"
  show "w' = w"
  proof (cases "r = 0")
    case False
    then obtain x where x: "as_lookup_step h root a addr (Some ty) mode s r w = Some x"
      and k: "(case x of Fail \<Rightarrow> Some None | Done s' w' \<Rightarrow> Some (Some (s', w'))
             | Next s' r' w' \<Rightarrow> loop h root a addr (Some ty) mode s' r' w') = Some (Some (t, w'))"
      using eq by (auto simp: ty y bind_eq_Some_conv)
    from as_lookup_step_strong [OF x ty(2)] k ty IH show ?thesis by fastforce
  qed (use eq y in simp)
qed

text \<open>C8: Write access is never made up. If a lookup for a strong type succeeds, on any heap, the
  capability found has exactly that type and the walk reports it writable: it passed no read-only
  cappage.\<close>

theorem as_lookup_rel_strong_writable:
  assumes "as_lookup_rel h root a (Some ty) mode = Some (Some (ret, w))" "\<not> cap_type_weak_p ty"
  shows "w \<and> (\<exists>t. ctype (slot_cap h root t) = ty
     \<and> ret = (if mode = as_lookup_want_slot then Capp t else CapVal (slot_cap h root t)))"
proof -
  from assms(1) obtain t w' where
    loop: "as_lookup_loop h root a (lookup_bits a) (Some ty) mode Root (addr_depth a) True = Some (Some (t, w'))"
    and fin: "as_lookup_finish h root (Some ty) mode t w' = Some (ret, w)"
    by (auto simp: as_lookup_rel_iff)
  from loop_strong [OF loop] assms(2) have "w'" by blast
  moreover have "cap_type_strengthen ty = ty"
    using assms(2) by (cases ty) (simp_all add: cap_type_strengthen_def cap_type_weak_p_def)
  ultimately show ?thesis using fin assms(2) unfolding as_lookup_finish_eq by auto
qed

theorem as_lookup_rel_strong_writable_witness:
  "\<exists>ret w. as_lookup_rel example_heap example_root example_addr (Some cap_page) as_lookup_want_object
       = Some (Some (ret, w)) \<and> w"
proof -
  have "as_lookup_rel example_heap example_root example_addr (Some cap_page) as_lookup_want_object
     = Some (Some (CapVal example_page, True))"
    unfolding as_lookup_rel_iff example_addr_facts(2,3)
  proof (intro exI conjI)
    show "as_lookup_loop example_heap example_root example_addr 0x03a (Some cap_page) as_lookup_want_object Root 12 True
        = Some (Some (Slot 0 3, True))"
      using loop_found [OF example_heap_ok(1), of example_addr 12] example_walk [of as_lookup_want_object]
      by (auto simp: found_def path_allowed_def path_writable_def example_root_def example_page_def
          example_ucap_def intro!: exI [of _ "[example_root, example_page]"])
  qed (simp add: as_lookup_finish_def example_heap_def example_page_def example_ucap_def cap_type_weak_p_def)
  from this as_lookup_rel_strong_writable [OF this] show ?thesis by (auto simp: cap_type_weak_p_def)
qed

subsection \<open>Walks that do not end\<close>

lemma self_window_step:
  assumes "ctype c = cap_cappage" "CAP_GUARD_BITS c = 0" "CAP_SUBPAGE_SIZE_LOG2 c = 0"
    and "shadow c = Some p" "slot_cap h root s = c" "0 < r" "r \<le> addr_depth a" "addr_depth a \<le> 63"
  shows "as_lookup_step h root a addr type mode s r w = Some (Next (Slot p (nat (CAP_SUBPAGE_OFFSET c))) r w)"
proof -
  have "index_spec addr c r = Some (Slot p (nat (CAP_SUBPAGE_OFFSET c)), r)"
    using assms by (simp add: index_spec_def field_def)
  with assms as_lookup_step_eq [of r a h root s] show ?thesis
    by (auto simp: Let_def guard_spec_def index_done_def path_allowed_def dump_asserts_def
        split: option.splits)
qed

text \<open>A cappage capability whose window is a single slot translates no bits. If that slot holds
  the capability itself, the walk never returns, whatever address is looked up.\<close>

theorem as_lookup_rel_diverges:
  assumes c: "ctype c = cap_cappage" "CAP_GUARD_BITS c = 0" "CAP_SUBPAGE_SIZE_LOG2 c = 0" "shadow c = Some p"
    and self: "h p (nat (CAP_SUBPAGE_OFFSET c)) = c"
    and a: "\<not> ADDR_IS_VOID a" "0 < addr_depth a"
  shows "as_lookup_rel h c a type mode = None"
proof -
  let ?looping = "\<lambda>h' root' a' s r. h' = h \<and> root' = c \<and> slot_cap h c s = c \<and> 0 < r
      \<and> r \<le> addr_depth a' \<and> addr_depth a' \<le> 63"
  have no: "\<not> ?looping h' root' a' s r" if "as_lookup_loop h' root' a' addr ty m s r w = Some y"
    for h' root' a' addr ty m s r w y
  proof (rule as_lookup_loop.raw_induct [OF _ that, where P = "\<lambda>h' root' a' addr ty m s r w y.
        \<not> ?looping h' root' a' s r"])
    fix loop :: "shadow_heap \<Rightarrow> ucap \<Rightarrow> addr_t \<Rightarrow> u64 \<Rightarrow> cap_type option \<Rightarrow> as_lookup_mode \<Rightarrow> slot \<Rightarrow> int \<Rightarrow> bool
      \<Rightarrow> (slot \<times> bool) option option"
    fix h' root' a' addr ty m s r w y
    assume IH: "\<And>h' root' a' addr ty m s r w y. loop h' root' a' addr ty m s r w = Some y
        \<Longrightarrow> \<not> ?looping h' root' a' s r"
      and eq: "(if r = 0 then Some (Some (s, w))
      else as_lookup_step h' root' a' addr ty m s r w \<bind>
        (\<lambda>x. case x of Fail \<Rightarrow> Some None | Done s' w' \<Rightarrow> Some (Some (s', w'))
             | Next s' r' w' \<Rightarrow> loop h' root' a' addr ty m s' r' w')) = Some y"
    show "\<not> ?looping h' root' a' s r"
    proof
      assume l: "?looping h' root' a' s r"
      let ?s = "Slot p (nat (CAP_SUBPAGE_OFFSET c))"
      have "as_lookup_step h c a' addr ty m s r w = Some (Next ?s r w)"
        using l by (intro self_window_step [OF c]) auto
      with eq l have "loop h c a' addr ty m ?s r w = Some y" by simp
      from IH [OF this] l self show False by simp
    qed
  qed
  have "as_lookup_loop h c a (lookup_bits a) type mode Root (addr_depth a) True = None"
    using no [of h c a "lookup_bits a" type mode Root "addr_depth a" True] a depth_range [OF a(1)]
    by (cases "as_lookup_loop h c a (lookup_bits a) type mode Root (addr_depth a) True") auto
  then show ?thesis by (simp add: as_lookup_rel_def Let_def lookup_bits_def)
qed

theorem as_lookup_rel_diverges_witness:
  "as_lookup_rel (\<lambda>p i. example_ucap cap_cappage (example_trans 5 8 0) (Some 0))
     (example_ucap cap_cappage (example_trans 5 8 0) (Some 0)) example_addr None as_lookup_want_cap = None"
  by (rule as_lookup_rel_diverges [where p = 0]) (simp_all add: example_defs)

subsection \<open>Lookups that stop the program\<close>

lemma example_hop:
  "as_lookup_step h example_root example_addr 0x03a None mode Root 12 True = Some (Next (Slot 0 3) 4 True)"
  using as_lookup_step_eq [of 12 example_addr h example_root Root "0x03a" None mode True]
  by (simp add: example_defs dump_asserts_def path_allowed_def guard_spec_def index_spec_def Let_def
      field_def index_done_def)

text \<open>A failed lookup can stop the program. The slot found for the leading bits of an address holds
  a capability whose guard is longer than the bits that are left; such a capability is well formed.
  The walk does not just fail: the debugging output of the repeated walk builds the address below the
  guard, which has more than 63 bits, and the assertion in \<open>ADDR\<close> fails.\<close>

theorem as_lookup_rel_dump_asserts:
  assumes "55 < uint g"
  shows "as_lookup_rel (\<lambda>p i. example_ucap cap_page (example_trans 0 0 g) None) example_root
     example_addr None mode = None"
proof -
  let ?h = "\<lambda>p i. example_ucap cap_page (example_trans 0 0 g) None"
  let ?c = "slot_cap ?h example_root (Slot 0 3)"
  have "dump_asserts example_addr 4 ?c"
    using assms by (simp add: dump_asserts_def example_defs)
  moreover obtain b where "guard_matches example_addr 0x03a 4 ?c
      = (if dump_asserts example_addr 4 ?c then None else Some b)"
    using guard_matches_wide [of 4 example_addr "0x03a" ?c] by force
  ultimately have "guard_matches example_addr 0x03a 4 ?c = None" by simp
  then have "as_lookup_step ?h example_root example_addr 0x03a None mode (Slot 0 3) 4 True = None"
    by (simp add: as_lookup_step_def)
  then have "as_lookup_loop ?h example_root example_addr 0x03a None mode Root 12 True = None"
    using example_hop [of ?h mode] by (simp add: as_lookup_loop.simps)
  then show ?thesis
    unfolding as_lookup_rel_def Let_def lookup_bits_def [symmetric] by (simp only: example_addr_facts) simp
qed

theorem as_lookup_rel_dump_asserts_witness:
  "as_lookup_rel (\<lambda>p i. example_ucap cap_page (example_trans 0 0 60) None) example_root
     example_addr None as_lookup_want_cap = None"
  by (rule as_lookup_rel_dump_asserts) simp

subsection \<open>Guards wider than an int\<close>

definition wide_page :: ucap where
  "wide_page = example_ucap cap_page (example_trans 0 0 33) None"

definition wide_addr :: addr_t where
  "wide_addr = addr_enc (push_bit 30 0x100000000) 33"

lemma wide_addr_facts:
  "\<not> ADDR_IS_VOID wide_addr" "addr_depth wide_addr = 33" "lookup_bits wide_addr = 0x100000000"
proof -
  have ok: "prefix_ok (push_bit 30 0x100000000) 33"
    using prefix_ok_push [of "0x100000000" 33] by simp
  show "\<not> ADDR_IS_VOID wide_addr" "addr_depth wide_addr = 33"
    using addr_depth_enc [OF ok] by (simp_all add: wide_addr_def addr_enc_not_void)
  then show "lookup_bits wide_addr = 0x100000000"
    using addr_prefix_enc [OF ok] by (simp add: lookup_bits_def wide_addr_def ADDR_BITS_def shr_def)
qed

text \<open>The walker keeps the address bits it compares with a guard in a 32-bit \<open>int\<close>. A page behind
  a guard of 33 zero bits is therefore found at the 33-bit address whose top bit is set, which
  differs from the guard: two addresses alias. The reference semantics does not translate it.\<close>

theorem as_lookup_rel_wide_guard_alias:
  "as_lookup_rel h wide_page wide_addr None as_lookup_want_object = Some (Some (CapVal wide_page, True))
   \<and> (\<nexists>t path. walks_to h wide_page (lookup_bits wide_addr) as_lookup_want_object Root
                  (addr_depth wide_addr) t path)"
proof
  have "guard_matches wide_addr 0x100000000 33 wide_page = Some True"
    by (simp add: guard_matches_def wide_page_def example_defs extract_bits64_inv_def extract_bits64_def
        shl_def)
  then have "as_lookup_step h wide_page wide_addr 0x100000000 None as_lookup_want_object Root 33 True
      = Some (Done Root True)"
    by (simp add: as_lookup_step_def Let_def) (simp add: wide_page_def example_defs)
  then have "as_lookup_loop h wide_page wide_addr 0x100000000 None as_lookup_want_object Root 33 True
      = Some (Some (Root, True))"
    by (simp add: as_lookup_loop.simps)
  then show "as_lookup_rel h wide_page wide_addr None as_lookup_want_object
      = Some (Some (CapVal wide_page, True))"
    unfolding as_lookup_rel_iff wide_addr_facts
    by (auto simp: as_lookup_finish_def) (simp_all add: wide_page_def example_ucap_def cap_type_weak_p_def)
  have "\<not> guard_spec 0x100000000 33 wide_page"
    by (simp add: guard_spec_def wide_page_def example_defs field_def)
  then show "\<nexists>t path. walks_to h wide_page (lookup_bits wide_addr) as_lookup_want_object Root
                  (addr_depth wide_addr) t path"
    unfolding wide_addr_facts walks_to_def by (simp add: resolves_nonzero Let_def)
qed

subsection \<open>Placing the next cappage\<close>

lemma dvd_shrink_guard: "8 dvd (u - (g - (8 - (u - g - 19) mod 8)) - 19)" for u g :: int
proof -
  have "u - (g - (8 - (u - g - 19) mod 8)) - 19 = 8 + ((u - g - 19) - (u - g - 19) mod 8)" by simp
  also have "8 dvd \<dots>" by (intro dvd_add) (simp_all add: minus_mod_eq_mult_div)
  finally show ?thesis .
qed

definition gbits_choice :: "int \<Rightarrow> int \<Rightarrow> int" where
  "gbits_choice u g = (if u \<le> 12 then g else if u - g \<le> 12 then u - 12
     else if u - g \<le> 7 + 12 then u - 7 - 12
     else let to_remove = 12 - 4 - (u - g - 7 - 12) mod (12 - 4)
          in if to_remove < g then g - to_remove else 0)"

lemma gbits_choice_eq:
  "gbits_choice u g = (if u \<le> 12 then g else if u - g \<le> 12 then u - 12
     else if u - g \<le> 19 then u - 19
     else if 8 - (u - g - 19) mod 8 < g then g - (8 - (u - g - 19) mod 8) else 0)"
proof -
  have "u - g - 7 - 12 = u - g - 19" "u - 7 - 12 = u - 19" by simp_all
  then show ?thesis by (simp only: gbits_choice_def Let_def) simp
qed

lemma as_compute_gbits_cappage_eq:
  "as_compute_gbits_cappage u t g =
     (if u > 0 \<and> t > 0 \<and> g \<ge> 0 \<and> u \<ge> t \<and> u \<ge> g \<and> t \<ge> g \<and> gbits_choice u g \<ge> 0
      then Some (gbits_choice u g, min (t - gbits_choice u g) (if u - gbits_choice u g = 19 then 7 else 8))
      else None)"
  unfolding as_compute_gbits_cappage_def PAGESIZE_LOG2_def FOLIO_OBJECTS_LOG2_def CAPPAGE_SLOTS_LOG2_def
  unfolding Let_def c_assert_bind_if
  unfolding gbits_choice_def [unfolded Let_def, symmetric]
  by (auto simp: min_def)

text \<open>C40: Guard computation. For the widths the address-space code uses (all the bits left to
  translate lie above a page, and either a whole folio lies below or the guard leads to the page),
  the guard never grows, it fits the bits that are to be translated together with the width of the
  object, and the object lands on a boundary: the bits that remain below the guard are those of a
  page, those of a folio, or a whole number of cappages above a folio, unless the guard is empty.\<close>

theorem as_compute_gbits_cappage_spec:
  assumes "0 \<le> g" "g \<le> t" "0 < t" "t \<le> u" "u \<le> 12 \<or> 19 \<le> u \<or> u - 12 \<le> g"
  shows "\<exists>g' w. as_compute_gbits_cappage u t g = Some (g', w)
    \<and> 0 \<le> g' \<and> g' \<le> g \<and> 0 \<le> w \<and> w \<le> 8 \<and> g' + w \<le> t
    \<and> (12 < u \<longrightarrow> g' = 0 \<or> u - g' = 12 \<or> (19 \<le> u - g' \<and> 8 dvd (u - g' - 19)))"
proof -
  have range: "0 \<le> gbits_choice u g" "gbits_choice u g \<le> g"
    using assms pos_mod_bound [of 8 "u - g - 19"] pos_mod_sign [of 8 "u - g - 19"]
    by (auto simp: gbits_choice_eq)
  have "12 < u \<longrightarrow> gbits_choice u g = 0 \<or> u - gbits_choice u g = 12
      \<or> (19 \<le> u - gbits_choice u g \<and> 8 dvd (u - gbits_choice u g - 19))"
    using dvd_shrink_guard [of u g] pos_mod_bound [of 8 "u - g - 19"]
    by (auto simp: gbits_choice_eq)
  with assms range show ?thesis by (auto simp: as_compute_gbits_cappage_eq)
qed

theorem as_compute_gbits_cappage_spec_witness:
  "\<exists>g' w. as_compute_gbits_cappage 63 51 44 = Some (g', w) \<and> g' + w \<le> 51 \<and> 8 dvd (63 - g' - 19)"
  using as_compute_gbits_cappage_spec [of 44 51 63]
  by (auto simp: as_compute_gbits_cappage_eq gbits_choice_eq)

text \<open>With more than a page but less than a folio of untranslated bits, a short maximal guard
  makes the computed guard negative and the assertion of the function fails.\<close>

theorem as_compute_gbits_cappage_asserts:
  assumes "12 < u" "u < 19" "0 \<le> g" "g < u - 12"
  shows "as_compute_gbits_cappage u t g = None"
  using assms by (simp add: as_compute_gbits_cappage_eq gbits_choice_eq)

theorem as_compute_gbits_cappage_asserts_witness: "as_compute_gbits_cappage 15 3 2 = None"
  by (rule as_compute_gbits_cappage_asserts) simp_all

end
