(* ===== verification/Bit_Array.thy ===== *)
theory Bit_Array
  imports Prelude
begin

text \<open>
  The bit arrays of \<^verbatim>\<open>libbitarray/bit-array.h\<close>: an array of bytes, whose bit \<open>i\<close> is bit
  \<open>i mod 8\<close> of byte \<open>i div 8\<close>. They hold the per-object flags of a folio and the free lists of the
  storage and capability allocators.

  The array is a list of 8-bit words. Reading or writing a byte outside the list has no meaning in C;
  the accessors give \<open>None\<close> there. The search of \<open>bit_alloc\<close>, a loop that starts in the middle of its
  body for an unaligned start bit, is \<open>bit_alloc_loop\<close>.
\<close>

subsection \<open>Operations\<close>

definition byte_at :: "u8 list \<Rightarrow> int \<Rightarrow> u8 option" where
  "byte_at array i = (if 0 \<le> i \<and> i < int (length array) then Some (array ! nat i) else None)"

definition byte_set :: "u8 list \<Rightarrow> int \<Rightarrow> u8 \<Rightarrow> u8 list option" where
  "byte_set array i b = (if 0 \<le> i \<and> i < int (length array) then Some (array[nat i := b]) else None)"

definition bit_mask :: "int \<Rightarrow> u8" where
  "bit_mask bitno = shl 1 (nat (bitno AND 7))"

definition bit_set :: "u8 list \<Rightarrow> int \<Rightarrow> int \<Rightarrow> (bool \<times> u8 list) option" where
  "bit_set array len bitno = do {
     c_assert (bitno \<ge> 0);
     c_assert (bitno < len * 8);
     b \<leftarrow> byte_at array (bitno div 8);
     if b AND bit_mask bitno \<noteq> 0 then Some (False, array)
     else do {
       array \<leftarrow> byte_set array (bitno div 8) (b OR bit_mask bitno);
       Some (True, array)
     }
   }"

definition bit_set_to :: "u8 list \<Rightarrow> int \<Rightarrow> int \<Rightarrow> bool \<Rightarrow> u8 list option" where
  "bit_set_to array len bitno val = do {
     c_assert (bitno \<ge> 0);
     c_assert (bitno < len * 8);
     b \<leftarrow> byte_at array (bitno div 8);
     byte_set array (bitno div 8) (if val then b OR bit_mask bitno else b AND NOT (bit_mask bitno))
   }"

definition first_free_bit :: "int list" where
  "first_free_bit = [0, 1, 0, 2, 0, 1, 0, 3, 0, 1, 0, 2, 0, 1, 0, -1]"

definition check_byte :: "u8 \<Rightarrow> int" where
  "check_byte byte =
     (let b = first_free_bit ! unat (byte AND 0xf) in
      if b \<noteq> -1 then b
      else let b = first_free_bit ! unat (shr byte 4) in
        if b \<noteq> -1 then 4 + b else -1)"

text \<open>The loop from its label \<open>check\<close> on, with the byte \<open>b\<close> to examine. \<open>Inl byte\<close> says that the loop
  ended at \<open>byte\<close> without a free bit.\<close>

partial_function (option) bit_alloc_loop ::
  "u8 list \<Rightarrow> int \<Rightarrow> int \<Rightarrow> int \<Rightarrow> u8 \<Rightarrow> (int + int \<times> u8 list) option" where
  "bit_alloc_loop array len start_byte byte b =
     (let bitno = check_byte b in
      if bitno \<noteq> -1 then do {
        old \<leftarrow> byte_at array byte;
        array \<leftarrow> byte_set array byte (old OR shl 1 (nat bitno));
        Some (Inr (byte * 8 + bitno, array))
      }
      else let byte = (if byte + 1 = len then 0 else byte + 1) in
        if byte = start_byte then Some (Inl byte)
        else do {
          b \<leftarrow> byte_at array byte;
          bit_alloc_loop array len start_byte byte b
        })"

definition bit_alloc :: "u8 list \<Rightarrow> int \<Rightarrow> int \<Rightarrow> (int \<times> u8 list) option" where
  "bit_alloc array len start_bit = do {
     c_assert (0 \<le> start_bit);
     c_assert (start_bit < len * 8);
     let start_byte = start_bit div 8;
     b \<leftarrow> byte_at array start_byte;
     let b = (if start_bit AND 7 \<noteq> 0 then b OR (shl 1 (nat (start_bit AND 7)) - 1) else b);
     r \<leftarrow> bit_alloc_loop array len start_byte start_byte b;
     case r of
       Inr res \<Rightarrow> Some res
     | Inl byte \<Rightarrow>
         if start_bit AND 7 \<noteq> 0 then do {
           old \<leftarrow> byte_at array byte;
           let bitno = check_byte (old OR NOT (shl 1 (nat (start_bit AND 7)) - 1));
           if bitno \<noteq> -1 then do {
             array \<leftarrow> byte_set array byte (old OR shl 1 (nat bitno));
             Some (byte * 8 + bitno, array)
           }
           else Some (-1, array)
         }
         else Some (-1, array)
   }"

definition bit_dealloc :: "u8 list \<Rightarrow> int \<Rightarrow> u8 list option" where
  "bit_dealloc array bitno = do {
     b \<leftarrow> byte_at array (bitno div 8);
     c_assert (b AND bit_mask bitno \<noteq> 0);
     byte_set array (bitno div 8) (b AND NOT (bit_mask bitno))
   }"

definition bit_test :: "u8 list \<Rightarrow> int \<Rightarrow> bool option" where
  "bit_test array bitno = do {
     b \<leftarrow> byte_at array (bitno div 8);
     Some (b AND bit_mask bitno \<noteq> 0)
   }"

subsection \<open>The set of bits\<close>

text \<open>The abstraction: the set of indices of the one bits.\<close>

definition bits_of :: "u8 list \<Rightarrow> nat set" where
  "bits_of array = {i. i < 8 * length array \<and> bit (array ! (i div 8)) (i mod 8)}"

lemma bits_of_less: "i \<in> bits_of array \<Longrightarrow> i < 8 * length array"
  by (simp add: bits_of_def)

lemma finite_bits_of [simp]: "finite (bits_of array)"
  by (rule finite_subset [of _ "{..<8 * length array}"]) (auto simp: bits_of_def)

lemma int_and_7 [simp]: "int i AND 7 = int (i mod 8)"
proof -
  have "int i AND 7 = take_bit 3 (int i)" by (simp add: take_bit_eq_mask mask_eq_exp_minus_1)
  then show ?thesis by (simp add: take_bit_eq_mod zmod_int)
qed

lemma bit_mask_nat [simp]: "bit_mask (int i) = shl 1 (i mod 8)"
  by (simp add: bit_mask_def)

lemma byte_nat [simp]:
  assumes "i < 8 * length array"
  shows "byte_at array (int i div 8) = Some (array ! (i div 8))"
    and "byte_set array (int i div 8) b = Some (array[i div 8 := b])"
proof -
  have "int i div 8 = int (i div 8)" by (simp add: zdiv_int)
  with assms show "byte_at array (int i div 8) = Some (array ! (i div 8))"
      "byte_set array (int i div 8) b = Some (array[i div 8 := b])"
    by (auto simp only: byte_at_def byte_set_def nat_int) auto
qed

lemma and_shl_1 [simp]: "b AND shl 1 j \<noteq> 0 \<longleftrightarrow> bit b j" for b :: u8
proof
  assume "bit b j"
  then have "bit (b AND shl 1 j) j" by (auto simp: c_bits dest: bit_imp_le_length)
  then show "b AND shl 1 j \<noteq> 0" by auto
qed (auto simp: word_neq_0_bit c_bits)

lemma bits_of_update:
  assumes "k < length array"
  shows "i \<in> bits_of (array[k := b]) \<longleftrightarrow> i < 8 * length array
    \<and> (if i div 8 = k then bit b (i mod 8) else i \<in> bits_of array)"
  using assms by (auto simp: bits_of_def nth_list_update)

lemma same_byte: "i div 8 = j div 8 \<Longrightarrow> i mod 8 = j mod 8 \<longleftrightarrow> i = j" for i j :: nat
  by (metis div_mult_mod_eq)

definition mark :: "u8 list \<Rightarrow> nat \<Rightarrow> u8 list" where
  "mark array i = array[i div 8 := array ! (i div 8) OR shl 1 (i mod 8)]"

definition clear :: "u8 list \<Rightarrow> nat \<Rightarrow> u8 list" where
  "clear array i = array[i div 8 := array ! (i div 8) AND NOT (shl 1 (i mod 8))]"

lemma length_mark [simp]: "length (mark array i) = length array"
  by (simp add: mark_def)

lemma length_clear [simp]: "length (clear array i) = length array"
  by (simp add: clear_def)

lemma bits_of_mark [simp]:
  assumes "i < 8 * length array"
  shows "bits_of (mark array i) = insert i (bits_of array)"
proof (rule set_eqI)
  fix j
  have k: "i div 8 < length array" using assms by auto
  show "j \<in> bits_of (mark array i) \<longleftrightarrow> j \<in> insert i (bits_of array)"
    using assms same_byte [of i j] unfolding mark_def bits_of_update [OF k]
    by (auto simp: c_bits bits_of_def)
qed

lemma bits_of_clear [simp]:
  assumes "i < 8 * length array"
  shows "bits_of (clear array i) = bits_of array - {i}"
proof (rule set_eqI)
  fix j
  have k: "i div 8 < length array" using assms by auto
  show "j \<in> bits_of (clear array i) \<longleftrightarrow> j \<in> bits_of array - {i}"
    using assms same_byte [of i j] unfolding clear_def bits_of_update [OF k]
    by (auto simp: c_bits bits_of_def)
qed

lemma bit_test_eq:
  "i < 8 * length array \<Longrightarrow> bit_test array (int i) = Some (i \<in> bits_of array)"
  by (simp add: bit_test_def bits_of_def)

lemma bit_set_eq:
  assumes "n \<le> length array" "i < 8 * n"
  shows "bit_set array (int n) (int i) = Some (i \<notin> bits_of array, mark array i)"
proof -
  have i: "i < 8 * length array" using assms by simp
  have "mark array i = array" if "i \<in> bits_of array"
    using that by (auto simp: mark_def bits_of_def c_bits intro!: list_update_same_conv [THEN iffD2] bit_word_eqI)
  then show ?thesis using assms i by (auto simp: bit_set_def mark_def bits_of_def)
qed

lemma bit_set_to_eq:
  "n \<le> length array \<Longrightarrow> i < 8 * n \<Longrightarrow>
   bit_set_to array (int n) (int i) v = Some (if v then mark array i else clear array i)"
  by (simp add: bit_set_to_def mark_def clear_def)

lemma bit_dealloc_eq:
  "i < 8 * length array \<Longrightarrow>
   bit_dealloc array (int i) = (if i \<in> bits_of array then Some (clear array i) else None)"
  by (auto simp: bit_dealloc_def clear_def bits_of_def c_assert_bind_if)

subsection \<open>The search\<close>

definition free_in_byte :: "u8 \<Rightarrow> nat option" where
  "free_in_byte b = List.find (\<lambda>j. \<not> bit b j) [0..<8]"

lemma check_byte_table:
  "list_all (\<lambda>n. check_byte (word_of_nat n) =
     (case free_in_byte (word_of_nat n) of None \<Rightarrow> -1 | Some j \<Rightarrow> int j)) [0..<256]"
  by code_simp

lemma check_byte_eq: "check_byte b = (case free_in_byte b of None \<Rightarrow> -1 | Some j \<Rightarrow> int j)"
proof -
  have "unat b \<in> set [0..<256]" using unsigned_less [of b] by simp
  with check_byte_table [unfolded list_all_iff, rule_format, OF this] show ?thesis
    by simp
qed

lemma find_append: "List.find P (xs @ ys) = (case List.find P xs of None \<Rightarrow> List.find P ys | Some x \<Rightarrow> Some x)"
  by (induction xs) auto

definition byte_bits :: "nat \<Rightarrow> nat list" where
  "byte_bits k = [8 * k..<8 * k + 8]"

lemma concat_byte_bits: "a \<le> b \<Longrightarrow> concat (map byte_bits [a..<b]) = [8 * a..<8 * b]"
proof (induction b)
  case (Suc b)
  then show ?case
    using upt_add_eq_append [of "8 * a" "8 * b" 8]
    by (cases "a = Suc b") (auto simp: byte_bits_def le_Suc_eq add.commute)
qed simp

lemma find_map: "List.find P (map f xs) = map_option f (List.find (\<lambda>x. P (f x)) xs)"
  by (induction xs) auto

lemma byte_bits_map: "byte_bits k = map (\<lambda>j. 8 * k + j) [0..<8]"
  by (auto simp: byte_bits_def add.commute map_add_upt [of "8 * k" 8, symmetric])

lemma find_byte_bits:
  assumes "k < length array"
  shows "List.find (\<lambda>i. i \<notin> bits_of array) (byte_bits k) = map_option (\<lambda>j. 8 * k + j) (free_in_byte (array ! k))"
proof -
  have "List.find (\<lambda>j. 8 * k + j \<notin> bits_of array) [0..<8] = List.find (\<lambda>j. \<not> bit (array ! k) j) [0..<8]"
    by (rule find_cong) (use assms in \<open>auto simp: bits_of_def\<close>)
  then show ?thesis by (simp add: byte_bits_map find_map free_in_byte_def)
qed

text \<open>The bytes the loop visits after byte \<open>k\<close>, and the bits it looks at there.\<close>

definition bytes_after :: "nat \<Rightarrow> nat \<Rightarrow> nat \<Rightarrow> nat list" where
  "bytes_after n sb k = (if k < sb then [Suc k..<sb] else [Suc k..<n] @ [0..<sb])"

lemma bytes_after_next:
  assumes "k < n" "sb < n" and k': "k' = (if Suc k = n then 0 else Suc k)"
  shows "bytes_after n sb k = (if k' = sb then [] else k' # bytes_after n sb k')"
  using assms by (auto simp: bytes_after_def upt_conv_Cons)

definition found_bit :: "u8 list \<Rightarrow> nat \<Rightarrow> int \<times> u8 list" where
  "found_bit array i = (int i, mark array i)"

lemma free_in_byte_less: "free_in_byte b = Some j \<Longrightarrow> j < 8"
  by (auto simp: free_in_byte_def find_upt_Some)

lemma byte_at_int: "k < length array \<Longrightarrow> byte_at array (int k) = Some (array ! k)"
  by (simp add: byte_at_def)

lemma byte_set_int: "k < length array \<Longrightarrow> byte_set array (int k) b = Some (array[k := b])"
  by (simp add: byte_set_def)

lemma found_bit_eq:
  assumes "j < 8"
  shows "found_bit array (8 * k + j) = (int k * 8 + int j, array[k := array ! k OR shl 1 j])"
  using assms by (simp add: found_bit_def mark_def)

lemma bit_alloc_loop_eq:
  assumes n: "n \<le> length array" "sb < n" and "k < n"
  shows "bit_alloc_loop array (int n) (int sb) (int k) b =
    Some (case free_in_byte b of Some j \<Rightarrow> Inr (found_bit array (8 * k + j))
      | None \<Rightarrow> (case List.find (\<lambda>i. i \<notin> bits_of array) (concat (map byte_bits (bytes_after n sb k))) of
          Some i \<Rightarrow> Inr (found_bit array i) | None \<Rightarrow> Inl (int sb)))"
  using assms(3)
proof (induction "length (bytes_after n sb k)" arbitrary: k b rule: less_induct)
  case less
  have k: "k < length array" using less.prems n by simp
  show ?case
  proof (cases "free_in_byte b")
    case (Some j)
    with k show ?thesis
      by (simp add: bit_alloc_loop.simps [of array "int n"] check_byte_eq byte_at_int byte_set_int
          found_bit_eq free_in_byte_less)
  next
    case None
    define k' where "k' = (if Suc k = n then 0 else Suc k)"
    have next_byte: "(if int k + 1 = int n then 0 else int k + 1) = int k'" by (auto simp: k'_def)
    note after = bytes_after_next [OF less.prems n(2) k'_def]
    have k': "k' < n" "k' < length array" using less.prems n by (auto simp: k'_def)
    show ?thesis
    proof (cases "k' = sb")
      case True
      with None after next_byte show ?thesis
        by (simp add: bit_alloc_loop.simps [of array "int n"] check_byte_eq)
    next
      case False
      then have "length (bytes_after n sb k') < length (bytes_after n sb k)" using after by simp
      from less.hyps [OF this k'(1), of "array ! k'"] False None after next_byte k' show ?thesis
        by (simp add: bit_alloc_loop.simps [of array "int n" "int sb" "int k"] check_byte_eq byte_at_int
            find_append find_byte_bits split: option.splits)
    qed
  qed
qed

lemma free_in_byte_high:
  assumes "m < 8"
  shows "free_in_byte (w OR (shl 1 m - 1)) = List.find (\<lambda>j. \<not> bit w j) [m..<8]"
proof -
  have split: "[0..<8] = [0..<m] @ [m..<8]" using upt_add_eq_append [of 0 m "8 - m"] assms by simp
  have "List.find (\<lambda>j. \<not> bit (w OR (shl 1 m - 1)) j) [0..<m] = None"
    using assms by (auto simp: find_upt_None c_bits)
  moreover have "List.find (\<lambda>j. \<not> bit (w OR (shl 1 m - 1)) j) [m..<8] = List.find (\<lambda>j. \<not> bit w j) [m..<8]"
    by (rule find_cong) (auto simp: c_bits)
  ultimately show ?thesis unfolding free_in_byte_def split by (simp add: find_append)
qed

lemma free_in_byte_low:
  assumes "m < 8"
  shows "free_in_byte (w OR NOT (shl 1 m - 1)) = List.find (\<lambda>j. \<not> bit w j) [0..<m]"
proof -
  have split: "[0..<8] = [0..<m] @ [m..<8]" using upt_add_eq_append [of 0 m "8 - m"] assms by simp
  have "List.find (\<lambda>j. \<not> bit (w OR NOT (shl 1 m - 1)) j) [m..<8] = None"
    by (auto simp: find_upt_None c_bits)
  moreover have "List.find (\<lambda>j. \<not> bit (w OR NOT (shl 1 m - 1)) j) [0..<m] = List.find (\<lambda>j. \<not> bit w j) [0..<m]"
    by (rule find_cong) (use assms in \<open>auto simp: c_bits\<close>)
  ultimately show ?thesis
    unfolding free_in_byte_def split by (simp add: find_append split: option.splits)
qed

lemma upt_shift: "[k + a..<k + b] = map (\<lambda>j. k + j) [a..<b]"
  by (induction b) auto

lemma find_bits_byte:
  assumes "k < length array" "b \<le> 8"
  shows "List.find (\<lambda>i. i \<notin> bits_of array) [8 * k + a..<8 * k + b]
    = map_option (\<lambda>j. 8 * k + j) (List.find (\<lambda>j. \<not> bit (array ! k) j) [a..<b])"
proof -
  have "[8 * k + a..<8 * k + b] = map (\<lambda>j. 8 * k + j) [a..<b]" by (rule upt_shift)
  moreover have "List.find (\<lambda>j. 8 * k + j \<notin> bits_of array) [a..<b] = List.find (\<lambda>j. \<not> bit (array ! k) j) [a..<b]"
    by (rule find_cong) (use assms in \<open>auto simp: bits_of_def\<close>)
  ultimately show ?thesis by (simp add: find_map)
qed

lemma search_order:
  assumes "s < 8 * n" "sb = s div 8"
  shows "[s..<8 * n] @ [0..<s] = [8 * sb + s mod 8..<8 * sb + 8] @ concat (map byte_bits (bytes_after n sb sb))
    @ [8 * sb + 0..<8 * sb + s mod 8]"
proof -
  have s: "8 * sb + s mod 8 = s" using assms by simp
  have "sb < n" using assms by auto
  then have "concat (map byte_bits (bytes_after n sb sb)) = [8 * sb + 8..<8 * n] @ [0..<8 * sb]"
    using concat_byte_bits [of "Suc sb" n] concat_byte_bits [of 0 sb] by (simp add: bytes_after_def add.commute)
  moreover have "[s..<8 * n] = [s..<8 * sb + 8] @ [8 * sb + 8..<8 * n]"
    using upt_add_eq_append [of s "8 * sb + 8" "8 * n - (8 * sb + 8)"] \<open>sb < n\<close> s mod_less_divisor [of 8 s]
    by simp
  moreover have "[0..<s] = [0..<8 * sb] @ [8 * sb..<s]"
    using upt_add_eq_append [of 0 "8 * sb" "s - 8 * sb"] s by simp
  ultimately show ?thesis by (simp add: s)
qed

lemma bit_alloc_eq:
  assumes "n \<le> length array" "s < 8 * n"
  shows "bit_alloc array (int n) (int s) = Some
    (case List.find (\<lambda>i. i \<notin> bits_of array) ([s..<8 * n] @ [0..<s]) of
       None \<Rightarrow> (-1, array) | Some i \<Rightarrow> (int i, mark array i))"
proof -
  define sb m where "sb = s div 8" and "m = s mod 8"
  have m: "m < 8" and sb: "sb < n" "sb < length array" using assms by (auto simp: m_def sb_def)
  let ?b = "array ! sb"
  have b: "(if int s AND 7 \<noteq> 0 then ?b OR (shl 1 (nat (int s AND 7)) - 1) else ?b) = ?b OR (shl 1 m - 1)"
    by (simp add: m_def shl_def)
  have low: "free_in_byte (?b OR NOT (shl 1 0 - 1)) = None"
    using free_in_byte_low [of 0 ?b] by simp
  have div: "int s div 8 = int sb" by (simp add: sb_def zdiv_int)
  have low_nat: "nat (int s AND 7) = m" "int s AND 7 \<noteq> 0 \<longleftrightarrow> m \<noteq> 0" by (simp_all add: m_def)
  note loop = bit_alloc_loop_eq [OF assms(1) sb(1) sb(1), of "?b OR (shl 1 m - 1)"]
  show ?thesis
    unfolding search_order [OF assms(2) sb_def] find_append
      find_bits_byte [OF sb(2) order_refl] find_bits_byte [OF sb(2) less_imp_le [OF m], unfolded m_def]
    unfolding m_def [symmetric] free_in_byte_high [OF m, symmetric] free_in_byte_low [OF m, symmetric]
    using assms m sb loop b low low_nat
    by (auto simp: bit_alloc_def div byte_at_int check_byte_eq byte_set_int found_bit_eq found_bit_def
        free_in_byte_less Let_def mark_def split: option.splits)
qed

subsection \<open>A set of allocated bits\<close>

text \<open>The contract the users of a bit array rely on: it is a finite set of bits below a capacity, in
  which a free bit can be found whenever there is one. \<open>start\<close> is where the search begins.\<close>

locale bit_allocator =
  fixes inv :: "'a \<Rightarrow> bool" and cap :: "'a \<Rightarrow> nat" and used :: "'a \<Rightarrow> nat set"
    and alloc :: "'a \<Rightarrow> nat \<Rightarrow> (nat \<times> 'a) option" and dealloc :: "'a \<Rightarrow> nat \<Rightarrow> 'a option"
  assumes used_bound: "inv a \<Longrightarrow> used a \<subseteq> {..<cap a}"
    and alloc_Some: "inv a \<Longrightarrow> s < cap a \<Longrightarrow> alloc a s = Some (i, a') \<Longrightarrow>
      inv a' \<and> cap a' = cap a \<and> i < cap a \<and> i \<notin> used a \<and> used a' = insert i (used a)"
    and alloc_None: "inv a \<Longrightarrow> s < cap a \<Longrightarrow> alloc a s = None \<Longrightarrow> used a = {..<cap a}"
    and dealloc_Some: "inv a \<Longrightarrow> i \<in> used a \<Longrightarrow>
      \<exists>a'. dealloc a i = Some a' \<and> inv a' \<and> cap a' = cap a \<and> used a' = used a - {i}"
begin

primrec alloc_many :: "nat \<Rightarrow> 'a \<Rightarrow> (nat list \<times> 'a) option" where
  "alloc_many 0 a = Some ([], a)"
| "alloc_many (Suc k) a = do {
     (i, a') \<leftarrow> alloc a 0;
     (is, a'') \<leftarrow> alloc_many k a';
     Some (i # is, a'')
   }"

lemma free_count: "inv a \<Longrightarrow> card (used a) \<le> cap a"
  using used_bound card_mono [of "{..<cap a}" "used a"] by fastforce

lemma alloc_succeeds:
  assumes "inv a" "s < cap a" "card (used a) < cap a"
  shows "\<exists>i a'. alloc a s = Some (i, a')"
  using alloc_None [OF assms(1,2)] assms(3) by (cases "alloc a s") auto

lemma finite_used: "inv a \<Longrightarrow> finite (used a)"
  using used_bound finite_subset by blast

theorem alloc_many_distinct:
  assumes "inv a" "card (used a) + k \<le> cap a"
  shows "\<exists>is a'. alloc_many k a = Some (is, a') \<and> length is = k \<and> distinct is
    \<and> set is \<inter> used a = {} \<and> inv a' \<and> cap a' = cap a \<and> used a' = set is \<union> used a"
  using assms
proof (induction k arbitrary: a)
  case (Suc k)
  then have c: "0 < cap a" "card (used a) < cap a" by auto
  obtain i a' where al: "alloc a 0 = Some (i, a')"
    using alloc_succeeds [OF Suc.prems(1) c] by blast
  note r = alloc_Some [OF Suc.prems(1) c(1) al]
  have "card (used a') + k \<le> cap a'"
    using r Suc.prems finite_used [OF Suc.prems(1)] by simp
  with Suc.IH [of a'] r obtain "is" a'' where "alloc_many k a' = Some (is, a'')" "length is = k" "distinct is"
      "set is \<inter> used a' = {}" "inv a''" "cap a'' = cap a'" "used a'' = set is \<union> used a'" by blast
  with al r show ?case by auto
qed simp

lemma alloc_dealloc:
  assumes "inv a" "s < cap a" "alloc a s = Some (i, a')"
  shows "\<exists>a''. dealloc a' i = Some a'' \<and> inv a'' \<and> cap a'' = cap a \<and> used a'' = used a"
  using alloc_Some [OF assms] dealloc_Some [of a' i] by auto

end

text \<open>The bit arrays provide it: the capacity is eight times the number of bytes.\<close>

definition bitmap_alloc :: "u8 list \<Rightarrow> nat \<Rightarrow> (nat \<times> u8 list) option" where
  "bitmap_alloc array s = (case bit_alloc array (int (length array)) (int s) of
     None \<Rightarrow> None | Some (i, array') \<Rightarrow> if i = -1 then None else Some (nat i, array'))"

definition bitmap_dealloc :: "u8 list \<Rightarrow> nat \<Rightarrow> u8 list option" where
  "bitmap_dealloc array i = bit_dealloc array (int i)"

lemma find_SomeD: "List.find P xs = Some x \<Longrightarrow> P x \<and> x \<in> set xs"
  by (induction xs) (auto split: if_splits)

lemma bitmap_alloc_eq:
  assumes "s < 8 * length array"
  shows "bitmap_alloc array s = map_option (\<lambda>i. (i, mark array i))
    (List.find (\<lambda>i. i \<notin> bits_of array) ([s..<8 * length array] @ [0..<s]))"
  using assms by (simp add: bitmap_alloc_def bit_alloc_eq split: option.splits)

interpretation bitmap: bit_allocator "\<lambda>_. True" "\<lambda>array. 8 * length array" bits_of bitmap_alloc bitmap_dealloc
proof
  fix a :: "u8 list" and s i a'
  show "bits_of a \<subseteq> {..<8 * length a}" by (auto dest: bits_of_less)
  show "True \<and> 8 * length a' = 8 * length a \<and> i < 8 * length a \<and> i \<notin> bits_of a \<and> bits_of a' = insert i (bits_of a)"
    if "s < 8 * length a" "bitmap_alloc a s = Some (i, a')"
    using that by (auto simp: bitmap_alloc_eq dest!: find_SomeD)
  show "bits_of a = {..<8 * length a}" if "s < 8 * length a" "bitmap_alloc a s = None"
    using that by (auto simp: bitmap_alloc_eq find_None_iff dest: bits_of_less)
  show "\<exists>a'. bitmap_dealloc a i = Some a' \<and> True \<and> 8 * length a' = 8 * length a \<and> bits_of a' = bits_of a - {i}"
    if "i \<in> bits_of a"
    using that bits_of_less [OF that] by (auto simp: bitmap_dealloc_def bit_dealloc_eq)
qed

text \<open>C19: \<open>bit_alloc\<close> finds the first free bit in cyclic order from the start bit, for every start bit
  inside or at the beginning of a byte: it returns that bit and sets it and nothing else, and it
  returns -1 and changes nothing exactly when all bits are set. No access is out of bounds and the
  loop ends.\<close>

theorem bit_alloc_first_free:
  assumes "n \<le> length array" "s < 8 * n"
  shows "\<exists>r array'. bit_alloc array (int n) (int s) = Some (r, array') \<and> length array' = length array
    \<and> (case List.find (\<lambda>i. i \<notin> bits_of array) ([s..<8 * n] @ [0..<s]) of
         None \<Rightarrow> r = -1 \<and> array' = array \<and> {..<8 * n} \<subseteq> bits_of array
       | Some i \<Rightarrow> r = int i \<and> bits_of array' = insert i (bits_of array) \<and> i < 8 * n)"
proof (cases "List.find (\<lambda>i. i \<notin> bits_of array) ([s..<8 * n] @ [0..<s])")
  case None
  then have "{..<8 * n} \<subseteq> bits_of array" by (force simp: find_None_iff)
  with None assms show ?thesis by (simp add: bit_alloc_eq)
next
  case (Some i)
  then have "i < 8 * n" using find_SomeD [OF Some] assms(2) by auto
  with Some assms show ?thesis by (simp add: bit_alloc_eq)
qed

theorem bit_alloc_first_free_witness:
  "\<exists>r array'. bit_alloc [0xff, 0xf7] 2 13 = Some (r, array') \<and> r = 11"
proof -
  have "List.find (\<lambda>i. \<not> (i < 8 * length [0xff, 0xf7 :: u8] \<and> bit ([0xff, 0xf7 :: u8] ! (i div 8)) (i mod 8)))
      ([13..<8 * 2] @ [0..<13]) = Some 11" by code_simp
  then have "List.find (\<lambda>i. i \<notin> bits_of [0xff, 0xf7]) ([13..<8 * 2] @ [0..<13]) = Some 11"
    unfolding bits_of_def mem_Collect_eq .
  with bit_alloc_first_free [of 2 "[0xff, 0xf7]" 13] show ?thesis by auto
qed

text \<open>Bit arrays are sets: setting, testing, clearing and releasing a bit act on the set of one bits
  as insertion, membership and deletion; releasing a bit that is not set fails the assertion.\<close>

theorem bit_array_set_semantics:
  assumes "n \<le> length array" "i < 8 * n"
  shows "\<exists>a1 a2. bit_set array (int n) (int i) = Some (i \<notin> bits_of array, a1)
    \<and> bit_set_to array (int n) (int i) True = Some a1
    \<and> bit_set_to array (int n) (int i) False = Some a2
    \<and> bits_of a1 = insert i (bits_of array) \<and> bits_of a2 = bits_of array - {i}
    \<and> bit_test array (int i) = Some (i \<in> bits_of array)
    \<and> bit_dealloc array (int i) = (if i \<in> bits_of array then Some a2 else None)"
  using assms by (simp add: bit_set_eq bit_set_to_eq bit_test_eq bit_dealloc_eq)

theorem bit_array_set_semantics_witness:
  "\<exists>a1. bit_set [0, 1] 2 9 = Some (True, a1) \<and> bits_of a1 = {8, 9}"
proof -
  have "bits_of [0, 1] = {8}"
    by (auto simp: bits_of_def nth_Cons' bit_1_iff)
  moreover have "9 < 8 * (2 :: nat)" "2 \<le> length [0, 1 :: u8]" by simp_all
  ultimately show ?thesis
    using bit_array_set_semantics [of 2 "[0, 1]" 9] by auto
qed

end
