(* ===== verification/Circular_List.thy ===== *)
theory Circular_List
  imports Prelude
begin

text \<open>
  The intrusive lists of \<^verbatim>\<open>viengoos/list.h\<close>, on which the kernel keeps its objects, activities and
  free frames. A node holds a next and a previous pointer; the previous pointer of the head and the
  next pointer of the tail are sentinels, marked by their lowest bit, and point to the tail and to
  the list header.

  The heap has one function per struct field, from 32-bit addresses to values; a list header and a
  node are named by their addresses, which are even. The \<open>name\<close> of a list, which only appears in
  debugging output, is left out. The main result is a refinement: a heap represents a family of
  disjoint lists, and each operation acts on that family as a function on HOL lists.
\<close>

subsection \<open>State and pointers\<close>

record list_heap =
  nxt :: "u32 \<Rightarrow> u32"
  prv :: "u32 \<Rightarrow> u32"
  head :: "u32 \<Rightarrow> u32"
  count :: "u32 \<Rightarrow> int"

definition LIST_SENTINEL_P :: "u32 \<Rightarrow> bool" where
  "LIST_SENTINEL_P p \<longleftrightarrow> p AND 1 = 1"

definition LIST_SENTINEL :: "u32 \<Rightarrow> u32" where
  "LIST_SENTINEL p = p OR 1"

definition LIST_PTR :: "u32 \<Rightarrow> u32" where
  "LIST_PTR p = p AND NOT 1"

definition set_nxt :: "list_heap \<Rightarrow> u32 \<Rightarrow> u32 \<Rightarrow> list_heap" where
  "set_nxt s x v = s\<lparr>nxt := (nxt s)(x := v)\<rparr>"

definition set_prv :: "list_heap \<Rightarrow> u32 \<Rightarrow> u32 \<Rightarrow> list_heap" where
  "set_prv s x v = s\<lparr>prv := (prv s)(x := v)\<rparr>"

definition set_head :: "list_heap \<Rightarrow> u32 \<Rightarrow> u32 \<Rightarrow> list_heap" where
  "set_head s l v = s\<lparr>head := (head s)(l := v)\<rparr>"

definition set_count :: "list_heap \<Rightarrow> u32 \<Rightarrow> int \<Rightarrow> list_heap" where
  "set_count s l v = s\<lparr>count := (count s)(l := v)\<rparr>"

lemmas set_defs = set_nxt_def set_prv_def set_head_def set_count_def

subsection \<open>Operations\<close>

definition list_node_attached :: "list_heap \<Rightarrow> u32 \<Rightarrow> bool" where
  "list_node_attached s node \<longleftrightarrow> nxt s node \<noteq> 0"

definition list_init :: "list_heap \<Rightarrow> u32 \<Rightarrow> list_heap" where
  "list_init s l = set_count (set_head s l 0) l 0"

definition list_head :: "list_heap \<Rightarrow> u32 \<Rightarrow> u32" where
  "list_head s l = head s l"

definition list_tail :: "list_heap \<Rightarrow> u32 \<Rightarrow> u32 option" where
  "list_tail s l =
     (if head s l = 0 then Some 0
      else do {
        c_assert (LIST_SENTINEL_P (prv s (head s l)));
        c_assert (LIST_PTR (nxt s (LIST_PTR (prv s (head s l)))) = l);
        Some (LIST_PTR (prv s (head s l)))
      })"

definition list_next :: "list_heap \<Rightarrow> u32 \<Rightarrow> u32" where
  "list_next s node = (if LIST_SENTINEL_P (nxt s node) then 0 else nxt s node)"

definition list_prev :: "list_heap \<Rightarrow> u32 \<Rightarrow> u32" where
  "list_prev s node = (if LIST_SENTINEL_P (prv s node) then 0 else prv s node)"

partial_function (option) list_count_loop :: "list_heap \<Rightarrow> u32 \<Rightarrow> int \<Rightarrow> int option" where
  "list_count_loop s node n =
     (if node = 0 then Some n else list_count_loop s (list_next s node) (n + 1))"

definition list_count :: "list_heap \<Rightarrow> u32 \<Rightarrow> int option" where
  "list_count s l = do {
     n \<leftarrow> list_count_loop s (list_head s l) 0;
     c_assert (n = count s l);
     Some (count s l)
   }"

definition list_push :: "list_heap \<Rightarrow> u32 \<Rightarrow> u32 \<Rightarrow> list_heap option" where
  "list_push s l item = do {
     c_assert (nxt s item = 0);
     c_assert (prv s item = 0);
     s \<leftarrow>
       (if head s l \<noteq> 0 then do {
          c_assert (LIST_SENTINEL_P (prv s (head s l)));
          let tail = LIST_PTR (prv s (head s l));
          c_assert (LIST_SENTINEL_P (nxt s tail));
          c_assert (LIST_PTR (nxt s tail) = l);
          let s = set_nxt s item (head s l);
          let s = set_prv s item (LIST_SENTINEL tail);
          Some (set_prv s (head s l) item)
        }
        else do {
          c_assert (count s l = 0);
          let s = set_nxt s item (LIST_SENTINEL l);
          Some (set_prv s item (LIST_SENTINEL item))
        });
     let s = set_head s l item;
     Some (set_count s l (count s l + 1))
   }"

definition list_queue :: "list_heap \<Rightarrow> u32 \<Rightarrow> u32 \<Rightarrow> list_heap option" where
  "list_queue s l item = do {
     c_assert (nxt s item = 0);
     c_assert (prv s item = 0);
     s \<leftarrow>
       (if head s l \<noteq> 0 then do {
          c_assert (LIST_SENTINEL_P (prv s (head s l)));
          let tail = LIST_PTR (prv s (head s l));
          c_assert (LIST_SENTINEL_P (nxt s tail));
          c_assert (LIST_PTR (nxt s tail) = l);
          let s = set_nxt s item (LIST_SENTINEL l);
          let s = set_prv s item tail;
          let s = set_prv s (head s l) (LIST_SENTINEL item);
          Some (set_nxt s tail item)
        }
        else do {
          c_assert (count s l = 0);
          let s = set_nxt s item (LIST_SENTINEL l);
          let s = set_prv s item (LIST_SENTINEL item);
          Some (set_head s l item)
        });
     Some (set_count s l (count s l + 1))
   }"

definition list_insert_after :: "list_heap \<Rightarrow> u32 \<Rightarrow> u32 \<Rightarrow> u32 \<Rightarrow> list_heap option" where
  "list_insert_after s l item node = do {
     c_assert (nxt s item = 0);
     c_assert (prv s item = 0);
     if node = 0 then list_push s l item
     else do {
       let s = set_nxt s item (nxt s node);
       let s = set_nxt s node item;
       let s = set_prv s item node;
       s \<leftarrow>
         (if LIST_SENTINEL_P (nxt s item) then do {
            c_assert (LIST_SENTINEL_P (prv s (head s l)));
            c_assert (LIST_PTR (prv s (head s l)) = node);
            Some (set_prv s (head s l) (LIST_SENTINEL item))
          }
          else Some (set_prv s (nxt s item) item));
       Some (set_count s l (count s l + 1))
     }
   }"

text \<open>The search for the end of the list in the assertion of \<open>list_unlink\<close>.\<close>

partial_function (option) list_end :: "list_heap \<Rightarrow> u32 \<Rightarrow> u32 option" where
  "list_end s i =
     (if LIST_SENTINEL_P (nxt s i) then Some (LIST_PTR (nxt s i))
      else list_end s (LIST_PTR (nxt s i)))"

definition list_unlink :: "list_heap \<Rightarrow> u32 \<Rightarrow> u32 \<Rightarrow> list_heap option" where
  "list_unlink s l item = do {
     c_assert (nxt s item \<noteq> 0);
     c_assert (prv s item \<noteq> 0);
     e \<leftarrow> list_end s item;
     c_assert (e = l);
     s \<leftarrow>
       (if LIST_SENTINEL_P (nxt s item) \<and> LIST_SENTINEL_P (prv s item) then do {
          c_assert (count s l = 1);
          c_assert (head s l = item);
          c_assert (LIST_PTR (nxt s item) = l);
          Some (set_head s l 0)
        }
        else if LIST_SENTINEL_P (prv s item) then do {
          c_assert (LIST_SENTINEL_P (nxt s (LIST_PTR (prv s item))));
          c_assert (LIST_PTR (nxt s (LIST_PTR (prv s item))) = l);
          let s = set_head s l (nxt s item);
          Some (set_prv s (nxt s item) (prv s item))
        }
        else if LIST_SENTINEL_P (nxt s item) then do {
          c_assert (LIST_PTR (nxt s item) = l);
          let s = set_prv s (head s l) (LIST_SENTINEL (prv s item));
          Some (set_nxt s (prv s item) (nxt s item))
        }
        else do {
          let s = set_prv s (nxt s item) (prv s item);
          Some (set_nxt s (prv s item) (nxt s item))
        });
     let s = set_nxt s item 0;
     let s = set_prv s item 0;
     Some (set_count s l (count s l - 1))
   }"

definition list_move :: "list_heap \<Rightarrow> u32 \<Rightarrow> u32 \<Rightarrow> list_heap option" where
  "list_move s target source = do {
     c_assert (head s target = 0);
     c_assert (count s target = 0);
     let s = set_head s target (head s source);
     let s = set_count s target (count s source);
     let s = (if head s target \<noteq> 0
              then set_nxt s (LIST_PTR (prv s (head s target))) (LIST_SENTINEL target) else s);
     let s = set_head s source 0;
     Some (set_count s source 0)
   }"

definition list_join :: "list_heap \<Rightarrow> u32 \<Rightarrow> u32 \<Rightarrow> list_heap option" where
  "list_join s target source =
     (if head s source = 0 then Some s
      else if head s target = 0 then list_move s target source
      else do {
        let s = set_nxt s (LIST_PTR (prv s (head s target))) (head s source);
        let s = set_nxt s (LIST_PTR (prv s (head s source))) (LIST_SENTINEL target);
        let sources_tail = LIST_PTR (prv s (head s source));
        let s = set_prv s (head s source) (LIST_PTR (prv s (head s target)));
        let s = set_prv s (head s target) (LIST_SENTINEL sources_tail);
        let s = set_head s source 0;
        let s = set_count s target (count s target + count s source);
        Some (set_count s source 0)
      })"

subsection \<open>Tagged pointers\<close>

definition aligned :: "u32 \<Rightarrow> bool" where
  "aligned p \<longleftrightarrow> p \<noteq> 0 \<and> \<not> bit p 0"

lemma bit_LIST_SENTINEL: "bit (LIST_SENTINEL p) n \<longleftrightarrow> bit p n \<or> n = 0"
  by (auto simp: LIST_SENTINEL_def bit_or_iff bit_1_iff)

lemma bit_LIST_PTR: "bit (LIST_PTR p) n \<longleftrightarrow> bit p n \<and> n \<noteq> 0"
  by (auto simp: LIST_PTR_def bit_and_iff bit_not_iff bit_1_iff dest: bit_imp_le_length)

lemma SENTINEL_P_bit: "LIST_SENTINEL_P p \<longleftrightarrow> bit p 0"
  by (simp add: LIST_SENTINEL_P_def and_one_eq odd_iff_mod_2_eq_one bit_0)

lemma sentinel_simps [simp]:
  "LIST_SENTINEL_P (LIST_SENTINEL p)" "LIST_SENTINEL p \<noteq> 0"
  "aligned p \<Longrightarrow> \<not> LIST_SENTINEL_P p" "aligned p \<Longrightarrow> p \<noteq> 0"
  "aligned p \<Longrightarrow> LIST_PTR p = p" "aligned p \<Longrightarrow> LIST_PTR (LIST_SENTINEL p) = p"
proof -
  show "LIST_SENTINEL_P (LIST_SENTINEL p)" by (simp add: SENTINEL_P_bit bit_LIST_SENTINEL)
  show "LIST_SENTINEL p \<noteq> 0" using bit_LIST_SENTINEL [of p 0] by auto
  show "aligned p \<Longrightarrow> \<not> LIST_SENTINEL_P p" "aligned p \<Longrightarrow> p \<noteq> 0"
    by (simp_all add: aligned_def SENTINEL_P_bit)
  show "aligned p \<Longrightarrow> LIST_PTR p = p" "aligned p \<Longrightarrow> LIST_PTR (LIST_SENTINEL p) = p"
    by (auto simp: aligned_def bit_LIST_PTR bit_LIST_SENTINEL intro!: bit_word_eqI intro: gr0I)
qed

subsection \<open>Represented lists\<close>

text \<open>\<open>fwd n xs e\<close>: the next pointers link \<open>xs\<close> and the last one is \<open>e\<close>. \<open>bwd p q xs\<close>: the previous
  pointers link \<open>xs\<close> backwards and the first one is \<open>q\<close>.\<close>

fun fwd :: "(u32 \<Rightarrow> u32) \<Rightarrow> u32 list \<Rightarrow> u32 \<Rightarrow> bool" where
  "fwd n [] e = True"
| "fwd n [x] e = (n x = e)"
| "fwd n (x # y # xs) e = (n x = y \<and> fwd n (y # xs) e)"

fun bwd :: "(u32 \<Rightarrow> u32) \<Rightarrow> u32 \<Rightarrow> u32 list \<Rightarrow> bool" where
  "bwd p q [] = True"
| "bwd p q (x # xs) = (p x = q \<and> bwd p x xs)"

definition is_list :: "list_heap \<Rightarrow> u32 \<Rightarrow> u32 list \<Rightarrow> bool" where
  "is_list s l xs \<longleftrightarrow> aligned l \<and> distinct xs \<and> (\<forall>x\<in>set xs. aligned x)
     \<and> head s l = (if xs = [] then 0 else hd xs) \<and> count s l = int (length xs)
     \<and> fwd (nxt s) xs (LIST_SENTINEL l)
     \<and> (xs \<noteq> [] \<longrightarrow> bwd (prv s) (LIST_SENTINEL (last xs)) xs)"

text \<open>A heap represents a family of disjoint lists, and the nodes on no list are detached.\<close>

definition lists_rep :: "list_heap \<Rightarrow> u32 set \<Rightarrow> (u32 \<Rightarrow> u32 list) \<Rightarrow> bool" where
  "lists_rep s D L \<longleftrightarrow> (\<forall>l\<in>D. is_list s l (L l))
     \<and> (\<forall>l\<in>D. \<forall>l'\<in>D. l \<noteq> l' \<longrightarrow> set (L l) \<inter> set (L l') = {})
     \<and> (\<forall>x. (\<forall>l\<in>D. x \<notin> set (L l)) \<longrightarrow> nxt s x = 0 \<and> prv s x = 0)"

lemma fwd_append: "fwd n (xs @ ys) e \<longleftrightarrow> fwd n xs (if ys = [] then e else hd ys) \<and> fwd n ys e"
  by (induction n xs e rule: fwd.induct) (auto simp: neq_Nil_conv)

lemma bwd_append: "bwd p q (xs @ ys) \<longleftrightarrow> bwd p q xs \<and> bwd p (if xs = [] then q else last xs) ys"
  by (induction xs arbitrary: q) auto

lemma fwd_Cons: "fwd n (x # xs) e \<longleftrightarrow> n x = (if xs = [] then e else hd xs) \<and> fwd n xs e"
  by (cases xs) auto

lemma fwd_upd [simp]: "x \<notin> set xs \<Longrightarrow> fwd (n(x := v)) xs e = fwd n xs e"
  by (induction n xs e rule: fwd.induct) auto

lemma bwd_upd [simp]: "x \<notin> set xs \<Longrightarrow> bwd (p(x := v)) q xs = bwd p q xs"
  by (induction xs arbitrary: q) auto

lemma bwd_last_upd: "xs \<noteq> [] \<Longrightarrow> bwd p q xs \<Longrightarrow> hd xs \<notin> set (tl xs) \<Longrightarrow> bwd (p(hd xs := q')) q' xs"
  by (cases xs) auto

lemma fwd_last_upd: "xs \<noteq> [] \<Longrightarrow> fwd n xs e \<Longrightarrow> distinct xs \<Longrightarrow> fwd (n(last xs := e')) xs e'"
  by (induction n xs e rule: fwd.induct) auto

lemma is_list_ends:
  assumes "is_list s l xs" "xs \<noteq> []"
  shows "head s l = hd xs" "prv s (hd xs) = LIST_SENTINEL (last xs)" "nxt s (last xs) = LIST_SENTINEL l"
    "aligned (hd xs)" "aligned (last xs)" "aligned l"
proof -
  have fwd_last: "fwd n xs e \<Longrightarrow> n (last xs) = e" for n e
    using assms(2) by (induction n xs e rule: fwd.induct) auto
  show "nxt s (last xs) = LIST_SENTINEL l" using assms fwd_last by (simp add: is_list_def)
  show "head s l = hd xs" "prv s (hd xs) = LIST_SENTINEL (last xs)" "aligned (hd xs)" "aligned (last xs)" "aligned l"
    using assms by (auto simp: is_list_def neq_Nil_conv)
qed

definition agree :: "list_heap \<Rightarrow> list_heap \<Rightarrow> u32 set \<Rightarrow> u32 set \<Rightarrow> bool" where
  "agree s s' X H \<longleftrightarrow> (\<forall>x. x \<notin> X \<longrightarrow> nxt s' x = nxt s x \<and> prv s' x = prv s x)
     \<and> (\<forall>l. l \<notin> H \<longrightarrow> head s' l = head s l \<and> count s' l = count s l)"

lemma fwd_cong: "(\<And>x. x \<in> set xs \<Longrightarrow> n x = n' x) \<Longrightarrow> fwd n xs e = fwd n' xs e"
  by (induction n xs e rule: fwd.induct) auto

lemma bwd_cong: "(\<And>x. x \<in> set xs \<Longrightarrow> p x = p' x) \<Longrightarrow> bwd p q xs = bwd p' q xs"
  by (induction xs arbitrary: q) auto

lemma is_list_agree:
  assumes "is_list s l xs" "agree s s' X H" "set xs \<inter> X = {}" "l \<notin> H"
  shows "is_list s' l xs"
proof -
  have "\<forall>x\<in>set xs. nxt s' x = nxt s x \<and> prv s' x = prv s x" using assms(2,3) by (auto simp: agree_def)
  then have "fwd (nxt s') xs e = fwd (nxt s) xs e" "bwd (prv s') q xs = bwd (prv s) q xs" for e q
    by (auto intro!: fwd_cong bwd_cong)
  with assms(1,2,4) show ?thesis by (simp add: is_list_def agree_def)
qed

lemma list_push_ok:
  assumes l: "is_list s l xs" and x: "aligned x" "x \<notin> set xs" "nxt s x = 0" "prv s x = 0"
  shows "\<exists>s'. list_push s l x = Some s' \<and> is_list s' l (x # xs) \<and> agree s s' (insert x (set xs)) {l}"
proof (cases "xs = []")
  case True
  with l x show ?thesis by (auto simp: list_push_def is_list_def set_defs agree_def Let_def)
next
  case False
  note e = is_list_ends [OF l False]
  then obtain y ys where xs: "xs = y # ys" using False by (cases xs) auto
  show ?thesis
    using l x e xs by (auto simp: list_push_def is_list_def set_defs agree_def Let_def)
qed

lemma list_queue_ok:
  assumes l: "is_list s l xs" and x: "aligned x" "x \<notin> set xs" "nxt s x = 0" "prv s x = 0"
  shows "\<exists>s'. list_queue s l x = Some s' \<and> is_list s' l (xs @ [x]) \<and> agree s s' (insert x (set xs)) {l}"
proof (cases "xs = []")
  case True
  with l x show ?thesis by (auto simp: list_queue_def is_list_def set_defs agree_def Let_def)
next
  case False
  note e = is_list_ends [OF l False]
  have d: "distinct xs" "hd xs \<in> set xs" "last xs \<in> set xs" "hd xs \<notin> set (tl xs)"
    using l False by (auto simp: is_list_def neq_Nil_conv)
  have f: "fwd ((nxt s)(x := LIST_SENTINEL l, last xs := x)) (xs @ [x]) (LIST_SENTINEL l)"
    using l x False d fwd_last_upd [of xs "(nxt s)(x := LIST_SENTINEL l)" "LIST_SENTINEL l" x]
    by (auto simp: is_list_def fwd_append)
  have b: "bwd ((prv s)(x := last xs, hd xs := LIST_SENTINEL x)) (LIST_SENTINEL x) (xs @ [x])"
    using l x False d bwd_last_upd [of xs "(prv s)(x := last xs)" "LIST_SENTINEL (last xs)" "LIST_SENTINEL x"]
    by (auto simp: is_list_def bwd_append)
  show ?thesis
    using l x e d f b False by (auto simp: list_queue_def is_list_def set_defs agree_def Let_def)
qed

lemma list_move_ok:
  assumes "is_list s t []" and l: "is_list s l xs" and "t \<noteq> l"
  shows "\<exists>s'. list_move s t l = Some s' \<and> is_list s' t xs \<and> is_list s' l [] \<and> agree s s' (set xs) {t, l}"
proof (cases "xs = []")
  case True
  with assms show ?thesis by (auto simp: list_move_def is_list_def set_defs agree_def Let_def)
next
  case False
  note e = is_list_ends [OF l False]
  have "fwd ((nxt s)(last xs := LIST_SENTINEL t)) xs (LIST_SENTINEL t)"
    using l False by (auto simp: is_list_def intro!: fwd_last_upd)
  with assms e False show ?thesis by (auto simp: list_move_def is_list_def set_defs agree_def Let_def)
qed

lemma list_join_ok:
  assumes t: "is_list s t ys" and l: "is_list s l xs" and "t \<noteq> l" "set xs \<inter> set ys = {}"
  shows "\<exists>s'. list_join s t l = Some s' \<and> is_list s' t (ys @ xs) \<and> is_list s' l []
     \<and> agree s s' (set xs \<union> set ys) {t, l}"
proof (cases "xs = [] \<or> ys = []")
  case True
  then show ?thesis
  proof
    assume "xs = []"
    with assms show ?thesis by (auto simp: list_join_def is_list_def agree_def)
  next
    assume y: "ys = []"
    show ?thesis
    proof (cases "xs = []")
      case True
      with assms y show ?thesis by (auto simp: list_join_def is_list_def agree_def)
    next
      case False
      with y t is_list_ends [OF l False] have "list_join s t l = list_move s t l"
        by (simp add: list_join_def is_list_def)
      with list_move_ok [of s t l xs] assms y show ?thesis by auto
    qed
  qed
next
  case False
  then have ne: "xs \<noteq> []" "ys \<noteq> []" by auto
  note ex = is_list_ends [OF l ne(1)] and ey = is_list_ends [OF t ne(2)]
  have mem: "hd xs \<in> set xs" "last xs \<in> set xs" "hd ys \<in> set ys" "last ys \<in> set ys" using ne by auto
  have d: "hd xs \<notin> set (tl xs)" "hd ys \<notin> set (tl ys)" "distinct xs" "distinct ys"
    using l t ne by (auto simp: is_list_def neq_Nil_conv)
  have disj: "last ys \<notin> set xs" "last xs \<notin> set ys" "hd ys \<notin> set xs" "hd xs \<notin> set ys"
    "last ys \<noteq> last xs" "hd xs \<noteq> hd ys" using mem assms(4) by auto
  let ?n = "(nxt s)(last ys := hd xs, last xs := LIST_SENTINEL t)"
  let ?p = "(prv s)(hd xs := last ys, hd ys := LIST_SENTINEL (last xs))"
  have f: "fwd ?n (ys @ xs) (LIST_SENTINEL t)"
    using l t ne disj d fwd_last_upd [of ys "nxt s" "LIST_SENTINEL t" "hd xs"]
      fwd_last_upd [of xs "(nxt s)(last ys := hd xs)" "LIST_SENTINEL l" "LIST_SENTINEL t"]
    by (simp add: is_list_def fwd_append)
  have b: "bwd ?p (LIST_SENTINEL (last xs)) (ys @ xs)"
    using l t ne disj d bwd_last_upd [of xs "prv s" "LIST_SENTINEL (last xs)" "last ys"]
      bwd_last_upd [of ys "(prv s)(hd xs := last ys)" "LIST_SENTINEL (last ys)" "LIST_SENTINEL (last xs)"]
    by (simp add: is_list_def bwd_append fun_upd_twist)
  show ?thesis
    using assms ex ey ne mem disj f b
    by (auto simp: list_join_def is_list_def set_defs agree_def Let_def)
qed

lemma list_end_ok:
  "fwd (nxt s) (x # xs) (LIST_SENTINEL l) \<Longrightarrow> aligned l \<Longrightarrow> \<forall>y\<in>set xs. aligned y \<Longrightarrow> list_end s x = Some l"
  by (induction xs arbitrary: x) (auto simp: list_end.simps)

lemma list_count_loop_ok:
  "fwd (nxt s) xs (LIST_SENTINEL l) \<Longrightarrow> \<forall>y\<in>set xs. aligned y \<Longrightarrow>
   list_count_loop s (if xs = [] then 0 else hd xs) n = Some (n + int (length xs))"
proof (induction xs arbitrary: n)
  case (Cons x xs)
  then have "list_next s x = (if xs = [] then 0 else hd xs)"
    by (auto simp: list_next_def fwd_Cons)
  with Cons show ?case
    by (auto simp: list_count_loop.simps [of s x] fwd_Cons split: if_splits)
qed (simp add: list_count_loop.simps)

lemma list_count_ok:
  assumes "is_list s l xs"
  shows "list_count s l = Some (int (length xs))"
proof -
  have "list_count_loop s (if xs = [] then 0 else hd xs) 0 = Some (int (length xs))"
    using assms list_count_loop_ok [of s xs l 0] by (simp add: is_list_def)
  with assms show ?thesis by (simp add: list_count_def list_head_def is_list_def)
qed

lemma list_tail_ok:
  assumes "is_list s l xs"
  shows "list_tail s l = Some (if xs = [] then 0 else last xs)"
proof (cases "xs = []")
  case False
  with is_list_ends [OF assms False] show ?thesis by (simp add: list_tail_def)
qed (use assms in \<open>simp add: list_tail_def is_list_def\<close>)

lemma is_list_mid:
  assumes "is_list s l (as @ x # bs)"
  shows "nxt s x = (if bs = [] then LIST_SENTINEL l else hd bs)"
    "prv s x = (if as = [] then LIST_SENTINEL (last (x # bs)) else last as)"
    "aligned x" "x \<notin> set as" "x \<notin> set bs"
  using assms by (auto simp: is_list_def fwd_append fwd_Cons bwd_append)

lemma list_next_ok:
  assumes "is_list s l (as @ x # bs)"
  shows "list_next s x = (if bs = [] then 0 else hd bs)"
proof -
  have "bs \<noteq> [] \<Longrightarrow> aligned (hd bs)" using assms by (simp add: is_list_def)
  then show ?thesis by (simp add: list_next_def is_list_mid [OF assms])
qed

lemma list_prev_ok:
  assumes "is_list s l (as @ x # bs)"
  shows "list_prev s x = (if as = [] then 0 else last as)"
proof -
  have "as \<noteq> [] \<Longrightarrow> aligned (last as)" using assms by (simp add: is_list_def)
  then show ?thesis by (simp add: list_prev_def is_list_mid [OF assms])
qed

lemma list_unlink_ok:
  assumes l: "is_list s l (as @ x # bs)"
  shows "\<exists>s'. list_unlink s l x = Some s' \<and> is_list s' l (as @ bs) \<and> nxt s' x = 0 \<and> prv s' x = 0
     \<and> agree s s' (insert x (set as \<union> set bs)) {l}"
proof -
  note m = is_list_mid [OF l]
  have e: "list_end s x = Some l"
    using l by (intro list_end_ok [of s x bs]) (auto simp: is_list_def fwd_append)
  show ?thesis
  proof (cases "as = []")
    case a: True
    show ?thesis
    proof (cases bs)
      case Nil
      with l a m e show ?thesis
        by (auto simp: list_unlink_def is_list_def set_defs agree_def Let_def)
    next
      case (Cons y ys)
      have "nxt s (last (x # bs)) = LIST_SENTINEL l" "aligned (last (x # bs))" "aligned y" "x \<noteq> y" "aligned l"
        using is_list_ends [OF l] l a Cons by (auto simp: is_list_def)
      with l a Cons m e show ?thesis
        by (auto simp: list_unlink_def is_list_def set_defs agree_def Let_def)
    qed
  next
    case a: False
    have d: "distinct as" "hd as \<in> set as" "last as \<in> set as" "hd as \<notin> set (tl as)" "aligned (last as)"
        "aligned (hd as)" "aligned l" "head s l = hd as"
      using l a by (auto simp: is_list_def neq_Nil_conv)
    show ?thesis
    proof (cases bs)
      case Nil
      have "fwd ((nxt s)(last as := LIST_SENTINEL l)) as (LIST_SENTINEL l)"
        using l a d fwd_last_upd [of as "nxt s" x "LIST_SENTINEL l"] by (simp add: is_list_def fwd_append)
      moreover have "bwd ((prv s)(hd as := LIST_SENTINEL (last as))) (LIST_SENTINEL (last as)) as"
        using l a d bwd_last_upd [of as "prv s" _ "LIST_SENTINEL (last as)"] by (auto simp: is_list_def bwd_append)
      ultimately show ?thesis
        using l a d Nil m e by (auto simp: list_unlink_def is_list_def set_defs agree_def Let_def)
    next
      case (Cons y ys)
      have y: "aligned y" "y \<notin> set as" "x \<noteq> y" "y \<notin> set ys" "last as \<noteq> y" "last as \<notin> set ys" "x \<noteq> last as"
        using l d Cons by (auto simp: is_list_def)
      have "fwd ((nxt s)(last as := y)) (as @ y # ys) (LIST_SENTINEL l)"
        using l a d y Cons fwd_last_upd [of as "nxt s" x y] by (simp add: is_list_def fwd_append)
      moreover have "bwd ((prv s)(y := last as)) (LIST_SENTINEL (last (y # ys))) (as @ y # ys)"
        using l a d y Cons by (auto simp: is_list_def bwd_append)
      ultimately show ?thesis
        using l a d y Cons m e by (auto simp: list_unlink_def is_list_def set_defs agree_def Let_def)
    qed
  qed
qed

lemma list_insert_after_ok:
  assumes l: "is_list s l (as @ y # bs)"
    and x: "aligned x" "x \<notin> set (as @ y # bs)" "nxt s x = 0" "prv s x = 0"
  shows "\<exists>s'. list_insert_after s l x y = Some s' \<and> is_list s' l (as @ y # x # bs)
     \<and> agree s s' (insert x (set (as @ y # bs))) {l}"
proof -
  note m = is_list_mid [OF l] and e = is_list_ends [OF l]
  have d: "distinct (as @ [y])" "y \<noteq> 0" "y \<noteq> x" "hd (as @ y # bs) = hd (as @ [y])" "hd (as @ [y]) \<noteq> x"
      "hd (as @ [y]) \<notin> set (tl (as @ [y]))"
    using l m x by (auto simp: is_list_def neq_Nil_conv hd_append)
  show ?thesis
  proof (cases bs)
    case Nil
    let ?n = "(nxt s)(x := LIST_SENTINEL l, y := x)"
    let ?p = "(prv s)(x := y, hd (as @ [y]) := LIST_SENTINEL x)"
    have "fwd ?n (as @ [y, x]) (LIST_SENTINEL l)"
      using l x d m Nil by (auto simp: is_list_def fwd_append)
    moreover have "bwd ?p (LIST_SENTINEL x) (as @ [y, x])"
      using l x d m Nil bwd_last_upd [of "as @ [y]" "(prv s)(x := y)" "LIST_SENTINEL y" "LIST_SENTINEL x"]
      by (auto simp: is_list_def bwd_append)
    ultimately show ?thesis
      using l x d m e Nil
      by (auto simp: list_insert_after_def is_list_def set_defs agree_def Let_def fun_upd_twist split: if_splits)
  next
    case (Cons z zs)
    have z: "aligned z" "z \<noteq> x" "z \<noteq> y" "z \<notin> set as" "z \<notin> set zs" using l x Cons by (auto simp: is_list_def)
    have "fwd ((nxt s)(x := z, y := x)) (as @ y # x # z # zs) (LIST_SENTINEL l)"
      using l x d m z Cons by (auto simp: is_list_def fwd_append)
    moreover have "bwd ((prv s)(x := y, z := x)) (LIST_SENTINEL (last (z # zs))) (as @ y # x # z # zs)"
      using l x d m z Cons by (auto simp: is_list_def bwd_append)
    ultimately show ?thesis
      using l x d m z Cons
      by (auto simp: list_insert_after_def is_list_def set_defs agree_def Let_def hd_append)
  qed
qed

subsection \<open>Families of lists\<close>

lemma lists_repD:
  assumes "lists_rep s D L"
  shows "l \<in> D \<Longrightarrow> is_list s l (L l)"
    "l \<in> D \<Longrightarrow> l' \<in> D \<Longrightarrow> l \<noteq> l' \<Longrightarrow> set (L l) \<inter> set (L l') = {}"
    "\<forall>l\<in>D. x \<notin> set (L l) \<Longrightarrow> nxt s x = 0 \<and> prv s x = 0"
  using assms by (auto simp: lists_rep_def)

text \<open>An operation that touches only the headers in \<open>H\<close> and the nodes of their old and new lists
  changes the family only at \<open>H\<close>.\<close>

lemma lists_rep_update:
  assumes rep: "lists_rep s D L" and agree: "agree s s' X H" and H: "H \<subseteq> D"
    and new: "\<And>l. l \<in> H \<Longrightarrow> is_list s' l (L' l)" and old: "\<And>l. l \<notin> H \<Longrightarrow> L' l = L l"
    and disj: "\<And>l l'. l \<in> H \<Longrightarrow> l' \<in> D \<Longrightarrow> l \<noteq> l' \<Longrightarrow> set (L' l) \<inter> set (L' l') = {}"
    and X: "\<And>x l. x \<in> X \<Longrightarrow> l \<in> D - H \<Longrightarrow> x \<notin> set (L l)"
    and gone: "\<And>x. x \<in> X \<Longrightarrow> (\<forall>l\<in>H. x \<notin> set (L' l)) \<Longrightarrow> nxt s' x = 0 \<and> prv s' x = 0"
    and sub: "\<And>l. l \<in> H \<Longrightarrow> set (L l) \<subseteq> X"
  shows "lists_rep s' D L'"
  unfolding lists_rep_def
proof (intro conjI ballI allI impI)
  fix l
  assume l: "l \<in> D"
  show "is_list s' l (L' l)"
  proof (cases "l \<in> H")
    case False
    with l X have "set (L l) \<inter> X = {}" by blast
    with is_list_agree [OF lists_repD(1) [OF rep l] agree] False old show ?thesis by simp
  qed (rule new)
next
  fix l l'
  assume l: "l \<in> D" "l' \<in> D" "l \<noteq> l'"
  show "set (L' l) \<inter> set (L' l') = {}"
  proof (cases "l \<in> H \<or> l' \<in> H")
    case False
    with l lists_repD(2) [OF rep] old show ?thesis by simp
  next
    case True
    with disj [of l l'] disj [of l' l] l show ?thesis by blast
  qed
next
  fix x
  assume x: "\<forall>l\<in>D. x \<notin> set (L' l)"
  have "nxt s' x = 0 \<and> prv s' x = 0"
  proof (cases "x \<in> X")
    case True
    with x H gone show ?thesis by blast
  next
    case False
    then have "x \<notin> set (L l)" if "l \<in> D" for l using that sub old x by (cases "l \<in> H") auto
    with lists_repD(3) [OF rep] False agree show ?thesis by (simp add: agree_def)
  qed
  then show "nxt s' x = 0" "prv s' x = 0" by simp_all
qed

definition fresh :: "u32 set \<Rightarrow> (u32 \<Rightarrow> u32 list) \<Rightarrow> u32 \<Rightarrow> bool" where
  "fresh D L x \<longleftrightarrow> aligned x \<and> (\<forall>l\<in>D. x \<notin> set (L l))"

lemma lists_rep_add:
  assumes rep: "lists_rep s D L" and l: "l \<in> D" and x: "fresh D L x"
    and s': "is_list s' l ys" "set ys = insert x (set (L l))" "agree s s' (insert x (set (L l))) {l}"
  shows "lists_rep s' D (L(l := ys))"
proof (rule lists_rep_update [OF rep s'(3)])
  fix m m'
  assume "m \<in> {l}" "m' \<in> D" "m \<noteq> m'"
  with lists_repD(2) [OF rep l] x s'(2) show "set ((L(l := ys)) m) \<inter> set ((L(l := ys)) m') = {}"
    by (auto simp: fresh_def)
next
  fix y m
  assume "y \<in> insert x (set (L l))" "m \<in> D - {l}"
  with x lists_repD(2) [OF rep l, of m] show "y \<notin> set (L m)" by (auto simp: fresh_def)
qed (use l s' in auto)

lemma lists_rep_fresh:
  assumes "lists_rep s D L" "fresh D L x" "l \<in> D"
  shows "aligned x" "x \<notin> set (L l)" "nxt s x = 0" "prv s x = 0"
  using assms lists_repD(3) [OF assms(1), of x] by (auto simp: fresh_def)

lemma push_rep:
  assumes "lists_rep s D L" "l \<in> D" "fresh D L x"
  shows "\<exists>s'. list_push s l x = Some s' \<and> lists_rep s' D (L(l := x # L l))"
  using list_push_ok [OF lists_repD(1) [OF assms(1,2)] lists_rep_fresh [OF assms(1,3,2)]]
  by (auto intro!: lists_rep_add [OF assms])

lemma queue_rep:
  assumes "lists_rep s D L" "l \<in> D" "fresh D L x"
  shows "\<exists>s'. list_queue s l x = Some s' \<and> lists_rep s' D (L(l := L l @ [x]))"
  using list_queue_ok [OF lists_repD(1) [OF assms(1,2)] lists_rep_fresh [OF assms(1,3,2)]]
  by (auto intro!: lists_rep_add [OF assms])

lemma insert_after_rep:
  assumes rep: "lists_rep s D L" "l \<in> D" "fresh D L x" and L: "L l = as @ y # bs"
  shows "\<exists>s'. list_insert_after s l x y = Some s' \<and> lists_rep s' D (L(l := as @ y # x # bs))"
proof -
  note f = lists_rep_fresh [OF rep(1,3,2)]
  obtain s' where s': "list_insert_after s l x y = Some s'" "is_list s' l (as @ y # x # bs)"
      "agree s s' (insert x (set (as @ y # bs))) {l}"
    using list_insert_after_ok [of s l as y bs x] lists_repD(1) [OF rep(1,2)] f unfolding L by blast
  have "lists_rep s' D (L(l := as @ y # x # bs))"
    by (rule lists_rep_add [OF rep s'(2)]) (use s'(3) L in auto)
  with s' show ?thesis by blast
qed

lemma insert_after_null_rep:
  assumes "lists_rep s D L" "l \<in> D" "fresh D L x"
  shows "\<exists>s'. list_insert_after s l x 0 = Some s' \<and> lists_rep s' D (L(l := x # L l))"
  using push_rep [OF assms] lists_rep_fresh [OF assms(1,3,2)] by (simp add: list_insert_after_def)

lemma unlink_rep:
  assumes rep: "lists_rep s D L" "l \<in> D" and x: "x \<in> set (L l)"
  shows "\<exists>s'. list_unlink s l x = Some s' \<and> lists_rep s' D (L(l := remove1 x (L l)))"
proof -
  obtain as bs where L: "L l = as @ x # bs" using split_list [OF x] by blast
  obtain s' where s': "list_unlink s l x = Some s'" "is_list s' l (as @ bs)" "nxt s' x = 0" "prv s' x = 0"
      "agree s s' (insert x (set as \<union> set bs)) {l}"
    using list_unlink_ok [of s l as x bs] lists_repD(1) [OF rep] unfolding L by blast
  have mid: "x \<notin> set as" "x \<notin> set bs" using is_list_mid(4,5) lists_repD(1) [OF rep] unfolding L by blast+
  have "lists_rep s' D (L(l := as @ bs))"
  proof (rule lists_rep_update [OF rep(1) s'(5)])
    fix m m'
    assume "m \<in> {l}" "m' \<in> D" "m \<noteq> m'"
    with lists_repD(2) [OF rep, of m'] show "set ((L(l := as @ bs)) m) \<inter> set ((L(l := as @ bs)) m') = {}"
      unfolding L by auto
  next
    fix y m
    assume "y \<in> insert x (set as \<union> set bs)" "m \<in> D - {l}"
    with lists_repD(2) [OF rep, of m] show "y \<notin> set (L m)" unfolding L by auto
  qed (use rep s' L in auto)
  with s'(1) L mid show ?thesis by (auto simp: remove1_append)
qed

lemma join_rep:
  assumes rep: "lists_rep s D L" and t: "t \<in> D" "l \<in> D" "t \<noteq> l"
  shows "\<exists>s'. list_join s t l = Some s' \<and> lists_rep s' D (L(t := L t @ L l, l := []))"
proof -
  obtain s' where s': "list_join s t l = Some s'" "is_list s' t (L t @ L l)" "is_list s' l []"
      "agree s s' (set (L l) \<union> set (L t)) {t, l}"
    using list_join_ok [OF lists_repD(1) [OF rep t(1)] lists_repD(1) [OF rep t(2)] t(3)]
      lists_repD(2) [OF rep t(2,1)] t(3) by auto
  have "lists_rep s' D (L(t := L t @ L l, l := []))"
  proof (rule lists_rep_update [OF rep s'(4)])
    fix m m'
    assume "m \<in> {t, l}" "m' \<in> D" "m \<noteq> m'"
    with lists_repD(2) [OF rep t(1), of m'] lists_repD(2) [OF rep t(2), of m']
    show "set ((L(t := L t @ L l, l := [])) m) \<inter> set ((L(t := L t @ L l, l := [])) m') = {}" by auto
  next
    fix y m
    assume "y \<in> set (L l) \<union> set (L t)" "m \<in> D - {t, l}"
    with lists_repD(2) [OF rep t(1), of m] lists_repD(2) [OF rep t(2), of m] show "y \<notin> set (L m)" by auto
  qed (use t s' in auto)
  with s'(1) show ?thesis by blast
qed

lemma move_rep:
  assumes rep: "lists_rep s D L" and t: "t \<in> D" "l \<in> D" "t \<noteq> l" and empty: "L t = []"
  shows "\<exists>s'. list_move s t l = Some s' \<and> lists_rep s' D (L(t := L l, l := []))"
proof -
  obtain s' where s': "list_move s t l = Some s'" "is_list s' t (L l)" "is_list s' l []"
      "agree s s' (set (L l)) {t, l}"
    using list_move_ok [of s t l] lists_repD(1) [OF rep] t empty by metis
  have "lists_rep s' D (L(t := L l, l := []))"
  proof (rule lists_rep_update [OF rep s'(4)])
    fix m m'
    assume "m \<in> {t, l}" "m' \<in> D" "m \<noteq> m'"
    with lists_repD(2) [OF rep t(2), of m']
    show "set ((L(t := L l, l := [])) m) \<inter> set ((L(t := L l, l := [])) m') = {}" by auto
  next
    fix y m
    assume "y \<in> set (L l)" "m \<in> D - {t, l}"
    with lists_repD(2) [OF rep t(2), of m] show "y \<notin> set (L m)" by auto
  qed (use t s' empty in auto)
  with s'(1) show ?thesis by blast
qed

subsection \<open>The interface\<close>

text \<open>What a user of the lists relies on. \<open>rep s D L\<close> says that the state holds the lists \<open>L\<close> with
  headers \<open>D\<close>; \<open>node\<close> tells the nodes that may be added.\<close>

locale node_lists =
  fixes rep :: "'s \<Rightarrow> 'l set \<Rightarrow> ('l \<Rightarrow> 'n list) \<Rightarrow> bool" and node :: "'n \<Rightarrow> bool"
    and push queue unlink :: "'s \<Rightarrow> 'l \<Rightarrow> 'n \<Rightarrow> 's option"
    and move join :: "'s \<Rightarrow> 'l \<Rightarrow> 'l \<Rightarrow> 's option"
    and first :: "'s \<Rightarrow> 'l \<Rightarrow> 'n" and null :: 'n
  assumes rep_distinct: "rep s D L \<Longrightarrow> l \<in> D \<Longrightarrow> distinct (L l)"
    and rep_disjoint: "rep s D L \<Longrightarrow> l \<in> D \<Longrightarrow> l' \<in> D \<Longrightarrow> l \<noteq> l' \<Longrightarrow> set (L l) \<inter> set (L l') = {}"
    and rep_node: "rep s D L \<Longrightarrow> l \<in> D \<Longrightarrow> x \<in> set (L l) \<Longrightarrow> node x \<and> x \<noteq> null"
    and first_spec: "rep s D L \<Longrightarrow> l \<in> D \<Longrightarrow> first s l = (if L l = [] then null else hd (L l))"
    and push_spec: "rep s D L \<Longrightarrow> l \<in> D \<Longrightarrow> node x \<Longrightarrow> \<forall>l\<in>D. x \<notin> set (L l) \<Longrightarrow>
      \<exists>s'. push s l x = Some s' \<and> rep s' D (L(l := x # L l))"
    and queue_spec: "rep s D L \<Longrightarrow> l \<in> D \<Longrightarrow> node x \<Longrightarrow> \<forall>l\<in>D. x \<notin> set (L l) \<Longrightarrow>
      \<exists>s'. queue s l x = Some s' \<and> rep s' D (L(l := L l @ [x]))"
    and unlink_spec: "rep s D L \<Longrightarrow> l \<in> D \<Longrightarrow> x \<in> set (L l) \<Longrightarrow>
      \<exists>s'. unlink s l x = Some s' \<and> rep s' D (L(l := remove1 x (L l)))"
    and move_spec: "rep s D L \<Longrightarrow> t \<in> D \<Longrightarrow> l \<in> D \<Longrightarrow> t \<noteq> l \<Longrightarrow> L t = [] \<Longrightarrow>
      \<exists>s'. move s t l = Some s' \<and> rep s' D (L(t := L l, l := []))"
    and join_spec: "rep s D L \<Longrightarrow> t \<in> D \<Longrightarrow> l \<in> D \<Longrightarrow> t \<noteq> l \<Longrightarrow>
      \<exists>s'. join s t l = Some s' \<and> rep s' D (L(t := L t @ L l, l := []))"
begin

text \<open>Moving a node to the end of another (or the same) list, as ageing and the pager do.\<close>

definition requeue :: "'s \<Rightarrow> 'l \<Rightarrow> 'l \<Rightarrow> 'n \<Rightarrow> 's option" where
  "requeue s l m x = do { s \<leftarrow> unlink s l x; queue s m x }"

lemma requeue_spec:
  assumes rep: "rep s D L" and l: "l \<in> D" "m \<in> D" "x \<in> set (L l)"
  shows "\<exists>s'. requeue s l m x = Some s'
    \<and> rep s' D ((L(l := remove1 x (L l)))(m := (L(l := remove1 x (L l))) m @ [x]))"
proof -
  obtain s1 where s1: "unlink s l x = Some s1" "rep s1 D (L(l := remove1 x (L l)))"
    using unlink_spec [OF rep l(1,3)] by blast
  have "\<forall>k\<in>D. x \<notin> set ((L(l := remove1 x (L l))) k)"
    using rep_disjoint [OF rep l(1)] rep_distinct [OF rep l(1)] l(3) by (auto simp: set_remove1_eq)
  with queue_spec [OF s1(2) l(2)] rep_node [OF rep l(1,3)] have
    "\<exists>s'. queue s1 m x = Some s' \<and> rep s' D ((L(l := remove1 x (L l)))(m := (L(l := remove1 x (L l))) m @ [x]))"
    by blast
  with s1(1) show ?thesis unfolding requeue_def by (simp only: bind.bind_lunit)
qed

text \<open>Emptying a list from the front, visiting its nodes in order; \<open>k\<close> bounds the number of steps.\<close>

primrec drain :: "nat \<Rightarrow> 's \<Rightarrow> 'l \<Rightarrow> ('n list \<times> 's) option" where
  "drain 0 s l = Some ([], s)"
| "drain (Suc k) s l =
     (if first s l = null then Some ([], s)
      else do {
        s' \<leftarrow> unlink s l (first s l);
        (xs, s'') \<leftarrow> drain k s' l;
        Some (first s l # xs, s'')
      })"

lemma drain_fifo:
  "rep s D L \<Longrightarrow> l \<in> D \<Longrightarrow> length (L l) \<le> k \<Longrightarrow>
   \<exists>s'. drain k s l = Some (L l, s') \<and> rep s' D (L(l := []))"
proof (induction k arbitrary: s L)
  case 0
  then show ?case by (auto simp: fun_upd_idem)
next
  case (Suc k)
  show ?case
  proof (cases "L l")
    case Nil
    with Suc.prems first_spec show ?thesis by (auto simp: fun_upd_idem)
  next
    case (Cons x xs)
    have f: "first s l = x" "x \<noteq> null"
      using first_spec [OF Suc.prems(1,2)] rep_node [OF Suc.prems(1,2)] Cons by auto
    obtain s' where s': "unlink s l x = Some s'" "rep s' D (L(l := xs))"
      using unlink_spec [OF Suc.prems(1,2), of x] Cons by auto
    have "\<exists>s''. drain k s' l = Some (xs, s'') \<and> rep s'' D (L(l := []))"
      using Suc.IH [OF s'(2) Suc.prems(2), unfolded fun_upd_upd] Suc.prems(3) Cons by (simp add: fun_upd_def)
    with s'(1) Cons f show ?thesis by (auto simp: fun_upd_def)
  qed
qed

primrec queue_all :: "'s \<Rightarrow> 'l \<Rightarrow> 'n list \<Rightarrow> 's option" where
  "queue_all s l [] = Some s"
| "queue_all s l (x # xs) = do { s \<leftarrow> queue s l x; queue_all s l xs }"

lemma queue_all_spec:
  "rep s D L \<Longrightarrow> l \<in> D \<Longrightarrow> distinct xs \<Longrightarrow> \<forall>x\<in>set xs. node x \<and> (\<forall>l\<in>D. x \<notin> set (L l)) \<Longrightarrow>
   \<exists>s'. queue_all s l xs = Some s' \<and> rep s' D (L(l := L l @ xs))"
proof (induction xs arbitrary: s L)
  case Nil
  then show ?case by (simp add: fun_upd_idem)
next
  case (Cons x xs)
  from queue_spec [OF Cons.prems(1,2), of x] Cons.prems(4) obtain s1
    where s1: "queue s l x = Some s1" "rep s1 D (L(l := L l @ [x]))" by auto
  have "\<forall>y\<in>set xs. node y \<and> (\<forall>k\<in>D. y \<notin> set ((L(l := L l @ [x])) k))"
    using Cons.prems(3,4) by auto
  from Cons.IH [OF s1(2) Cons.prems(2) _ this, unfolded fun_upd_upd] Cons.prems(3) s1(1) show ?case by simp
qed

text \<open>What is queued comes out in the same order.\<close>

lemma queue_drain:
  assumes "rep s D L" "l \<in> D" "L l = []" "distinct xs" "\<forall>x\<in>set xs. node x \<and> (\<forall>l\<in>D. x \<notin> set (L l))"
  shows "\<exists>s' s''. queue_all s l xs = Some s' \<and> drain (length xs) s' l = Some (xs, s'') \<and> rep s'' D L"
proof -
  obtain s' where s': "queue_all s l xs = Some s'" "rep s' D (L(l := xs))"
    using queue_all_spec [OF assms(1,2,4,5)] assms(3) by auto
  from drain_fifo [OF s'(2) assms(2), of "length xs"] s'(1) assms(3) show ?thesis
    by (auto simp: fun_upd_idem)
qed

end

lemma first_rep: "lists_rep s D L \<Longrightarrow> l \<in> D \<Longrightarrow> list_head s l = (if L l = [] then 0 else hd (L l))"
  using lists_repD(1) [of s D L l] by (simp add: list_head_def is_list_def)

interpretation lst: node_lists lists_rep aligned list_push list_queue list_unlink list_move list_join list_head 0
proof
  fix s :: list_heap and D L l
  assume rep: "lists_rep s D L" and l: "l \<in> D"
  show "distinct (L l)" using lists_repD(1) [OF rep l] by (simp add: is_list_def)
  show "list_head s l = (if L l = [] then 0 else hd (L l))" by (rule first_rep [OF rep l])
  show "set (L l) \<inter> set (L l') = {}" if "l' \<in> D" "l \<noteq> l'" for l' by (rule lists_repD(2) [OF rep l that])
  show "aligned x \<and> x \<noteq> 0" if "x \<in> set (L l)" for x
    using lists_repD(1) [OF rep l] that by (auto simp: is_list_def)
qed (simp_all add: push_rep queue_rep unlink_rep move_rep join_rep fresh_def)

text \<open>C14: The lists refine functional lists. In every heap that represents a family of disjoint lists,
  each operation of the interface succeeds (no assertion fails and the walks end) and its result
  represents the family changed in the obvious way: pushing, queueing, inserting after a node,
  unlinking, moving and joining are consing, appending one element, insertion, removal, transfer and
  concatenation, and no other list changes.\<close>

theorem list_operations_refine:
  assumes "lists_rep s D L" "l \<in> D" "m \<in> D" "l \<noteq> m"
  shows "(fresh D L x \<longrightarrow> (\<exists>s'. list_push s l x = Some s' \<and> lists_rep s' D (L(l := x # L l))))
    \<and> (fresh D L x \<longrightarrow> (\<exists>s'. list_queue s l x = Some s' \<and> lists_rep s' D (L(l := L l @ [x]))))
    \<and> (fresh D L x \<and> L l = as @ y # bs \<longrightarrow>
       (\<exists>s'. list_insert_after s l x y = Some s' \<and> lists_rep s' D (L(l := as @ y # x # bs))))
    \<and> (z \<in> set (L l) \<longrightarrow> (\<exists>s'. list_unlink s l z = Some s' \<and> lists_rep s' D (L(l := remove1 z (L l)))))
    \<and> (L l = [] \<longrightarrow> (\<exists>s'. list_move s l m = Some s' \<and> lists_rep s' D (L(l := L m, m := []))))
    \<and> (\<exists>s'. list_join s l m = Some s' \<and> lists_rep s' D (L(l := L l @ L m, m := [])))"
proof (intro conjI impI)
  show "\<exists>s'. list_push s l x = Some s' \<and> lists_rep s' D (L(l := x # L l))" if "fresh D L x"
    by (rule push_rep [OF assms(1,2) that])
  show "\<exists>s'. list_queue s l x = Some s' \<and> lists_rep s' D (L(l := L l @ [x]))" if "fresh D L x"
    by (rule queue_rep [OF assms(1,2) that])
  show "\<exists>s'. list_insert_after s l x y = Some s' \<and> lists_rep s' D (L(l := as @ y # x # bs))"
    if "fresh D L x \<and> L l = as @ y # bs"
    using that by (intro insert_after_rep assms(1,2)) auto
  show "\<exists>s'. list_unlink s l z = Some s' \<and> lists_rep s' D (L(l := remove1 z (L l)))" if "z \<in> set (L l)"
    by (rule unlink_rep [OF assms(1,2) that])
  show "\<exists>s'. list_move s l m = Some s' \<and> lists_rep s' D (L(l := L m, m := []))" if "L l = []"
    by (rule move_rep [OF assms that])
  show "\<exists>s'. list_join s l m = Some s' \<and> lists_rep s' D (L(l := L l @ L m, m := []))"
    by (rule join_rep [OF assms])
qed

definition empty_heap :: list_heap where
  "empty_heap = \<lparr>nxt = \<lambda>_. 0, prv = \<lambda>_. 0, head = \<lambda>_. 0, count = \<lambda>_. 0\<rparr>"

lemma empty_heap_rep: "\<forall>l\<in>D. aligned l \<Longrightarrow> lists_rep empty_heap D (\<lambda>_. [])"
  by (auto simp: lists_rep_def is_list_def empty_heap_def)

theorem list_operations_refine_witness:
  "\<exists>s'. list_push empty_heap 0x100 0x20 = Some s' \<and> lists_rep s' {0x100, 0x200} ((\<lambda>_. [])(0x100 := [0x20]))"
proof -
  have "lists_rep empty_heap {0x100, 0x200} (\<lambda>_. [])"
    by (rule empty_heap_rep) (simp add: aligned_def)
  moreover have "fresh {0x100, 0x200} (\<lambda>_. []) 0x20"
    by (simp add: fresh_def aligned_def)
  ultimately show ?thesis
    using list_operations_refine [of empty_heap "{0x100, 0x200}" "\<lambda>_. []" "0x100" "0x200" "0x20" "[]" 0 "[]" 0]
    by simp
qed

text \<open>The observers read the represented lists: head, tail, neighbours and the counted number of
  nodes.\<close>

theorem list_observers:
  assumes "lists_rep s D L" "l \<in> D" "L l = as @ x # bs"
  shows "list_head s l = hd (L l) \<and> list_tail s l = Some (last (L l))
    \<and> list_next s x = (if bs = [] then 0 else hd bs) \<and> list_prev s x = (if as = [] then 0 else last as)
    \<and> list_count s l = Some (int (length (L l))) \<and> list_node_attached s x"
proof -
  have l: "is_list s l (as @ x # bs)" using lists_repD(1) [OF assms(1,2)] assms(3) by simp
  have "nxt s x \<noteq> 0" using is_list_mid(1) [OF l] l by (auto simp: is_list_def)
  with l show ?thesis
    by (simp add: assms(3) first_rep [OF assms(1,2)] list_tail_ok list_next_ok list_prev_ok list_count_ok
        list_node_attached_def)
qed

theorem list_observers_witness:
  "\<exists>s'. list_push empty_heap 0x100 0x20 = Some s' \<and> list_count s' 0x100 = Some 1"
proof -
  have "lists_rep empty_heap {0x100} (\<lambda>_. [])"
    by (rule empty_heap_rep) (simp add: aligned_def)
  then obtain s' where s': "list_push empty_heap 0x100 0x20 = Some s'"
      "lists_rep s' {0x100} ((\<lambda>_. [])(0x100 := [0x20]))"
    using push_rep [of empty_heap "{0x100}" "\<lambda>_. []" "0x100" "0x20"] by (auto simp: fresh_def aligned_def)
  from list_observers [OF s'(2), of "0x100" "[]" "0x20" "[]"] s'(1) show ?thesis by simp
qed

end
