(* ===== verification/Ihash.thy ===== *)
theory Ihash
  imports Prelude
begin

text \<open>
  The open-addressing hash table of \<^verbatim>\<open>libhurd-ihash/ihash.c\<close>, in which the kernel looks up objects
  by identifier and threads by thread id.

  A table has an array of items (value and key); a value of 0 marks an item that was never used and
  the value -1 one that was deleted. A search visits the slots \<open>idx\<close>, \<open>idx + 1\<close>, \<open>idx - 1\<close>, \<open>idx + 4\<close>,
  \<open>idx - 4\<close> and so on and stops at the first empty slot or slot with the key, also a deleted one.
  Indices stay below twice the size of the table and sizes times a hundred are computed only for
  tables that fit the 32-bit address space with room to spare, so both are natural numbers.
  The effects outside of the table are kept in it as ghost state: the location pointers that are
  stored in the values (\<open>locps\<close>, the slot each value's pointer designates) and the calls of the
  cleanup function (\<open>cleaned\<close>, the values in the order of the calls). The search loops may only be
  left when the step counter wraps to zero, which needs an odd size, so they are partial functions.
\<close>

subsection \<open>The table\<close>

record ihash =
  nr_items :: nat
  large :: bool
  items :: "(u32 \<times> u64) list"
  hsize :: nat
  has_locp :: bool
  max_load :: u32
  has_cleanup :: bool
  locps :: "u32 \<Rightarrow> nat option"
  cleaned :: "u32 list"

definition HURD_IHASH_EMPTY :: u32 where
  "HURD_IHASH_EMPTY = 0"

definition HURD_IHASH_DELETED :: u32 where
  "HURD_IHASH_DELETED = - 1"

definition VALUE :: "ihash \<Rightarrow> nat \<Rightarrow> u32" where
  "VALUE ht idx = fst (items ht ! idx)"

definition KEY :: "ihash \<Rightarrow> nat \<Rightarrow> u64" where
  "KEY ht idx = snd (items ht ! idx)"

definition ihash_sizes :: "nat list" where
  "ihash_sizes = [3, 7, 19, 43, 103, 211, 431, 863, 1747, 3499, 7019, 14051, 28111, 56239, 112507,
     225023, 450067, 900139, 1800311, 3600659, 7201351, 14402743, 28805519, 57611039, 115222091,
     230444239, 460888499, 921777067, 1843554151, 3687108307, 7374216631, 14748433279, 29496866579,
     58993733159, 117987466379, 235974932759, 471949865531, 943899731087]"

definition ITEM_SIZE :: "bool \<Rightarrow> nat" where
  "ITEM_SIZE lrg = (if lrg then 12 else 8)"

definition index_empty :: "ihash \<Rightarrow> nat \<Rightarrow> bool" where
  "index_empty ht idx \<longleftrightarrow> VALUE ht idx = HURD_IHASH_EMPTY \<or> VALUE ht idx = HURD_IHASH_DELETED"

definition index_valid :: "ihash \<Rightarrow> nat \<Rightarrow> u64 \<Rightarrow> bool" where
  "index_valid ht idx key \<longleftrightarrow> \<not> index_empty ht idx \<and> KEY ht idx = key"

text \<open>The test that ends a search.\<close>

definition stop :: "ihash \<Rightarrow> u64 \<Rightarrow> nat \<Rightarrow> bool" where
  "stop ht key idx \<longleftrightarrow> VALUE ht idx = HURD_IHASH_EMPTY \<or> KEY ht idx = key"

definition step_up :: "nat \<Rightarrow> nat \<Rightarrow> nat \<Rightarrow> nat" where
  "step_up n i up_idx = (up_idx + i) mod n"

definition step_down :: "nat \<Rightarrow> nat \<Rightarrow> nat \<Rightarrow> nat" where
  "step_down n i down_idx = ((if down_idx < i then down_idx + n else down_idx) - i) mod n"

subsection \<open>Searching\<close>

partial_function (option) find_index_loop :: "ihash \<Rightarrow> u64 \<Rightarrow> nat \<Rightarrow> nat \<Rightarrow> nat \<Rightarrow> nat \<Rightarrow> nat option" where
  "find_index_loop ht key idx i up_idx down_idx =
     (let up_idx = step_up (hsize ht) i up_idx in
      if stop ht key up_idx then Some up_idx
      else let down_idx = step_down (hsize ht) i down_idx in
        if stop ht key down_idx then Some down_idx
        else let i = (i + 2) mod hsize ht in
          if i \<noteq> 0 then find_index_loop ht key idx i up_idx down_idx
          else Some idx)"

definition find_index :: "ihash \<Rightarrow> u64 \<Rightarrow> nat option" where
  "find_index ht key =
     (let idx = unat key mod hsize ht in
      if stop ht key idx then Some idx
      else find_index_loop ht key idx 1 idx idx)"

definition locp_remove :: "ihash \<Rightarrow> nat \<Rightarrow> bool \<Rightarrow> ihash" where
  "locp_remove ht idx clean =
     (let ht = (if clean \<and> has_cleanup ht then ht\<lparr>cleaned := cleaned ht @ [VALUE ht idx]\<rparr> else ht)
      in ht\<lparr>items := (items ht)[idx := (HURD_IHASH_DELETED, KEY ht idx)], nr_items := nr_items ht - 1\<rparr>)"

definition hurd_ihash_find :: "ihash \<Rightarrow> u64 \<Rightarrow> u32 option" where
  "hurd_ihash_find ht key =
     (if hsize ht = 0 then Some 0
      else do {
        idx \<leftarrow> find_index ht key;
        Some (if index_valid ht idx key then VALUE ht idx else 0)
      })"

definition hurd_ihash_remove :: "ihash \<Rightarrow> u64 \<Rightarrow> (bool \<times> ihash) option" where
  "hurd_ihash_remove ht key =
     (if hsize ht \<noteq> 0 then do {
        idx \<leftarrow> find_index ht key;
        Some (if index_valid ht idx key then (True, locp_remove ht idx True) else (False, ht))
      }
      else Some (False, ht))"

definition hurd_ihash_locp_remove :: "ihash \<Rightarrow> nat \<Rightarrow> ihash" where
  "hurd_ihash_locp_remove ht locp = locp_remove ht locp True"

subsection \<open>Construction\<close>

definition hurd_ihash_init_internal :: "ihash \<Rightarrow> bool \<Rightarrow> bool \<Rightarrow> ihash" where
  "hurd_ihash_init_internal ht lrg locp =
     ht\<lparr>large := lrg, nr_items := 0, hsize := 0, has_locp := locp, max_load := 80, has_cleanup := False\<rparr>"

text \<open>\<open>None\<close> stands for the access \<open>ihash_sizes[-1]\<close> when the buffer holds fewer than three items.\<close>

definition hurd_ihash_init_with_buffer ::
  "ihash \<Rightarrow> bool \<Rightarrow> bool \<Rightarrow> (u32 \<times> u64) list \<Rightarrow> nat \<Rightarrow> ihash option" where
  "hurd_ihash_init_with_buffer ht lrg locp buffer bytes =
     (let ht = hurd_ihash_init_internal ht lrg locp;
          ht = ht\<lparr>items := buffer\<rparr>;
          max_size = bytes div ITEM_SIZE (large ht);
          i = length (takeWhile (\<lambda>n. n \<le> max_size) ihash_sizes)
      in if i = 0 then None else Some (ht\<lparr>hsize := ihash_sizes ! (i - 1)\<rparr>))"

definition hurd_ihash_set_cleanup :: "ihash \<Rightarrow> bool \<Rightarrow> ihash" where
  "hurd_ihash_set_cleanup ht c = ht\<lparr>has_cleanup := c\<rparr>"

definition hurd_ihash_set_max_load :: "ihash \<Rightarrow> u32 \<Rightarrow> ihash" where
  "hurd_ihash_set_max_load ht n = ht\<lparr>max_load := n\<rparr>"

text \<open>The destructor calls the cleanup function for every live item, in the order of the slots.\<close>

definition hurd_ihash_destroy :: "ihash \<Rightarrow> ihash" where
  "hurd_ihash_destroy ht =
     (if has_cleanup ht
      then ht\<lparr>cleaned := cleaned ht
             @ map (VALUE ht) (filter (\<lambda>i. \<not> index_empty ht i) [0..<hsize ht])\<rparr>
      else ht)"

text \<open>Sizes are computed in \<open>size_t\<close>, which is 32 bits wide and wraps around; the primes are 64 bits wide.\<close>

definition SIZE_MAX :: u32 where
  "SIZE_MAX = - 1"

definition effective_load :: "int \<Rightarrow> int" where
  "effective_load max_load_factor =
     (let f = (if max_load_factor = 0 then 80 else max_load_factor);
          f = (if f > 100 then 100 else f)
      in if f < 0 then 1 else f)"

definition hurd_ihash_buffer_size :: "u32 \<Rightarrow> bool \<Rightarrow> int \<Rightarrow> u32" where
  "hurd_ihash_buffer_size n lrg max_load_factor =
     (let n = n * 100 div word_of_int (effective_load max_load_factor)
      in case List.find (\<lambda>s. s \<ge> unat n) ihash_sizes of
           None \<Rightarrow> SIZE_MAX
         | Some s \<Rightarrow> of_nat (s * ITEM_SIZE lrg))"

subsection \<open>Insertion\<close>

partial_function (option) replace_one_loop ::
  "ihash \<Rightarrow> u64 \<Rightarrow> nat \<Rightarrow> nat \<Rightarrow> nat \<Rightarrow> nat \<Rightarrow> nat \<Rightarrow> (nat \<times> nat) option" where
  "replace_one_loop ht key idx first_free i up_idx down_idx =
     (let up_idx = step_up (hsize ht) i up_idx in
      if stop ht key up_idx then Some (up_idx, first_free)
      else let first_free = (if first_free = idx \<and> VALUE ht up_idx = HURD_IHASH_DELETED
                             then up_idx else first_free);
               down_idx = step_down (hsize ht) i down_idx mod hsize ht in
        if stop ht key down_idx then Some (down_idx, first_free)
        else let first_free = (if first_free = idx \<and> VALUE ht down_idx = HURD_IHASH_DELETED
                               then down_idx else first_free);
                 i = (i + 2) mod hsize ht in
          if i \<noteq> 0 then replace_one_loop ht key idx first_free i up_idx down_idx
          else Some (idx, first_free))"

definition store_item :: "ihash \<Rightarrow> nat \<Rightarrow> u64 \<Rightarrow> u32 \<Rightarrow> ihash" where
  "store_item ht idx key val =
     (let ht = ht\<lparr>nr_items := nr_items ht + 1\<rparr>;
          ht = ht\<lparr>items := (items ht)[idx := (val, if large ht then key else ucast (ucast key :: u32))]\<rparr>
      in if has_locp ht then ht\<lparr>locps := (locps ht)(val := Some idx)\<rparr> else ht)"

text \<open>The result: whether the item was added, whether the key had a value, the old value where it is
  stored (\<open>want_old\<close> says that the caller passes a place for it), and the table.\<close>

definition replace_one :: "ihash \<Rightarrow> u64 \<Rightarrow> u32 \<Rightarrow> bool \<Rightarrow> (bool \<times> bool \<times> u32 option \<times> ihash) option" where
  "replace_one ht key val want_old = do {
     let idx = unat key mod hsize ht;
     (idx, first_free) \<leftarrow>
       (if VALUE ht idx \<noteq> HURD_IHASH_EMPTY \<and> KEY ht idx \<noteq> key
        then replace_one_loop ht key idx idx 1 idx idx
        else Some (idx, idx));
     let had_value = index_valid ht idx key;
     let old_value = (if had_value \<and> want_old then Some (VALUE ht idx) else None);
     let ht = (if had_value then locp_remove ht idx want_old else ht);
     let first_free = (if \<not> index_empty ht first_free then idx else first_free);
     Some (if index_empty ht first_free
           then (True, had_value, old_value, store_item ht first_free key val)
           else (False, had_value, old_value, ht))
   }"

datatype error_t = Success | ENOMEM

text \<open>The insertion of the kernel's variant of the library, which is compiled without \<open>malloc\<close>.\<close>

definition hurd_ihash_replace_nomalloc ::
  "ihash \<Rightarrow> u64 \<Rightarrow> u32 \<Rightarrow> bool \<Rightarrow> (error_t \<times> bool \<times> u32 option \<times> ihash) option" where
  "hurd_ihash_replace_nomalloc ht key item want_old =
     (if hsize ht \<noteq> 0 then do {
        (added, had, old, ht) \<leftarrow> replace_one ht key item want_old;
        Some (if added then Success else ENOMEM, had, old, ht)
      }
      else Some (ENOMEM, False, None, ht))"

text \<open>The insertion of the user-space variant: when the table is too full, it is rebuilt in a larger
  array. \<open>calloc_ok\<close> tells whether the allocation of that array succeeds. An array of no item, which a size that wraps
  around can ask for, makes the next insertion divide by zero.\<close>

primrec rehash :: "ihash \<Rightarrow> nat list \<Rightarrow> bool \<Rightarrow> ihash \<Rightarrow> ihash option" where
  "rehash old [] want_old ht = Some ht"
| "rehash old (i # is) want_old ht =
     (if index_empty old i then rehash old is want_old ht
      else do {
        (was_added, had, oldv, ht) \<leftarrow> replace_one ht (KEY old i) (VALUE old i) want_old;
        c_assert was_added;
        rehash old is want_old ht
      })"

definition hurd_ihash_grow :: "bool \<Rightarrow> ihash \<Rightarrow> u64 \<Rightarrow> u32 \<Rightarrow> bool
    \<Rightarrow> (error_t \<times> bool \<times> u32 option \<times> ihash) option" where
  "hurd_ihash_grow calloc_ok ht key item want_old =
     (let bytes = hurd_ihash_buffer_size (of_nat (hsize ht) + 1) (large ht) (sint (max_load ht)) in
      if bytes \<ge> SIZE_MAX then Some (ENOMEM, False, None, ht)
      else if \<not> calloc_ok then Some (ENOMEM, False, None, ht)
      else let old = ht; n = unat bytes div ITEM_SIZE (large ht);
               ht = ht\<lparr>nr_items := 0, hsize := n, items := replicate n (0, 0)\<rparr> in do {
        c_assert (n \<noteq> 0);
        ht \<leftarrow> rehash old [0..<hsize old] want_old ht;
        (was_added, had, oldv, ht) \<leftarrow> replace_one ht key item want_old;
        c_assert was_added;
        Some (Success, had, oldv, ht)
      })"

definition hurd_ihash_replace :: "bool \<Rightarrow> ihash \<Rightarrow> u64 \<Rightarrow> u32 \<Rightarrow> bool
    \<Rightarrow> (error_t \<times> bool \<times> u32 option \<times> ihash) option" where
  "hurd_ihash_replace calloc_ok ht key item want_old =
     (if hsize ht \<noteq> 0 \<and> (of_nat (nr_items ht) * 100 :: u32) div of_nat (hsize ht) \<le> max_load ht then do {
        (added, had, old, ht') \<leftarrow> replace_one ht key item want_old;
        if added then Some (Success, had, old, ht')
        else hurd_ihash_grow calloc_ok ht' key item want_old
      }
      else hurd_ihash_grow calloc_ok ht key item want_old)"

definition hurd_ihash_add :: "bool \<Rightarrow> ihash \<Rightarrow> u64 \<Rightarrow> u32 \<Rightarrow> (error_t \<times> ihash) option" where
  "hurd_ihash_add calloc_ok ht key item =
     map_option (\<lambda>(e, _, _, ht). (e, ht)) (hurd_ihash_replace calloc_ok ht key item False)"

subsection \<open>The probe sequence\<close>

text \<open>The slots a search visits, as a list: the home slot, then in each of \<open>m\<close> rounds one slot upwards
  and one downwards.\<close>

primrec probe_rounds :: "nat \<Rightarrow> nat \<Rightarrow> nat \<Rightarrow> nat \<Rightarrow> nat \<Rightarrow> nat list" where
  "probe_rounds n 0 i up down = []"
| "probe_rounds n (Suc m) i up down =
     step_up n i up # step_down n i down # probe_rounds n m ((i + 2) mod n) (step_up n i up) (step_down n i down)"

definition probes :: "nat \<Rightarrow> nat \<Rightarrow> nat list" where
  "probes n idx = idx # probe_rounds n ((n - 1) div 2) 1 idx idx"

lemma probe_rounds_less: "0 < n \<Longrightarrow> j \<in> set (probe_rounds n m i up down) \<Longrightarrow> j < n"
  by (induction m arbitrary: i up down) (auto simp: step_up_def step_down_def)

lemma probes_less: "idx < n \<Longrightarrow> j \<in> set (probes n idx) \<Longrightarrow> j < n"
  using probe_rounds_less [of n j] by (auto simp: probes_def)

text \<open>The step counter runs through the odd numbers below the (odd) size and is then zero.\<close>

lemma next_step:
  assumes "odd n" "odd i" "i < n"
  shows "(i + 2) mod n \<noteq> 0 \<Longrightarrow> (i + 2) mod n = i + 2 \<and> i + 2 < n \<and> odd (i + 2)
      \<and> (n - i) div 2 = Suc ((n - (i + 2)) div 2)"
    and "(i + 2) mod n = 0 \<Longrightarrow> (n - i) div 2 = 1"
proof -
  obtain a b where n: "n = 2 * a + 1" "i = 2 * b + 1" using assms(1,2) by (auto elim!: oddE)
  have "b < a" using assms(3) n by simp
  then consider "Suc b < a" | "a = Suc b" by linarith
  then have *: "((i + 2) mod n \<noteq> 0 \<longrightarrow> (i + 2) mod n = i + 2 \<and> i + 2 < n \<and> odd (i + 2)
      \<and> (n - i) div 2 = Suc ((n - (i + 2)) div 2)) \<and> ((i + 2) mod n = 0 \<longrightarrow> (n - i) div 2 = 1)"
    by cases (auto simp: n)
  show "(i + 2) mod n \<noteq> 0 \<Longrightarrow> (i + 2) mod n = i + 2 \<and> i + 2 < n \<and> odd (i + 2)
      \<and> (n - i) div 2 = Suc ((n - (i + 2)) div 2)" using * by blast
  show "(i + 2) mod n = 0 \<Longrightarrow> (n - i) div 2 = 1" using * by auto
qed

lemma find_index_loop_eq:
  assumes "odd (hsize ht)" "odd i" "i < hsize ht"
  shows "find_index_loop ht key idx i up down = Some
    (case List.find (stop ht key) (probe_rounds (hsize ht) ((hsize ht - i) div 2) i up down) of
       None \<Rightarrow> idx | Some j \<Rightarrow> j)"
  using assms(2,3)
proof (induction "(hsize ht - i) div 2" arbitrary: i up down)
  case 0
  then show ?case using next_step [OF assms(1)] by (metis Suc_n_not_n less_irrefl nat.distinct(1) One_nat_def)
next
  case (Suc m)
  note nx = next_step [OF assms(1) Suc.prems]
  show ?case
  proof (cases "(i + 2) mod hsize ht = 0")
    case True
    with nx(2) show ?thesis
      by (subst find_index_loop.simps) (auto simp: Let_def)
  next
    case False
    note n = nx(1) [OF False]
    have "m = (hsize ht - (i + 2)) div 2" using n Suc.hyps(2) by simp
    from Suc.hyps(1) [OF this] n have
      IH: "find_index_loop ht key idx (i + 2) u d = Some
        (case List.find (stop ht key) (probe_rounds (hsize ht) ((hsize ht - (i + 2)) div 2) (i + 2) u d) of
           None \<Rightarrow> idx | Some j \<Rightarrow> j)" for u d by blast
    show ?thesis
      using n by (subst find_index_loop.simps) (auto simp: Let_def IH [simplified])
  qed
qed

definition target :: "ihash \<Rightarrow> u64 \<Rightarrow> nat option" where
  "target ht key = List.find (stop ht key) (probes (hsize ht) (unat key mod hsize ht))"

lemma find_index_eq:
  assumes "odd (hsize ht)" "3 \<le> hsize ht"
  shows "find_index ht key = Some (case target ht key of None \<Rightarrow> unat key mod hsize ht | Some j \<Rightarrow> j)"
  using find_index_loop_eq [OF assms(1), of 1] assms(2)
  by (simp add: find_index_def target_def probes_def Let_def)

text \<open>The insertion loop: the index it stops at is the same, and the first free slot is the first
  deleted slot before it in the probe sequence after the home slot, if there is one.\<close>

definition deleted :: "ihash \<Rightarrow> nat \<Rightarrow> bool" where
  "deleted ht j \<longleftrightarrow> VALUE ht j = HURD_IHASH_DELETED"

definition free_before :: "ihash \<Rightarrow> u64 \<Rightarrow> nat \<Rightarrow> nat \<Rightarrow> nat list \<Rightarrow> nat" where
  "free_before ht key idx ff js =
     foldl (\<lambda>ff j. if ff = idx \<and> deleted ht j then j else ff) ff (takeWhile (\<lambda>j. \<not> stop ht key j) js)"

lemma step_down_mod [simp]: "step_down n i d mod n = step_down n i d"
  by (simp add: step_down_def)

lemma replace_one_loop_eq:
  assumes "odd (hsize ht)" "odd i" "i < hsize ht"
  shows "replace_one_loop ht key idx ff i up down = Some
    (case List.find (stop ht key) (probe_rounds (hsize ht) ((hsize ht - i) div 2) i up down) of
       None \<Rightarrow> idx | Some j \<Rightarrow> j,
     free_before ht key idx ff (probe_rounds (hsize ht) ((hsize ht - i) div 2) i up down))"
  using assms(2,3)
proof (induction "(hsize ht - i) div 2" arbitrary: i ff up down)
  case 0
  then show ?case using next_step [OF assms(1)] by (metis Suc_n_not_n less_irrefl nat.distinct(1) One_nat_def)
next
  case (Suc m)
  note nx = next_step [OF assms(1) Suc.prems]
  show ?case
  proof (cases "(i + 2) mod hsize ht = 0")
    case True
    with nx(2) show ?thesis
      by (subst replace_one_loop.simps) (auto simp: Let_def free_before_def deleted_def)
  next
    case False
    note n = nx(1) [OF False]
    have "m = (hsize ht - (i + 2)) div 2" using n Suc.hyps(2) by simp
    note IH = Suc.hyps(1) [OF this]
    show ?thesis
      using n IH by (subst replace_one_loop.simps) (auto simp: Let_def free_before_def deleted_def)
  qed
qed

subsection \<open>The map a table represents\<close>

definition live :: "ihash \<Rightarrow> nat \<Rightarrow> bool" where
  "live ht j \<longleftrightarrow> j < hsize ht \<and> \<not> index_empty ht j"

definition key_fits :: "ihash \<Rightarrow> u64 \<Rightarrow> bool" where
  "key_fits ht key \<longleftrightarrow> large ht \<or> unat key < 2 ^ 32"

text \<open>A live item is where the search for its key stops; in particular no key has two live items.\<close>

definition ihash_inv :: "ihash \<Rightarrow> bool" where
  "ihash_inv ht \<longleftrightarrow> odd (hsize ht) \<and> 3 \<le> hsize ht \<and> hsize ht \<le> length (items ht)
     \<and> (\<forall>j. live ht j \<longrightarrow> target ht (KEY ht j) = Some j \<and> key_fits ht (KEY ht j))
     \<and> nr_items ht = card {j. live ht j}"

definition ihash_map :: "ihash \<Rightarrow> u64 \<Rightarrow> u32 option" where
  "ihash_map ht key = (case target ht key of None \<Rightarrow> None
     | Some j \<Rightarrow> if index_valid ht j key then Some (VALUE ht j) else None)"

definition storable :: "u32 \<Rightarrow> bool" where
  "storable val \<longleftrightarrow> val \<noteq> HURD_IHASH_EMPTY \<and> val \<noteq> HURD_IHASH_DELETED"

text \<open>The elements of a list before the first occurrence of \<open>x\<close>.\<close>

fun before_first :: "'a \<Rightarrow> 'a list \<Rightarrow> 'a set" where
  "before_first x [] = {}"
| "before_first x (a # xs) = (if a = x then {} else insert a (before_first x xs))"

lemma before_first_neq: "y \<in> before_first x xs \<Longrightarrow> y \<noteq> x"
  by (induction xs) (auto split: if_splits)

lemma find_Some_mem:
  "List.find P xs = Some x \<Longrightarrow> P x \<and> x \<in> set xs \<and> (\<forall>y\<in>before_first x xs. \<not> P y)"
  by (induction xs) (auto split: if_splits)

lemma find_SomeI: "x \<in> set xs \<Longrightarrow> P x \<Longrightarrow> \<forall>y\<in>before_first x xs. \<not> P y \<Longrightarrow> List.find P xs = Some x"
  by (induction xs) (auto split: if_splits)

lemma takeWhile_prefix: "x \<in> set (takeWhile P xs) \<Longrightarrow> y \<in> before_first x xs \<Longrightarrow> P y"
  by (induction xs) (auto split: if_splits)

lemma inv_size: "ihash_inv ht \<Longrightarrow> odd (hsize ht) \<and> 3 \<le> hsize ht \<and> 0 < hsize ht"
  by (simp add: ihash_inv_def)

lemma target_less: "ihash_inv ht \<Longrightarrow> target ht key = Some j \<Longrightarrow> j < hsize ht"
  using probes_less [of "unat key mod hsize ht" "hsize ht" j] find_Some_mem [of "stop ht key"]
  by (auto simp: target_def ihash_inv_def)

lemma finite_live [simp]: "finite {j. live ht j}"
  by (rule finite_subset [of _ "{..<hsize ht}"]) (auto simp: live_def)

lemma ihash_map_iff:
  assumes "ihash_inv ht"
  shows "ihash_map ht key = Some v \<longleftrightarrow> (\<exists>j. live ht j \<and> KEY ht j = key \<and> VALUE ht j = v)"
proof
  assume "ihash_map ht key = Some v"
  then show "\<exists>j. live ht j \<and> KEY ht j = key \<and> VALUE ht j = v"
    using target_less [OF assms, of key]
    by (auto simp: ihash_map_def index_valid_def live_def split: option.splits if_splits)
next
  assume "\<exists>j. live ht j \<and> KEY ht j = key \<and> VALUE ht j = v"
  with assms show "ihash_map ht key = Some v"
    by (auto simp: ihash_inv_def ihash_map_def index_valid_def live_def)
qed

lemma hurd_ihash_find_eq:
  assumes "ihash_inv ht"
  shows "hurd_ihash_find ht key = Some (case ihash_map ht key of None \<Rightarrow> 0 | Some v \<Rightarrow> v)"
proof -
  have "\<not> index_valid ht (unat key mod hsize ht) key" if "target ht key = None"
    using that by (auto simp: target_def probes_def stop_def index_valid_def split: if_splits)
  with inv_size [OF assms] show ?thesis
    by (auto simp: hurd_ihash_find_def find_index_eq ihash_map_def split: option.splits)
qed

text \<open>Deleting a live item keeps its key, so no search changes.\<close>

lemma locp_remove_fields [simp]:
  "hsize (locp_remove ht j c) = hsize ht" "large (locp_remove ht j c) = large ht"
  "length (items (locp_remove ht j c)) = length (items ht)"
  by (auto simp: locp_remove_def Let_def)

lemma locp_remove_items:
  assumes "j < length (items ht)"
  shows "VALUE (locp_remove ht j c) x = (if x = j then HURD_IHASH_DELETED else VALUE ht x)"
    "KEY (locp_remove ht j c) x = KEY ht x"
  using assms by (auto simp: locp_remove_def Let_def VALUE_def KEY_def nth_list_update)

lemma locp_remove_ok:
  assumes inv: "ihash_inv ht" and j: "live ht j"
  shows "ihash_inv (locp_remove ht j c)"
    and "ihash_map (locp_remove ht j c) = (ihash_map ht)(KEY ht j := None)"
    and "{x. live (locp_remove ht j c) x} = {x. live ht x} - {j}"
    and "target (locp_remove ht j c) = target ht" and "stop (locp_remove ht j c) = stop ht"
proof -
  let ?h = "locp_remove ht j c"
  have len: "j < length (items ht)" and size: "j < hsize ht" using inv j by (auto simp: ihash_inv_def live_def)
  note it = locp_remove_items [OF len]
  have stop: "stop ?h k x = stop ht k x" for k x
    using j by (auto simp: stop_def it live_def index_empty_def HURD_IHASH_EMPTY_def HURD_IHASH_DELETED_def)
  show "stop ?h = stop ht" using stop by blast
  then show t: "target ?h = target ht" by (intro ext) (simp add: target_def)
  have lv: "live ?h x \<longleftrightarrow> live ht x \<and> x \<noteq> j" for x by (auto simp: live_def index_empty_def it)
  then show l: "{x. live ?h x} = {x. live ht x} - {j}" by auto
  have nr: "nr_items ?h = nr_items ht - 1" by (auto simp: locp_remove_def Let_def)
  have card: "card ({x. live ht x} - {j}) = card {x. live ht x} - 1"
    using j by (simp add: card_Diff_singleton)
  show inv': "ihash_inv ?h"
    using inv unfolding ihash_inv_def l t nr card by (auto simp: lv it key_fits_def)
  show "ihash_map ?h = (ihash_map ht)(KEY ht j := None)"
  proof
    fix k
    have uniq: "x = j" if "live ht x" "KEY ht x = KEY ht j" for x
      using inv j that unfolding ihash_inv_def by (metis option.inject)
    have "ihash_map ?h k = Some v \<longleftrightarrow> ((ihash_map ht)(KEY ht j := None)) k = Some v" for v
    proof (cases "k = KEY ht j")
      case True
      with uniq show ?thesis unfolding ihash_map_iff [OF inv'] by (auto simp: lv it)
    next
      case False
      then have "(\<exists>x. live ?h x \<and> KEY ?h x = k \<and> VALUE ?h x = v)
          \<longleftrightarrow> (\<exists>x. live ht x \<and> KEY ht x = k \<and> VALUE ht x = v)" by (metis lv it)
      with False show ?thesis by (simp add: ihash_map_iff [OF inv'] ihash_map_iff [OF inv])
    qed
    then show "ihash_map ?h k = ((ihash_map ht)(KEY ht j := None)) k"
      by (metis option.exhaust)
  qed
qed

text \<open>Storing an item in a free slot that the search for its key reaches, for a key that has no item.\<close>

lemma store_item_fields [simp]:
  "hsize (store_item ht j key val) = hsize ht" "large (store_item ht j key val) = large ht"
  "length (items (store_item ht j key val)) = length (items ht)"
  "nr_items (store_item ht j key val) = nr_items ht + 1" "cleaned (store_item ht j key val) = cleaned ht"
  by (simp_all add: store_item_def Let_def)

lemma ucast_small_key: "unat (key :: u64) < 2 ^ 32 \<Longrightarrow> ucast (ucast key :: u32) = key"
proof (rule bit_word_eqI)
  fix n
  assume k: "unat key < 2 ^ 32"
  have "bit key n \<Longrightarrow> n < 32" using bit_word_lt_exp [OF k] by simp
  then show "bit (ucast (ucast key :: u32) :: u64) n \<longleftrightarrow> bit key n"
    by (auto simp: bit_unsigned_iff)
qed

lemma store_item_items:
  assumes "j < length (items ht)" "key_fits ht key"
  shows "VALUE (store_item ht j key val) x = (if x = j then val else VALUE ht x)"
    "KEY (store_item ht j key val) x = (if x = j then key else KEY ht x)"
  using assms
  by (auto simp: store_item_def Let_def VALUE_def KEY_def nth_list_update key_fits_def ucast_small_key)

lemma store_item_ok:
  assumes inv: "ihash_inv ht" and j: "j \<in> set (probes (hsize ht) (unat key mod hsize ht))" "\<not> live ht j"
    and before: "\<forall>x\<in>before_first j (probes (hsize ht) (unat key mod hsize ht)). \<not> stop ht key x"
    and val: "storable val" "key_fits ht key" and new: "ihash_map ht key = None"
  shows "ihash_inv (store_item ht j key val)"
    and "ihash_map (store_item ht j key val) = (ihash_map ht)(key \<mapsto> val)"
proof -
  let ?h = "store_item ht j key val"
  have size: "j < hsize ht" using probes_less j(1) inv_size [OF inv] by (metis mod_less_divisor)
  then have len: "j < length (items ht)" using inv by (simp add: ihash_inv_def)
  note it = store_item_items [OF len val(2)]
  have lv: "live ?h x \<longleftrightarrow> live ht x \<or> x = j" for x
    using size val by (auto simp: live_def index_empty_def it storable_def)
  have target_new: "target ?h key = Some j"
    unfolding target_def using j(1) before
    by (auto intro!: find_SomeI simp: stop_def it split: if_splits dest: before_first_neq)
  have other: "KEY ht x \<noteq> key" if "live ht x" for x
    using new ihash_map_iff [OF inv, of key] that by auto
  have target_old: "target ?h (KEY ht x) = Some x" if x: "live ht x" for x
  proof -
    have t: "target ht (KEY ht x) = Some x" using inv x by (simp add: ihash_inv_def)
    have xj: "x \<noteq> j" using x j(2) by auto
    have mono: "stop ?h (KEY ht x) y \<Longrightarrow> stop ht (KEY ht x) y" for y
      using other [OF x] val by (auto simp: stop_def it storable_def split: if_splits)
    note f = find_Some_mem [OF t [unfolded target_def]]
    have "stop ?h (KEY ht x) x" by (simp add: stop_def it xj)
    with f mono show ?thesis unfolding target_def by (intro find_SomeI) auto
  qed
  have card: "card {x. live ?h x} = Suc (card {x. live ht x})"
  proof -
    have "{x. live ?h x} = insert j {x. live ht x}" using lv by auto
    then show ?thesis using j(2) by simp
  qed
  show inv': "ihash_inv ?h"
    using inv target_new target_old j(2) val(2) unfolding ihash_inv_def card by (auto simp: lv it key_fits_def)
  show "ihash_map ?h = (ihash_map ht)(key \<mapsto> val)"
  proof
    fix k
    have "ihash_map ?h k = Some v \<longleftrightarrow> ((ihash_map ht)(key \<mapsto> val)) k = Some v" for v
    proof (cases "k = key")
      case True
      with other show ?thesis unfolding ihash_map_iff [OF inv'] by (auto simp: lv it)
    next
      case False
      then have "(\<exists>x. live ?h x \<and> KEY ?h x = k \<and> VALUE ?h x = v)
          \<longleftrightarrow> (\<exists>x. live ht x \<and> KEY ht x = k \<and> VALUE ht x = v)" by (metis lv it j(2))
      with False show ?thesis by (simp add: ihash_map_iff [OF inv'] ihash_map_iff [OF inv])
    qed
    then show "ihash_map ?h k = ((ihash_map ht)(key \<mapsto> val)) k" by (metis option.exhaust)
  qed
qed

text \<open>Where the insertion puts the item.\<close>

lemma free_before_cases:
  "free_before ht key idx ff js = ff
   \<or> (ff = idx \<and> deleted ht (free_before ht key idx ff js)
      \<and> free_before ht key idx ff js \<in> set (takeWhile (\<lambda>j. \<not> stop ht key j) js))"
proof -
  have "foldl (\<lambda>ff j. if ff = idx \<and> deleted ht j then j else ff) ff ys = ff
      \<or> (ff = idx \<and> deleted ht (foldl (\<lambda>ff j. if ff = idx \<and> deleted ht j then j else ff) ff ys)
         \<and> foldl (\<lambda>ff j. if ff = idx \<and> deleted ht j then j else ff) ff ys \<in> set ys)" for ys
  proof (induction ys arbitrary: ff)
    case (Cons y ys)
    show ?case using Cons.IH [of y] Cons.IH [of ff] by (cases "ff = idx \<and> deleted ht y") auto
  qed simp
  then show ?thesis by (simp add: free_before_def)
qed

definition slot_free :: "ihash \<Rightarrow> u64 \<Rightarrow> nat \<Rightarrow> bool" where
  "slot_free ht key j \<longleftrightarrow> j \<in> set (probes (hsize ht) (unat key mod hsize ht))
     \<and> (\<forall>x\<in>before_first j (probes (hsize ht) (unat key mod hsize ht)). \<not> stop ht key x)"

text \<open>What the searching part of \<open>replace_one\<close> finds: the index \<open>idx\<close> at which it stops, and a slot
  \<open>ff\<close> that the search for the key reaches.\<close>

lemma replace_search:
  assumes inv: "ihash_inv ht" and idx: "idx = unat key mod hsize ht"
  obtains ff where
    "(if VALUE ht idx \<noteq> HURD_IHASH_EMPTY \<and> KEY ht idx \<noteq> key
      then replace_one_loop ht key idx idx 1 idx idx else Some (idx, idx))
     = Some (case target ht key of None \<Rightarrow> idx | Some j \<Rightarrow> j, ff)"
    and "slot_free ht key ff" and "ff = idx \<or> deleted ht ff"
    and "\<And>j. target ht key = Some j \<Longrightarrow> slot_free ht key j"
    and "target ht key = Some idx \<Longrightarrow> ff = idx"
    and "target ht key = None \<Longrightarrow> ff = idx \<Longrightarrow>
       \<forall>x\<in>set (probes (hsize ht) idx). x = idx \<or> \<not> deleted ht x"
proof -
  let ?n = "hsize ht" and ?r = "probe_rounds (hsize ht) ((hsize ht - 1) div 2) 1 idx idx"
  have P: "probes ?n (unat key mod ?n) = idx # ?r" by (simp add: probes_def idx)
  have here: "slot_free ht key idx" by (simp add: slot_free_def P)
  have tj: "slot_free ht key j" if "target ht key = Some j" for j
    using find_Some_mem [OF that [unfolded target_def]] by (auto simp: slot_free_def)
  show thesis
  proof (cases "stop ht key idx")
    case True
    then have "target ht key = Some idx" by (simp add: target_def P)
    with True here tj show thesis by (intro that [of idx]) (auto simp: stop_def)
  next
    case False
    have t: "target ht key = List.find (stop ht key) ?r" using False by (simp add: target_def P)
    let ?ff = "free_before ht key idx idx ?r"
    have loop: "replace_one_loop ht key idx idx 1 idx idx
        = Some (case target ht key of None \<Rightarrow> idx | Some j \<Rightarrow> j, ?ff)"
      using replace_one_loop_eq [of ht 1] inv_size [OF inv] by (simp add: t)
    have ff: "?ff = idx \<or> (deleted ht ?ff \<and> ?ff \<in> set (takeWhile (\<lambda>j. \<not> stop ht key j) ?r))"
      using free_before_cases [of ht key idx idx ?r] by blast
    show thesis
    proof (rule that [of ?ff])
      show "(if VALUE ht idx \<noteq> HURD_IHASH_EMPTY \<and> KEY ht idx \<noteq> key
          then replace_one_loop ht key idx idx 1 idx idx else Some (idx, idx))
         = Some (case target ht key of None \<Rightarrow> idx | Some j \<Rightarrow> j, ?ff)"
        using False loop by (simp add: stop_def)
      show "?ff = idx \<or> deleted ht ?ff" using ff by blast
      show "slot_free ht key ?ff"
      proof (cases "?ff = idx")
        case False
        with ff have m: "?ff \<in> set (takeWhile (\<lambda>j. \<not> stop ht key j) (idx # ?r))"
          using \<open>\<not> stop ht key idx\<close> by simp
        from takeWhile_prefix [OF m] set_takeWhileD [OF m] show ?thesis by (auto simp: slot_free_def P)
      qed (simp add: here)
      show "\<And>j. target ht key = Some j \<Longrightarrow> slot_free ht key j" by (rule tj)
      show "?ff = idx" if "target ht key = Some idx"
        using find_Some_mem [OF that [unfolded target_def]] False by auto
      show "\<forall>x\<in>set (probes ?n idx). x = idx \<or> \<not> deleted ht x" if "target ht key = None" "?ff = idx"
      proof -
        have all: "takeWhile (\<lambda>j. \<not> stop ht key j) ?r = ?r"
          using that(1) by (auto simp: t find_None_iff takeWhile_eq_all_conv)
        have "\<forall>x\<in>set xs. x = idx \<or> \<not> deleted ht x"
          if "foldl (\<lambda>ff j. if ff = idx \<and> deleted ht j then j else ff) idx xs = idx" for xs
          using that
        proof (induction xs)
          case (Cons x xs)
          have keep: "foldl (\<lambda>ff j. if ff = idx \<and> deleted ht j then j else ff) y ys = y" if "y \<noteq> idx" for y ys
            using that by (induction ys) auto
          from Cons keep [of x xs] show ?case by (cases "deleted ht x"; cases "x = idx") auto
        qed simp
        with that(2) have "\<forall>x\<in>set ?r. x = idx \<or> \<not> deleted ht x"
          unfolding free_before_def all by blast
        then show ?thesis by (simp add: probes_def)
      qed
    qed
  qed
qed

text \<open>\<open>replace_one\<close> updates the represented map, or finds every slot it probes in use and changes
  nothing.\<close>

lemma replace_one_ok:
  assumes inv: "ihash_inv ht" and val: "storable val" "key_fits ht key"
  shows "\<exists>added ht'. replace_one ht key val want_old = Some
      (added, ihash_map ht key \<noteq> None, if want_old then ihash_map ht key else None, ht')
    \<and> (if added then ihash_inv ht' \<and> ihash_map ht' = (ihash_map ht)(key \<mapsto> val)
         \<and> hsize ht' = hsize ht \<and> large ht' = large ht
       else ht' = ht \<and> ihash_map ht key = None
         \<and> (\<forall>j\<in>set (probes (hsize ht) (unat key mod hsize ht)). live ht j))"
proof -
  define idx where "idx = unat key mod hsize ht"
  show ?thesis
  proof (rule replace_search [OF inv idx_def])
    fix ff
    assume search:
      "(if VALUE ht idx \<noteq> HURD_IHASH_EMPTY \<and> KEY ht idx \<noteq> key
        then replace_one_loop ht key idx idx 1 idx idx else Some (idx, idx))
       = Some (case target ht key of None \<Rightarrow> idx | Some j \<Rightarrow> j, ff)"
      and ff: "slot_free ht key ff" "ff = idx \<or> deleted ht ff"
      and tj: "\<And>j. target ht key = Some j \<Longrightarrow> slot_free ht key j"
      and full: "target ht key = None \<Longrightarrow> ff = idx \<Longrightarrow>
         \<forall>x\<in>set (probes (hsize ht) idx). x = idx \<or> \<not> deleted ht x"
    define i where "i = (case target ht key of None \<Rightarrow> idx | Some j \<Rightarrow> j)"
    have "\<not> stop ht key idx" if "target ht key = None"
      using that unfolding target_def idx_def [symmetric] by (auto simp: probes_def split: if_splits)
    then have home: "\<not> index_valid ht idx key" if "target ht key = None"
      using that by (auto simp: stop_def index_valid_def)
    have valid: "(index_valid ht i key \<longleftrightarrow> ihash_map ht key \<noteq> None) \<and> (index_valid ht i key \<longrightarrow>
        target ht key = Some i \<and> ihash_map ht key = Some (VALUE ht i) \<and> live ht i)"
    proof (cases "target ht key")
      case None
      with home show ?thesis by (simp add: i_def ihash_map_def)
    next
      case (Some j)
      with target_less [OF inv Some] show ?thesis by (simp add: i_def ihash_map_def live_def index_valid_def)
    qed
    define ht1 where "ht1 = (if index_valid ht i key then locp_remove ht i want_old else ht)"
    define c where "c = (if \<not> index_empty ht1 ff then i else ff)"
    have eq: "replace_one ht key val want_old = Some (index_empty ht1 c, ihash_map ht key \<noteq> None,
        if want_old then ihash_map ht key else None, if index_empty ht1 c then store_item ht1 c key val else ht1)"
      unfolding replace_one_def Let_def idx_def [symmetric] search
      using valid by (auto simp: ht1_def c_def i_def [symmetric])
    show ?thesis
    proof (cases "index_empty ht1 c")
      case True
      have "ihash_inv ht1 \<and> ihash_map ht1 = (ihash_map ht)(key := None) \<and> stop ht1 = stop ht
          \<and> hsize ht1 = hsize ht \<and> large ht1 = large ht"
      proof (cases "index_valid ht i key")
        case True
        then have "live ht i" "KEY ht i = key" using valid by (auto simp: index_valid_def)
        with True locp_remove_ok [OF inv this(1), of want_old] show ?thesis by (simp add: ht1_def)
      next
        case False
        with valid inv show ?thesis by (simp add: ht1_def fun_upd_idem)
      qed
      then have h1: "ihash_inv ht1" "ihash_map ht1 = (ihash_map ht)(key := None)" "stop ht1 = stop ht"
          "hsize ht1 = hsize ht" "large ht1 = large ht"
        by blast+
      have "slot_free ht key c"
      proof (cases "index_empty ht1 ff")
        case False
        then have "c = i" by (simp add: c_def)
        moreover have "target ht key \<noteq> None"
        proof
          assume n: "target ht key = None"
          then have "ht1 = ht" "i = idx" using home by (simp_all add: ht1_def i_def)
          with False True ff(2) \<open>c = i\<close> show False by (auto simp: index_empty_def deleted_def)
        qed
        ultimately show ?thesis using tj by (auto simp: i_def)
      qed (simp add: c_def ff)
      then have sf: "slot_free ht1 key c" by (simp add: slot_free_def h1)
      have "\<not> live ht1 c" "key_fits ht1 key" "ihash_map ht1 key = None"
        using True val h1 by (simp_all add: live_def key_fits_def)
      note st = store_item_ok [OF h1(1) _ this(1) _ val(1) this(2,3)]
      have "ihash_inv (store_item ht1 c key val)" "ihash_map (store_item ht1 c key val) = (ihash_map ht)(key \<mapsto> val)"
        using st sf by (auto simp: slot_free_def h1(2))
      with eq True h1 show ?thesis by (intro exI [of _ True] exI [of _ "store_item ht1 c key val"]) simp
    next
      case False
      have nv: "\<not> index_valid ht i key"
        using False locp_remove_items(1) [of i ht want_old i] valid inv
        by (auto simp: c_def ht1_def index_empty_def live_def ihash_inv_def split: if_splits)
      then have ht1: "ht1 = ht" by (simp add: ht1_def)
      have busy: "\<not> index_empty ht ff" "\<not> index_empty ht i" using False by (auto simp: ht1 c_def split: if_splits)
      have ffi: "ff = idx" using busy(1) ff(2) by (auto simp: index_empty_def deleted_def)
      have none: "target ht key = None"
      proof (cases "target ht key")
        case (Some j)
        then have "stop ht key i" using find_Some_mem [OF Some [unfolded target_def]] Some by (simp add: i_def)
        with busy(2) nv show ?thesis by (auto simp: stop_def index_valid_def index_empty_def)
      qed
      then have "\<forall>x\<in>set (probes (hsize ht) idx). \<not> stop ht key x"
        by (auto simp: target_def idx_def find_None_iff)
      moreover have "x < hsize ht" if "x \<in> set (probes (hsize ht) idx)" for x
        using that probes_less inv_size [OF inv] by (metis idx_def mod_less_divisor)
      ultimately have "\<forall>x\<in>set (probes (hsize ht) idx). live ht x"
        using full [OF none ffi] busy ffi by (auto simp: live_def index_empty_def stop_def deleted_def)
      with eq nv valid False show ?thesis by (auto simp: ht1 idx_def)
    qed
  qed
qed

lemma hurd_ihash_remove_ok:
  assumes inv: "ihash_inv ht"
  shows "\<exists>ht'. hurd_ihash_remove ht key = Some (ihash_map ht key \<noteq> None, ht') \<and> ihash_inv ht'
    \<and> ihash_map ht' = (ihash_map ht)(key := None) \<and> hsize ht' = hsize ht \<and> large ht' = large ht"
proof (cases "ihash_map ht key")
  case None
  then have "\<not> index_valid ht (case target ht key of None \<Rightarrow> unat key mod hsize ht | Some j \<Rightarrow> j) key"
    by (auto simp: ihash_map_def target_def probes_def stop_def index_valid_def split: option.splits if_splits)
  with None inv show ?thesis
    using inv_size [OF inv] by (simp add: hurd_ihash_remove_def find_index_eq fun_upd_idem)
next
  case (Some v)
  then obtain j where j: "target ht key = Some j" "index_valid ht j key"
    by (auto simp: ihash_map_def split: option.splits if_splits)
  then have "live ht j" "KEY ht j = key" using target_less [OF inv] by (auto simp: live_def index_valid_def)
  with locp_remove_ok [OF inv this(1), of True] j Some inv_size [OF inv] show ?thesis
    by (simp add: hurd_ihash_remove_def find_index_eq)
qed

subsection \<open>Finite maps\<close>

text \<open>What the users of a table rely on: it is a finite map with lookup, insertion and deletion, where
  insertion may report that there is no room.\<close>

locale finite_table =
  fixes inv :: "'t \<Rightarrow> bool" and abs :: "'t \<Rightarrow> 'k \<Rightarrow> 'v option" and okkey :: "'t \<Rightarrow> 'k \<Rightarrow> bool" and okval :: "'v \<Rightarrow> bool"
    and lookup :: "'t \<Rightarrow> 'k \<Rightarrow> 'v option option" and insert :: "'t \<Rightarrow> 'k \<Rightarrow> 'v \<Rightarrow> (bool \<times> 't) option"
    and delete :: "'t \<Rightarrow> 'k \<Rightarrow> 't option"
  assumes lookup_spec: "inv t \<Longrightarrow> lookup t k = Some (abs t k)"
    and insert_spec: "inv t \<Longrightarrow> okkey t k \<Longrightarrow> okval v \<Longrightarrow> \<exists>b t'. insert t k v = Some (b, t')
      \<and> inv t' \<and> abs t' = (if b then (abs t)(k \<mapsto> v) else abs t) \<and> okkey t' = okkey t"
    and delete_spec: "inv t \<Longrightarrow> \<exists>t'. delete t k = Some t' \<and> inv t' \<and> abs t' = (abs t)(k := None)
      \<and> okkey t' = okkey t"
    and abs_okval: "inv t \<Longrightarrow> abs t k = Some v \<Longrightarrow> okval v"
begin

lemma lookup_insert:
  assumes "inv t" "okkey t k" "okval v" "insert t k v = Some (True, t')"
  shows "lookup t' k' = (if k' = k then Some (Some v) else lookup t k')"
  using insert_spec [OF assms(1-3)] assms lookup_spec by auto

lemma lookup_delete:
  assumes "inv t" "delete t k = Some t'"
  shows "lookup t' k' = (if k' = k then Some None else lookup t k')"
  using delete_spec [OF assms(1), of k] assms lookup_spec by auto

lemma insert_delete:
  assumes "inv t" "okkey t k" "okval v" "abs t k = None" "insert t k v = Some (True, t')"
  shows "\<exists>t''. delete t' k = Some t'' \<and> inv t'' \<and> abs t'' = abs t"
proof -
  have t': "inv t'" "abs t' = (abs t)(k \<mapsto> v)" using insert_spec [OF assms(1-3)] assms(5) by auto
  from delete_spec [OF t'(1), of k] t'(2) assms(4) show ?thesis by (auto simp: fun_upd_idem)
qed

text \<open>A run of operations that all find room computes the same map as the operations on maps.\<close>

primrec insert_all :: "'t \<Rightarrow> ('k \<times> 'v) list \<Rightarrow> 't option" where
  "insert_all t [] = Some t"
| "insert_all t (kv # kvs) = do {
     (b, t') \<leftarrow> insert t (fst kv) (snd kv);
     if b then insert_all t' kvs else None
   }"

lemma insert_all_spec:
  "inv t \<Longrightarrow> \<forall>(k, v)\<in>set kvs. okkey t k \<and> okval v \<Longrightarrow> insert_all t kvs = Some t' \<Longrightarrow>
   inv t' \<and> abs t' = abs t ++ map_of (rev kvs)"
proof (induction kvs arbitrary: t)
  case (Cons kv kvs)
  obtain k v where kv: "kv = (k, v)" by fastforce
  from insert_spec [OF Cons.prems(1), of k v] Cons.prems(2) kv obtain b t1 where
    t1: "insert t k v = Some (b, t1)" "inv t1" "abs t1 = (if b then (abs t)(k \<mapsto> v) else abs t)"
      "okkey t1 = okkey t" by auto
  with Cons.prems(3) kv have "b" "insert_all t1 kvs = Some t'" by (auto split: if_splits)
  with Cons.IH [OF t1(2)] Cons.prems(2) t1(3,4) show ?case
    by (auto simp: kv map_add_def fun_eq_iff split: option.splits)
qed simp

end

definition table_find :: "ihash \<Rightarrow> u64 \<Rightarrow> u32 option option" where
  "table_find ht key = map_option (\<lambda>v. if v = 0 then None else Some v) (hurd_ihash_find ht key)"

definition table_replace :: "ihash \<Rightarrow> u64 \<Rightarrow> u32 \<Rightarrow> (bool \<times> ihash) option" where
  "table_replace ht key v = map_option (\<lambda>(e, _, _, ht). (e = Success, ht)) (hurd_ihash_replace_nomalloc ht key v False)"

definition table_remove :: "ihash \<Rightarrow> u64 \<Rightarrow> ihash option" where
  "table_remove ht key = map_option snd (hurd_ihash_remove ht key)"

lemma ihash_map_storable: "ihash_inv ht \<Longrightarrow> ihash_map ht key = Some v \<Longrightarrow> storable v"
  by (auto simp: ihash_map_iff live_def index_empty_def storable_def)

lemma replace_nomalloc_ok:
  assumes inv: "ihash_inv ht" and val: "storable val" "key_fits ht key"
  shows "\<exists>e ht'. hurd_ihash_replace_nomalloc ht key val want_old = Some
      (e, ihash_map ht key \<noteq> None, if want_old then ihash_map ht key else None, ht')
    \<and> (if e = Success then ihash_inv ht' \<and> ihash_map ht' = (ihash_map ht)(key \<mapsto> val)
         \<and> hsize ht' = hsize ht \<and> large ht' = large ht
       else ht' = ht \<and> ihash_map ht key = None
         \<and> (\<forall>j\<in>set (probes (hsize ht) (unat key mod hsize ht)). live ht j))"
proof -
  obtain added ht' where r: "replace_one ht key val want_old = Some
      (added, ihash_map ht key \<noteq> None, if want_old then ihash_map ht key else None, ht')"
    "if added then ihash_inv ht' \<and> ihash_map ht' = (ihash_map ht)(key \<mapsto> val)
         \<and> hsize ht' = hsize ht \<and> large ht' = large ht
       else ht' = ht \<and> ihash_map ht key = None
         \<and> (\<forall>j\<in>set (probes (hsize ht) (unat key mod hsize ht)). live ht j)"
    using replace_one_ok [OF assms] by blast
  show ?thesis
    using r inv_size [OF inv]
    by (intro exI [of _ "if added then Success else ENOMEM"] exI [of _ ht'])
      (auto simp: hurd_ihash_replace_nomalloc_def split: if_splits)
qed

interpretation ihash_table: finite_table ihash_inv ihash_map key_fits storable table_find table_replace table_remove
proof
  fix t :: ihash and k v
  assume inv: "ihash_inv t"
  show "table_find t k = Some (ihash_map t k)"
    using ihash_map_storable [OF inv, of k]
    by (auto simp: table_find_def hurd_ihash_find_eq [OF inv] storable_def HURD_IHASH_EMPTY_def split: option.splits)
  show "\<exists>b t'. table_replace t k v = Some (b, t') \<and> ihash_inv t'
      \<and> ihash_map t' = (if b then (ihash_map t)(k \<mapsto> v) else ihash_map t) \<and> key_fits t' = key_fits t"
    if "key_fits t k" "storable v"
    using replace_nomalloc_ok [OF inv that(2,1), of False] inv
    by (fastforce simp: table_replace_def key_fits_def split: if_splits)
  show "\<exists>t'. table_remove t k = Some t' \<and> ihash_inv t' \<and> ihash_map t' = (ihash_map t)(k := None)
      \<and> key_fits t' = key_fits t"
    using hurd_ihash_remove_ok [OF inv, of k] by (fastforce simp: table_remove_def key_fits_def)
  show "storable v" if "ihash_map t k = Some v" using ihash_map_storable [OF inv that] .
qed

end
