(* ===== verification/Ihash_Probe.thy ===== *)
theory Ihash_Probe
  imports Ihash
begin

text \<open>
  The comment of \<open>replace_one\<close> in \<^verbatim>\<open>libhurd-ihash/ihash.c\<close> claims that quadratic probing in both
  directions tries all slots of the table if its size is a prime of the form \<open>4 * i + 3\<close>. This theory
  proves it, from Fermat's little theorem, checks that sizes in the table of the source are such
  primes, and draws the consequences for insertion.
\<close>

subsection \<open>Primes of the form 4 k + 3\<close>

definition is_prime :: "int \<Rightarrow> bool" where
  "is_prime p \<longleftrightarrow> 1 < p \<and> (\<forall>d. 0 < d \<and> d dvd p \<longrightarrow> d = 1 \<or> d = p)"

lemma euclid_lemma:
  assumes "is_prime p" "p dvd a * b"
  shows "p dvd a \<or> p dvd b"
proof -
  have "gcd p a dvd p" "0 < gcd p a" using assms(1) by (auto simp: is_prime_def)
  then consider "gcd p a = 1" | "gcd p a = p" using assms(1) unfolding is_prime_def by blast
  then show ?thesis
  proof cases
    case 1
    then have "coprime p a" by (simp add: coprime_iff_gcd_eq_1)
    with assms(2) show ?thesis by (simp add: coprime_dvd_mult_right_iff)
  next
    case 2
    then show ?thesis by (metis gcd_dvd2)
  qed
qed

lemma not_dvd_prod:
  assumes "is_prime p" "finite S" "\<forall>x\<in>S. \<not> p dvd x"
  shows "\<not> p dvd \<Prod>S"
  using assms(2,3)
proof (induction S rule: finite_induct)
  case empty
  then show ?case using assms(1) by (auto simp: is_prime_def)
next
  case (insert x S)
  then show ?case using euclid_lemma [OF assms(1)] by auto
qed

lemma fermat:
  assumes p: "is_prime p" and a: "\<not> p dvd a"
  shows "p dvd a ^ (nat p - 1) - 1"
proof -
  let ?S = "{1..p - 1}" and ?f = "\<lambda>x. (a * x) mod p"
  have p1: "1 < p" using p by (simp add: is_prime_def)
  have unit: "\<not> p dvd x" if "x \<in> ?S" for x using that by (auto dest: zdvd_imp_le)
  have inj: "inj_on ?f ?S"
  proof (rule inj_onI)
    fix x y
    assume xy: "x \<in> ?S" "y \<in> ?S" "?f x = ?f y"
    then have "p dvd a * (x - y)" by (simp add: mod_eq_dvd_iff right_diff_distrib)
    then have "p dvd x - y" using euclid_lemma [OF p] a by blast
    with xy(1,2) show "x = y" by (smt (verit, best) atLeastAtMost_iff zdvd_imp_le dvd_minus_iff minus_diff_eq)
  qed
  have "?f ` ?S \<subseteq> ?S"
  proof
    fix y
    assume "y \<in> ?f ` ?S"
    then obtain x where x: "x \<in> ?S" "y = ?f x" by blast
    then have "\<not> p dvd a * x" using euclid_lemma [OF p] a unit by blast
    then have "y \<noteq> 0" using x by auto
    with x p1 show "y \<in> ?S" by (smt (verit, best) atLeastAtMost_iff pos_mod_bound pos_mod_sign)
  qed
  then have img: "?f ` ?S = ?S" using inj by (simp add: endo_inj_surj)
  have "\<Prod>?S = (\<Prod>x\<in>?S. ?f x)" using prod.reindex [OF inj, of id] img by simp
  then have "\<Prod>?S mod p = (\<Prod>x\<in>?S. a * x) mod p" by (simp add: mod_prod_eq)
  also have "(\<Prod>x\<in>?S. a * x) = a ^ (nat p - 1) * \<Prod>?S"
    using p1 by (simp add: prod.distrib nat_diff_distrib)
  finally have "p dvd (a ^ (nat p - 1) - 1) * \<Prod>?S"
    by (simp add: mod_eq_dvd_iff left_diff_distrib dvd_diff_commute)
  moreover have "\<not> p dvd \<Prod>?S" using not_dvd_prod [OF p, of ?S] unit by simp
  ultimately show ?thesis using euclid_lemma [OF p] by blast
qed

lemma no_sum_of_squares:
  assumes p: "is_prime p" "p mod 4 = 3" and xy: "p dvd x ^ 2 + y ^ 2"
  shows "p dvd y"
proof (rule ccontr)
  assume y: "\<not> p dvd y"
  have sq: "p dvd z ^ 2 \<longleftrightarrow> p dvd z" for z :: int
    unfolding power2_eq_square using euclid_lemma [OF p(1)] dvd_mult by blast
  have x: "\<not> p dvd x"
  proof
    assume "p dvd x"
    then have "p dvd y ^ 2" using xy sq by (simp add: dvd_add_right_iff)
    with y sq show False by blast
  qed
  define h where "h = nat ((p - 1) div 2)"
  have p1: "1 < p" using p(1) by (simp add: is_prime_def)
  obtain k where k: "p = 4 * k + 3" using p(2) by (metis mult_div_mod_eq)
  then have "0 \<le> k" using p1 by linarith
  with k have h: "odd h" "nat p - 1 = 2 * h"
    by (auto simp: h_def nat_add_distrib nat_mult_distrib even_nat_iff)
  have "p dvd x ^ 2 - (- (y ^ 2))" using xy by simp
  then have "(x ^ 2) mod p = (- (y ^ 2)) mod p" by (simp add: mod_eq_dvd_iff)
  then have "(x ^ 2) ^ h mod p = (- (y ^ 2)) ^ h mod p" by (metis power_mod)
  then have "p dvd x ^ (2 * h) + y ^ (2 * h)"
    using h(1) by (simp add: mod_eq_dvd_iff power_mult power_minus_odd)
  moreover have "p dvd x ^ (2 * h) - 1" "p dvd y ^ (2 * h) - 1"
    using fermat [OF p(1) x] fermat [OF p(1) y] h(2) by simp_all
  then have "p dvd x ^ (2 * h) + y ^ (2 * h) - 2"
    using dvd_add [of p "x ^ (2 * h) - 1" "y ^ (2 * h) - 1"] by (simp add: algebra_simps)
  ultimately have "p dvd 2" by (metis dvd_diff_right_iff)
  then have "p \<le> 2" by (rule zdvd_imp_le) simp
  with k \<open>0 \<le> k\<close> show False by linarith
qed

text \<open>Every non-zero residue is plus or minus the square of a number up to half of the prime.\<close>

lemma plus_minus_squares:
  assumes p: "is_prime p" "p mod 4 = 3" and r: "0 < r" "r < p"
  shows "\<exists>j. 1 \<le> j \<and> j \<le> (p - 1) div 2 \<and> (r = j ^ 2 mod p \<or> r = (- (j ^ 2)) mod p)"
proof -
  let ?J = "{1..(p - 1) div 2}"
  let ?U = "(\<lambda>j. j ^ 2 mod p) ` ?J" and ?D = "(\<lambda>j. (- (j ^ 2)) mod p) ` ?J"
  have p1: "1 < p" using p(1) by (simp add: is_prime_def)
  have half: "2 * ((p - 1) div 2) = p - 1" using p(2) by presburger
  have unit: "\<not> p dvd j" if "j \<in> ?J" for j using that half p1 by (auto dest!: zdvd_imp_le)
  have same: "j = k" if "j \<in> ?J" "k \<in> ?J" "p dvd j ^ 2 - k ^ 2" for j k
  proof -
    have "p dvd (j + k) * (j - k)" using that(3) by (simp add: power2_eq_square algebra_simps)
    then have "p dvd j + k \<or> p dvd j - k" by (rule euclid_lemma [OF p(1)])
    moreover have "\<not> p dvd j + k" using that(1,2) half by (auto dest!: zdvd_imp_le)
    moreover have "\<bar>j - k\<bar> < p" using that(1,2) half by auto
    ultimately show ?thesis using dvd_imp_le_int [of "j - k" p] p1 by fastforce
  qed
  have injU: "inj_on (\<lambda>j. j ^ 2 mod p) ?J" using same by (auto intro!: inj_onI simp: mod_eq_dvd_iff)
  have injD: "inj_on (\<lambda>j. (- (j ^ 2)) mod p) ?J"
    using same by (auto intro!: inj_onI simp: mod_eq_dvd_iff dvd_diff_commute)
  have disj: "?U \<inter> ?D = {}"
  proof (rule ccontr)
    assume "?U \<inter> ?D \<noteq> {}"
    then obtain j k where jk: "j \<in> ?J" "k \<in> ?J" "j ^ 2 mod p = (- (k ^ 2)) mod p" by blast
    then have "p dvd j ^ 2 + k ^ 2" by (simp add: mod_eq_dvd_iff)
    with no_sum_of_squares [OF p] unit jk(2) show False by blast
  qed
  have sub: "?U \<union> ?D \<subseteq> {1..p - 1}"
  proof
    fix y
    assume "y \<in> ?U \<union> ?D"
    then obtain j where j: "j \<in> ?J" "y = j ^ 2 mod p \<or> y = (- (j ^ 2)) mod p" by blast
    have "\<not> p dvd j ^ 2" using unit [OF j(1)] euclid_lemma [OF p(1)] unfolding power2_eq_square by blast
    then have "y \<noteq> 0" using j(2) by (auto simp: mod_eq_0_iff_dvd)
    moreover have "0 \<le> y" "y < p" using j(2) p1 by auto
    ultimately show "y \<in> {1..p - 1}" by simp
  qed
  have "card (?U \<union> ?D) = nat ((p - 1) div 2) + nat ((p - 1) div 2)"
    using disj by (simp add: card_Un_disjoint card_image [OF injU] card_image [OF injD])
  also have "\<dots> = card {1..p - 1}" using half p1 by simp
  finally have "?U \<union> ?D = {1..p - 1}" using sub by (intro card_subset_eq) auto
  then have "r \<in> ?U \<union> ?D" using r by simp
  then show ?thesis by auto
qed

subsection \<open>The probe sequence covers the table\<close>

lemma up_step:
  assumes "0 < n"
  shows "step_up n (2 * j + 1) ((idx + j ^ 2) mod n) = (idx + (Suc j) ^ 2) mod n"
proof -
  have "idx + (Suc j) ^ 2 = idx + j ^ 2 + (2 * j + 1)" by (simp add: power2_eq_square)
  then show ?thesis unfolding step_up_def by (simp only: mod_add_left_eq)
qed

lemma down_step:
  assumes n: "0 < n" and i: "i < n" "d < n" and d: "int d = (int idx - int j ^ 2) mod int n" "i = 2 * j + 1"
  shows "int (step_down n i d) = (int idx - int (Suc j) ^ 2) mod int n"
proof -
  have "int (step_down n i d) = (int d - int i) mod int n"
  proof (cases "d < i")
    case True
    then have "int (step_down n i d) = (int d + int n - int i) mod int n"
      using i by (simp add: step_down_def zmod_int of_nat_diff)
    then show ?thesis by (metis add_diff_eq diff_add_eq mod_add_self2)
  next
    case False
    then show ?thesis using i by (simp add: step_down_def zmod_int of_nat_diff)
  qed
  also have "\<dots> = (int idx - int j ^ 2 - int i) mod int n" by (simp add: d(1) mod_diff_left_eq)
  also have "int idx - int j ^ 2 - int i = int idx - int (Suc j) ^ 2" by (simp add: d(2) power2_eq_square algebra_simps)
  finally show ?thesis .
qed

lemma probe_rounds_squares:
  assumes "odd n" "2 * (j + m) < n" "up = (idx + j ^ 2) mod n" "int down = (int idx - int j ^ 2) mod int n"
    and "j < k" "k \<le> j + m"
  shows "(idx + k ^ 2) mod n \<in> set (probe_rounds n m (2 * j + 1) up down)
    \<and> nat ((int idx - int k ^ 2) mod int n) \<in> set (probe_rounds n m (2 * j + 1) up down)"
  using assms(2-)
proof (induction m arbitrary: j up down)
  case (Suc m)
  have n: "0 < n" "2 * j + 1 < n" using Suc.prems by auto
  have "int down < int n" using Suc.prems(3) n by simp
  then have dn: "down < n" by simp
  have up: "step_up n (2 * j + 1) up = (idx + (Suc j) ^ 2) mod n"
    using up_step [OF n(1)] Suc.prems(2) by simp
  have down: "int (step_down n (2 * j + 1) down) = (int idx - int (Suc j) ^ 2) mod int n"
    by (rule down_step [OF n dn Suc.prems(3) refl])
  show ?case
  proof (cases "k = Suc j")
    case True
    have "nat ((int idx - int (Suc j) ^ 2) mod int n) = step_down n (2 * j + 1) down"
      unfolding down [symmetric] by simp
    with True up show ?thesis by (simp del: One_nat_def)
  next
    case False
    have i: "(2 * j + 1 + 2) mod n = 2 * Suc j + 1" if "2 * Suc j + 1 < n" using that by simp
    have "Suc j < k" using False Suc.prems(4) by simp
    then have "2 * Suc j + 1 < n" using Suc.prems(1,5) by simp
    with i Suc.IH [of "Suc j", OF _ up down] Suc.prems False show ?thesis by simp
  qed
qed simp

definition covers :: "nat \<Rightarrow> bool" where
  "covers n \<longleftrightarrow> (\<forall>idx<n. set (probes n idx) = {..<n})"

lemma prime_covers:
  assumes p: "is_prime (int n)" "n mod 4 = 3"
  shows "covers n"
  unfolding covers_def
proof (intro allI impI equalityI subsetI)
  fix idx y
  assume idx: "idx < n" and "y \<in> {..<n}"
  then have y: "y < n" by simp
  have odd: "odd n" using p(2) by presburger
  have four: "int n mod 4 = 3" using p(2) by presburger
  show "y \<in> set (probes n idx)"
  proof (cases "y = idx")
    case False
    define r where "r = (int y - int idx) mod int n"
    have n0: "0 < int n" using idx by simp
    have "r \<noteq> 0"
    proof
      assume "r = 0"
      then have "int n dvd int y - int idx" by (simp add: r_def mod_eq_0_iff_dvd)
      moreover have "\<bar>int y - int idx\<bar> < int n" using idx y by auto
      ultimately show False using False dvd_imp_le_int [of "int y - int idx" "int n"] by fastforce
    qed
    moreover have "0 \<le> r" "r < int n" using n0 by (simp_all add: r_def)
    ultimately have r: "0 < r" "r < int n" by linarith+
    obtain k where k: "1 \<le> k" "k \<le> (int n - 1) div 2" "r = k ^ 2 mod int n \<or> r = (- (k ^ 2)) mod int n"
      using plus_minus_squares [OF p(1) four r] by blast
    define j where "j = nat k"
    have j: "int j = k" "0 < j" "j \<le> (n - 1) div 2" using k by (auto simp: j_def)
    have "2 * ((n - 1) div 2) < n" using odd by (auto elim: oddE)
    then have mem: "(idx + j ^ 2) mod n \<in> set (probes n idx)"
        "nat ((int idx - int j ^ 2) mod int n) \<in> set (probes n idx)"
      using probe_rounds_squares [of n 0 "(n - 1) div 2" idx idx idx j] odd idx j by (auto simp: probes_def)
    have "int y = (int idx + r) mod int n" using y by (simp add: r_def mod_add_right_eq)
    with k(3) j(1) consider "int y = (int idx + int j ^ 2) mod int n" | "int y = (int idx - int j ^ 2) mod int n"
      by (auto simp: mod_add_right_eq)
    then show ?thesis
    proof cases
      case 1
      then have "int y = int ((idx + j ^ 2) mod n)" by (simp add: zmod_int)
      then have "y = (idx + j ^ 2) mod n" by (simp only: of_nat_eq_iff)
      with mem(1) show ?thesis by simp
    next
      case 2
      then have "y = nat ((int idx - int j ^ 2) mod int n)" by (metis nat_int)
      with mem(2) show ?thesis by simp
    qed
  qed (simp add: probes_def)
qed (auto dest: probes_less)

subsection \<open>The sizes of the source\<close>

text \<open>Trial division: no divisor up to \<open>k\<close>, whose square exceeds the number.\<close>

definition trial :: "int \<Rightarrow> int \<Rightarrow> bool" where
  "trial p k \<longleftrightarrow> 1 < p \<and> p < (k + 1) * (k + 1) \<and> list_all (\<lambda>d. p mod d \<noteq> 0) [2..k]"

lemma trial_prime:
  assumes "trial p k" "0 < k"
  shows "is_prime p"
  unfolding is_prime_def
proof (intro conjI allI impI)
  show p1: "1 < p" using assms by (simp add: trial_def)
  fix d
  assume d: "0 < d \<and> d dvd p"
  show "d = 1 \<or> d = p"
  proof (rule ccontr)
    assume n: "\<not> (d = 1 \<or> d = p)"
    obtain e where e: "p = d * e" using d by blast
    have "0 < e" using e d p1 by (smt (verit) zero_less_mult_iff)
    have "e \<noteq> 1" using n e by auto
    have small: "\<not> k < x \<or> \<not> k < y" if "p = x * y" "0 < x" "0 < y" for x y
    proof (rule ccontr)
      assume "\<not> (\<not> k < x \<or> \<not> k < y)"
      then have "(k + 1) * (k + 1) \<le> x * y" using assms(2) by (intro mult_mono) auto
      with that(1) assms(1) show False by (simp add: trial_def)
    qed
    have no: "\<not> x dvd p" if "2 \<le> x" "x \<le> k" for x
      using assms(1) that by (auto simp: trial_def list_all_iff dvd_eq_mod_eq_0)
    from small [OF e] d \<open>0 < e\<close> have "d \<le> k \<or> e \<le> k" by auto
    with no [of d] no [of e] d e n \<open>0 < e\<close> \<open>e \<noteq> 1\<close> show False by auto
  qed
qed

definition trials :: "(int \<times> int) list" where
  "trials = [(3, 1), (7, 2), (19, 4), (43, 6), (103, 10), (211, 14), (431, 20), (863, 29), (1747, 41),
      (3499, 59), (7019, 83), (14051, 118), (28111, 167), (56239, 237)]"

definition more_trials :: "(int \<times> int) list" where
  "more_trials = [(112507, 335), (225023, 474)]"

lemma trials_hold: "list_all (\<lambda>(p, k). trial p k \<and> p mod 4 = 3 \<and> 0 < k) trials"
  by code_simp

lemma more_trials_hold: "list_all (\<lambda>(p, k). trial p k \<and> p mod 4 = 3 \<and> 0 < k) more_trials"
  by code_simp

definition small_sizes :: "nat set" where
  "small_sizes = {n \<in> set ihash_sizes. n \<le> 225023}"

lemma small_sizes_cover:
  assumes "n \<in> small_sizes"
  shows "covers n"
proof -
  have "int n \<in> fst ` set (trials @ more_trials)"
    using assms by (auto simp: small_sizes_def ihash_sizes_def trials_def more_trials_def)
  then obtain k where k: "(int n, k) \<in> set (trials @ more_trials)" by (metis imageE prod.collapse)
  then have "trial (int n) k" "int n mod 4 = 3" "0 < k"
    using trials_hold more_trials_hold by (auto simp: list_all_iff)
  then show ?thesis by (intro prime_covers trial_prime [of _ k]) (auto, presburger)
qed

subsection \<open>Insertion finds room\<close>

lemma full_when_covered:
  assumes "ihash_inv ht" "covers (hsize ht)" "\<forall>j\<in>set (probes (hsize ht) (unat key mod hsize ht)). live ht j"
  shows "nr_items ht = hsize ht"
proof -
  have "{j. live ht j} = {..<hsize ht}"
    using assms inv_size [OF assms(1)] by (auto simp: covers_def live_def)
  with assms(1) show ?thesis by (simp add: ihash_inv_def)
qed

lemma replace_one_room:
  assumes "ihash_inv ht" "covers (hsize ht)" "storable val" "key_fits ht key"
    and "nr_items ht < hsize ht \<or> ihash_map ht key \<noteq> None"
  shows "\<exists>ht'. replace_one ht key val want_old = Some
      (True, ihash_map ht key \<noteq> None, if want_old then ihash_map ht key else None, ht')
    \<and> ihash_inv ht' \<and> ihash_map ht' = (ihash_map ht)(key \<mapsto> val) \<and> hsize ht' = hsize ht \<and> large ht' = large ht"
proof -
  obtain added ht' where r: "replace_one ht key val want_old = Some
      (added, ihash_map ht key \<noteq> None, if want_old then ihash_map ht key else None, ht')"
    "if added then ihash_inv ht' \<and> ihash_map ht' = (ihash_map ht)(key \<mapsto> val)
         \<and> hsize ht' = hsize ht \<and> large ht' = large ht
       else ht' = ht \<and> ihash_map ht key = None
         \<and> (\<forall>j\<in>set (probes (hsize ht) (unat key mod hsize ht)). live ht j)"
    using replace_one_ok [OF assms(1,3,4)] by blast
  have "added"
  proof (rule ccontr)
    assume "\<not> added"
    with r(2) full_when_covered [OF assms(1,2)] assms(5) show False by auto
  qed
  with r show ?thesis by auto
qed

lemma inj_key_live:
  assumes "ihash_inv ht"
  shows "bij_betw (KEY ht) {j. live ht j} (dom (ihash_map ht))"
proof (rule bij_betwI')
  fix x y
  assume "x \<in> {j. live ht j}" "y \<in> {j. live ht j}"
  then show "KEY ht x = KEY ht y \<longleftrightarrow> x = y"
    using assms unfolding ihash_inv_def by (metis mem_Collect_eq option.inject)
next
  fix x
  assume "x \<in> {j. live ht j}"
  then show "KEY ht x \<in> dom (ihash_map ht)" using ihash_map_iff [OF assms] by auto
next
  fix k
  assume "k \<in> dom (ihash_map ht)"
  then show "\<exists>x\<in>{j. live ht j}. k = KEY ht x" using ihash_map_iff [OF assms] by auto
qed

lemma nr_items_dom: "ihash_inv ht \<Longrightarrow> nr_items ht = card (dom (ihash_map ht))"
  using bij_betw_same_card [OF inj_key_live] by (simp add: ihash_inv_def)

subsection \<open>Growing the table\<close>

text \<open>The map of the items in the slots \<open>is\<close> of the old table.\<close>

definition items_map :: "ihash \<Rightarrow> nat set \<Rightarrow> u64 \<Rightarrow> u32 option" where
  "items_map old I k = (if \<exists>i\<in>I. live old i \<and> KEY old i = k then ihash_map old k else None)"

lemma rehash_ok:
  assumes old: "ihash_inv old"
  shows "ihash_inv ht \<Longrightarrow> covers (hsize ht) \<Longrightarrow> large ht = large old \<Longrightarrow> distinct is \<Longrightarrow>
    set is \<subseteq> {..<hsize old} \<Longrightarrow> set is \<inter> I = {} \<Longrightarrow> ihash_map ht = items_map old I \<Longrightarrow>
    nr_items ht + length is < hsize ht \<Longrightarrow>
    \<exists>ht'. rehash old is want_old ht = Some ht' \<and> ihash_inv ht' \<and> ihash_map ht' = items_map old (I \<union> set is)
      \<and> hsize ht' = hsize ht \<and> large ht' = large ht \<and> nr_items ht' \<le> nr_items ht + length is"
proof (induction "is" arbitrary: ht I)
  case (Cons i "is")
  show ?case
  proof (cases "live old i")
    case False
    then have "items_map old (insert i I) = items_map old I" by (auto simp: items_map_def fun_eq_iff)
    moreover have "index_empty old i" using False Cons.prems by (auto simp: live_def)
    ultimately show ?thesis
      using Cons.IH [of ht "insert i I"] Cons.prems by fastforce
  next
    case True
    have ne: "\<not> index_empty old i" using True by (simp add: live_def)
    have val: "storable (VALUE old i)" "key_fits ht (KEY old i)"
      using True old Cons.prems(3) by (auto simp: live_def index_empty_def storable_def ihash_inv_def key_fits_def)
    obtain ht1 where h1: "replace_one ht (KEY old i) (VALUE old i) want_old
          = Some (True, ihash_map ht (KEY old i) \<noteq> None, if want_old then ihash_map ht (KEY old i) else None, ht1)"
        "ihash_inv ht1" "ihash_map ht1 = (ihash_map ht)(KEY old i \<mapsto> VALUE old i)" "hsize ht1 = hsize ht" "large ht1 = large ht"
      using replace_one_room [OF Cons.prems(1,2) val, of want_old] Cons.prems(8) by auto
    have m: "ihash_map old (KEY old i) = Some (VALUE old i)"
      using True ihash_map_iff [OF old] by blast
    have map1: "ihash_map ht1 = items_map old (insert i I)"
      unfolding h1(3) Cons.prems(7) using m True by (auto simp: items_map_def fun_eq_iff)
    have nr: "nr_items ht1 \<le> nr_items ht + 1"
      unfolding nr_items_dom [OF h1(2)] nr_items_dom [OF Cons.prems(1)] h1(3)
      by (simp add: card_insert_le_m1 card_insert_if)
    have "\<exists>ht'. rehash old is want_old ht1 = Some ht' \<and> ihash_inv ht'
        \<and> ihash_map ht' = items_map old (insert i I \<union> set is)
        \<and> hsize ht' = hsize ht1 \<and> large ht' = large ht1 \<and> nr_items ht' \<le> nr_items ht1 + length is"
      using Cons.prems h1 map1 nr by (intro Cons.IH) auto
    with h1 ne nr show ?thesis by (fastforce simp: insert_commute)
  qed
qed simp

definition table_ok :: "ihash \<Rightarrow> bool" where
  "table_ok ht \<longleftrightarrow> ihash_inv ht \<or> hsize ht = 0"

definition table_map :: "ihash \<Rightarrow> u64 \<Rightarrow> u32 option" where
  "table_map ht = (if hsize ht = 0 then Map.empty else ihash_map ht)"

lemma fresh_table:
  assumes "odd n" "3 \<le> n"
  shows "ihash_inv (ht\<lparr>nr_items := 0, hsize := n, items := replicate n (0, 0)\<rparr>)"
    and "ihash_map (ht\<lparr>nr_items := 0, hsize := n, items := replicate n (0, 0)\<rparr>) = Map.empty"
proof -
  let ?h = "ht\<lparr>nr_items := 0, hsize := n, items := replicate n (0, 0)\<rparr>"
  have none: "\<not> live ?h j" for j
    by (auto simp: live_def index_empty_def VALUE_def HURD_IHASH_EMPTY_def)
  then show inv: "ihash_inv ?h" using assms by (simp add: ihash_inv_def)
  show "ihash_map ?h = Map.empty"
    using ihash_map_iff [OF inv] none by (metis option.exhaust ext)
qed

lemma find_first_bound: "List.find (\<lambda>s. s \<ge> c) ihash_sizes = Some s \<Longrightarrow> c \<le> 225023 \<Longrightarrow> s \<le> 225023"
  by (auto simp: ihash_sizes_def split: if_splits)

lemma effective_load_bounds: "0 < effective_load f" "effective_load f \<le> 100"
  by (auto simp: effective_load_def Let_def)

text \<open>The size of the new table as long as nothing wraps around.\<close>

lemma buffer_size_small:
  assumes need: "(n + 1) * 100 div nat (effective_load f) \<le> 225023"
  shows "\<exists>s \<in> small_sizes. n < s \<and> hurd_ihash_buffer_size (of_nat n + 1) lrg f = of_nat (s * ITEM_SIZE lrg) \<and>
    unat (of_nat (s * ITEM_SIZE lrg) :: u32) = s * ITEM_SIZE lrg \<and> (of_nat (s * ITEM_SIZE lrg) :: u32) < SIZE_MAX"
proof -
  let ?g = "nat (effective_load f)" and ?c = "(of_nat n + 1 :: u32) * 100 div word_of_int (effective_load f)"
  note g = effective_load_bounds [of f]
  have gn: "0 < ?g" "?g \<le> 100" using g by auto
  have "(n + 1) * 100 < (225023 + 1) * ?g" using need gn(1) by (simp add: less_mult_imp_div_less div_less_iff_less_mult less_Suc_eq_le [symmetric] del: mult_Suc_right)
  also have "\<dots> \<le> (225023 + 1) * 100" using gn(2) by (intro mult_le_mono2)
  finally have small: "(n + 1) * 100 < 22502400" by simp
  have "unat ((of_nat n + 1 :: u32) * 100) = (n + 1) * 100"
  proof -
    have "(of_nat n + 1 :: u32) * 100 = of_nat ((n + 1) * 100)" by (simp add: algebra_simps)
    then show ?thesis using small by (simp only: unat_of_nat take_bit_nat_eq_self_iff) simp
  qed
  moreover have "unat (word_of_int (effective_load f) :: u32) = ?g"
  proof -
    have "(word_of_int (effective_load f) :: u32) = of_nat ?g" using g(1) by simp
    then show ?thesis using gn(2) by (simp only: unat_of_nat take_bit_nat_eq_self_iff) simp
  qed
  ultimately have c: "unat ?c = (n + 1) * 100 div ?g" by (simp add: unat_div_distrib)
  have "225023 \<in> set ihash_sizes" by (simp add: ihash_sizes_def)
  then have "List.find (\<lambda>s. s \<ge> (n + 1) * 100 div ?g) ihash_sizes \<noteq> None" unfolding find_None_iff using need by blast
  then obtain s where s: "List.find (\<lambda>s. s \<ge> (n + 1) * 100 div ?g) ihash_sizes = Some s" by blast
  have mem: "s \<in> set ihash_sizes" "(n + 1) * 100 div ?g \<le> s" using find_Some_mem [OF s] by auto
  have "s \<le> 225023" by (rule find_first_bound [OF s need])
  then have sm: "s \<in> small_sizes" "s * ITEM_SIZE lrg < 4294967295" using mem by (auto simp: small_sizes_def ITEM_SIZE_def)
  have "n + 1 = (n + 1) * ?g div ?g" using gn(1) by simp
  also have "\<dots> \<le> (n + 1) * 100 div ?g" using gn(2) by (intro div_le_mono mult_le_mono2)
  finally have ns: "n < s" using mem(2) by simp
  have u: "unat (of_nat (s * ITEM_SIZE lrg) :: u32) = s * ITEM_SIZE lrg"
    using sm(2) by (simp only: unat_of_nat take_bit_nat_eq_self_iff) simp
  then have "(of_nat (s * ITEM_SIZE lrg) :: u32) < SIZE_MAX"
    using sm(2) unfolding word_less_nat_alt u SIZE_MAX_def by (simp add: unsigned_minus_1_eq_mask mask_eq_exp_minus_1)
  moreover have "hurd_ihash_buffer_size (of_nat n + 1) lrg f = of_nat (s * ITEM_SIZE lrg)"
    unfolding hurd_ihash_buffer_size_def Let_def c using s by simp
  ultimately show ?thesis using sm(1) ns u by blast
qed

lemma items_map_all:
  assumes "ihash_inv old"
  shows "items_map old {..<hsize old} = ihash_map old"
proof
  fix k
  have "\<exists>i<hsize old. live old i \<and> KEY old i = k" if "ihash_map old k = Some v" for v
    using that ihash_map_iff [OF assms] by (auto simp: live_def)
  then show "items_map old {..<hsize old} k = ihash_map old k"
    by (cases "ihash_map old k") (auto simp: items_map_def)
qed

lemma sizes_odd: "n \<in> set ihash_sizes \<Longrightarrow> odd n \<and> 3 \<le> n"
  by (auto simp: ihash_sizes_def)

lemma hurd_ihash_grow_ok:
  assumes ht: "table_ok ht" and val: "storable val" "key_fits ht key"
    and need: "(hsize ht + 1) * 100 div nat (effective_load (sint (max_load ht))) \<le> 225023"
  shows "\<exists>ht'. hurd_ihash_grow True ht key val want_old
      = Some (Success, table_map ht key \<noteq> None, if want_old then table_map ht key else None, ht')
    \<and> ihash_inv ht' \<and> ihash_map ht' = (table_map ht)(key \<mapsto> val)"
proof -
  obtain n where sm: "n \<in> small_sizes" and size: "hsize ht < n"
      "hurd_ihash_buffer_size (of_nat (hsize ht) + 1) (large ht) (sint (max_load ht)) = of_nat (n * ITEM_SIZE (large ht))"
      "unat (of_nat (n * ITEM_SIZE (large ht)) :: u32) = n * ITEM_SIZE (large ht)" "(of_nat (n * ITEM_SIZE (large ht)) :: u32) < SIZE_MAX"
    using buffer_size_small [OF need] by blast
  have cov: "covers n" by (rule small_sizes_cover [OF sm])
  have d: "unat (of_nat (n * ITEM_SIZE (large ht)) :: u32) div ITEM_SIZE (large ht) = n" unfolding size(3) by (simp add: ITEM_SIZE_def)
  let ?new = "ht\<lparr>nr_items := 0, hsize := n, items := replicate n (0, 0)\<rparr>"
  have n: "odd n" "3 \<le> n" "hsize ht < n"
    using sizes_odd [of n] sm size(1) by (auto simp: small_sizes_def)
  note fresh = fresh_table [OF n(1,2), of ht]
  have "\<exists>h1. rehash ht [0..<hsize ht] want_old ?new = Some h1 \<and> ihash_inv h1 \<and> ihash_map h1 = table_map ht
      \<and> hsize h1 = n \<and> large h1 = large ht \<and> nr_items h1 \<le> hsize ht"
  proof (cases "hsize ht = 0")
    case True
    with fresh n show ?thesis by (auto simp: table_map_def)
  next
    case False
    then have old: "ihash_inv ht" using ht by (simp add: table_ok_def)
    have "ihash_map ?new = items_map ht {}" using fresh(2) by (simp add: items_map_def fun_eq_iff)
    with rehash_ok [OF old fresh(1), of "[0..<hsize ht]" "{}" want_old] cov n False items_map_all [OF old]
    show ?thesis by (auto simp: table_map_def lessThan_atLeast0)
  qed
  then obtain h1 where h1: "rehash ht [0..<hsize ht] want_old ?new = Some h1" "ihash_inv h1"
      "ihash_map h1 = table_map ht" "hsize h1 = n" "large h1 = large ht" "nr_items h1 \<le> hsize ht" by blast
  have "key_fits h1 key" "covers (hsize h1)" "nr_items h1 < hsize h1"
    using val(2) h1 cov n by (simp_all add: key_fits_def)
  with replace_one_room [OF h1(2) _ val(1), of key want_old] h1 n size(4) show ?thesis
    unfolding hurd_ihash_grow_def Let_def size(2) d by auto
qed

subsection \<open>Properties\<close>

text \<open>C15: The kernel's hash table is a finite map. In a well-formed table whose size is one of the source up to 225023,
  lookup, insertion and deletion return and compute what they compute on the map from keys to values:
  insertion reports the old value and fails only when the table is full and the key is new; it never
  reports \<open>ENOMEM\<close> while a slot is free. Every operation keeps the table well formed.\<close>

theorem ihash_refines_map:
  assumes inv: "ihash_inv ht" and size: "hsize ht \<in> small_sizes" and val: "storable val" "key_fits ht key"
  shows "hurd_ihash_find ht key = Some (case ihash_map ht key of None \<Rightarrow> 0 | Some v \<Rightarrow> v)
    \<and> (\<exists>ht'. hurd_ihash_remove ht key = Some (ihash_map ht key \<noteq> None, ht') \<and> ihash_inv ht'
         \<and> ihash_map ht' = (ihash_map ht)(key := None))
    \<and> (\<exists>e ht'. hurd_ihash_replace_nomalloc ht key val True = Some (e, ihash_map ht key \<noteq> None, ihash_map ht key, ht')
         \<and> (e = ENOMEM \<longleftrightarrow> card (dom (ihash_map ht)) = hsize ht \<and> ihash_map ht key = None)
         \<and> ihash_inv ht' \<and> ihash_map ht' = (if e = ENOMEM then ihash_map ht else (ihash_map ht)(key \<mapsto> val)))"
proof (intro conjI)
  show "hurd_ihash_find ht key = Some (case ihash_map ht key of None \<Rightarrow> 0 | Some v \<Rightarrow> v)"
    by (rule hurd_ihash_find_eq [OF inv])
  show "\<exists>ht'. hurd_ihash_remove ht key = Some (ihash_map ht key \<noteq> None, ht') \<and> ihash_inv ht'
      \<and> ihash_map ht' = (ihash_map ht)(key := None)"
    using hurd_ihash_remove_ok [OF inv, of key] by blast
  note cov = small_sizes_cover [OF size]
  have dom: "nr_items ht = card (dom (ihash_map ht))" "nr_items ht \<le> hsize ht"
    using nr_items_dom [OF inv] inv card_mono [of "{..<hsize ht}" "{j. live ht j}"]
    by (auto simp: ihash_inv_def live_def)
  show "\<exists>e ht'. hurd_ihash_replace_nomalloc ht key val True = Some (e, ihash_map ht key \<noteq> None, ihash_map ht key, ht')
      \<and> (e = ENOMEM \<longleftrightarrow> card (dom (ihash_map ht)) = hsize ht \<and> ihash_map ht key = None)
      \<and> ihash_inv ht' \<and> ihash_map ht' = (if e = ENOMEM then ihash_map ht else (ihash_map ht)(key \<mapsto> val))"
  proof (cases "nr_items ht < hsize ht \<or> ihash_map ht key \<noteq> None")
    case True
    from replace_one_room [OF inv cov val True, of True] True dom inv_size [OF inv] show ?thesis
      by (auto simp: hurd_ihash_replace_nomalloc_def)
  next
    case False
    have "\<not> live ht' j \<or> live ht j" if "ht' = ht" for ht' j using that by simp
    have full: "card {j. live ht j} = hsize ht" using False dom inv by (simp add: ihash_inv_def)
    obtain e ht' where r: "hurd_ihash_replace_nomalloc ht key val True
        = Some (e, ihash_map ht key \<noteq> None, ihash_map ht key, ht')"
      "if e = Success then ihash_inv ht' \<and> ihash_map ht' = (ihash_map ht)(key \<mapsto> val) \<and> hsize ht' = hsize ht
       else ht' = ht"
      using replace_nomalloc_ok [OF inv val, of True] by (auto split: if_splits)
    have "e \<noteq> Success"
    proof
      assume "e = Success"
      with r(2) have h: "ihash_inv ht'" "ihash_map ht' = (ihash_map ht)(key \<mapsto> val)" "hsize ht' = hsize ht" by auto
      have "nr_items ht' = Suc (nr_items ht)"
        unfolding nr_items_dom [OF h(1)] nr_items_dom [OF inv] h(2) using False inv
        by (simp add: card_insert_if bij_betw_finite [OF inj_key_live [OF inv], symmetric] domIff)
      moreover have "nr_items ht' \<le> hsize ht'"
        using h(1) card_mono [of "{..<hsize ht'}" "{j. live ht' j}"] by (auto simp: ihash_inv_def live_def)
      ultimately show False using h(3) False dom by simp
    qed
    then have "e = ENOMEM" by (cases e) auto
    with r False dom inv show ?thesis by (auto simp: \<open>e \<noteq> Success\<close>)
  qed
qed

definition example_table :: ihash where
  "example_table = \<lparr>nr_items = 0, large = True, items = replicate 7 (0, 0), hsize = 7, has_locp = False,
     max_load = 80, has_cleanup = False, locps = \<lambda>_. None, cleaned = []\<rparr>"

lemma example_table_inv: "ihash_inv example_table" "ihash_map example_table = Map.empty"
proof -
  have "example_table = example_table\<lparr>nr_items := 0, hsize := 7, items := replicate 7 (0, 0)\<rparr>"
    by (simp add: example_table_def)
  with fresh_table [of 7 example_table] show "ihash_inv example_table" "ihash_map example_table = Map.empty"
    by simp_all
qed

theorem ihash_refines_map_witness:
  "\<exists>ht'. hurd_ihash_replace_nomalloc example_table 0x123456789 0x1000 True = Some (Success, False, None, ht')
     \<and> ihash_map ht' = [0x123456789 \<mapsto> 0x1000]"
proof -
  have "hsize example_table \<in> small_sizes" by (simp add: example_table_def small_sizes_def ihash_sizes_def)
  moreover have "storable 0x1000" by (simp add: storable_def HURD_IHASH_EMPTY_def HURD_IHASH_DELETED_def)
  moreover have "key_fits example_table 0x123456789" by (simp add: key_fits_def example_table_def)
  moreover have "hsize example_table \<noteq> 0" by (simp add: example_table_def)
  ultimately obtain e ht' where r: "hurd_ihash_replace_nomalloc example_table 0x123456789 0x1000 True = Some (e, False, None, ht')"
    "e \<noteq> ENOMEM" "ihash_map ht' = [0x123456789 \<mapsto> 0x1000]"
    using ihash_refines_map [OF example_table_inv(1), of "0x1000" "0x123456789"] example_table_inv(2) by auto
  from r(2) have "e = Success" by (cases e) simp_all
  with r show ?thesis by auto
qed

text \<open>C16: The user-space table grows on demand. Whether the table is empty, has room or is too full,
  insertion with enough memory succeeds and updates the represented map: rebuilding the table in a
  larger array loses and invents no item, and no assertion of the rebuilding fails. The table has to need at most
  225023 slots, the sizes for which probing is shown to reach every slot: with the default load factor of 80 percent its
  size is at most 180017, and no computation of a size wraps around then.\<close>

theorem ihash_replace_grows:
  assumes ht: "table_ok ht" and val: "storable val" "key_fits ht key"
    and need: "(hsize ht + 1) * 100 div nat (effective_load (sint (max_load ht))) \<le> 225023"
  shows "\<exists>ht'. hurd_ihash_replace True ht key val True = Some (Success, table_map ht key \<noteq> None, table_map ht key, ht')
    \<and> ihash_inv ht' \<and> ihash_map ht' = (table_map ht)(key \<mapsto> val)"
proof -
  note grow = hurd_ihash_grow_ok [OF ht val need, of True]
  show ?thesis
  proof (cases "hsize ht \<noteq> 0 \<and> (of_nat (nr_items ht) * 100 :: u32) div of_nat (hsize ht) \<le> max_load ht")
    case False
    with grow show ?thesis by (auto simp: hurd_ihash_replace_def)
  next
    case True
    then have inv: "ihash_inv ht" and tm: "table_map ht = ihash_map ht" using ht by (auto simp: table_ok_def table_map_def)
    obtain added ht' where r: "replace_one ht key val True = Some (added, ihash_map ht key \<noteq> None, ihash_map ht key, ht')"
      "if added then ihash_inv ht' \<and> ihash_map ht' = (ihash_map ht)(key \<mapsto> val) else ht' = ht"
      using replace_one_ok [OF inv val, of True] by (auto split: if_splits)
    with True grow tm show ?thesis by (cases added) (auto simp: hurd_ihash_replace_def)
  qed
qed

theorem ihash_replace_grows_witness:
  "\<exists>ht'. hurd_ihash_replace True (example_table\<lparr>hsize := 0, items := []\<rparr>) 5 0x1000 True = Some (Success, False, None, ht')
     \<and> ihash_map ht' = [5 \<mapsto> 0x1000]"
proof -
  have "table_ok (example_table\<lparr>hsize := 0, items := []\<rparr>)"
      "table_map (example_table\<lparr>hsize := 0, items := []\<rparr>) = Map.empty"
    by (simp_all add: table_ok_def table_map_def)
  moreover have "storable 0x1000" by (simp add: storable_def HURD_IHASH_EMPTY_def HURD_IHASH_DELETED_def)
  ultimately show ?thesis
    using ihash_replace_grows [of "example_table\<lparr>hsize := 0, items := []\<rparr>" "0x1000" 5]
    by (auto simp: key_fits_def example_table_def effective_load_def Let_def)
qed

lemma replace_one_cleaned:
  assumes "replace_one ht key val want_old = Some (added, had, old, ht')"
  shows "cleaned ht' = cleaned ht @ (if has_cleanup ht then (case old of None \<Rightarrow> [] | Some v \<Rightarrow> [v]) else [])"
  using assms by (auto simp: replace_one_def Let_def locp_remove_def bind_eq_Some_conv split: if_splits)

text \<open>The cleanup function is called for a replaced value exactly when the caller asks for the old
  value. The documentation of \<open>hurd_ihash_replace\<close> promises the opposite.\<close>

theorem ihash_replace_cleanup:
  assumes inv: "ihash_inv ht" and val: "storable val" "key_fits ht key"
    and old: "ihash_map ht key = Some v" "has_cleanup ht"
  shows "\<exists>e had old' ht'. hurd_ihash_replace_nomalloc ht key val want_old = Some (e, had, old', ht')
    \<and> cleaned ht' = (if want_old then cleaned ht @ [v] else cleaned ht)"
proof -
  obtain added ht' where r: "replace_one ht key val want_old
      = Some (added, ihash_map ht key \<noteq> None, if want_old then ihash_map ht key else None, ht')"
    using replace_one_ok [OF inv val, of want_old] by blast
  from replace_one_cleaned [OF r] r old inv_size [OF inv] show ?thesis
    by (auto simp: hurd_ihash_replace_nomalloc_def)
qed

theorem ihash_replace_cleanup_witness:
  "\<exists>ht e had old' ht'. ihash_map ht 5 = Some 0x1000 \<and> cleaned ht = []
     \<and> hurd_ihash_replace_nomalloc ht 5 0x2000 True = Some (e, had, old', ht') \<and> cleaned ht' = [0x1000]"
proof -
  let ?t = "example_table\<lparr>has_cleanup := True\<rparr>"
  have "?t = ?t\<lparr>nr_items := 0, hsize := 7, items := replicate 7 (0, 0)\<rparr>" by (simp add: example_table_def)
  then have inv: "ihash_inv ?t" "ihash_map ?t = Map.empty" using fresh_table [of 7 ?t] by simp_all
  have val: "storable 0x1000" "storable 0x2000" "key_fits ?t 5"
    by (simp_all add: storable_def HURD_IHASH_EMPTY_def HURD_IHASH_DELETED_def key_fits_def)
  have cov: "covers (hsize ?t)"
    by (rule small_sizes_cover) (simp add: example_table_def small_sizes_def ihash_sizes_def)
  have "nr_items ?t < hsize ?t" by (simp add: example_table_def)
  then obtain ht where r: "replace_one ?t 5 0x1000 False = Some (True, False, None, ht)"
    and ht: "ihash_inv ht" "ihash_map ht = [5 \<mapsto> 0x1000]" "large ht = large ?t"
    using replace_one_room [OF inv(1) cov val(1,3), of False] inv(2) by auto
  have "cleaned ht = []" "has_cleanup ht"
    using replace_one_cleaned [OF r] r
    by (auto simp: example_table_def replace_one_def Let_def locp_remove_def store_item_def bind_eq_Some_conv split: if_splits)
  moreover have "key_fits ht 5" using val(3) ht(3) by (simp add: key_fits_def)
  ultimately show ?thesis
    using ihash_replace_cleanup [OF ht(1) val(2), of 5 "0x1000" True] ht(2) by (intro exI [of _ ht]) auto
qed

end
