(* ===== verification/Zalloc.thy ===== *)
theory Zalloc
  imports L4_Math
begin

text \<open>
  The buddy allocator of \<^verbatim>\<open>viengoos/zalloc.c\<close>, which hands out the physical memory of the machine.

  Free blocks of size \<open>2 ^ (z + 12)\<close> are kept in zone \<open>z\<close>, in a list ordered by address. The list is
  threaded through the blocks themselves; here it is the list of their addresses, so finding the
  neighbours of a block is splitting the list, unlinking a neighbour is removing an end of a part, and
  inserting is joining the parts around the block. There are nineteen zones; an access to another zone
  is outside of the array and is \<open>None\<close>, as are the panics and failed assertions. The contents of the
  memory (\<open>memset\<close>) and the printing of the zones are not modelled.
\<close>

subsection \<open>Operations\<close>

definition PAGESIZE :: u32 where
  "PAGESIZE = 4096"

record zstate =
  zone :: "u32 list list"
  zalloc_memory :: u32

definition ZONE_SIZE :: "nat \<Rightarrow> u32" where
  "ZONE_SIZE x = shl 1 (x + 12)"

definition ZONES :: nat where
  "ZONES = 4 * 8 - 12 - 1"

function add_block :: "u32 list list \<Rightarrow> u32 \<Rightarrow> nat \<Rightarrow> u32 list list option" where
  "add_block zones block zone_nr =
     (if length zones \<le> zone_nr then None
      else let lefts = takeWhile (\<lambda>right. block > right) (zones ! zone_nr);
               rights = dropWhile (\<lambda>right. block > right) (zones ! zone_nr) in
        if lefts \<noteq> [] \<and> last lefts XOR block = ZONE_SIZE zone_nr
        then add_block (zones[zone_nr := butlast lefts @ rights]) (last lefts) (zone_nr + 1)
        else if rights \<noteq> [] \<and> hd rights XOR block = ZONE_SIZE zone_nr
        then add_block (zones[zone_nr := lefts @ tl rights]) block (zone_nr + 1)
        else Some (zones[zone_nr := lefts @ block # rights]))"
  by pat_completeness auto
termination by (relation "measure (\<lambda>(zones, _, zone_nr). length zones - zone_nr)") auto

declare add_block.simps [simp del]

definition zfree_zone :: "u32 \<Rightarrow> u32 \<Rightarrow> nat" where
  "zfree_zone block bytes =
     (let block_align = of_nat (l4_lsb block) - 1 :: u32;
          size_align = of_nat (l4_msb bytes) - 1 :: u32
      in unat ((if block_align < size_align then block_align else size_align) - 12))"

partial_function (option) zfree_loop :: "u32 list list \<Rightarrow> u32 \<Rightarrow> u32 \<Rightarrow> u32 list list option" where
  "zfree_loop zones block bytes =
     add_block zones block (zfree_zone block bytes) \<bind>
     (\<lambda>zones. let z = zfree_zone block bytes;
                  block = block + ZONE_SIZE z; bytes = bytes - ZONE_SIZE z in
        if bytes > 0 then zfree_loop zones block bytes else Some zones)"

definition zfree :: "zstate \<Rightarrow> u32 \<Rightarrow> u32 \<Rightarrow> zstate option" where
  "zfree s block bytes = do {
     c_assert (block \<noteq> 0);
     c_assert (bytes AND (PAGESIZE - 1) = 0);
     c_assert (block AND (PAGESIZE - 1) = 0);
     let s = s\<lparr>zalloc_memory := zalloc_memory s + bytes div PAGESIZE\<rparr>;
     zones \<leftarrow> zfree_loop (zone s) block bytes;
     Some (s\<lparr>zone := zones\<rparr>)
   }"

definition zalloc_init :: zstate where
  "zalloc_init = \<lparr>zone = replicate ZONES [], zalloc_memory = 0\<rparr>"

text \<open>The zone the search of \<open>zalloc\<close> ends at. The loop reads \<open>zone[ZONES]\<close>, one past the array, when all
  zones are exhausted; it leaves the loop there whatever it reads. A start beyond that has no meaning.\<close>

definition zalloc_zone :: "u32 list list \<Rightarrow> nat \<Rightarrow> nat option" where
  "zalloc_zone zones zone_nr =
     (if ZONES < zone_nr then None
      else case List.find (\<lambda>z. zones ! z \<noteq> []) [zone_nr..<ZONES] of
        Some z \<Rightarrow> Some z | None \<Rightarrow> Some ZONES)"

definition zalloc :: "zstate \<Rightarrow> u32 \<Rightarrow> (u32 \<times> zstate) option" where
  "zalloc s bytes = do {
     c_assert (bytes AND (PAGESIZE - 1) = 0);
     let zone_nr = unat (of_nat (l4_msb (bytes - 1)) - 12 :: u32);
     zone_nr \<leftarrow> zalloc_zone (zone s) zone_nr;
     if zone_nr = ZONES then do {
       c_assert (zalloc_memory s = 0);
       Some (0, s)
     }
     else do {
       let block = hd (zone s ! zone_nr);
       let s = s\<lparr>zone := (zone s)[zone_nr := tl (zone s ! zone_nr)]\<rparr>;
       let s = s\<lparr>zalloc_memory := zalloc_memory s - ZONE_SIZE zone_nr div PAGESIZE\<rparr>;
       s \<leftarrow> (if ZONE_SIZE zone_nr > bytes then zfree s (block + bytes) (ZONE_SIZE zone_nr - bytes) else Some s);
       Some (block, s)
     }
   }"

subsection \<open>Blocks and buddies\<close>

definition mem_of :: "nat \<Rightarrow> u32 \<Rightarrow> nat set" where
  "mem_of z b = {unat b..<unat b + 2 ^ (z + 12)}"

definition block_ok :: "nat \<Rightarrow> u32 \<Rightarrow> bool" where
  "block_ok z b \<longleftrightarrow> 0 < unat b \<and> 2 ^ (z + 12) dvd unat b \<and> unat b + 2 ^ (z + 12) \<le> 2 ^ 31"

lemma dvd_exp_bits: "2 ^ k dvd unat (a :: u32) \<longleftrightarrow> (\<forall>n<k. \<not> bit a n)"
proof -
  have "2 ^ k dvd unat a \<longleftrightarrow> take_bit k (unat a) = 0" by (simp add: take_bit_eq_0_iff)
  also have "\<dots> \<longleftrightarrow> (\<forall>n. \<not> bit (take_bit k (unat a)) n)" by (auto simp: bit_eq_iff)
  also have "\<dots> \<longleftrightarrow> (\<forall>n<k. \<not> bit a n)"
    by (auto simp: bit_take_bit_iff bit_unsigned_iff dest: bit_imp_le_length)
  finally show ?thesis .
qed

lemma unat_ZONE_SIZE: "z < 20 \<Longrightarrow> unat (ZONE_SIZE z) = 2 ^ (z + 12)"
  unfolding ZONE_SIZE_def by (rule unat_shl_1) simp

lemma nat_xor_exp:
  assumes "(A :: nat) XOR B = 2 ^ k" "A < B"
  shows "B = A + 2 ^ k" "\<not> bit A k"
proof -
  have B: "B = flip_bit k A"
  proof -
    have "B = A XOR (A XOR B)" by (simp flip: xor.assoc)
    then show ?thesis using assms(1) by (simp add: flip_bit_eq_xor)
  qed
  show not: "\<not> bit A k"
  proof
    assume "bit A k"
    then have "A = set_bit k (unset_bit k A)" by (intro bit_eqI) (auto simp: bit_simps)
    then have "unset_bit k A \<le> A" by (metis le_add1 set_bit_eq)
    with \<open>bit A k\<close> have "B \<le> A" unfolding B flip_bit_eq_if by simp
    with assms(2) show False by simp
  qed
  then show "B = A + 2 ^ k" unfolding B flip_bit_eq_if by (simp add: set_bit_eq)
qed

lemma buddy:
  assumes "2 ^ k dvd unat (a :: u32)" "a XOR b = shl 1 k" "a < b" "k < 32"
  shows "unat b = unat a + 2 ^ k" "2 ^ Suc k dvd unat a"
proof -
  have "unat a XOR unat b = 2 ^ k"
    using arg_cong [OF assms(2), of unat] assms(4) by (simp add: unsigned_xor_eq unat_shl_1)
  moreover have "unat a < unat b" using assms(3) by (simp add: word_less_nat_alt)
  ultimately have *: "unat b = unat a + 2 ^ k" "\<not> bit (unat a) k" by (rule nat_xor_exp)+
  then show "unat b = unat a + 2 ^ k" by simp
  show "2 ^ Suc k dvd unat a"
    using assms(1,4) *(2) unfolding dvd_exp_bits by (auto simp: less_Suc_eq bit_unsigned_iff)
qed

lemma buddy_conv:
  assumes "2 ^ k dvd unat (a :: u32)" "a XOR b = shl 1 k" "k < 32"
  shows "2 ^ k dvd unat b"
proof -
  have "b = a XOR shl 1 k" by (simp flip: assms(2) add: xor.assoc [symmetric])
  then show ?thesis using assms(1,3) by (auto simp: dvd_exp_bits bit_xor_iff bit_shl_1)
qed

subsection \<open>The invariant of the zones\<close>

definition blocks :: "u32 list list \<Rightarrow> (nat \<times> u32) set" where
  "blocks zones = {(z, b). z < length zones \<and> b \<in> set (zones ! z)}"

definition free_mem :: "u32 list list \<Rightarrow> nat set" where
  "free_mem zones = (\<Union>(z, b) \<in> blocks zones. mem_of z b)"

text \<open>Nineteen ordered lists of blocks that are aligned to their size, do not overlap, lie in the lower
  half of the address space, and among which no two are buddies: everything that can be coalesced is.\<close>

definition zinv :: "u32 list list \<Rightarrow> bool" where
  "zinv zones \<longleftrightarrow> length zones = ZONES \<and> (\<forall>xs \<in> set zones. sorted_wrt (<) xs) \<and>
     (\<forall>(z, b) \<in> blocks zones. block_ok z b) \<and>
     (\<forall>p \<in> blocks zones. \<forall>q \<in> blocks zones. p \<noteq> q \<longrightarrow> case_prod mem_of p \<inter> case_prod mem_of q = {}) \<and>
     (\<forall>z a b. (z, a) \<in> blocks zones \<longrightarrow> (z, b) \<in> blocks zones \<longrightarrow> a XOR b \<noteq> ZONE_SIZE z)"

lemma ZONES_eq: "ZONES = 19"
  by (simp add: ZONES_def)

lemma blocks_update:
  "z < length zones \<Longrightarrow>
   blocks (zones[z := xs]) = {p \<in> blocks zones. fst p \<noteq> z} \<union> Pair z ` set xs"
  by (auto simp: blocks_def nth_list_update split: if_splits)

lemma blocks_remove:
  assumes "z < length zones" "set xs = set (zones ! z) - {b}"
  shows "blocks (zones[z := xs]) = blocks zones - {(z, b)}"
  unfolding blocks_update [OF assms(1)] assms(2) using assms(1) by (auto simp: blocks_def)

lemma blocks_insert:
  assumes "z < length zones" "set xs = insert b (set (zones ! z))"
  shows "blocks (zones[z := xs]) = insert (z, b) (blocks zones)"
  unfolding blocks_update [OF assms(1)] assms(2) using assms(1) by (auto simp: blocks_def)

lemma mem_of_not_empty [simp]: "mem_of z b \<noteq> {}"
  by (simp add: mem_of_def)

lemma zinv_sorted_update:
  "(\<forall>ys \<in> set zones. sorted_wrt (<) ys) \<Longrightarrow> sorted_wrt (<) xs \<Longrightarrow>
   (\<forall>ys \<in> set (zones[z := xs]). sorted_wrt (<) ys)"
  using set_update_subset_insert [of zones z xs] by (blast dest: subsetD)

lemma zinv_remove:
  assumes inv: "zinv zones" and z: "z < ZONES" and b: "b \<in> set (zones ! z)"
    and xs: "sorted_wrt (<) xs" "set xs = set (zones ! z) - {b}"
  shows "zinv (zones[z := xs])" "free_mem (zones[z := xs]) = free_mem zones - mem_of z b"
    "mem_of z b \<subseteq> free_mem zones" "block_ok z b"
proof -
  have len: "z < length zones" using inv z by (simp add: zinv_def)
  note bl = blocks_remove [OF len xs(2)]
  have mem: "(z, b) \<in> blocks zones" using len b by (simp add: blocks_def)
  show "zinv (zones[z := xs])"
    using inv xs(1) unfolding zinv_def bl by (auto intro: zinv_sorted_update [rule_format])
  have dis: "\<And>p. p \<in> blocks zones \<Longrightarrow> p \<noteq> (z, b) \<Longrightarrow> case_prod mem_of p \<inter> mem_of z b = {}"
    using inv mem unfolding zinv_def by fastforce
  show sub: "mem_of z b \<subseteq> free_mem zones" using mem by (auto simp: free_mem_def)
  have "free_mem zones = free_mem (zones[z := xs]) \<union> mem_of z b"
    using mem unfolding free_mem_def bl by blast
  moreover have "free_mem (zones[z := xs]) \<inter> mem_of z b = {}"
    using dis unfolding free_mem_def bl by blast
  ultimately show "free_mem (zones[z := xs]) = free_mem zones - mem_of z b" by blast
  show "block_ok z b" using inv mem unfolding zinv_def by blast
qed

lemma zinv_insert:
  assumes inv: "zinv zones" and z: "z < ZONES" and b: "block_ok z b" "mem_of z b \<inter> free_mem zones = {}"
    and xs: "sorted_wrt (<) xs" "set xs = insert b (set (zones ! z))"
    and nb: "\<And>a. a \<in> set (zones ! z) \<Longrightarrow> a XOR b \<noteq> ZONE_SIZE z"
  shows "zinv (zones[z := xs])" "free_mem (zones[z := xs]) = free_mem zones \<union> mem_of z b"
proof -
  have len: "z < length zones" using inv z by (simp add: zinv_def)
  note bl = blocks_insert [OF len xs(2)]
  show "free_mem (zones[z := xs]) = free_mem zones \<union> mem_of z b"
    unfolding free_mem_def bl by auto
  have dis: "\<And>p. p \<in> blocks zones \<Longrightarrow> mem_of z b \<inter> case_prod mem_of p = {}"
    using b(2) unfolding free_mem_def by blast
  have 1: "\<forall>p \<in> insert (z, b) (blocks zones). \<forall>q \<in> insert (z, b) (blocks zones).
      p \<noteq> q \<longrightarrow> case_prod mem_of p \<inter> case_prod mem_of q = {}"
    using inv dis unfolding zinv_def by (auto simp: Int_commute)
  have "ZONE_SIZE z \<noteq> 0" using unat_ZONE_SIZE [of z] z by (auto simp: ZONES_eq)
  then have 2: "\<forall>z' a c. (z', a) \<in> insert (z, b) (blocks zones) \<longrightarrow> (z', c) \<in> insert (z, b) (blocks zones) \<longrightarrow>
      a XOR c \<noteq> ZONE_SIZE z'"
    using inv nb unfolding zinv_def by (auto simp: blocks_def xor.commute)
  show "zinv (zones[z := xs])"
    using inv xs(1) b(1) 1 2 unfolding zinv_def bl by (auto intro: zinv_sorted_update [rule_format])
qed

subsection \<open>Adding a block\<close>

lemma dvd_squeeze:
  assumes "(K :: nat) dvd x" "K dvd a" "a \<le> x" "x < a + K"
  shows "x = a"
proof -
  have "K dvd x - a" using assms by (simp add: dvd_diff_nat)
  with assms(3,4) show ?thesis using dvd_imp_le [of K "x - a"] by linarith
qed

lemma split_at:
  fixes b :: u32
  assumes "sorted_wrt (<) xs" "b \<notin> set xs"
  defines "L \<equiv> takeWhile (\<lambda>x. x < b) xs" and "R \<equiv> dropWhile (\<lambda>x. x < b) xs"
  shows "xs = L @ R" "\<forall>x \<in> set L. x < b" "\<forall>x \<in> set R. b < x"
    "sorted_wrt (<) L" "sorted_wrt (<) R" "sorted_wrt (<) (L @ b # R)"
proof -
  show xs: "xs = L @ R" by (simp add: L_def R_def)
  show L: "\<forall>x \<in> set L. x < b" by (auto simp: L_def dest: set_takeWhileD)
  show s: "sorted_wrt (<) L" "sorted_wrt (<) R" using assms(1) xs by (metis sorted_wrt_append)+
  show R: "\<forall>x \<in> set R. b < x"
  proof (cases R)
    case (Cons r rs)
    then have "\<not> r < b" using hd_dropWhile [of "\<lambda>x. x < b" xs] by (simp add: R_def)
    moreover have "r \<in> set xs" using xs Cons by simp
    ultimately have "b < r" using assms(2) by (metis linorder_neqE)
    then show ?thesis using s(2) Cons by fastforce
  qed simp
  show "sorted_wrt (<) (L @ b # R)"
    using s L R by (auto simp: sorted_wrt_append dest: less_trans)
qed

text \<open>A free buddy is a neighbour in the ordered list.\<close>

lemma buddy_left:
  assumes "sorted_wrt (<) L" "a \<in> set L" "\<forall>x \<in> set L. x < b" "\<forall>x \<in> set L. 2 ^ (z + 12) dvd unat x"
    and "a XOR b = ZONE_SIZE z" "z < 20"
  shows "last L = a"
proof -
  have L: "last L \<in> set L" using assms(2) by (auto intro: last_in_set)
  have "unat b = unat a + 2 ^ (z + 12)"
    using assms by (intro buddy(1)) (auto simp: ZONE_SIZE_def)
  moreover have "a \<le> last L"
  proof (cases L rule: rev_cases)
    case (snoc ys y)
    then show ?thesis using assms(1,2) by (auto simp: sorted_wrt_append intro: less_imp_le)
  qed (use assms(2) in simp)
  moreover have "last L < b" using L assms(3) by blast
  ultimately have "unat (last L) = unat a"
    using L assms(2,4) by (intro dvd_squeeze [of "2 ^ (z + 12)"]) (auto simp: word_less_nat_alt word_le_nat_alt)
  then show ?thesis by (simp add: word_unat_eq_iff)
qed

lemma buddy_right:
  assumes "sorted_wrt (<) R" "a \<in> set R" "\<forall>x \<in> set R. b < x" "\<forall>x \<in> set R. 2 ^ (z + 12) dvd unat x"
    and "a XOR b = ZONE_SIZE z" "z < 20"
  shows "hd R = a"
proof -
  obtain r rs where R: "R = r # rs" using assms(2) by (cases R) auto
  have x: "b XOR a = shl 1 (z + 12)" using assms(5) by (simp add: ZONE_SIZE_def xor.commute)
  have *: "b < a" "z + 12 < 32" "2 ^ (z + 12) dvd unat a" using assms(2,3,4,6) by auto
  have d: "2 ^ (z + 12) dvd unat b"
    by (rule buddy_conv [OF *(3) assms(5) [unfolded ZONE_SIZE_def] *(2)])
  have a: "unat a = unat b + 2 ^ (z + 12)" by (rule buddy(1) [OF d x *(1,2)])
  have r: "r \<le> a" "b < r" "2 ^ (z + 12) dvd unat r" using assms(1-4) R by (auto intro: less_imp_le)
  have "\<not> unat r < unat b + 2 ^ (z + 12)"
    using dvd_squeeze [OF r(3) d] r(2) by (auto simp: word_less_nat_alt)
  with r(1) a have "unat r = unat a" by (simp add: word_le_nat_alt)
  then show ?thesis using R by (simp add: word_unat_eq_iff)
qed

lemma merge:
  assumes "block_ok z a" "unat b + 2 ^ (z + 12) \<le> 2 ^ 31" "a XOR b = ZONE_SIZE z" "a < b" "z < ZONES"
  shows "block_ok (z + 1) a" "mem_of (z + 1) a = mem_of z a \<union> mem_of z b" "z + 1 < ZONES"
proof -
  have p: "2 ^ (z + 1 + 12) = 2 * (2 ^ (z + 12) :: nat)" by (simp add: power_add)
  have b: "unat b = unat a + 2 ^ (z + 12)" "2 * 2 ^ (z + 12) dvd unat a"
    using buddy [of "z + 12" a b] assms unfolding power_Suc
    by (simp_all add: block_ok_def ZONE_SIZE_def ZONES_eq)
  show 1: "block_ok (z + 1) a" using assms(1,2) b unfolding block_ok_def p by simp
  show "mem_of (z + 1) a = mem_of z a \<union> mem_of z b" unfolding mem_of_def b(1) p by auto
  show "z + 1 < ZONES"
  proof (rule ccontr)
    assume "\<not> z + 1 < ZONES"
    then have "z = 18" using assms(5) by (simp add: ZONES_eq)
    with 1 show False by (auto simp: block_ok_def dest: dvd_imp_le)
  qed
qed

text \<open>Adding a free block keeps the invariant and adds exactly the memory of the block.\<close>

definition added :: "u32 list list \<Rightarrow> nat set \<Rightarrow> u32 list list option \<Rightarrow> bool" where
  "added zones m r \<longleftrightarrow> (\<exists>zones'. r = Some zones' \<and> zinv zones' \<and> free_mem zones' = free_mem zones \<union> m)"

lemma merge_step:
  assumes inv: "zinv zones" "z < ZONES" and p: "p \<in> set (zones ! z)" "p XOR b = ZONE_SIZE z"
    and b: "block_ok z b" "mem_of z b \<inter> free_mem zones = {}"
    and xs: "sorted_wrt (<) xs" "set xs = set (zones ! z) - {p}"
  shows "zinv (zones[z := xs])" "z + 1 < ZONES" "block_ok (z + 1) (min p b)"
    "mem_of (z + 1) (min p b) \<inter> free_mem (zones[z := xs]) = {}"
    "free_mem (zones[z := xs]) \<union> mem_of (z + 1) (min p b) = free_mem zones \<union> mem_of z b"
proof -
  note r = zinv_remove [OF inv p(1) xs]
  have ne: "p \<noteq> b" using r(3) b(2) by (metis Int_absorb2 mem_of_not_empty)
  have bp: "b XOR p = ZONE_SIZE z" using p(2) by (simp add: xor.commute)
  have bnd: "unat b + 2 ^ (z + 12) \<le> 2 ^ 31" "unat p + 2 ^ (z + 12) \<le> 2 ^ 31"
    using b(1) r(4) by (simp_all add: block_ok_def)
  have m: "block_ok (z + 1) (min p b) \<and> mem_of (z + 1) (min p b) = mem_of z p \<union> mem_of z b \<and> z + 1 < ZONES"
  proof (cases "p < b")
    case True
    then have "min p b = p" by simp
    then show ?thesis using merge [OF r(4) bnd(1) p(2) True inv(2)] by simp
  next
    case False
    then have "b < p" using ne by simp
    moreover from this have "min p b = b" by simp
    ultimately show ?thesis using merge [OF b(1) bnd(2) bp _ inv(2)] by (simp add: Un_commute)
  qed
  then show "z + 1 < ZONES" "block_ok (z + 1) (min p b)" by blast+
  show "zinv (zones[z := xs])" by (rule r(1))
  from m have me: "mem_of (z + 1) (min p b) = mem_of z p \<union> mem_of z b" by blast
  show "mem_of (z + 1) (min p b) \<inter> free_mem (zones[z := xs]) = {}"
    "free_mem (zones[z := xs]) \<union> mem_of (z + 1) (min p b) = free_mem zones \<union> mem_of z b"
    unfolding me r(2) using b(2) r(3) by blast+
qed

lemma add_block_ok:
  assumes "zinv zones" "z < ZONES" "block_ok z b" "mem_of z b \<inter> free_mem zones = {}"
  shows "added zones (mem_of z b) (add_block zones b z)"
  using assms
proof (induction "ZONES - z" arbitrary: zones b z rule: less_induct)
  case less
  note inv = less.prems(1) and z = less.prems(2) and ok = less.prems(3) and dis = less.prems(4)
  have len: "z < length zones" using inv z by (simp add: zinv_def)
  define L R where "L = takeWhile (\<lambda>x. x < b) (zones ! z)" and "R = dropWhile (\<lambda>x. x < b) (zones ! z)"
  have srt: "sorted_wrt (<) (zones ! z)" using inv len by (simp add: zinv_def)
  have "\<And>x. x \<in> set (zones ! z) \<Longrightarrow> block_ok z x"
    using inv len unfolding zinv_def blocks_def by fast
  then have al: "\<forall>x \<in> set (zones ! z). 2 ^ (z + 12) dvd unat x" by (simp add: block_ok_def)
  have "\<And>x. x \<in> set (zones ! z) \<Longrightarrow> mem_of z x \<subseteq> free_mem zones"
    using len unfolding free_mem_def blocks_def by blast
  then have nin: "b \<notin> set (zones ! z)" using dis by (metis Int_absorb2 mem_of_not_empty)
  note LR = split_at [OF srt nin, folded L_def R_def]
  have IH: "added zones (mem_of z b) (add_block (zones[z := xs]) (min p b) (z + 1))"
    if "p \<in> set (zones ! z)" "p XOR b = ZONE_SIZE z" "sorted_wrt (<) xs" "set xs = set (zones ! z) - {p}" for p xs
  proof -
    note m = merge_step [OF inv z that(1,2) ok dis that(3,4)]
    have "ZONES - (z + 1) < ZONES - z" using z by simp
    from less.hyps [OF this m(1-4)] show ?thesis unfolding added_def m(5) .
  qed
  note step = add_block.simps [of zones b z, unfolded Let_def, folded L_def R_def]
  consider (left) L' a where "L = L' @ [a]" "a XOR b = ZONE_SIZE z"
    | (right) a R' where "R = a # R'" "a XOR b = ZONE_SIZE z" "\<not> (L \<noteq> [] \<and> last L XOR b = ZONE_SIZE z)"
    | (none) "\<not> (L \<noteq> [] \<and> last L XOR b = ZONE_SIZE z)" "\<not> (R \<noteq> [] \<and> hd R XOR b = ZONE_SIZE z)"
    by (metis append_butlast_last_id list.collapse)
  then show ?case
  proof cases
    case left
    then have "a < b" using LR(2) by simp
    then have "min a b = a" by simp
    moreover have "sorted_wrt (<) (L' @ R)" "set (L' @ R) = set (zones ! z) - {a}" "a \<in> set (zones ! z)"
      using srt left(1) unfolding LR(1) by (auto simp: sorted_wrt_append)
    ultimately show ?thesis unfolding step using IH [of a "L' @ R"] left len by simp
  next
    case right
    then have "b < a" using LR(3) by simp
    then have "min a b = b" by simp
    moreover have "sorted_wrt (<) (L @ R')" "set (L @ R') = set (zones ! z) - {a}" "a \<in> set (zones ! z)"
      using srt right(1) unfolding LR(1) by (auto simp: sorted_wrt_append)
    ultimately show ?thesis unfolding step using IH [of a "L @ R'"] right len by auto
  next
    case none
    have st: "set (L @ b # R) = insert b (set (zones ! z))" unfolding LR(1) by simp
    have nb: "a XOR b \<noteq> ZONE_SIZE z" if a: "a \<in> set (zones ! z)" for a
    proof
      assume x: "a XOR b = ZONE_SIZE z"
      have z20: "z < 20" using z by (simp add: ZONES_eq)
      have al': "\<forall>x \<in> set L. 2 ^ (z + 12) dvd unat x" "\<forall>x \<in> set R. 2 ^ (z + 12) dvd unat x"
        using al unfolding LR(1) by simp_all
      from a have "a \<in> set L \<or> a \<in> set R" unfolding LR(1) by simp
      then show False
        using buddy_left [OF LR(4) _ LR(2) al'(1) x z20] buddy_right [OF LR(5) _ LR(3) al'(2) x z20] none x
        by (metis empty_iff empty_set)
    qed
    have "added zones (mem_of z b) (Some (zones[z := L @ b # R]))"
      using zinv_insert [OF inv z ok dis LR(6) st nb] by (simp add: added_def)
    then show ?thesis unfolding step using none len by (simp only: if_False not_le [symmetric] simp_thms)
  qed
qed

subsection \<open>Freeing a range\<close>

lemma exp_dvd_word: "2 ^ k dvd unat (w :: u32) \<Longrightarrow> w \<noteq> 0 \<Longrightarrow> k < l4_lsb w"
proof -
  assume k: "2 ^ k dvd unat w" and "w \<noteq> 0"
  then obtain i where i: "l4_lsb w = Suc i" by (metis l4_lsb_eq_0 not0_implies_Suc)
  then have "bit w i" by (simp add: l4_lsb_Suc)
  with k have "k \<le> i" unfolding dvd_exp_bits by (metis linorder_not_le)
  with i show ?thesis by simp
qed

lemma exp_le_word: "2 ^ k \<le> unat (w :: u32) \<Longrightarrow> k < l4_msb w"
proof -
  assume k: "2 ^ k \<le> unat w"
  then have "w \<noteq> 0" by (metis less_one linorder_not_le unsigned_0 zero_less_numeral zero_less_power less_le_trans)
  then obtain i where i: "l4_msb w = Suc i" by (metis l4_msb_eq_0 not0_implies_Suc)
  then have "\<And>n. bit w n \<Longrightarrow> n < Suc i" by (auto simp: l4_msb_Suc not_less_eq)
  then have "unat w < 2 ^ Suc i" by (rule word_lt_exp_bits)
  with k have "(2::nat) ^ k < 2 ^ Suc i" by (rule le_less_trans)
  with i show ?thesis by (metis one_less_numeral_iff power_less_imp_less_exp semiring_norm(76))
qed

lemma l4_lsb_dvd: "l4_lsb w = Suc i \<Longrightarrow> 2 ^ i dvd unat w"
  by (simp add: l4_lsb_Suc dvd_exp_bits)

lemma l4_msb_exp_le: "l4_msb w = Suc i \<Longrightarrow> 2 ^ i \<le> unat w"
  using bit_word_lt_exp [of w i i] by (auto simp: l4_msb_Suc intro: leI)

lemma l4_sb_le: "l4_lsb w = Suc i \<Longrightarrow> i < 32" "l4_msb w = Suc i \<Longrightarrow> i < 32"
  by (auto simp: l4_lsb_Suc l4_msb_Suc dest: bit32_less)

text \<open>The zone a range is freed to: the largest that the alignment of its start and its size permit.\<close>

lemma zfree_zone_eq:
  assumes "l4_lsb b = Suc i" "12 \<le> i" "l4_msb n = Suc j" "12 \<le> j"
  shows "zfree_zone b n = min i j - 12"
proof -
  have lt: "i < 32" "j < 32" using assms l4_sb_le by blast+
  have u: "unat (of_nat x :: u32) = x" if "x < 33" for x using that by (simp add: unat_of_nat)
  have s: "of_nat (Suc x) - 1 = (of_nat x :: u32)" for x by simp
  have "(of_nat i :: u32) < of_nat j \<longleftrightarrow> i < j" using lt by (simp add: word_less_nat_alt u)
  then have "zfree_zone b n = unat (of_nat (min i j) - 12 :: u32)"
    unfolding zfree_zone_def assms(1,3) s Let_def by (auto simp: min_def)
  also have "of_nat (min i j) - 12 = (of_nat (min i j - 12) :: u32)"
    using assms by (simp add: of_nat_diff)
  finally show ?thesis using lt by (simp only: u min_less_iff_disj less_imp_diff_less)
qed

lemma zfree_zone_ok:
  assumes "4096 dvd unat b" "b \<noteq> 0" "4096 dvd unat n" "n \<noteq> 0" "unat b + unat n \<le> 2 ^ 31"
  shows "block_ok (zfree_zone b n) b" "zfree_zone b n < ZONES" "2 ^ (zfree_zone b n + 12) \<le> unat n"
proof -
  have d: "2 ^ 12 dvd unat b" "2 ^ 12 dvd unat n" using assms by simp_all
  have b0: "0 < unat b" "0 < unat n" using assms(2,4) by (simp_all add: unat_gt_0)
  then have n: "2 ^ 12 \<le> unat n" using d(2) dvd_imp_le by blast
  obtain i where i: "l4_lsb b = Suc i" "12 \<le> i" using exp_dvd_word [OF d(1) assms(2)] by (cases "l4_lsb b") auto
  obtain j where j: "l4_msb n = Suc j" "12 \<le> j" using exp_le_word [OF n] by (cases "l4_msb n") auto
  have z: "zfree_zone b n + 12 = min i j" using zfree_zone_eq [OF i j] i j by simp
  have "2 ^ min i j dvd (2 ^ i :: nat)" by (simp add: le_imp_power_dvd)
  then have k: "2 ^ (zfree_zone b n + 12) dvd unat b"
    unfolding z using l4_lsb_dvd [OF i(1)] by (rule dvd_trans)
  have "(2::nat) ^ min i j \<le> 2 ^ j" by (simp add: power_increasing)
  then show l: "2 ^ (zfree_zone b n + 12) \<le> unat n"
    unfolding z using l4_msb_exp_le [OF j(1)] by (rule order.trans)
  show ok: "block_ok (zfree_zone b n) b" using b0 k l assms(5) by (simp add: block_ok_def)
  have "2 ^ (zfree_zone b n + 12) \<le> unat b" using b0(1) k by (rule dvd_imp_le [rotated])
  then have "(2::nat) ^ (zfree_zone b n + 12) < 2 ^ 31" using l b0 assms(5) by simp
  then have "zfree_zone b n + 12 < 31" by (rule power_less_imp_less_exp [rotated]) simp
  then show "zfree_zone b n < ZONES" by (simp add: ZONES_eq)
qed

lemma mem_of_range: "z < 20 \<Longrightarrow> mem_of z b = {unat b..<unat b + unat (ZONE_SIZE z)}"
  by (simp add: mem_of_def unat_ZONE_SIZE)

lemma zfree_loop_ok:
  assumes "zinv zones" "4096 dvd unat b" "b \<noteq> 0" "4096 dvd unat n" "n \<noteq> 0" "unat b + unat n \<le> 2 ^ 31"
    and "{unat b..<unat b + unat n} \<inter> free_mem zones = {}"
  shows "added zones {unat b..<unat b + unat n} (zfree_loop zones b n)"
  using assms
proof (induction "unat n" arbitrary: zones b n rule: less_induct)
  case less
  define z where "z = zfree_zone b n"
  note zz = zfree_zone_ok [OF less.prems(2-6), folded z_def]
  have z20: "z < 20" using zz(2) by (simp add: ZONES_eq)
  have sz: "unat (ZONE_SIZE z) = 2 ^ (z + 12)" by (rule unat_ZONE_SIZE [OF z20])
  have le: "unat (ZONE_SIZE z) \<le> unat n" using zz(3) sz by simp
  have mem: "mem_of z b = {unat b..<unat b + unat (ZONE_SIZE z)}" by (rule mem_of_range [OF z20])
  have "mem_of z b \<inter> free_mem zones = {}" using less.prems(7) le unfolding mem by force
  then obtain zones' where r: "add_block zones b z = Some zones'" "zinv zones'"
      "free_mem zones' = free_mem zones \<union> mem_of z b"
    using add_block_ok [OF less.prems(1) zz(2,1)] unfolding added_def by blast
  have un: "unat (n - ZONE_SIZE z) = unat n - unat (ZONE_SIZE z)"
    using le by (simp add: unat_sub word_le_nat_alt)
  have ub: "unat (b + ZONE_SIZE z) = unat b + unat (ZONE_SIZE z)"
    using le less.prems(6) by (simp add: unat_word_ariths)
  note step = zfree_loop.simps [of zones b n, folded z_def, unfolded Let_def r(1) bind.bind_lunit]
  show ?case
  proof (cases "n - ZONE_SIZE z > 0")
    case False
    then have "n = ZONE_SIZE z" by (simp add: word_gt_0)
    then show ?thesis unfolding step using r False by (simp add: added_def mem)
  next
    case True
    have d4: "4096 dvd unat (ZONE_SIZE z)" unfolding sz by (simp add: power_add)
    have "0 < unat (ZONE_SIZE z)" by (simp add: sz)
    then have "unat (n - ZONE_SIZE z) < unat n" unfolding un using le by linarith
    moreover have "{unat (b + ZONE_SIZE z)..<unat (b + ZONE_SIZE z) + unat (n - ZONE_SIZE z)} \<inter> free_mem zones' = {}"
      using less.prems(7) le unfolding r(3) mem ub un by (fastforce simp: disjoint_iff)
    moreover have "4096 dvd unat (b + ZONE_SIZE z)" "4096 dvd unat (n - ZONE_SIZE z)"
      unfolding ub un using less.prems(2,4) d4 by (simp_all add: dvd_diff_nat)
    moreover have "b + ZONE_SIZE z \<noteq> 0" using ub sz by (metis add_is_0 power_not_zero unsigned_0 zero_neq_numeral)
    moreover have "unat (b + ZONE_SIZE z) + unat (n - ZONE_SIZE z) \<le> 2 ^ 31"
      unfolding ub un using less.prems(6) le by simp
    ultimately have "added zones' {unat (b + ZONE_SIZE z)..<unat (b + ZONE_SIZE z) + unat (n - ZONE_SIZE z)}
        (zfree_loop zones' (b + ZONE_SIZE z) (n - ZONE_SIZE z))"
      using True by (intro less.hyps r(2)) (auto simp: word_gt_0)
    moreover have "free_mem zones' \<union> {unat (b + ZONE_SIZE z)..<unat (b + ZONE_SIZE z) + unat (n - ZONE_SIZE z)}
        = free_mem zones \<union> {unat b..<unat b + unat n}"
      unfolding r(3) mem ub un using le by auto
    ultimately show ?thesis unfolding step using True by (simp add: added_def)
  qed
qed

lemma page_aligned: "(n :: u32) AND (PAGESIZE - 1) = 0 \<longleftrightarrow> 4096 dvd unat n"
proof -
  have "PAGESIZE - 1 = mask 12" by (simp add: PAGESIZE_def mask_eq_exp_minus_1)
  then have "n AND (PAGESIZE - 1) = 0 \<longleftrightarrow> take_bit 12 n = 0" by (simp add: take_bit_eq_mask)
  also have "\<dots> \<longleftrightarrow> (\<forall>i<12. \<not> bit n i)"
    by (auto simp: bit_eq_iff bit_take_bit_iff)
  also have "\<dots> \<longleftrightarrow> 4096 dvd unat n" using dvd_exp_bits [of 12 n] by simp
  finally show ?thesis .
qed

text \<open>The allocator: the zones are in order and \<open>zalloc_memory\<close> is the number of free pages.\<close>

definition zalloc_inv :: "zstate \<Rightarrow> bool" where
  "zalloc_inv s \<longleftrightarrow> zinv (zone s) \<and> card (free_mem (zone s)) = 4096 * unat (zalloc_memory s)"

abbreviation free_of :: "zstate \<Rightarrow> nat set" where
  "free_of s \<equiv> free_mem (zone s)"

lemma free_mem_bounded: "zinv zones \<Longrightarrow> free_mem zones \<subseteq> {4096..<2 ^ 31}"
proof
  fix x assume inv: "zinv zones" and "x \<in> free_mem zones"
  then obtain z b where zb: "(z, b) \<in> blocks zones" "x \<in> mem_of z b" by (auto simp: free_mem_def)
  then have ok: "block_ok z b" using inv unfolding zinv_def by blast
  then have "2 ^ (z + 12) \<le> unat b" using dvd_imp_le unfolding block_ok_def by blast
  moreover have "(4096::nat) \<le> 2 ^ (z + 12)" by (simp add: power_add)
  ultimately show "x \<in> {4096..<2 ^ 31}" using zb(2) ok by (simp add: mem_of_def block_ok_def)
qed

lemma unat_div_page: "unat (n div PAGESIZE) = unat n div 4096"
  by (simp add: PAGESIZE_def unat_div_distrib)

lemma zfree_ok:
  assumes inv: "zalloc_inv s" and al: "4096 dvd unat b" "b \<noteq> 0" "4096 dvd unat n" "n \<noteq> 0"
    and bnd: "unat b + unat n \<le> 2 ^ 31" and dis: "{unat b..<unat b + unat n} \<inter> free_of s = {}"
  shows "\<exists>s'. zfree s b n = Some s' \<and> zalloc_inv s' \<and> free_of s' = free_of s \<union> {unat b..<unat b + unat n}"
proof -
  have zi: "zinv (zone s)" and c: "card (free_of s) = 4096 * unat (zalloc_memory s)"
    using inv by (simp_all add: zalloc_inv_def)
  obtain zones' where r: "zfree_loop (zone s) b n = Some zones'" "zinv zones'"
      "free_mem zones' = free_of s \<union> {unat b..<unat b + unat n}"
    using zfree_loop_ok [OF zi al bnd dis] unfolding added_def by blast
  have fin: "finite (free_of s)" using free_mem_bounded [OF zi] finite_subset by blast
  have card: "card (free_mem zones') = 4096 * unat (zalloc_memory s) + unat n"
    unfolding r(3) using fin dis c by (subst card_Un_disjoint) (auto simp: Int_commute)
  have "card (free_mem zones') \<le> card {4096..<2 ^ 31 :: nat}"
    by (rule card_mono [OF _ free_mem_bounded [OF r(2)]]) simp
  then have "4096 * unat (zalloc_memory s) + unat n < 2 ^ 31" unfolding card by simp
  moreover have "unat n div 4096 \<le> unat n" by (rule div_le_dividend)
  ultimately have "unat (zalloc_memory s) + unat n div 4096 < 2 ^ 32" by simp
  then have "unat (zalloc_memory s + n div PAGESIZE) = unat (zalloc_memory s) + unat n div 4096"
    by (simp add: unat_word_ariths(1) unat_div_page)
  then have "4096 * unat (zalloc_memory s + n div PAGESIZE) = 4096 * unat (zalloc_memory s) + unat n"
    using al(3) by (simp add: distrib_left)
  moreover have "zfree s b n = Some (s\<lparr>zalloc_memory := zalloc_memory s + n div PAGESIZE, zone := zones'\<rparr>)"
    unfolding zfree_def using al r(1) by (simp add: page_aligned)
  ultimately show ?thesis using r(2,3) card by (simp add: zalloc_inv_def)
qed

subsection \<open>Allocating\<close>

lemma l4_msb_le_iff: "l4_msb w \<le> k \<longleftrightarrow> unat w < 2 ^ k"
proof (cases "l4_msb w")
  case (Suc i)
  then have "2 ^ i \<le> unat w" by (rule l4_msb_exp_le)
  then have "unat w < 2 ^ k \<Longrightarrow> (2::nat) ^ i < 2 ^ k" by (rule le_less_trans)
  then have "unat w < 2 ^ k \<Longrightarrow> i < k" by (simp only: power_strict_increasing_iff one_less_numeral_iff Num.num.simps semiring_norm)
  moreover have "\<not> unat w < 2 ^ k \<Longrightarrow> k < Suc i" using exp_le_word [of k w] Suc by simp
  ultimately show ?thesis unfolding Suc by (meson Suc_le_eq less_Suc_eq_le not_le)
qed simp

lemma zalloc_zone_start:
  assumes "4096 dvd unat n" "n \<noteq> 0"
  defines "z0 \<equiv> unat (of_nat (l4_msb (n - 1)) - 12 :: u32)"
  shows "z0 \<le> z \<longleftrightarrow> unat n \<le> 2 ^ (z + 12)"
proof -
  have n: "4096 \<le> unat n" using assms by (intro dvd_imp_le) (auto simp: unat_gt_0)
  have u: "unat (n - 1) = unat n - 1" using assms(2) by (simp add: unat_minus_one)
  have "\<not> l4_msb (n - 1) \<le> 11" unfolding l4_msb_le_iff u using n by simp
  moreover have "l4_msb (n - 1) \<le> 32" unfolding l4_msb_le_iff using unsigned_less [of "n - 1", where ?'a = nat] by simp
  ultimately have "z0 + 12 = l4_msb (n - 1)"
    unfolding z0_def by (simp add: unat_sub word_le_nat_alt unat_of_nat)
  then have "z0 \<le> z \<longleftrightarrow> l4_msb (n - 1) \<le> z + 12" by linarith
  also have "\<dots> \<longleftrightarrow> unat n \<le> 2 ^ (z + 12)" unfolding l4_msb_le_iff u using n by linarith
  finally show ?thesis .
qed

text \<open>A request can be served when some zone of sufficient size has a block.\<close>

definition fits :: "u32 list list \<Rightarrow> u32 \<Rightarrow> bool" where
  "fits zones n \<longleftrightarrow> (\<exists>z<ZONES. zones ! z \<noteq> [] \<and> unat n \<le> 2 ^ (z + 12))"

lemma zalloc_zone_ok:
  assumes "4096 dvd unat n" "n \<noteq> 0" "unat n \<le> 2 ^ 31"
  defines "z0 \<equiv> unat (of_nat (l4_msb (n - 1)) - 12 :: u32)"
  shows "fits zones n \<Longrightarrow> \<exists>z<ZONES. zalloc_zone zones z0 = Some z \<and> zones ! z \<noteq> [] \<and> unat n \<le> 2 ^ (z + 12)"
    "\<not> fits zones n \<Longrightarrow> zalloc_zone zones z0 = Some ZONES"
proof -
  note st = zalloc_zone_start [OF assms(1,2), folded z0_def]
  have z0: "\<not> ZONES < z0" using st [of ZONES] assms(3) by (simp add: ZONES_eq)
  show "\<not> fits zones n \<Longrightarrow> zalloc_zone zones z0 = Some ZONES"
    using z0 st unfolding zalloc_zone_def fits_def by (auto simp: find_upt_Some split: option.splits)
  assume "fits zones n"
  then obtain z where "z0 \<le> z" "z < ZONES" "zones ! z \<noteq> []" unfolding fits_def st [symmetric] by blast
  then obtain z' where z': "List.find (\<lambda>z. zones ! z \<noteq> []) [z0..<ZONES] = Some z'"
    using find_upt_None [of "\<lambda>z. zones ! z \<noteq> []" z0 ZONES] by fastforce
  then have "z0 \<le> z'" "z' < ZONES" "zones ! z' \<noteq> []" unfolding find_upt_Some by blast+
  with z' show "\<exists>z<ZONES. zalloc_zone zones z0 = Some z \<and> zones ! z \<noteq> [] \<and> unat n \<le> 2 ^ (z + 12)"
    using z0 unfolding zalloc_zone_def st [symmetric] by auto
qed

lemma zalloc_take:
  assumes inv: "zalloc_inv s" and z: "z < ZONES" and bs: "zone s ! z = b # bs"
  defines "s1 \<equiv> s\<lparr>zone := (zone s)[z := bs], zalloc_memory := zalloc_memory s - ZONE_SIZE z div PAGESIZE\<rparr>"
  shows "zalloc_inv s1" "free_of s1 = free_of s - {unat b..<unat b + unat (ZONE_SIZE z)}"
    "{unat b..<unat b + unat (ZONE_SIZE z)} \<subseteq> free_of s"
    "b \<noteq> 0" "4096 dvd unat b" "unat b + unat (ZONE_SIZE z) \<le> 2 ^ 31"
proof -
  have zi: "zinv (zone s)" and c: "card (free_of s) = 4096 * unat (zalloc_memory s)"
    using inv by (simp_all add: zalloc_inv_def)
  have len: "z < length (zone s)" using zi z by (simp add: zinv_def)
  have srt: "sorted_wrt (<) (b # bs)" using zi len bs unfolding zinv_def by (metis nth_mem)
  have xs: "sorted_wrt (<) bs" "set bs = set (zone s ! z) - {b}" using srt bs by auto
  have z20: "z < 20" using z by (simp add: ZONES_eq)
  note sz = unat_ZONE_SIZE [OF z20]
  have "b \<in> set (zone s ! z)" by (simp add: bs)
  note r = zinv_remove [OF zi z this xs, unfolded mem_of_range [OF z20]]
  show free: "free_of s1 = free_of s - {unat b..<unat b + unat (ZONE_SIZE z)}" using r(2) by (simp add: s1_def)
  show sub: "{unat b..<unat b + unat (ZONE_SIZE z)} \<subseteq> free_of s" by (rule r(3))
  show "b \<noteq> 0" "unat b + unat (ZONE_SIZE z) \<le> 2 ^ 31" using r(4) by (auto simp: block_ok_def sz)
  have "4096 dvd (2 ^ (z + 12) :: nat)" by (simp add: power_add)
  then show "4096 dvd unat b" using r(4) unfolding block_ok_def by (meson dvd_trans)
  have "card (free_of s1) = card (free_of s) - card {unat b..<unat b + unat (ZONE_SIZE z)}"
    unfolding free by (rule card_Diff_subset [OF _ sub]) simp
  then have c1: "card (free_of s1) = 4096 * unat (zalloc_memory s) - unat (ZONE_SIZE z)" using c by simp
  have "finite (free_of s)" using free_mem_bounded [OF zi] finite_subset by blast
  from card_mono [OF this sub] have "unat (ZONE_SIZE z) \<le> 4096 * unat (zalloc_memory s)" using c by simp
  moreover have k: "unat (ZONE_SIZE z) = 4096 * unat (ZONE_SIZE z div PAGESIZE)"
    using \<open>4096 dvd (2 ^ (z + 12) :: nat)\<close> unfolding unat_div_page sz by (rule dvd_mult_div_cancel [symmetric])
  ultimately have "unat (ZONE_SIZE z div PAGESIZE) \<le> unat (zalloc_memory s)" by simp
  then have "unat (zalloc_memory s1) = unat (zalloc_memory s) - unat (ZONE_SIZE z div PAGESIZE)"
    by (simp add: s1_def unat_sub word_le_nat_alt)
  then have "4096 * unat (zalloc_memory s1) = card (free_of s1)"
    unfolding c1 using k by (simp add: diff_mult_distrib2)
  then show "zalloc_inv s1" using r(1) by (simp add: zalloc_inv_def s1_def)
qed

lemma zalloc_ok:
  assumes inv: "zalloc_inv s" and al: "4096 dvd unat n" "n \<noteq> 0" and fit: "fits (zone s) n"
  shows "\<exists>b s'. zalloc s n = Some (b, s') \<and> b \<noteq> 0 \<and> 4096 dvd unat b \<and>
    {unat b..<unat b + unat n} \<subseteq> free_of s \<and> free_of s' = free_of s - {unat b..<unat b + unat n} \<and> zalloc_inv s'"
proof -
  have "unat n \<le> 2 ^ 31"
  proof -
    obtain z where "z < ZONES" "unat n \<le> 2 ^ (z + 12)" using fit by (auto simp: fits_def)
    moreover have "z < ZONES \<Longrightarrow> (2::nat) ^ (z + 12) \<le> 2 ^ 31" by (rule power_increasing) (simp_all add: ZONES_eq)
    ultimately show ?thesis by (meson order.trans)
  qed
  from zalloc_zone_ok(1) [OF al this fit] obtain z where z: "z < ZONES"
      "zalloc_zone (zone s) (unat (of_nat (l4_msb (n - 1)) - 12 :: u32)) = Some z"
      "zone s ! z \<noteq> []" "unat n \<le> 2 ^ (z + 12)" by blast
  obtain b bs where bs: "zone s ! z = b # bs" using z(3) by (cases "zone s ! z") auto
  define s1 where "s1 = s\<lparr>zone := (zone s)[z := bs], zalloc_memory := zalloc_memory s - ZONE_SIZE z div PAGESIZE\<rparr>"
  note t = zalloc_take [OF inv z(1) bs, folded s1_def]
  have sz: "unat (ZONE_SIZE z) = 2 ^ (z + 12)" using z(1) by (intro unat_ZONE_SIZE) (simp add: ZONES_eq)
  have le: "unat n \<le> unat (ZONE_SIZE z)" using z(4) sz by simp
  have step: "zalloc s n = (if ZONE_SIZE z > n then zfree s1 (b + n) (ZONE_SIZE z - n) else Some s1) \<bind> (\<lambda>s. Some (b, s))"
    unfolding zalloc_def using al z(1,2) bs by (simp add: page_aligned s1_def Let_def)
  show ?thesis
  proof (cases "ZONE_SIZE z > n")
    case False
    then have "n = ZONE_SIZE z" using le by (simp add: word_le_nat_alt word_unat_eq_iff not_less)
    then show ?thesis using step t by auto
  next
    case True
    have ub: "unat (b + n) = unat b + unat n" using t(6) le by (simp add: unat_word_ariths)
    have un: "unat (ZONE_SIZE z - n) = unat (ZONE_SIZE z) - unat n" using True by (simp add: unat_sub)
    have lt: "unat n < unat (ZONE_SIZE z)" using True by (simp add: word_less_nat_alt)
    have d: "4096 dvd unat (b + n)" "4096 dvd unat (ZONE_SIZE z - n)"
      unfolding ub un sz using t(5) al(1) by (simp_all add: dvd_diff_nat power_add)
    have "b + n \<noteq> 0" "ZONE_SIZE z - n \<noteq> 0"
      using ub un lt t(4) by (auto simp: word_unat_eq_iff)
    moreover have "unat (b + n) + unat (ZONE_SIZE z - n) \<le> 2 ^ 31"
      "{unat (b + n)..<unat (b + n) + unat (ZONE_SIZE z - n)} \<inter> free_of s1 = {}"
      unfolding ub un t(2) using lt t(6) by auto
    ultimately obtain s' where s': "zfree s1 (b + n) (ZONE_SIZE z - n) = Some s'" "zalloc_inv s'"
      "free_of s' = free_of s1 \<union> {unat (b + n)..<unat (b + n) + unat (ZONE_SIZE z - n)}"
      using zfree_ok [OF t(1) d(1) _ d(2)] by blast
    have "free_of s' = free_of s - {unat b..<unat b + unat n}"
      unfolding s'(3) t(2) ub un using lt t(3) by auto
    moreover have "{unat b..<unat b + unat n} \<subseteq> free_of s" using t(3) lt by auto
    ultimately show ?thesis using step True s'(1,2) t(4,5) by simp
  qed
qed

text \<open>Because everything that can be coalesced is, a naturally aligned free range of the size of a zone
  lies in a single block, so that a request for it succeeds.\<close>

lemma nested:
  assumes "2 ^ (k + 12) dvd unat b" "2 ^ (z + 12) dvd unat c" "k \<le> z" "x < 2 ^ (k + 12)" "unat b + x \<in> mem_of z c"
  shows "mem_of k b \<subseteq> mem_of z c"
proof -
  define K :: nat where "K = 2 ^ (k + 12)"
  have "K dvd 2 ^ (z + 12)" unfolding K_def using assms(3) by (intro le_imp_power_dvd) simp
  then have c: "K dvd unat c" "K dvd unat c + 2 ^ (z + 12)" using assms(2) by (auto intro: dvd_trans)
  have b: "K dvd unat b" using assms(1) by (simp add: K_def)
  have x: "x < K" using assms(4) by (simp add: K_def)
  have bx: "unat c \<le> unat b + x" "unat b + x < unat c + 2 ^ (z + 12)" using assms(5) by (auto simp: mem_of_def)
  have 1: "unat c \<le> unat b"
  proof (rule ccontr)
    assume "\<not> unat c \<le> unat b"
    then show False using dvd_squeeze [OF c(1) b] bx(1) x by simp
  qed
  have 2: "unat b + K \<le> unat c + 2 ^ (z + 12)"
  proof (rule ccontr)
    assume "\<not> ?thesis"
    then show False using dvd_squeeze [OF c(2) b] bx(2) by simp
  qed
  show ?thesis unfolding mem_of_def using 1 2 unfolding K_def by auto
qed

lemma add_buddy:
  assumes "2 ^ Suc m dvd unat (b :: u32)" "m < 32"
  shows "b XOR (b + shl 1 m) = shl 1 m"
proof -
  have "\<not> bit b m" using assms(1) unfolding dvd_exp_bits by blast
  then have "b AND shl 1 m = 0" by (intro word_and_0I) (auto simp: bit_shl_1)
  then have "b + shl 1 m = b XOR shl 1 m" by (simp add: disjunctive_add_eq_xor)
  then show ?thesis by (simp flip: xor.assoc)
qed

lemma in_block:
  assumes inv: "zinv zones" and "2 ^ (k + 12) dvd unat b" "k < ZONES" "mem_of k b \<subseteq> free_mem zones"
  shows "\<exists>z c. (z, c) \<in> blocks zones \<and> k \<le> z \<and> mem_of k b \<subseteq> mem_of z c"
  using assms(2-)
proof (induction k arbitrary: b)
  case 0
  have "unat b \<in> mem_of 0 b" by (simp add: mem_of_def)
  then obtain z c where zc: "(z, c) \<in> blocks zones" "unat b \<in> mem_of z c"
    using 0(3) unfolding free_mem_def by blast
  then have "2 ^ (z + 12) dvd unat c" using inv unfolding zinv_def block_ok_def by blast
  from nested [OF 0(1) this, of 0] zc show ?case by auto
next
  case (Suc k)
  define d where "d = b + ZONE_SIZE k"
  have k: "k < ZONES" "k < 20" "k + 12 < 32" using Suc.prems(2) by (simp_all add: ZONES_eq)
  have p: "2 ^ (Suc k + 12) = 2 * (2 ^ (k + 12) :: nat)" by (simp add: power_add)
  have "mem_of (Suc k) b \<subseteq> {4096..<2 ^ 31}" using Suc.prems(3) free_mem_bounded [OF inv] by blast
  moreover have "unat b + 2 ^ (k + 12) \<in> mem_of (Suc k) b" unfolding mem_of_def p by simp
  ultimately have "unat b + 2 ^ (k + 12) \<in> {4096..<2 ^ 31}" by blast
  then have ud: "unat d = unat b + 2 ^ (k + 12)"
    unfolding d_def by (simp add: unat_word_ariths unat_ZONE_SIZE [OF k(2)])
  have al: "2 ^ (k + 12) dvd unat b" "2 ^ (k + 12) dvd unat d"
    using Suc.prems(1) unfolding ud p by (auto elim: dvd_mult_right)
  have sub: "mem_of k b \<subseteq> mem_of (Suc k) b" "mem_of k d \<subseteq> mem_of (Suc k) b"
    unfolding mem_of_def ud p by auto
  have half: "(k, e) \<in> blocks zones \<or> (\<exists>z c. (z, c) \<in> blocks zones \<and> Suc k \<le> z \<and> mem_of (Suc k) b \<subseteq> mem_of z c)"
    if e: "2 ^ (k + 12) dvd unat e" "mem_of k e \<subseteq> mem_of (Suc k) b" for e
  proof -
    obtain z c where zc: "(z, c) \<in> blocks zones" "k \<le> z" "mem_of k e \<subseteq> mem_of z c"
      using Suc.IH [OF e(1) k(1)] e(2) Suc.prems(3) by blast
    have c: "2 ^ (z + 12) dvd unat c" using zc(1) inv unfolding zinv_def block_ok_def by blast
    have ie: "unat e \<in> mem_of k e" by (simp add: mem_of_def)
    then obtain x where x: "unat e = unat b + x" "x < 2 ^ (Suc k + 12)"
    proof -
      have "unat e \<in> mem_of (Suc k) b" using e(2) ie by blast
      then have "unat e = unat b + (unat e - unat b)" "unat e - unat b < 2 ^ (Suc k + 12)"
        unfolding mem_of_def by auto
      then show ?thesis using that by blast
    qed
    show ?thesis
    proof (cases "z = k")
      case True
      then have "unat e = unat c" using zc(3) unfolding mem_of_def by simp
      then have "e = c" by (simp add: word_unat_eq_iff)
      then show ?thesis using zc(1) True by blast
    next
      case False
      then have "Suc k \<le> z" using zc(2) by simp
      moreover have "mem_of (Suc k) b \<subseteq> mem_of z c"
        using nested [OF Suc.prems(1) c \<open>Suc k \<le> z\<close> x(2)] x(1) ie zc(3) by auto
      ultimately show ?thesis using zc(1) by blast
    qed
  qed
  have "b XOR d = ZONE_SIZE k"
    unfolding d_def ZONE_SIZE_def using Suc.prems(1) k(3) by (intro add_buddy) simp_all
  then have "\<not> ((k, b) \<in> blocks zones \<and> (k, d) \<in> blocks zones)" using inv unfolding zinv_def by blast
  then show ?case using half [OF al(1) sub(1)] half [OF al(2) sub(2)] by blast
qed

lemma fitsI:
  assumes "zinv zones" "2 ^ (k + 12) dvd a" "k < ZONES" "{a..<a + 2 ^ (k + 12)} \<subseteq> free_mem zones" "unat n \<le> 2 ^ (k + 12)"
  shows "fits zones n"
proof -
  have "a \<in> free_mem zones" using assms(4) by auto
  then have "a < 2 ^ 32" using free_mem_bounded [OF assms(1)] by auto
  then have a: "unat (of_nat a :: u32) = a" by (simp add: unat_of_nat)
  obtain z c where zc: "(z, c) \<in> blocks zones" "k \<le> z"
    using in_block [OF assms(1), of k "of_nat a"] assms(2-4) a unfolding mem_of_def by auto
  have "(2::nat) ^ (k + 12) \<le> 2 ^ (z + 12)" using zc(2) by (intro power_increasing) simp_all
  then have "unat n \<le> 2 ^ (z + 12)" using assms(5) by (rule order.trans [rotated])
  moreover have "z < ZONES" using zc(1) assms(1) by (simp add: blocks_def zinv_def)
  moreover have "zones ! z \<noteq> []" using zc(1) by (auto simp: blocks_def)
  ultimately show ?thesis unfolding fits_def by blast
qed

subsection \<open>What the allocator promises\<close>

lemma zalloc_init_inv: "zalloc_inv zalloc_init" "free_of zalloc_init = {}"
proof -
  have "blocks (replicate ZONES []) = {}" by (auto simp: blocks_def)
  then show "zalloc_inv zalloc_init" "free_of zalloc_init = {}"
    by (simp_all add: zalloc_inv_def zinv_def zalloc_init_def free_mem_def)
qed

lemma zfree_init:
  "\<exists>s. zfree zalloc_init 0x2000 0x2000 = Some s \<and> zalloc_inv s \<and> free_of s = {0x2000..<0x4000}"
  using zfree_ok [OF zalloc_init_inv(1), of "0x2000" "0x2000"] by (simp add: zalloc_init_inv)

text \<open>C22: freeing a non-empty page-aligned range below 2 GiB that is not free yet succeeds: the loop ends, no
  zone outside of the array is touched, the memory of the range and nothing else becomes free, the zones
  stay ordered, disjoint and fully coalesced, and \<open>zalloc_memory\<close> remains the number of free pages.\<close>

theorem zfree_adds_range:
  assumes "zalloc_inv s" "4096 dvd unat b" "b \<noteq> 0" "4096 dvd unat n" "n \<noteq> 0" "unat b + unat n \<le> 2 ^ 31"
    "{unat b..<unat b + unat n} \<inter> free_of s = {}"
  shows "\<exists>s'. zfree s b n = Some s' \<and> zalloc_inv s' \<and> free_of s' = free_of s \<union> {unat b..<unat b + unat n}"
  using assms by (rule zfree_ok)

theorem zfree_adds_range_witness:
  "\<exists>s'. zfree zalloc_init 0x1000 0x3000 = Some s' \<and> zalloc_inv s' \<and> free_of s' = {0x1000..<0x4000}"
  using zfree_adds_range [OF zalloc_init_inv(1), of "0x1000" "0x3000"] by (simp add: zalloc_init_inv)

text \<open>C21: a request for pages succeeds whenever the free memory contains a naturally aligned range of a
  sufficient power of two, however it came to be free. The result is a non-null page-aligned range that
  was free, and exactly that range is taken: the rest of the block it was cut from is given back.\<close>

theorem zalloc_takes_free_range:
  assumes "zalloc_inv s" "4096 dvd unat n" "n \<noteq> 0"
    and "k < ZONES" "2 ^ (k + 12) dvd a" "{a..<a + 2 ^ (k + 12)} \<subseteq> free_of s" "unat n \<le> 2 ^ (k + 12)"
  shows "\<exists>b s'. zalloc s n = Some (b, s') \<and> b \<noteq> 0 \<and> 4096 dvd unat b \<and>
    {unat b..<unat b + unat n} \<subseteq> free_of s \<and> free_of s' = free_of s - {unat b..<unat b + unat n} \<and> zalloc_inv s'"
proof -
  have "zinv (zone s)" using assms(1) by (simp add: zalloc_inv_def)
  from fitsI [OF this assms(5,4,6,7)] show ?thesis by (rule zalloc_ok [OF assms(1-3)])
qed

theorem zalloc_takes_free_range_witness:
  "\<exists>s b s'. zfree zalloc_init 0x2000 0x2000 = Some s \<and> zalloc s 0x1000 = Some (b, s') \<and> b \<noteq> 0 \<and>
    free_of s' = {0x2000..<0x4000} - {unat b..<unat b + 0x1000} \<and> zalloc_inv s'"
proof -
  obtain s where s: "zfree zalloc_init 0x2000 0x2000 = Some s" "zalloc_inv s" "free_of s = {0x2000..<0x4000}"
    using zfree_init by blast
  show ?thesis
    using zalloc_takes_free_range [OF s(2), of "0x1000" 1 "0x2000"] s(1,3) by (auto simp: ZONES_eq)
qed

text \<open>When no zone of sufficient size has a block, a request returns the null address and changes
  nothing, provided no memory at all is free; if there is any, the assertion fails and the kernel stops.\<close>

theorem zalloc_exhausted:
  assumes "4096 dvd unat n" "n \<noteq> 0" "unat n \<le> 2 ^ 31" "\<forall>z<ZONES. zone s ! z \<noteq> [] \<longrightarrow> 2 ^ (z + 12) < unat n"
  shows "zalloc s n = (if zalloc_memory s = 0 then Some (0, s) else None)"
proof -
  have "\<not> fits (zone s) n" using assms(4) by (fastforce simp: fits_def)
  from zalloc_zone_ok(2) [OF assms(1-3) this] show ?thesis
    using assms(1) by (simp add: zalloc_def page_aligned Let_def)
qed

theorem zalloc_exhausted_witness: "zalloc zalloc_init 0x1000 = Some (0, zalloc_init)"
  using zalloc_exhausted [of "0x1000" zalloc_init] by (simp add: zalloc_init_def)

text \<open>Histories of the allocator on a machine whose memory ends at \<open>limit\<close>: ranges of that memory are donated,
  memory is allocated by requests of any size and freed. The last argument is the memory that was allocated
  and not freed since.\<close>

inductive zreach :: "nat \<Rightarrow> zstate \<Rightarrow> nat set \<Rightarrow> bool" for limit where
  init: "zreach limit zalloc_init {}"
| donate: "zreach limit s used \<Longrightarrow> {unat b..<unat b + unat n} \<inter> (free_of s \<union> used) = {} \<Longrightarrow> n \<noteq> 0 \<Longrightarrow>
    unat b + unat n \<le> limit \<Longrightarrow> zfree s b n = Some s' \<Longrightarrow> zreach limit s' used"
| alloc: "zreach limit s used \<Longrightarrow> zalloc s n = Some (b, s') \<Longrightarrow>
    zreach limit s' (if b = 0 then used else used \<union> {unat b..<unat b + unat n})"
| free: "zreach limit s used \<Longrightarrow> {unat b..<unat b + unat n} \<subseteq> used \<Longrightarrow> n \<noteq> 0 \<Longrightarrow> zfree s b n = Some s' \<Longrightarrow>
    zreach limit s' (used - {unat b..<unat b + unat n})"

text \<open>A request for nothing or for more than the largest zone starts its search behind the end of the array.\<close>

lemma zalloc_request:
  assumes "zalloc s n = Some r"
  shows "n \<noteq> 0" "unat n \<le> 2 ^ 31"
proof -
  let ?z = "unat (of_nat (l4_msb (n - 1)) - 12 :: u32)"
  have z: "\<not> ZONES < ?z" using assms by (auto simp: zalloc_def zalloc_zone_def Let_def)
  have al: "4096 dvd unat n" using assms by (auto simp: zalloc_def page_aligned)
  show "n \<noteq> 0"
  proof
    assume "n = 0"
    moreover have "unat (of_nat (l4_msb (0 - 1)) - 12 :: u32) = 20" by code_simp
    ultimately show False using z by (simp add: ZONES_eq)
  qed
  from zalloc_zone_start [OF al this, of ZONES] z show "unat n \<le> 2 ^ 31" by (simp add: ZONES_eq)
qed

lemma zfree_aligned: "zfree s b n = Some s' \<Longrightarrow> b \<noteq> 0 \<and> 4096 dvd unat b \<and> 4096 dvd unat n"
  by (auto simp: zfree_def page_aligned)

lemma zalloc_aligned: "zalloc s n = Some r \<Longrightarrow> 4096 dvd unat n"
  by (auto simp: zalloc_def page_aligned)

lemma zalloc_cases:
  assumes "zalloc_inv s" "zalloc s n = Some (b, s')"
  shows "b = 0 \<and> s' = s \<or> b \<noteq> 0 \<and> {unat b..<unat b + unat n} \<subseteq> free_of s \<and>
    free_of s' = free_of s - {unat b..<unat b + unat n} \<and> zalloc_inv s'"
proof (cases "fits (zone s) n")
  case True
  then show ?thesis using zalloc_ok [OF assms(1) zalloc_aligned [OF assms(2)] zalloc_request(1) [OF assms(2)]] assms(2) by auto
next
  case False
  from zalloc_zone_ok(2) [OF zalloc_aligned [OF assms(2)] zalloc_request [OF assms(2)] this] show ?thesis
    using assms(2) by (simp add: zalloc_def Let_def)
qed

lemma zreach_inv:
  assumes "limit \<le> 2 ^ 31"
  shows "zreach limit s used \<Longrightarrow> zalloc_inv s \<and> used \<subseteq> {..<2 ^ 31} \<and> free_of s \<inter> used = {}"
proof (induction rule: zreach.induct)
  case (donate s used b n s')
  then have "unat b + unat n \<le> 2 ^ 31" using assms by simp
  then obtain "zalloc_inv s'" "free_of s' = free_of s \<union> {unat b..<unat b + unat n}"
    using zfree_ok [of s b n] zfree_aligned [OF donate.hyps(5)] donate
    by (metis Int_Un_distrib Un_empty option.inject)
  then show ?case using donate by blast
next
  case (alloc s used n b s')
  then have "zalloc_inv s" by blast
  from zalloc_cases [OF this alloc.hyps(2)] alloc.IH show ?case
    using free_mem_bounded [of "zone s"] by (auto simp: zalloc_inv_def subset_iff)
next
  case (free s used b n s')
  have "0 < unat n" using free.hyps(3) by (simp add: unat_gt_0)
  then have "unat b + unat n - 1 \<in> {unat b..<unat b + unat n}" by auto
  then have "unat b + unat n - 1 < 2 ^ 31" using free by blast
  then have "unat b + unat n \<le> 2 ^ 31" by simp
  moreover have "{unat b..<unat b + unat n} \<inter> free_of s = {}" using free by blast
  ultimately obtain "zalloc_inv s'" "free_of s' = free_of s \<union> {unat b..<unat b + unat n}"
    using zfree_ok [of s b n] zfree_aligned [OF free.hyps(4)] free by (metis option.inject)
  then show ?case using free by blast
qed (simp add: zalloc_init_inv)

text \<open>C20: on a machine whose memory ends at 2 GiB or below, along every history of donations of non-empty ranges
  that are neither free nor in use, of allocations and of frees of memory in use, an allocation that returns an
  address returns memory that was free and that nobody uses, takes exactly this memory, and the accounting of free
  pages stays exact. The bound on the memory is needed: above it \<open>add_block\<close> coalesces into a zone
  that does not exist (\<open>add_block_overruns_zones\<close>).\<close>

theorem zalloc_never_overlaps:
  assumes "limit \<le> 2 ^ 31" "zreach limit s used" "zalloc s n = Some (b, s')" "b \<noteq> 0"
  shows "{unat b..<unat b + unat n} \<inter> used = {} \<and> {unat b..<unat b + unat n} \<subseteq> free_of s \<and>
    free_of s' = free_of s - {unat b..<unat b + unat n} \<and> zalloc_inv s'"
  using zreach_inv [OF assms(1,2)] zalloc_cases [OF _ assms(3)] assms(4) by blast

theorem zalloc_never_overlaps_witness:
  "\<exists>s b s' c s''. zreach (2 ^ 31) s {} \<and> zalloc s 0x1000 = Some (b, s') \<and> b \<noteq> 0 \<and> zalloc_inv s' \<and>
    zalloc s' 0x1000 = Some (c, s'') \<and> c \<noteq> 0 \<and>
    {unat c..<unat c + 0x1000} \<inter> {unat b..<unat b + 0x1000} = {} \<and> free_of s'' = {}"
proof -
  obtain s where s: "zfree zalloc_init 0x2000 0x2000 = Some s" "zalloc_inv s" "free_of s = {0x2000..<0x4000}"
    using zfree_init by blast
  have r: "zreach (2 ^ 31) s {}"
    using zreach.donate [OF zreach.init, of "0x2000" "0x2000"] s(1) by (simp add: zalloc_init_inv)
  have "fits (zone s) 0x1000"
    using fitsI [of "zone s" 1 "0x2000" "0x1000"] s(2,3) by (simp add: zalloc_inv_def ZONES_eq)
  then obtain b s' where b: "zalloc s 0x1000 = Some (b, s')" "b \<noteq> 0" "4096 dvd unat b"
    using zalloc_ok [OF s(2), of "0x1000"] by auto
  note p = zalloc_never_overlaps [OF order.refl r b(1,2)]
  have r': "zreach (2 ^ 31) s' {unat b..<unat b + 0x1000}"
    using zreach.alloc [OF r b(1)] b(2) by simp
  have "{unat b..<unat b + 0x1000} \<subseteq> {0x2000..<0x4000}" using p s(3) by simp
  then have "unat b \<in> {0x2000..0x3000}" by (simp add: ivl_subset)
  then have ub: "unat b = 0x2000 \<or> unat b = 0x3000" using b(3) by (auto elim!: dvdE)
  define a :: nat where "a = 0x5000 - unat b"
  have f: "free_of s' = {a..<a + 0x1000}" using p s(3) ub by (auto simp: a_def)
  have "fits (zone s') 0x1000"
    using fitsI [of "zone s'" 0 a "0x1000"] p f ub by (auto simp: zalloc_inv_def ZONES_eq a_def)
  then obtain c s'' where c: "zalloc s' 0x1000 = Some (c, s'')" "c \<noteq> 0"
    using zalloc_ok [of s' "0x1000"] p by auto
  note q = zalloc_never_overlaps [OF order.refl r' c]
  have "{unat c..<unat c + 0x1000} \<subseteq> {a..<a + 0x1000}" using q f by simp
  then have "unat c = a" by (simp add: ivl_subset)
  then show ?thesis using q f r b c p by auto
qed

text \<open>Two free blocks of one gigabyte above 2 GiB that are buddies are coalesced into a zone that does not exist.\<close>

lemma add_block_overruns_zones: "add_block (replicate 18 [] @ [[0x80000000]]) 0xC0000000 18 = None"
  by code_simp

end
