(* ===== verification/Folio.thy ===== *)
theory Folio
  imports Cap Bit_Array
begin

text \<open>
  Folios, \<^verbatim>\<open>hurd/folio.h\<close> in the kernel's form: the header page of a folio describes its 128
  objects and (as object -1) the folio itself. Versions, contents and policies are an array of bit
  fields, the other flags are bit arrays. Also \<open>folio_policy\<close> of \<^verbatim>\<open>viengoos/object.c\<close>.

  A failed range assertion is \<open>None\<close>. The object types, one byte each, are kept as values of \<open>cap_type\<close>.
\<close>

subsection \<open>The header page\<close>

definition FOLIO_OBJECTS :: int where
  "FOLIO_OBJECTS = 128"

record folio_policy_t =
  fp_discardable :: bool
  fp_group :: "15 word"
  fp_priority :: "15 word"

definition FOLIO_POLICY_VOID :: folio_policy_t where
  "FOLIO_POLICY_VOID = \<lparr>fp_discardable = False, fp_group = 0, fp_priority = 0\<rparr>"

record object_misc =
  m_version :: version_t
  m_content :: bool
  m_discardable :: bool
  m_priority :: "10 word"

record folio =
  f_activity :: kcap
  f_next :: kcap
  f_prev :: kcap
  f_policy :: folio_policy_t
  f_misc :: "object_misc list"
  f_types :: "cap_type list"
  f_wait_queues_p :: "u8 list"
  f_discarded :: "u8 list"
  f_dirty :: "u8 list"
  f_referenced :: "u8 list"
  f_wait_queues :: "oid_t list"
  f_checksums :: "(u64 \<times> u64) list"

text \<open>The array sizes of the structure.\<close>

definition folio_wf :: "folio \<Rightarrow> bool" where
  "folio_wf f \<longleftrightarrow> length (f_misc f) = 129 \<and> length (f_types f) = 128 \<and>
     length (f_wait_queues_p f) = 17 \<and> length (f_discarded f) = 16 \<and> length (f_dirty f) = 17 \<and>
     length (f_referenced f) = 17 \<and> length (f_wait_queues f) = 129 \<and> length (f_checksums f) = 129"

subsection \<open>Accessors\<close>

definition folio_object_type :: "folio \<Rightarrow> int \<Rightarrow> cap_type option" where
  "folio_object_type folio object = do {
     c_assert (object \<ge> -1 \<and> object < FOLIO_OBJECTS);
     Some (if object = -1 then cap_folio else f_types folio ! nat object)
   }"

definition folio_object_type_set :: "folio \<Rightarrow> int \<Rightarrow> cap_type \<Rightarrow> folio option" where
  "folio_object_type_set folio object type = do {
     c_assert (object \<ge> 0 \<and> object < FOLIO_OBJECTS);
     Some (folio\<lparr>f_types := (f_types folio)[nat object := type]\<rparr>)
   }"

definition folio_object_policy :: "folio \<Rightarrow> int \<Rightarrow> object_policy option" where
  "folio_object_policy folio object = do {
     c_assert (object \<ge> -1 \<and> object < FOLIO_OBJECTS);
     let m = f_misc folio ! nat (object + 1);
     Some \<lparr>pol_discardable = m_discardable m, pol_priority = m_priority m\<rparr>
   }"

definition folio_object_policy_set :: "folio \<Rightarrow> int \<Rightarrow> object_policy \<Rightarrow> folio option" where
  "folio_object_policy_set folio object p = do {
     c_assert (object \<ge> -1 \<and> object < FOLIO_OBJECTS);
     let m = f_misc folio ! nat (object + 1);
     Some (folio\<lparr>f_misc := (f_misc folio)[nat (object + 1) :=
       m\<lparr>m_discardable := pol_discardable p, m_priority := pol_priority p\<rparr>]\<rparr>)
   }"

definition folio_object_wait_queue_p :: "folio \<Rightarrow> int \<Rightarrow> bool option" where
  "folio_object_wait_queue_p folio object = do {
     c_assert (object \<ge> -1 \<and> object < FOLIO_OBJECTS);
     bit_test (f_wait_queues_p folio) (object + 1)
   }"

definition folio_object_wait_queue_p_set :: "folio \<Rightarrow> int \<Rightarrow> bool \<Rightarrow> folio option" where
  "folio_object_wait_queue_p_set folio object valid = do {
     c_assert (object \<ge> -1 \<and> object < FOLIO_OBJECTS);
     a \<leftarrow> bit_set_to (f_wait_queues_p folio) (int (length (f_wait_queues_p folio))) (object + 1) valid;
     Some (folio\<lparr>f_wait_queues_p := a\<rparr>)
   }"

definition folio_object_wait_queue :: "folio \<Rightarrow> int \<Rightarrow> oid_t option" where
  "folio_object_wait_queue folio object = do {
     c_assert (object \<ge> -1 \<and> object < FOLIO_OBJECTS);
     Some (f_wait_queues folio ! nat (object + 1))
   }"

definition folio_object_wait_queue_set :: "folio \<Rightarrow> int \<Rightarrow> oid_t \<Rightarrow> folio option" where
  "folio_object_wait_queue_set folio object head = do {
     c_assert (object \<ge> -1 \<and> object < FOLIO_OBJECTS);
     Some (folio\<lparr>f_wait_queues := (f_wait_queues folio)[nat (object + 1) := head]\<rparr>)
   }"

definition folio_object_version :: "folio \<Rightarrow> int \<Rightarrow> u32 option" where
  "folio_object_version folio object = do {
     c_assert (object \<ge> -1 \<and> object < FOLIO_OBJECTS);
     Some (ucast (m_version (f_misc folio ! nat (object + 1))))
   }"

text \<open>The version is stored into a field of 20 bits.\<close>

definition folio_object_version_set :: "folio \<Rightarrow> int \<Rightarrow> u32 \<Rightarrow> folio option" where
  "folio_object_version_set folio object v = do {
     c_assert (object \<ge> -1 \<and> object < FOLIO_OBJECTS);
     let m = f_misc folio ! nat (object + 1);
     Some (folio\<lparr>f_misc := (f_misc folio)[nat (object + 1) := m\<lparr>m_version := ucast v\<rparr>]\<rparr>)
   }"

definition folio_object_content :: "folio \<Rightarrow> int \<Rightarrow> bool option" where
  "folio_object_content folio object = do {
     c_assert (object \<ge> -1 \<and> object < FOLIO_OBJECTS);
     Some (m_content (f_misc folio ! nat (object + 1)))
   }"

definition folio_object_content_set :: "folio \<Rightarrow> int \<Rightarrow> bool \<Rightarrow> folio option" where
  "folio_object_content_set folio object content = do {
     c_assert (object \<ge> -1 \<and> object < FOLIO_OBJECTS);
     let m = f_misc folio ! nat (object + 1);
     Some (folio\<lparr>f_misc := (f_misc folio)[nat (object + 1) := m\<lparr>m_content := content\<rparr>]\<rparr>)
   }"

definition folio_object_discarded :: "folio \<Rightarrow> int \<Rightarrow> bool option" where
  "folio_object_discarded folio object = do {
     c_assert (object \<ge> 0 \<and> object < FOLIO_OBJECTS);
     bit_test (f_discarded folio) object
   }"

definition folio_object_discarded_set :: "folio \<Rightarrow> int \<Rightarrow> bool \<Rightarrow> folio option" where
  "folio_object_discarded_set folio object valid = do {
     c_assert (object \<ge> 0 \<and> object < FOLIO_OBJECTS);
     a \<leftarrow> bit_set_to (f_discarded folio) (int (length (f_discarded folio))) object valid;
     Some (folio\<lparr>f_discarded := a\<rparr>)
   }"

definition folio_object_referenced :: "folio \<Rightarrow> int \<Rightarrow> bool option" where
  "folio_object_referenced folio object = do {
     c_assert (object \<ge> -1 \<and> object < FOLIO_OBJECTS);
     bit_test (f_referenced folio) (object + 1)
   }"

definition folio_object_referenced_set :: "folio \<Rightarrow> int \<Rightarrow> bool \<Rightarrow> folio option" where
  "folio_object_referenced_set folio object p = do {
     c_assert (object \<ge> -1 \<and> object < FOLIO_OBJECTS);
     a \<leftarrow> bit_set_to (f_referenced folio) (int (length (f_referenced folio))) (object + 1) p;
     Some (folio\<lparr>f_referenced := a\<rparr>)
   }"

definition folio_object_dirty :: "folio \<Rightarrow> int \<Rightarrow> bool option" where
  "folio_object_dirty folio object = do {
     c_assert (object \<ge> -1 \<and> object < FOLIO_OBJECTS);
     bit_test (f_dirty folio) (object + 1)
   }"

definition folio_object_dirty_set :: "folio \<Rightarrow> int \<Rightarrow> bool \<Rightarrow> folio option" where
  "folio_object_dirty_set folio object p = do {
     c_assert (object \<ge> -1 \<and> object < FOLIO_OBJECTS);
     a \<leftarrow> bit_set_to (f_dirty folio) (int (length (f_dirty folio))) (object + 1) p;
     Some (folio\<lparr>f_dirty := a\<rparr>)
   }"

text \<open>\<open>folio_object_cap\<close>: \<open>c\<close> is the uninitialised local variable (its field \<open>weak_p\<close> is never
  assigned), \<open>foid\<close> the object identifier in the folio's descriptor.\<close>

definition folio_object_cap :: "kcap \<Rightarrow> oid_t \<Rightarrow> folio \<Rightarrow> int \<Rightarrow> kcap option" where
  "folio_object_cap c foid folio object = do {
     type \<leftarrow> folio_object_type folio object;
     v \<leftarrow> folio_object_version folio object;
     p \<leftarrow> folio_object_policy folio object;
     let c = c\<lparr>ctype := type, version := ucast v\<rparr>;
     let c = CAP_PROPERTIES_SET c \<lparr>policy = p, prop_addr_trans = CAP_ADDR_TRANS_VOID\<rparr>;
     Some (c\<lparr>oid := ucast (foid + 1 + of_int object)\<rparr>)
   }"

text \<open>The parts of \<open>folio_object_alloc\<close> (\<^verbatim>\<open>viengoos/object.c\<close>) that write the header page: the version of an
  object that existed is bumped, also in its descriptor \<open>odv\<close> (the field \<open>version\<close>) when the object is in memory,
  then the object is described anew and a capability to it is returned. \<open>foid\<close> is the object identifier of the folio.\<close>

definition folio_object_bump :: "folio \<Rightarrow> version_t option \<Rightarrow> int \<Rightarrow> (folio \<times> version_t option) option" where
  "folio_object_bump folio odv idx = do {
     t \<leftarrow> folio_object_type folio idx;
     if t \<noteq> cap_void then do {
       v \<leftarrow> folio_object_version folio idx;
       folio \<leftarrow> folio_object_version_set folio idx (v + 1);
       odv \<leftarrow> (case odv of None \<Rightarrow> Some None
               | Some _ \<Rightarrow> do { v \<leftarrow> folio_object_version folio idx; Some (Some (ucast v)) });
       Some (folio, odv)
     }
     else Some (folio, odv)
   }"

definition folio_object_describe :: "folio \<Rightarrow> int \<Rightarrow> cap_type \<Rightarrow> object_policy \<Rightarrow> folio option" where
  "folio_object_describe folio idx type p = do {
     folio \<leftarrow> folio_object_type_set folio idx type;
     folio \<leftarrow> folio_object_content_set folio idx False;
     folio \<leftarrow> folio_object_discarded_set folio idx False;
     folio \<leftarrow> folio_object_policy_set folio idx p;
     folio \<leftarrow> folio_object_referenced_set folio idx False;
     folio_object_dirty_set folio idx False
   }"

definition folio_object_renew ::
  "oid_t \<Rightarrow> folio \<Rightarrow> version_t option \<Rightarrow> int \<Rightarrow> cap_type \<Rightarrow> object_policy \<Rightarrow> (folio \<times> version_t option \<times> kcap) option" where
  "folio_object_renew foid folio odv idx type p = do {
     (folio, odv) \<leftarrow> folio_object_bump folio odv idx;
     folio \<leftarrow> folio_object_describe folio idx type p;
     v \<leftarrow> folio_object_version folio idx;
     let c = \<lparr>ctype = type, discardable = False, priority = 0, addr_trans = CAP_ADDR_TRANS_VOID,
              oid = ucast (foid + 1 + of_int idx), version = ucast v, weak_p = False\<rparr>;
     Some (folio, odv, CAP_POLICY_SET c p)
   }"

subsection \<open>The storage policy of a folio\<close>

definition FOLIO_POLICY_DELIVER :: u32 where "FOLIO_POLICY_DELIVER = shl 1 0"
definition FOLIO_POLICY_DISCARDABLE_SET :: u32 where "FOLIO_POLICY_DISCARDABLE_SET = shl 1 1"
definition FOLIO_POLICY_GROUP_SET :: u32 where "FOLIO_POLICY_GROUP_SET = shl 1 2"
definition FOLIO_POLICY_PRIORITY_SET :: u32 where "FOLIO_POLICY_PRIORITY_SET = shl 1 3"

definition FOLIO_POLICY_SET :: u32 where
  "FOLIO_POLICY_SET = FOLIO_POLICY_DISCARDABLE_SET OR FOLIO_POLICY_GROUP_SET OR FOLIO_POLICY_PRIORITY_SET"

text \<open>\<open>out\<close> is the location the old policy is delivered to, \<open>None\<close> a null pointer.\<close>

definition folio_policy :: "folio \<Rightarrow> u32 \<Rightarrow> folio_policy_t \<Rightarrow> folio_policy_t option \<Rightarrow> folio \<times> folio_policy_t option" where
  "folio_policy folio flags inp out =
     (let out = (if flags AND FOLIO_POLICY_DELIVER \<noteq> 0 then map_option (\<lambda>_. f_policy folio) out else out) in
      if flags AND FOLIO_POLICY_SET = 0 then (folio, out)
      else
       let p = f_policy folio;
           p = (if flags AND FOLIO_POLICY_GROUP_SET \<noteq> 0 then p\<lparr>fp_group := fp_group inp\<rparr> else p);
           p = (if flags AND FOLIO_POLICY_DISCARDABLE_SET \<noteq> 0 \<and> fp_discardable inp \<noteq> fp_discardable p
                then p\<lparr>fp_discardable := fp_discardable inp\<rparr> else p);
           p = (if flags AND FOLIO_POLICY_PRIORITY_SET \<noteq> 0 then p\<lparr>fp_priority := fp_priority inp\<rparr> else p)
       in (folio\<lparr>f_policy := p\<rparr>, out))"

lemmas folio_ops = folio_object_type_def folio_object_type_set_def folio_object_policy_def
  folio_object_policy_set_def folio_object_wait_queue_p_def folio_object_wait_queue_p_set_def
  folio_object_wait_queue_def folio_object_wait_queue_set_def folio_object_version_def
  folio_object_version_set_def folio_object_content_def folio_object_content_set_def
  folio_object_discarded_def folio_object_discarded_set_def folio_object_referenced_def
  folio_object_referenced_set_def folio_object_dirty_def folio_object_dirty_set_def

subsection \<open>The folio as a table of objects\<close>

text \<open>What the header page records of one object, and a folio as a finite map from positions.\<close>

record object_info =
  i_type :: cap_type
  i_policy :: object_policy
  i_waiters_p :: bool
  i_waiters :: oid_t
  i_version :: version_t
  i_content :: bool
  i_discarded :: bool
  i_referenced :: bool
  i_dirty :: bool

definition object_info_of :: "folio \<Rightarrow> nat \<Rightarrow> object_info" where
  "object_info_of f k = (let m = f_misc f ! k in
     \<lparr>i_type = (if k = 0 then cap_folio else f_types f ! (k - 1)),
      i_policy = \<lparr>pol_discardable = m_discardable m, pol_priority = m_priority m\<rparr>,
      i_waiters_p = (k \<in> bits_of (f_wait_queues_p f)), i_waiters = f_wait_queues f ! k,
      i_version = m_version m, i_content = m_content m,
      i_discarded = (k \<noteq> 0 \<and> k - 1 \<in> bits_of (f_discarded f)),
      i_referenced = (k \<in> bits_of (f_referenced f)), i_dirty = (k \<in> bits_of (f_dirty f))\<rparr>)"

definition folio_abs :: "folio \<Rightarrow> int \<Rightarrow> object_info option" where
  "folio_abs f i = (if i \<ge> -1 \<and> i < FOLIO_OBJECTS then Some (object_info_of f (nat (i + 1))) else None)"

text \<open>The fields of the header page that belong to no object.\<close>

definition folio_rest :: "folio \<Rightarrow> (kcap \<times> kcap \<times> kcap) \<times> folio_policy_t \<times> (u64 \<times> u64) list" where
  "folio_rest f = ((f_activity f, f_next f, f_prev f), f_policy f, f_checksums f)"

definition updates :: "folio \<Rightarrow> int \<Rightarrow> (object_info \<Rightarrow> object_info) \<Rightarrow> folio option \<Rightarrow> bool" where
  "updates f i g r \<longleftrightarrow> (\<exists>f'. r = Some f' \<and> folio_wf f' \<and> folio_rest f' = folio_rest f \<and>
     folio_abs f' = (folio_abs f)(i := map_option g (folio_abs f i)))"

lemma folio_index:
  assumes "i \<ge> -1" "i < FOLIO_OBJECTS"
  obtains k where "i = int k - 1" "k < 129"
  using assms by (intro that [of "nat (i + 1)"]) (simp_all add: FOLIO_OBJECTS_def)

lemma updatesI:
  assumes "folio_wf f'" "folio_rest f' = folio_rest f" "k < 129" "object_info_of f' k = g (object_info_of f k)"
    "\<And>j. j < 129 \<Longrightarrow> j \<noteq> k \<Longrightarrow> object_info_of f' j = object_info_of f j"
  shows "updates f (int k - 1) g (Some f')"
proof -
  have "folio_abs f' i = ((folio_abs f)(int k - 1 := map_option g (folio_abs f (int k - 1)))) i" for i
    using assms(3,4) assms(5) [of "nat (i + 1)"] unfolding folio_abs_def FOLIO_OBJECTS_def
    by (cases "i = int k - 1") auto
  then show ?thesis using assms(1,2) by (auto simp: updates_def)
qed

lemma folio_wf_bit_set_to:
  assumes "folio_wf f" "k < 129"
  shows "bit_set_to (f_wait_queues_p f) 17 (int k) v = Some (if v then mark (f_wait_queues_p f) k else clear (f_wait_queues_p f) k)"
    "bit_set_to (f_referenced f) 17 (int k) v = Some (if v then mark (f_referenced f) k else clear (f_referenced f) k)"
    "bit_set_to (f_dirty f) 17 (int k) v = Some (if v then mark (f_dirty f) k else clear (f_dirty f) k)"
  using assms bit_set_to_eq [of 17 _ k v] by (simp_all add: folio_wf_def)

lemma folio_setters:
  assumes wf: "folio_wf f" and k: "k < 129"
  shows "updates f (int k - 1) (i_policy_update (\<lambda>_. p)) (folio_object_policy_set f (int k - 1) p)"
    "updates f (int k - 1) (i_waiters_p_update (\<lambda>_. b)) (folio_object_wait_queue_p_set f (int k - 1) b)"
    "updates f (int k - 1) (i_waiters_update (\<lambda>_. h)) (folio_object_wait_queue_set f (int k - 1) h)"
    "updates f (int k - 1) (i_version_update (\<lambda>_. ucast v)) (folio_object_version_set f (int k - 1) v)"
    "updates f (int k - 1) (i_content_update (\<lambda>_. b)) (folio_object_content_set f (int k - 1) b)"
    "updates f (int k - 1) (i_referenced_update (\<lambda>_. b)) (folio_object_referenced_set f (int k - 1) b)"
    "updates f (int k - 1) (i_dirty_update (\<lambda>_. b)) (folio_object_dirty_set f (int k - 1) b)"
  using assms folio_wf_bit_set_to [OF wf k]
  by (auto simp: folio_ops FOLIO_OBJECTS_def Let_def folio_wf_def folio_rest_def object_info_of_def intro!: updatesI)

lemma folio_setters_object:
  assumes wf: "folio_wf f" and k: "k < 128"
  shows "updates f (int k) (i_type_update (\<lambda>_. t)) (folio_object_type_set f (int k) t)"
    "updates f (int k) (i_discarded_update (\<lambda>_. b)) (folio_object_discarded_set f (int k) b)"
proof -
  have *: "updates f (int k) g (Some f') \<longleftrightarrow> updates f (int (Suc k) - 1) g (Some f')" for g f' by simp
  have b: "bit_set_to (f_discarded f) 16 (int k) b = Some (if b then mark (f_discarded f) k else clear (f_discarded f) k)"
    using assms bit_set_to_eq [of 16 "f_discarded f" k b] by (simp add: folio_wf_def)
  show "updates f (int k) (i_type_update (\<lambda>_. t)) (folio_object_type_set f (int k) t)"
    using assms by (auto simp: folio_ops FOLIO_OBJECTS_def folio_wf_def folio_rest_def object_info_of_def Let_def * simp del: of_nat_Suc intro!: updatesI)
  show "updates f (int k) (i_discarded_update (\<lambda>_. b)) (folio_object_discarded_set f (int k) b)"
    using assms b by (auto simp: folio_ops FOLIO_OBJECTS_def folio_wf_def folio_rest_def object_info_of_def Let_def * simp del: of_nat_Suc intro!: updatesI)
qed

lemma folio_getters:
  assumes wf: "folio_wf f"
  shows "folio_object_type f i = map_option i_type (folio_abs f i)"
    "folio_object_policy f i = map_option i_policy (folio_abs f i)"
    "folio_object_wait_queue_p f i = map_option i_waiters_p (folio_abs f i)"
    "folio_object_wait_queue f i = map_option i_waiters (folio_abs f i)"
    "folio_object_version f i = map_option (\<lambda>o'. ucast (i_version o')) (folio_abs f i)"
    "folio_object_content f i = map_option i_content (folio_abs f i)"
    "folio_object_referenced f i = map_option i_referenced (folio_abs f i)"
    "folio_object_dirty f i = map_option i_dirty (folio_abs f i)"
    "folio_object_discarded f i = (if i = -1 then None else map_option i_discarded (folio_abs f i))"
proof -
  show "folio_object_type f i = map_option i_type (folio_abs f i)"
    "folio_object_policy f i = map_option i_policy (folio_abs f i)"
    "folio_object_wait_queue f i = map_option i_waiters (folio_abs f i)"
    "folio_object_version f i = map_option (\<lambda>o'. ucast (i_version o')) (folio_abs f i)"
    "folio_object_content f i = map_option i_content (folio_abs f i)"
    by (auto simp: folio_ops folio_abs_def object_info_of_def Let_def c_assert_bind_if nat_diff_distrib' nat_add_distrib
        intro!: arg_cong [of _ _ "nth (f_types f)"])
  have t: "bit_test a (int k) = Some (k \<in> bits_of a)" if "length a = 17" "k < 129" for a k
    using that bit_test_eq [of k a] by simp
  have d: "bit_test (f_discarded f) (int k) = Some (k \<in> bits_of (f_discarded f))" if "k < 128" for k
    using that wf bit_test_eq [of k "f_discarded f"] by (simp add: folio_wf_def)
  show "folio_object_wait_queue_p f i = map_option i_waiters_p (folio_abs f i)"
    "folio_object_referenced f i = map_option i_referenced (folio_abs f i)"
    "folio_object_dirty f i = map_option i_dirty (folio_abs f i)"
    "folio_object_discarded f i = (if i = -1 then None else map_option i_discarded (folio_abs f i))"
  proof -
    consider (out) "\<not> (i \<ge> -1 \<and> i < FOLIO_OBJECTS)" | (inr) k where "i = int k - 1" "k < 129"
      using folio_index by blast
    then have "folio_object_wait_queue_p f i = map_option i_waiters_p (folio_abs f i) \<and>
      folio_object_referenced f i = map_option i_referenced (folio_abs f i) \<and>
      folio_object_dirty f i = map_option i_dirty (folio_abs f i) \<and>
      folio_object_discarded f i = (if i = -1 then None else map_option i_discarded (folio_abs f i))"
    proof cases
      case out
      then show ?thesis by (auto simp: folio_ops folio_abs_def c_assert_bind_if)
    next
      case inr
      then show ?thesis using wf t [of _ k] d [of "k - 1"]
        by (cases k) (auto simp: folio_ops folio_abs_def object_info_of_def Let_def FOLIO_OBJECTS_def folio_wf_def
              nat_add_distrib add.commute [of _ 1])
    qed
    then show "folio_object_wait_queue_p f i = map_option i_waiters_p (folio_abs f i)"
      "folio_object_referenced f i = map_option i_referenced (folio_abs f i)"
      "folio_object_dirty f i = map_option i_dirty (folio_abs f i)"
      "folio_object_discarded f i = (if i = -1 then None else map_option i_discarded (folio_abs f i))" by blast+
  qed
qed

lemma updates_bind:
  assumes "updates f i g r" "\<And>f'. folio_wf f' \<Longrightarrow> updates f' i h (k f')"
  shows "updates f i (h \<circ> g) (r \<bind> k)"
proof -
  obtain f' where f': "r = Some f'" "folio_wf f'" "folio_rest f' = folio_rest f" "folio_abs f' = (folio_abs f)(i := map_option g (folio_abs f i))"
    using assms(1) by (auto simp: updates_def)
  with assms(2) [OF f'(2)] show ?thesis by (auto simp: updates_def option.map_comp)
qed

lemma updates_cong:
  assumes "updates f i g r" "\<And>x. folio_abs f i = Some x \<Longrightarrow> g x = h x"
  shows "updates f i h r"
proof -
  have "map_option g (folio_abs f i) = map_option h (folio_abs f i)" using assms(2) by (cases "folio_abs f i") auto
  then show ?thesis using assms(1) unfolding updates_def by simp
qed

lemma folio_setters_int:
  assumes "folio_wf f" "0 \<le> i" "i < FOLIO_OBJECTS"
  shows "updates f i (i_policy_update (\<lambda>_. p)) (folio_object_policy_set f i p)"
    "updates f i (i_version_update (\<lambda>_. ucast v)) (folio_object_version_set f i v)"
    "updates f i (i_content_update (\<lambda>_. b)) (folio_object_content_set f i b)"
    "updates f i (i_referenced_update (\<lambda>_. b)) (folio_object_referenced_set f i b)"
    "updates f i (i_dirty_update (\<lambda>_. b)) (folio_object_dirty_set f i b)"
    "updates f i (i_type_update (\<lambda>_. t)) (folio_object_type_set f i t)"
    "updates f i (i_discarded_update (\<lambda>_. b)) (folio_object_discarded_set f i b)"
  using folio_setters [OF assms(1), of "nat (i + 1)"] folio_setters_object [OF assms(1), of "nat i"] assms(2,3)
  by (simp_all add: FOLIO_OBJECTS_def)

lemma folio_object_describe_ok:
  assumes "folio_wf f" "0 \<le> i" "i < FOLIO_OBJECTS"
  shows "updates f i (\<lambda>x. x\<lparr>i_type := t, i_content := False, i_discarded := False, i_policy := p,
    i_referenced := False, i_dirty := False\<rparr>) (folio_object_describe f i t p)"
proof -
  note S = folio_setters_int [OF _ assms(2,3)]
  have "updates f i (i_dirty_update (\<lambda>_. False) \<circ> i_referenced_update (\<lambda>_. False) \<circ> i_policy_update (\<lambda>_. p) \<circ>
      i_discarded_update (\<lambda>_. False) \<circ> i_content_update (\<lambda>_. False) \<circ> i_type_update (\<lambda>_. t)) (folio_object_describe f i t p)"
    unfolding folio_object_describe_def o_assoc
    by (intro updates_bind [where g = "i_type_update _"] updates_bind [where g = "i_content_update _"]
      updates_bind [where g = "i_discarded_update _"] updates_bind [where g = "i_policy_update _"]
      updates_bind [where g = "i_referenced_update _"] S assms(1))
  then show ?thesis by (rule updates_cong) simp
qed

lemma folio_abs_Some: "0 \<le> i \<Longrightarrow> i < FOLIO_OBJECTS \<Longrightarrow> \<exists>x. folio_abs f i = Some x"
  by (simp add: folio_abs_def)

lemma version_succ: "ucast (ucast (v :: version_t) + 1 :: u32) = v + 1"
proof -
  have "unat v < 2 ^ 20" using unsigned_less [of v, where ?'a = nat] by simp
  then show ?thesis
    by (simp add: word_unat_eq_iff unsigned_ucast_eq unat_word_ariths take_bit_nat_def)
qed

abbreviation next_version :: "object_info \<Rightarrow> version_t" where
  "next_version x \<equiv> (if i_type x = cap_void then i_version x else i_version x + 1)"

lemma ucast_version_back [simp]: "ucast (ucast (v :: version_t) :: u32) = v"
  by (rule bit_word_eqI) (simp add: bit_ucast_iff)

lemma ucast_version_inj: "(ucast (v :: version_t) :: u32) = ucast w \<longleftrightarrow> v = w"
  by (metis ucast_version_back)

lemma folio_object_bump_ok:
  assumes "folio_wf f" "0 \<le> i" "i < FOLIO_OBJECTS" and x: "folio_abs f i = Some x"
  shows "\<exists>f'. folio_object_bump f odv i = Some (f', if i_type x = cap_void then odv else map_option (\<lambda>_. i_version x + 1) odv) \<and>
    updates f i (i_version_update (\<lambda>_. next_version x)) (Some f')"
proof (cases "i_type x = cap_void")
  case True
  then show ?thesis using assms unfolding folio_object_bump_def folio_getters [OF assms(1)]
    by (auto simp: updates_def)
next
  case False
  obtain f' where f': "folio_object_version_set f i (ucast (i_version x) + 1) = Some f'"
    and u: "updates f i (i_version_update (\<lambda>_. i_version x + 1)) (Some f')"
    using folio_setters_int(2) [OF assms(1-3), of "ucast (i_version x) + 1"] unfolding version_succ
    by (auto simp: updates_def)
  then have "folio_wf f'" "folio_abs f' i = Some (x\<lparr>i_version := i_version x + 1\<rparr>)" using x by (auto simp: updates_def)
  then show ?thesis using f' u False
    by (auto simp: folio_object_bump_def folio_getters [OF assms(1)] folio_getters [of f'] x split: option.splits)
qed

lemma folio_object_renew_ok:
  assumes "folio_wf f" "0 \<le> i" "i < FOLIO_OBJECTS" and x: "folio_abs f i = Some x"
  shows "\<exists>f' c. folio_object_renew foid f odv i t p =
      Some (f', if i_type x = cap_void then odv else map_option (\<lambda>_. i_version x + 1) odv, c) \<and>
    updates f i (\<lambda>x. x\<lparr>i_type := t, i_content := False, i_discarded := False,
      i_policy := p, i_referenced := False, i_dirty := False, i_version := next_version x\<rparr>) (Some f') \<and>
    oid c = ucast (foid + 1 + of_int i) \<and> version c = next_version x \<and> ctype c = t \<and> CAP_POLICY_GET c = p"
proof -
  obtain f1 where f1: "folio_object_bump f odv i =
      Some (f1, if i_type x = cap_void then odv else map_option (\<lambda>_. i_version x + 1) odv)"
    and u1: "updates f i (i_version_update (\<lambda>_. next_version x)) (Some f1)"
    using folio_object_bump_ok [OF assms] by blast
  then have wf1: "folio_wf f1" by (simp add: updates_def)
  obtain f2 where f2: "folio_object_describe f1 i t p = Some f2"
    using folio_object_describe_ok [OF wf1 assms(2,3)] by (auto simp: updates_def)
  have "updates f i ((\<lambda>x. x\<lparr>i_type := t, i_content := False, i_discarded := False, i_policy := p,
    i_referenced := False, i_dirty := False\<rparr>) \<circ> i_version_update (\<lambda>_. next_version x)) (Some f1 \<bind> (\<lambda>f. folio_object_describe f i t p))"
    by (intro updates_bind u1 folio_object_describe_ok assms(2,3))
  then have u2: "updates f i (\<lambda>x. x\<lparr>i_type := t, i_content := False, i_discarded := False,
      i_policy := p, i_referenced := False, i_dirty := False, i_version := next_version x\<rparr>) (Some f2)"
    unfolding bind.bind_lunit f2 by (rule updates_cong) (simp add: x)
  have "folio_object_version f2 i = Some (ucast (next_version x))"
    using u2 x folio_getters(5) [of f2 i] by (auto simp: updates_def)
  then show ?thesis using f1 f2 u2
    by (auto simp: folio_object_renew_def CAP_POLICY_SET_def CAP_POLICY_GET_def OBJECT_POLICY_def)
qed


text \<open>A folio right after its page was zeroed.\<close>

definition folio_zero :: folio where
  "folio_zero = (let c = \<lparr>ctype = cap_void, discardable = False, priority = 0, addr_trans = CAP_ADDR_TRANS_VOID,
       oid = 0, version = 0, weak_p = False\<rparr> in
     \<lparr>f_activity = c, f_next = c, f_prev = c, f_policy = FOLIO_POLICY_VOID,
      f_misc = replicate 129 \<lparr>m_version = 0, m_content = False, m_discardable = False, m_priority = 0\<rparr>,
      f_types = replicate 128 cap_void, f_wait_queues_p = replicate 17 0, f_discarded = replicate 16 0,
      f_dirty = replicate 17 0, f_referenced = replicate 17 0, f_wait_queues = replicate 129 0,
      f_checksums = replicate 129 (0, 0)\<rparr>)"

lemma folio_zero_wf [simp]: "folio_wf folio_zero"
  by (simp add: folio_zero_def Let_def folio_wf_def)


text \<open>C23: the header page of a folio is a table of its objects: every accessor reads its attribute of its object and
  fails its assertion outside of the range, and every setter changes its attribute of its object and nothing else.\<close>

theorem folio_refines_table:
  assumes "folio_wf f" "k < 128" "j < 129"
  shows "(folio_object_type f i = map_option i_type (folio_abs f i)) \<and>
    (folio_object_policy f i = map_option i_policy (folio_abs f i)) \<and>
    (folio_object_wait_queue_p f i = map_option i_waiters_p (folio_abs f i)) \<and>
    (folio_object_wait_queue f i = map_option i_waiters (folio_abs f i)) \<and>
    (folio_object_version f i = map_option (\<lambda>x. ucast (i_version x)) (folio_abs f i)) \<and>
    (folio_object_content f i = map_option i_content (folio_abs f i)) \<and>
    (folio_object_referenced f i = map_option i_referenced (folio_abs f i)) \<and>
    (folio_object_dirty f i = map_option i_dirty (folio_abs f i)) \<and>
    (folio_object_discarded f i = (if i = -1 then None else map_option i_discarded (folio_abs f i))) \<and>
    updates f (int k) (i_type_update (\<lambda>_. t)) (folio_object_type_set f (int k) t) \<and>
    updates f (int j - 1) (i_policy_update (\<lambda>_. p)) (folio_object_policy_set f (int j - 1) p) \<and>
    updates f (int j - 1) (i_waiters_p_update (\<lambda>_. b)) (folio_object_wait_queue_p_set f (int j - 1) b) \<and>
    updates f (int j - 1) (i_waiters_update (\<lambda>_. h)) (folio_object_wait_queue_set f (int j - 1) h) \<and>
    updates f (int j - 1) (i_version_update (\<lambda>_. ucast v)) (folio_object_version_set f (int j - 1) v) \<and>
    updates f (int j - 1) (i_content_update (\<lambda>_. b)) (folio_object_content_set f (int j - 1) b) \<and>
    updates f (int j - 1) (i_referenced_update (\<lambda>_. b)) (folio_object_referenced_set f (int j - 1) b) \<and>
    updates f (int j - 1) (i_dirty_update (\<lambda>_. b)) (folio_object_dirty_set f (int j - 1) b) \<and>
    updates f (int k) (i_discarded_update (\<lambda>_. b)) (folio_object_discarded_set f (int k) b)"
  using assms by (simp add: folio_getters folio_setters folio_setters_object)

theorem folio_refines_table_witness:
  "updates folio_zero 5 (i_discarded_update (\<lambda>_. True)) (folio_object_discarded_set folio_zero 5 True)"
  using folio_refines_table [OF folio_zero_wf, of 5 0, where b = True] by simp

subsection \<open>Versions recur\<close>

definition renew_all :: "folio \<Rightarrow> int \<Rightarrow> (cap_type \<times> object_policy) list \<Rightarrow> folio option" where
  "renew_all f i ts = fold (\<lambda>(t, p) r. r \<bind> (\<lambda>f. map_option fst (folio_object_renew 0 f None i t p))) ts (Some f)"

lemma renew_all_Nil [simp]: "renew_all f i [] = Some f"
  by (simp add: renew_all_def)

lemma renew_all_snoc: "renew_all f i (ts @ [(t, p)]) = renew_all f i ts \<bind> (\<lambda>f. map_option fst (folio_object_renew 0 f None i t p))"
  by (simp add: renew_all_def)

lemma renew_all_ok:
  assumes "folio_wf f" "0 \<le> i" "i < FOLIO_OBJECTS" "folio_abs f i = Some x" "i_type x \<noteq> cap_void"
    "\<forall>(t, p) \<in> set ts. t \<noteq> cap_void"
  shows "\<exists>f' y. renew_all f i ts = Some f' \<and> folio_wf f' \<and> folio_abs f' i = Some y \<and> i_type y \<noteq> cap_void \<and>
    i_version y = i_version x + of_nat (length ts)"
  using assms(6)
proof (induction ts rule: rev_induct)
  case Nil
  then show ?case using assms by auto
next
  case (snoc tp ts)
  obtain t p where tp: "tp = (t, p)" by fastforce
  obtain f' y where f': "renew_all f i ts = Some f'" "folio_wf f'" "folio_abs f' i = Some y" "i_type y \<noteq> cap_void"
    "i_version y = i_version x + of_nat (length ts)" using snoc by auto
  obtain f'' where f'': "map_option fst (folio_object_renew 0 f' None i t p) = Some f''" "folio_wf f''" and
    "folio_abs f'' i = Some (y\<lparr>i_type := t, i_content := False, i_discarded := False,
      i_policy := p, i_referenced := False, i_dirty := False, i_version := i_version y + 1\<rparr>)"
    using folio_object_renew_ok [OF f'(2) assms(2,3) f'(3), where foid = 0 and odv = None and t = t and p = p] f'(3,4)
    by (auto simp: updates_def)
  then show ?case using f' snoc.prems unfolding tp renew_all_snoc by auto
qed

lemma of_nat_version_0: "(of_nat n :: version_t) = 0 \<longleftrightarrow> 2 ^ 20 dvd n"
  by (simp add: word_of_nat_eq_0_iff)

text \<open>A slot that held an object and was reallocated any number of times has its old version again exactly when
  that number is a multiple of \<open>2 ^ 20\<close>: stale capabilities stay invalid until the version wraps around, and then become
  valid again.\<close>

theorem folio_version_recurs:
  assumes "folio_wf f" "0 \<le> i" "i < FOLIO_OBJECTS" "folio_abs f i = Some x" "i_type x \<noteq> cap_void"
    "\<forall>(t, p) \<in> set ts. t \<noteq> cap_void"
  shows "\<exists>f' y. renew_all f i ts = Some f' \<and> folio_abs f' i = Some y \<and>
    (i_version y = i_version x \<longleftrightarrow> 2 ^ 20 dvd length ts)"
  using renew_all_ok [OF assms] by (auto simp: of_nat_version_0)

theorem folio_version_recurs_witness:
  "\<exists>f f' x y. folio_abs f 3 = Some x \<and> renew_all f 3 (replicate (2 ^ 20) (cap_page, OBJECT_POLICY_VOID)) = Some f' \<and>
    folio_abs f' 3 = Some y \<and> i_version y = i_version x"
proof -
  obtain f x where f: "folio_wf f" "folio_abs f 3 = Some x" "i_type x = cap_page"
    using folio_setters_int(6) [OF folio_zero_wf, of 3 cap_page] folio_abs_Some [of 3 folio_zero]
    by (auto simp: updates_def FOLIO_OBJECTS_def)
  obtain f' y where "renew_all f 3 (replicate (2 ^ 20) (cap_page, OBJECT_POLICY_VOID)) = Some f'" "folio_abs f' 3 = Some y"
    "i_version y = i_version x"
    using folio_version_recurs [OF f(1) _ _ f(2), of "replicate (2 ^ 20) (cap_page, OBJECT_POLICY_VOID)"] f(3)
    by (auto simp: FOLIO_OBJECTS_def simp del: power_numeral)
  then show ?thesis using f(2) by blast
qed

text \<open>The policy function delivers the old policy and changes exactly the flagged fields.\<close>

lemma folio_policy_spec:
  "f_policy (fst (folio_policy f flags inp out)) =
     \<lparr>fp_discardable = (if bit flags 1 then fp_discardable inp else fp_discardable (f_policy f)),
      fp_group = (if bit flags 2 then fp_group inp else fp_group (f_policy f)),
      fp_priority = (if bit flags 3 then fp_priority inp else fp_priority (f_policy f))\<rparr>"
  "snd (folio_policy f flags inp out) = (if bit flags 0 then map_option (\<lambda>_. f_policy f) out else out)"
proof -
  have b: "flags AND shl 1 k \<noteq> 0 \<longleftrightarrow> bit flags k" if "k < 32" for k
    using that by (auto simp: word_neq_0_bit c_bits intro: bit32_less)
  have o: "flags AND FOLIO_POLICY_SET = 0 \<longleftrightarrow> \<not> bit flags 1 \<and> \<not> bit flags 2 \<and> \<not> bit flags 3"
    using b [of 1] b [of 2] b [of 3] unfolding FOLIO_POLICY_SET_def FOLIO_POLICY_DISCARDABLE_SET_def
      FOLIO_POLICY_GROUP_SET_def FOLIO_POLICY_PRIORITY_SET_def bit.conj_disj_distrib or_eq_0_iff by auto
  show "f_policy (fst (folio_policy f flags inp out)) =
     \<lparr>fp_discardable = (if bit flags 1 then fp_discardable inp else fp_discardable (f_policy f)),
      fp_group = (if bit flags 2 then fp_group inp else fp_group (f_policy f)),
      fp_priority = (if bit flags 3 then fp_priority inp else fp_priority (f_policy f))\<rparr>"
    "snd (folio_policy f flags inp out) = (if bit flags 0 then map_option (\<lambda>_. f_policy f) out else out)"
    unfolding folio_policy_def o
    by (auto simp: Let_def FOLIO_POLICY_DELIVER_def FOLIO_POLICY_DISCARDABLE_SET_def FOLIO_POLICY_GROUP_SET_def
      FOLIO_POLICY_PRIORITY_SET_def b)
qed

end
