(* ===== verification/Wait_Queue.thy ===== *)
theory Wait_Queue
  imports Folio
begin

text \<open>
  The wait queues of kernel objects, \<open>object_wait_queue_*\<close> of \<^verbatim>\<open>viengoos/object.c\<close>. The threads that wait
  on an object form a circular list that is threaded through the thread objects by object identifier:
  the folio's header page names the head, the head's \<open>prev\<close> names the tail and the tail's \<open>next\<close> names
  the object.

  Objects are denoted by their identifiers. What the code obtains with \<open>object_find\<close> is a component of
  the state: the type of every object that can be brought into memory. (Bringing it in changes the
  accounting of memory, which no function here reads.) \<open>None\<close> is a failed assertion, also one of the
  debugging function \<open>object_wait_queue_check\<close>, which runs at the start and the end of every change.
\<close>

subsection \<open>State\<close>

record wq_thread =
  wait_queue_p :: bool
  wait_queue_head :: bool
  wait_queue_tail :: bool
  wait_reason :: "28 word"
  wq_next :: oid_t
  wq_prev :: oid_t

definition THREAD_WAIT_FUTEX :: "28 word" where "THREAD_WAIT_FUTEX = 0"
definition THREAD_WAIT_DESTROY :: "28 word" where "THREAD_WAIT_DESTROY = 1"
definition THREAD_WAIT_ACTIVITY_INFO :: "28 word" where "THREAD_WAIT_ACTIVITY_INFO = 2"

record wq_state =
  objects :: "oid_t \<Rightarrow> cap_type option"
  folios :: "oid_t \<Rightarrow> folio"
  threads :: "oid_t \<Rightarrow> wq_thread"
  futex_waiters :: "oid_t list"

subsection \<open>Operations\<close>

definition objects_folio_offset :: "oid_t \<Rightarrow> int" where
  "objects_folio_offset object = uint (object mod (1 + 128)) - 1"

definition objects_folio :: "wq_state \<Rightarrow> oid_t \<Rightarrow> oid_t option" where
  "objects_folio s object =
     (let page = objects_folio_offset object; foid = object - of_int page - 1 in
      do { c_assert (objects s foid \<noteq> None); Some foid })"

definition object_wait_queue_head :: "wq_state \<Rightarrow> oid_t \<Rightarrow> oid_t option option" where
  "object_wait_queue_head s object = do {
     folio \<leftarrow> objects_folio s object;
     let i = objects_folio_offset object;
     p \<leftarrow> folio_object_wait_queue_p (folios s folio) i;
     if \<not> p then Some None
     else do {
       h \<leftarrow> folio_object_wait_queue (folios s folio) i;
       c_assert (objects s h \<noteq> None);
       c_assert (objects s h = Some cap_thread);
       c_assert (wait_queue_p (threads s h));
       c_assert (wait_queue_head (threads s h));
       Some (Some h)
     }
   }"

definition object_wait_queue_tail :: "wq_state \<Rightarrow> oid_t \<Rightarrow> oid_t option option" where
  "object_wait_queue_tail s object = do {
     h \<leftarrow> object_wait_queue_head s object;
     case h of None \<Rightarrow> Some None
     | Some head \<Rightarrow>
         if wait_queue_tail (threads s head) then Some (Some head)
         else do {
           let tail = wq_prev (threads s head);
           c_assert (objects s tail \<noteq> None);
           c_assert (objects s tail = Some cap_thread);
           c_assert (wait_queue_p (threads s tail));
           c_assert (wait_queue_tail (threads s tail));
           Some (Some tail)
         }
   }"

definition object_wait_queue_next :: "wq_state \<Rightarrow> oid_t \<Rightarrow> oid_t option option" where
  "object_wait_queue_next s t =
     (if wait_queue_tail (threads s t) then Some None
      else do {
        let next = wq_next (threads s t);
        c_assert (objects s next \<noteq> None);
        c_assert (objects s next = Some cap_thread);
        c_assert (wait_queue_p (threads s next));
        c_assert (\<not> wait_queue_head (threads s next));
        Some (Some next)
      })"

definition object_wait_queue_prev :: "wq_state \<Rightarrow> oid_t \<Rightarrow> oid_t option option" where
  "object_wait_queue_prev s t =
     (if wait_queue_head (threads s t) then Some None
      else do {
        let prev = wq_prev (threads s t);
        c_assert (objects s prev \<noteq> None);
        c_assert (objects s prev = Some cap_thread);
        c_assert (wait_queue_p (threads s prev));
        c_assert (\<not> wait_queue_tail (threads s prev));
        Some (Some prev)
      })"

text \<open>One step of the two loops of \<open>object_wait_queue_check\<close>.\<close>

definition check_step :: "wq_state \<Rightarrow> oid_t \<Rightarrow> oid_t option" where
  "check_step s cur = do {
     let t = wq_next (threads s cur);
     c_assert (objects s t \<noteq> None);
     c_assert (wait_queue_p (threads s t));
     c_assert (\<not> wait_queue_head (threads s t));
     c_assert (objects s (wq_prev (threads s t)) \<noteq> None \<and> wq_prev (threads s t) = cur);
     Some t
   }"

partial_function (option) check_to_tail :: "wq_state \<Rightarrow> oid_t \<Rightarrow> oid_t option" where
  "check_to_tail s cur =
     (if wait_queue_tail (threads s cur) then Some cur
      else check_step s cur \<bind> check_to_tail s)"

partial_function (option) check_to_thread :: "wq_state \<Rightarrow> oid_t \<Rightarrow> oid_t \<Rightarrow> unit option" where
  "check_to_thread s thread cur =
     (if cur = thread then Some ()
      else do {
        c_assert (\<not> wait_queue_tail (threads s cur));
        t \<leftarrow> check_step s cur;
        check_to_thread s thread t
      })"

definition object_wait_queue_check :: "wq_state \<Rightarrow> oid_t \<Rightarrow> unit option" where
  "object_wait_queue_check s thread =
     (if \<not> wait_queue_p (threads s thread) then Some ()
      else do {
        cur \<leftarrow> check_to_tail s thread;
        c_assert (wait_queue_tail (threads s cur));
        let ob = wq_next (threads s cur);
        c_assert (objects s ob \<noteq> None);
        folio \<leftarrow> objects_folio s ob;
        p \<leftarrow> folio_object_wait_queue_p (folios s folio) (objects_folio_offset ob);
        c_assert p;
        h \<leftarrow> object_wait_queue_head s ob;
        case h of None \<Rightarrow> Some ()
        | Some head \<Rightarrow> do {
            c_assert (wait_queue_head (threads s head));
            let tail = wq_prev (threads s head);
            c_assert (objects s tail \<noteq> None);
            c_assert (wait_queue_tail (threads s tail));
            c_assert (cur = tail);
            check_to_thread s thread head
          }
      })"

abbreviation upd_thread :: "oid_t \<Rightarrow> (wq_thread \<Rightarrow> wq_thread) \<Rightarrow> wq_state \<Rightarrow> wq_state" where
  "upd_thread t f s \<equiv> s\<lparr>threads := (threads s)(t := f (threads s t))\<rparr>"

definition set_wait_queue_p :: "wq_state \<Rightarrow> oid_t \<Rightarrow> bool \<Rightarrow> wq_state option" where
  "set_wait_queue_p s object v = do {
     folio \<leftarrow> objects_folio s object;
     f \<leftarrow> folio_object_wait_queue_p_set (folios s folio) (objects_folio_offset object) v;
     Some (s\<lparr>folios := (folios s)(folio := f)\<rparr>)
   }"

definition set_wait_queue :: "wq_state \<Rightarrow> oid_t \<Rightarrow> oid_t \<Rightarrow> wq_state option" where
  "set_wait_queue s object h = do {
     folio \<leftarrow> objects_folio s object;
     f \<leftarrow> folio_object_wait_queue_set (folios s folio) (objects_folio_offset object) h;
     Some (s\<lparr>folios := (folios s)(folio := f)\<rparr>)
   }"

definition object_wait_queue_enqueue :: "wq_state \<Rightarrow> oid_t \<Rightarrow> oid_t \<Rightarrow> wq_state option" where
  "object_wait_queue_enqueue s object thread = do {
     object_wait_queue_check s thread;
     c_assert (\<not> wait_queue_p (threads s thread));
     h \<leftarrow> object_wait_queue_head s object;
     s \<leftarrow> (case h of
         Some oldhead \<Rightarrow> do {
           c_assert (wait_queue_head (threads s oldhead));
           let s = upd_thread thread (wq_prev_update (\<lambda>_. wq_prev (threads s oldhead))) s;
           let s = upd_thread oldhead (wait_queue_head_update (\<lambda>_. False)) s;
           let s = upd_thread oldhead (wq_prev_update (\<lambda>_. thread)) s;
           let s = upd_thread thread (wq_next_update (\<lambda>_. oldhead)) s;
           Some (upd_thread thread (wait_queue_tail_update (\<lambda>_. False)) s)
         }
       | None \<Rightarrow> do {
           s \<leftarrow> set_wait_queue_p s object True;
           let s = upd_thread thread (wq_prev_update (\<lambda>_. thread)) s;
           let s = upd_thread thread (wait_queue_tail_update (\<lambda>_. True)) s;
           Some (upd_thread thread (wq_next_update (\<lambda>_. object)) s)
         });
     let s = upd_thread thread (wait_queue_p_update (\<lambda>_. True)) s;
     let s = upd_thread thread (wait_queue_head_update (\<lambda>_. True)) s;
     s \<leftarrow> set_wait_queue s object thread;
     object_wait_queue_check s thread;
     Some s
   }"

text \<open>The four cases of \<open>object_wait_queue_dequeue\<close>.\<close>

definition dequeue_tail :: "wq_state \<Rightarrow> oid_t \<Rightarrow> wq_state option" where
  "dequeue_tail s thread = do {
     let object = wq_next (threads s thread);
     c_assert (objects s object \<noteq> None);
     folio \<leftarrow> objects_folio s object;
     p \<leftarrow> folio_object_wait_queue_p (folios s folio) (objects_folio_offset object);
     c_assert p;
     t \<leftarrow> object_wait_queue_tail s object;
     c_assert (t = Some thread);
     if wait_queue_head (threads s thread) then do {
       c_assert (objects s (wq_prev (threads s thread)) \<noteq> None \<and> wq_prev (threads s thread) = thread);
       set_wait_queue_p s object False
     }
     else do {
       h \<leftarrow> object_wait_queue_head s object;
       head \<leftarrow> h;
       c_assert (objects s (wq_prev (threads s head)) \<noteq> None \<and> wq_prev (threads s head) = thread);
       let s = upd_thread head (wq_prev_update (\<lambda>_. wq_prev (threads s thread))) s;
       let prev = wq_prev (threads s thread);
       c_assert (objects s prev \<noteq> None);
       c_assert (objects s prev = Some cap_thread);
       let s = upd_thread prev (wait_queue_tail_update (\<lambda>_. True)) s;
       Some (upd_thread prev (wq_next_update (\<lambda>_. wq_next (threads s thread))) s)
     }
   }"

definition dequeue_not_tail :: "wq_state \<Rightarrow> oid_t \<Rightarrow> wq_state option" where
  "dequeue_not_tail s thread = do {
     n \<leftarrow> object_wait_queue_next s thread;
     next \<leftarrow> n;
     let prev = wq_prev (threads s thread);
     c_assert (objects s prev \<noteq> None);
     c_assert (objects s prev = Some cap_thread);
     s \<leftarrow> (if wait_queue_head (threads s thread) then do {
         let object = wq_next (threads s prev);
         c_assert (objects s object \<noteq> None);
         h \<leftarrow> object_wait_queue_head s object;
         c_assert (h = Some thread);
         let s = upd_thread next (wait_queue_head_update (\<lambda>_. True)) s;
         set_wait_queue s object (wq_next (threads s thread))
       }
       else Some (upd_thread prev (wq_next_update (\<lambda>_. wq_next (threads s thread))) s));
     Some (upd_thread next (wq_prev_update (\<lambda>_. wq_prev (threads s thread))) s)
   }"

text \<open>The list of all futex waiters exists for debugging; unlinking a thread requires that it is attached.\<close>

definition futex_waiter_list_unlink :: "wq_state \<Rightarrow> oid_t \<Rightarrow> wq_state option" where
  "futex_waiter_list_unlink s thread = do {
     c_assert (thread \<in> set (futex_waiters s));
     Some (s\<lparr>futex_waiters := remove1 thread (futex_waiters s)\<rparr>)
   }"

definition object_wait_queue_dequeue :: "wq_state \<Rightarrow> oid_t \<Rightarrow> wq_state option" where
  "object_wait_queue_dequeue s thread = do {
     c_assert (wait_queue_p (threads s thread));
     object_wait_queue_check s thread;
     s \<leftarrow> (if wait_queue_tail (threads s thread) then dequeue_tail s thread else dequeue_not_tail s thread);
     let s = upd_thread thread (wait_queue_p_update (\<lambda>_. False)) s;
     s \<leftarrow> (if wait_reason (threads s thread) = THREAD_WAIT_FUTEX then futex_waiter_list_unlink s thread else Some s);
     object_wait_queue_check s thread;
     Some s
   }"

text \<open>How \<open>folio_object_alloc\<close> wakes the threads that wait on an object it destroys. The iteration macro
  reads the successor before the body runs. The result collects the replies that are sent: the return
  code for a thread that waits for the destruction, \<open>None\<close> for the error reply to any other.\<close>

partial_function (option) wake_loop ::
  "u32 \<Rightarrow> wq_state \<Rightarrow> oid_t option \<Rightarrow> (oid_t \<times> u32 option) list \<Rightarrow> (wq_state \<times> (oid_t \<times> u32 option) list) option" where
  "wake_loop return_code s next replies = (case next of
     None \<Rightarrow> Some (s, replies)
   | Some thread \<Rightarrow> do {
       next \<leftarrow> object_wait_queue_next s thread;
       s \<leftarrow> object_wait_queue_dequeue s thread;
       wake_loop return_code s next (replies @
         [(thread, if wait_reason (threads s thread) = THREAD_WAIT_DESTROY then Some return_code else None)])
     })"

definition wake_waiters :: "u32 \<Rightarrow> wq_state \<Rightarrow> oid_t \<Rightarrow> (wq_state \<times> (oid_t \<times> u32 option) list) option" where
  "wake_waiters return_code s object = do {
     folio \<leftarrow> objects_folio s object;
     let idx = objects_folio_offset object;
     p \<leftarrow> folio_object_wait_queue_p (folios s folio) idx;
     h \<leftarrow> folio_object_wait_queue (folios s folio) idx;
     wake_loop return_code s (if p then (if objects s h \<noteq> None then Some h else None) else None) []
   }"

subsection \<open>The queue heads in the folios\<close>

definition foid :: "oid_t \<Rightarrow> oid_t" where
  "foid object = object - of_int (objects_folio_offset object) - 1"

definition winfo :: "wq_state \<Rightarrow> oid_t \<Rightarrow> bool \<times> oid_t" where
  "winfo s object = (let x = the (folio_abs (folios s (foid object)) (objects_folio_offset object)) in
     (i_waiters_p x, i_waiters x))"

definition store_ok :: "wq_state \<Rightarrow> bool" where
  "store_ok s \<longleftrightarrow> (\<forall>f. folio_wf (folios s f)) \<and> (\<forall>ob. objects s ob \<noteq> None \<longrightarrow> objects s (foid ob) \<noteq> None)"

lemma offset_range: "objects_folio_offset ob \<ge> -1" "objects_folio_offset ob < FOLIO_OBJECTS"
proof -
  have "uint (ob mod 129) = uint ob mod 129" by (simp add: uint_mod_distrib)
  moreover have "uint ob mod 129 < 129" by simp
  ultimately show "objects_folio_offset ob < FOLIO_OBJECTS"
    by (simp add: objects_folio_offset_def FOLIO_OBJECTS_def)
  have "0 \<le> uint (ob mod (1 + 128))" by simp
  then show "objects_folio_offset ob \<ge> -1" unfolding objects_folio_offset_def by linarith
qed

lemma foid_inj: "foid a = foid b \<Longrightarrow> objects_folio_offset a = objects_folio_offset b \<Longrightarrow> a = b"
  by (simp add: foid_def)

lemma offset_nat:
  obtains k where "objects_folio_offset ob = int k - 1" "k < 129"
  using offset_range by (rule folio_index)

lemma objects_folio_eq: "store_ok s \<Longrightarrow> objects s ob \<noteq> None \<Longrightarrow> objects_folio s ob = Some (foid ob)"
  by (simp add: objects_folio_def Let_def store_ok_def flip: foid_def)

lemma folio_abs_offset: "\<exists>x. folio_abs f (objects_folio_offset ob) = Some x"
  using offset_range [of ob] by (simp add: folio_abs_def)

lemma wait_queue_get:
  assumes "store_ok s"
  shows "folio_object_wait_queue_p (folios s (foid ob)) (objects_folio_offset ob) = Some (fst (winfo s ob))"
    "folio_object_wait_queue (folios s (foid ob)) (objects_folio_offset ob) = Some (snd (winfo s ob))"
  using assms folio_abs_offset [of "folios s (foid ob)" ob]
  by (auto simp: folio_getters store_ok_def winfo_def Let_def)

lemma store_update:
  assumes ok: "store_ok s" and u: "updates (folios s (foid ob)) (objects_folio_offset ob) g r"
    and g: "\<And>x. (i_waiters_p (g x), i_waiters (g x)) = h (i_waiters_p x, i_waiters x)"
  shows "\<exists>F. r \<bind> (\<lambda>f. Some (s\<lparr>folios := (folios s)(foid ob := f)\<rparr>)) = Some (s\<lparr>folios := F\<rparr>) \<and>
    store_ok (s\<lparr>folios := F\<rparr>) \<and> winfo (s\<lparr>folios := F\<rparr>) = (winfo s)(ob := h (winfo s ob))"
proof -
  obtain f' where f': "r = Some f'" "folio_wf f'"
      "folio_abs f' = (folio_abs (folios s (foid ob)))(objects_folio_offset ob :=
         map_option g (folio_abs (folios s (foid ob)) (objects_folio_offset ob)))"
    using u by (auto simp: updates_def)
  define F where "F = (folios s)(foid ob := f')"
  have "winfo (s\<lparr>folios := F\<rparr>) b = ((winfo s)(ob := h (winfo s ob))) b" for b
  proof (cases "b = ob")
    case True
    then show ?thesis
      using folio_abs_offset [of "folios s (foid ob)" ob] g by (auto simp: winfo_def F_def f'(3) Let_def)
  next
    case False
    then have "foid b = foid ob \<Longrightarrow> objects_folio_offset b \<noteq> objects_folio_offset ob" using foid_inj by blast
    then show ?thesis using False by (auto simp: winfo_def F_def f'(3) Let_def)
  qed
  moreover have "store_ok (s\<lparr>folios := F\<rparr>)" using ok f'(2) by (simp add: store_ok_def F_def)
  ultimately show ?thesis using f'(1) by (auto simp: F_def fun_eq_iff)
qed

lemma set_wait_queue_p_eq:
  assumes "store_ok s" "objects s ob \<noteq> None"
  shows "\<exists>F. set_wait_queue_p s ob v = Some (s\<lparr>folios := F\<rparr>) \<and> store_ok (s\<lparr>folios := F\<rparr>) \<and>
    winfo (s\<lparr>folios := F\<rparr>) = (winfo s)(ob := (v, snd (winfo s ob)))"
proof -
  obtain k where k: "objects_folio_offset ob = int k - 1" "k < 129" by (rule offset_nat)
  have "folio_wf (folios s (foid ob))" using assms(1) by (simp add: store_ok_def)
  note u = folio_setters(2) [OF this k(2), of v, folded k(1)]
  show ?thesis
    unfolding set_wait_queue_p_def objects_folio_eq [OF assms] bind.bind_lunit
    by (rule store_update [OF assms(1) u, where h = "\<lambda>w. (v, snd w)", simplified]) 
qed

lemma set_wait_queue_eq:
  assumes "store_ok s" "objects s ob \<noteq> None"
  shows "\<exists>F. set_wait_queue s ob h = Some (s\<lparr>folios := F\<rparr>) \<and> store_ok (s\<lparr>folios := F\<rparr>) \<and>
    winfo (s\<lparr>folios := F\<rparr>) = (winfo s)(ob := (fst (winfo s ob), h))"
proof -
  obtain k where k: "objects_folio_offset ob = int k - 1" "k < 129" by (rule offset_nat)
  have "folio_wf (folios s (foid ob))" using assms(1) by (simp add: store_ok_def)
  note u = folio_setters(3) [OF this k(2), of h, folded k(1)]
  show ?thesis
    unfolding set_wait_queue_def objects_folio_eq [OF assms] bind.bind_lunit
    by (rule store_update [OF assms(1) u, where h = "\<lambda>w. (fst w, h)", simplified]) 
qed

subsection \<open>Queues as lists\<close>

text \<open>How a thread between \<open>a\<close> and \<open>b\<close> in the queue \<open>q\<close> of the object \<open>ob\<close> is linked.\<close>

definition linked :: "oid_t \<Rightarrow> oid_t list \<Rightarrow> oid_t list \<Rightarrow> oid_t list \<Rightarrow> wq_thread \<Rightarrow> bool" where
  "linked ob q a b t \<longleftrightarrow> wait_queue_p t \<and> (wait_queue_head t \<longleftrightarrow> a = []) \<and> (wait_queue_tail t \<longleftrightarrow> b = []) \<and>
     wq_next t = hd (b @ [ob]) \<and> wq_prev t = last (q @ a)"

definition queue_ok :: "wq_state \<Rightarrow> oid_t \<Rightarrow> oid_t list \<Rightarrow> bool" where
  "queue_ok s ob q \<longleftrightarrow> distinct q \<and> (q \<noteq> [] \<longrightarrow> objects s ob \<noteq> None) \<and>
     (\<forall>t \<in> set q. objects s t = Some cap_thread) \<and>
     (\<forall>a t b. q = a @ t # b \<longrightarrow> linked ob q a b (threads s t)) \<and>
     (objects s ob \<noteq> None \<longrightarrow> fst (winfo s ob) = (q \<noteq> []) \<and> (q \<noteq> [] \<longrightarrow> snd (winfo s ob) = hd q))"

text \<open>The wait queues of all objects: \<open>qs ob\<close> lists the threads waiting on \<open>ob\<close>.\<close>

definition wait_queues_rep :: "wq_state \<Rightarrow> (oid_t \<Rightarrow> oid_t list) \<Rightarrow> bool" where
  "wait_queues_rep s qs \<longleftrightarrow> store_ok s \<and> (\<forall>ob. queue_ok s ob (qs ob)) \<and>
     (\<forall>ob ob' t. t \<in> set (qs ob) \<longrightarrow> t \<in> set (qs ob') \<longrightarrow> ob = ob') \<and>
     (\<forall>t. objects s t = Some cap_thread \<longrightarrow> wait_queue_p (threads s t) \<longrightarrow> (\<exists>ob. t \<in> set (qs ob)))"

lemma queue_okD:
  assumes "queue_ok s ob (a @ t # b)"
  shows "linked ob (a @ t # b) a b (threads s t)" "objects s t = Some cap_thread" "objects s ob \<noteq> None"
    "fst (winfo s ob)" "snd (winfo s ob) = hd (a @ t # b)" "distinct (a @ t # b)"
  using assms unfolding queue_ok_def by simp_all

lemma rep_queue: "wait_queues_rep s qs \<Longrightarrow> queue_ok s ob (qs ob)" "wait_queues_rep s qs \<Longrightarrow> store_ok s"
  by (simp_all add: wait_queues_rep_def)

lemma head_ok:
  assumes rep: "wait_queues_rep s qs" and ob: "objects s ob \<noteq> None"
  shows "object_wait_queue_head s ob = Some (if qs ob = [] then None else Some (hd (qs ob)))"
proof (cases "qs ob")
  case Nil
  then have "\<not> fst (winfo s ob)" using rep_queue(1) [OF rep, of ob] ob by (simp add: queue_ok_def)
  then show ?thesis using Nil
    by (simp add: object_wait_queue_head_def objects_folio_eq [OF rep_queue(2) [OF rep] ob] wait_queue_get [OF rep_queue(2) [OF rep]])
next
  case (Cons t b)
  then have q: "queue_ok s ob ([] @ t # b)" using rep_queue(1) [OF rep, of ob] by simp
  show ?thesis using Cons queue_okD [OF q]
    by (simp add: object_wait_queue_head_def objects_folio_eq [OF rep_queue(2) [OF rep] ob]
      wait_queue_get [OF rep_queue(2) [OF rep]] linked_def)
qed

lemma tail_ok:
  assumes rep: "wait_queues_rep s qs" and ob: "objects s ob \<noteq> None"
  shows "object_wait_queue_tail s ob = Some (if qs ob = [] then None else Some (last (qs ob)))"
proof (cases "qs ob")
  case Nil
  then show ?thesis by (simp add: object_wait_queue_tail_def head_ok [OF rep ob])
next
  case (Cons t b)
  then have q: "queue_ok s ob ([] @ t # b)" using rep_queue(1) [OF rep, of ob] by simp
  have "butlast (qs ob) @ [last (qs ob)] = qs ob" using Cons by (metis append_butlast_last_id list.distinct(1))
  then have l: "queue_ok s ob (butlast (qs ob) @ last (qs ob) # [])" using rep_queue(1) [OF rep, of ob] by simp
  show ?thesis using Cons queue_okD [OF q] queue_okD [OF l]
    by (auto simp: object_wait_queue_tail_def head_ok [OF rep ob] linked_def)
qed

lemma next_ok:
  assumes q: "queue_ok s ob (a @ t # b)"
  shows "object_wait_queue_next s t = Some (if b = [] then None else Some (hd b))"
proof (cases b)
  case Nil
  then show ?thesis using queue_okD(1) [OF q] by (simp add: object_wait_queue_next_def linked_def)
next
  case (Cons u c)
  then have q': "queue_ok s ob ((a @ [t]) @ u # c)" using q by simp
  show ?thesis using Cons queue_okD [OF q] queue_okD [OF q'] by (simp add: object_wait_queue_next_def linked_def)
qed

lemma prev_ok:
  assumes q: "queue_ok s ob (a @ t # b)"
  shows "object_wait_queue_prev s t = Some (if a = [] then None else Some (last a))"
proof (cases a rule: rev_cases)
  case Nil
  then show ?thesis using queue_okD(1) [OF q] by (simp add: object_wait_queue_prev_def linked_def)
next
  case (snoc c u)
  then have q': "queue_ok s ob (c @ u # t # b)" using q by simp
  show ?thesis using snoc queue_okD [OF q] queue_okD [OF q'] by (simp add: object_wait_queue_prev_def linked_def)
qed

subsection \<open>The consistency check passes\<close>

lemma check_step_ok:
  assumes q: "queue_ok s ob (a @ t # u # c)"
  shows "check_step s t = Some u"
proof -
  have q': "queue_ok s ob ((a @ [t]) @ u # c)" using q by simp
  show ?thesis using queue_okD [OF q] queue_okD [OF q'] by (simp add: check_step_def linked_def)
qed

lemma check_to_tail_ok:
  "queue_ok s ob (a @ t # b) \<Longrightarrow> check_to_tail s t = Some (last (t # b))"
proof (induction b arbitrary: a t)
  case Nil
  then have "wait_queue_tail (threads s t)" using queue_okD(1) [OF Nil] by (simp add: linked_def)
  then show ?case by (simp add: check_to_tail.simps)
next
  case (Cons u b)
  have "\<not> wait_queue_tail (threads s t)" using queue_okD(1) [OF Cons.prems] by (simp add: linked_def)
  moreover have "check_to_tail s u = Some (last (u # b))" using Cons.IH [of "a @ [t]" u] Cons.prems by simp
  ultimately show ?case using check_step_ok [OF Cons.prems] by (simp add: check_to_tail.simps [of s t])
qed

lemma check_to_thread_ok:
  "queue_ok s ob (a @ m @ t # b) \<Longrightarrow> check_to_thread s t (hd (m @ [t])) = Some ()"
proof (induction m arbitrary: a)
  case Nil
  then show ?case by (simp add: check_to_thread.simps)
next
  case (Cons u m)
  have q: "queue_ok s ob (a @ u # m @ t # b)" using Cons.prems by simp
  obtain v c where v: "m @ t # b = v # c" by (cases m) auto
  have hv: "v = hd (m @ [t])" using v by (cases m) auto
  have "\<not> wait_queue_tail (threads s u)" using queue_okD(1) [OF q] by (simp add: linked_def)
  moreover have "check_step s u = Some v" using check_step_ok [of s ob a u v c] q v by simp
  moreover have "check_to_thread s t v = Some ()" using Cons.IH [of "a @ [u]"] Cons.prems unfolding hv by simp
  ultimately show ?case by (simp add: check_to_thread.simps [of s t u])
qed

lemma check_ok:
  assumes rep: "wait_queues_rep s qs" and t: "t \<in> set (qs ob)"
  shows "object_wait_queue_check s t = Some ()"
proof -
  obtain a b where q: "qs ob = a @ t # b" using t by (meson split_list)
  have qo: "queue_ok s ob (a @ t # b)" using rep_queue(1) [OF rep, of ob] q by simp
  define l where "l = last (t # b)"
  have ab: "a @ t # b = (a @ butlast (t # b)) @ l # []" unfolding l_def by simp
  have qo': "queue_ok s ob ((a @ butlast (t # b)) @ l # [])" using qo ab by simp
  note D = queue_okD [OF qo] and L = queue_okD [OF qo']
  have hd: "hd (a @ t # b) = hd (a @ [t])" by (cases a) auto
  have ob: "objects s ob \<noteq> None" by (rule D(3))
  obtain h c where h: "a @ t # b = h # c" by (cases a) auto
  have qh: "queue_ok s ob ([] @ h # c)" using qo h by simp
  have "last (h # c) = l" using h unfolding l_def by (metis last_appendR list.distinct(1))
  then have "wq_prev (threads s h) = l" "wait_queue_head (threads s h)"
    using queue_okD(1) [OF qh] by (simp_all add: linked_def)
  moreover have "check_to_thread s t h = Some ()"
    using check_to_thread_ok [of s ob "[]" a t b] qo h hd by simp
  moreover have "object_wait_queue_head s ob = Some (Some h)" using head_ok [OF rep ob] q h by simp
  moreover have "wq_next (threads s l) = ob" "wait_queue_tail (threads s l)" "objects s l \<noteq> None"
    using L by (auto simp: linked_def)
  ultimately show ?thesis
    using D L check_to_tail_ok [OF qo, folded l_def] objects_folio_eq [OF rep_queue(2) [OF rep] ob]
      wait_queue_get(1) [OF rep_queue(2) [OF rep], of ob] ob
    by (simp add: object_wait_queue_check_def linked_def)
qed

lemma check_unqueued: "\<not> wait_queue_p (threads s t) \<Longrightarrow> object_wait_queue_check s t = Some ()"
  by (simp add: object_wait_queue_check_def)

subsection \<open>Changing one queue\<close>

lemma rep_disjoint: "wait_queues_rep s qs \<Longrightarrow> t \<in> set (qs b) \<Longrightarrow> t \<in> set (qs c) \<Longrightarrow> b = c"
  by (simp add: wait_queues_rep_def)

lemma rep_update:
  assumes rep: "wait_queues_rep s qs" and same: "objects s' = objects s" "store_ok s'" "objects s ob \<noteq> None"
    and w: "\<And>b. b \<noteq> ob \<Longrightarrow> winfo s' b = winfo s b" "fst (winfo s' ob) \<longleftrightarrow> q \<noteq> []" "q \<noteq> [] \<Longrightarrow> snd (winfo s' ob) = hd q"
    and frame: "\<And>x. x \<notin> set q \<Longrightarrow> x \<notin> set (qs ob) \<Longrightarrow> threads s' x = threads s x"
    and links: "\<And>a t b. q = a @ t # b \<Longrightarrow> linked ob q a b (threads s' t)"
    and q: "distinct q" "\<And>t. t \<in> set q \<Longrightarrow> objects s t = Some cap_thread"
    and others: "\<And>t b. t \<in> set q \<Longrightarrow> b \<noteq> ob \<Longrightarrow> t \<notin> set (qs b)"
    and gone: "\<And>t. t \<in> set (qs ob) \<Longrightarrow> t \<notin> set q \<Longrightarrow> \<not> wait_queue_p (threads s' t)"
  shows "wait_queues_rep s' (qs(ob := q))"
proof -
  note dis = rep_disjoint [OF rep]
  have "queue_ok s' b ((qs(ob := q)) b)" for b
  proof (cases "b = ob")
    case True
    then show ?thesis using same w(2,3) links q by (simp add: queue_ok_def)
  next
    case False
    have "threads s' t = threads s t" if "t \<in> set (qs b)" for t
      using that False others dis frame by metis
    then show ?thesis using False rep_queue(1) [OF rep, of b] same w(1) [OF False] by (auto simp: queue_ok_def)
  qed
  moreover have "\<exists>b. t \<in> set ((qs(ob := q)) b)" if t: "objects s' t = Some cap_thread" "wait_queue_p (threads s' t)" for t
  proof (cases "t \<in> set q \<or> t \<in> set (qs ob)")
    case True
    then show ?thesis using gone t(2) by (metis fun_upd_same)
  next
    case False
    then have "wait_queue_p (threads s t)" "objects s t = Some cap_thread" using frame t same by auto
    then obtain b where "t \<in> set (qs b)" using rep by (auto simp: wait_queues_rep_def)
    then show ?thesis using False by (metis fun_upd_other)
  qed
  moreover have "t \<in> set ((qs(ob := q)) b) \<Longrightarrow> t \<in> set ((qs(ob := q)) c) \<Longrightarrow> b = c" for t b c
    using others [of t] dis [of t b c] by (cases "b = ob"; cases "c = ob") auto
  ultimately show ?thesis using same(2) unfolding wait_queues_rep_def by blast
qed

lemma enqueue_ok:
  assumes rep: "wait_queues_rep s qs" and ob: "objects s ob \<noteq> None"
    and t: "objects s t = Some cap_thread" "\<not> wait_queue_p (threads s t)"
  shows "\<exists>s'. object_wait_queue_enqueue s ob t = Some s' \<and> wait_queues_rep s' (qs(ob := t # qs ob)) \<and>
    objects s' = objects s \<and> futex_waiters s' = futex_waiters s \<and>
    (\<forall>x. wait_reason (threads s' x) = wait_reason (threads s x))"
proof -
  let ?Q = "qs(ob := t # qs ob)"
  have nin: "t \<notin> set (qs b)" for b
  proof
    assume "t \<in> set (qs b)"
    then obtain a c where "qs b = a @ t # c" by (meson split_list)
    then show False using rep_queue(1) [OF rep, of b] queue_okD(1) [of s b a t c] t(2) by (simp add: linked_def)
  qed
  note q = rep_queue(1) [OF rep, of ob]
  have st: "store_ok s" by (rule rep_queue(2) [OF rep])
  have fin: ?thesis
    if s1: "objects s1 = objects s" "futex_waiters s1 = futex_waiters s" "store_ok s1"
      "\<And>x. wait_reason (threads s1 x) = wait_reason (threads s x)"
      and w: "\<And>b. b \<noteq> ob \<Longrightarrow> winfo s1 b = winfo s b" "fst (winfo s1 ob)"
      and fr: "\<And>x. x \<noteq> t \<Longrightarrow> x \<notin> set (qs ob) \<Longrightarrow> threads s1 x = threads s x"
      and li: "\<And>a u b. t # qs ob = a @ u # b \<Longrightarrow> linked ob (t # qs ob) a b (threads s1 u)"
      and e: "object_wait_queue_enqueue s ob t = do {
        s2 \<leftarrow> set_wait_queue s1 ob t; object_wait_queue_check s2 t; Some s2 }" for s1
  proof -
    obtain F where F: "set_wait_queue s1 ob t = Some (s1\<lparr>folios := F\<rparr>)" "store_ok (s1\<lparr>folios := F\<rparr>)"
      "winfo (s1\<lparr>folios := F\<rparr>) = (winfo s1)(ob := (fst (winfo s1 ob), t))"
      using set_wait_queue_eq [OF s1(3), of ob t] s1(1) ob by auto
    have "wait_queues_rep (s1\<lparr>folios := F\<rparr>) ?Q"
      by (rule rep_update [OF rep _ F(2) ob]) (use s1 w fr li q nin t F(3) in \<open>auto simp: queue_ok_def dest: rep_disjoint [OF rep]\<close>)
    moreover from this have "object_wait_queue_check (s1\<lparr>folios := F\<rparr>) t = Some ()" by (rule check_ok [where ob = ob]) simp
    ultimately show ?thesis using e F(1) s1 by simp
  qed
  show ?thesis
  proof (cases "qs ob")
    case Nil
    obtain F where F: "set_wait_queue_p s ob True = Some (s\<lparr>folios := F\<rparr>)" "store_ok (s\<lparr>folios := F\<rparr>)"
      "winfo (s\<lparr>folios := F\<rparr>) = (winfo s)(ob := (True, snd (winfo s ob)))"
      using set_wait_queue_p_eq [OF st ob] by blast
    define s1 where "s1 = s\<lparr>folios := F, threads := (threads s)(t := (threads s t)\<lparr>wq_prev := t, wait_queue_tail := True,
      wq_next := ob, wait_queue_p := True, wait_queue_head := True\<rparr>)\<rparr>"
    have i: "winfo s1 = winfo (s\<lparr>folios := F\<rparr>)" "store_ok s1" using F(2) by (simp_all add: s1_def winfo_def store_ok_def fun_eq_iff)
    show ?thesis
    proof (rule fin [of s1])
      show "linked ob (t # qs ob) a b (threads s1 u)" if "t # qs ob = a @ u # b" for a u b
        using that Nil by (auto simp: Cons_eq_append_conv s1_def linked_def)
      show "object_wait_queue_enqueue s ob t = do { s2 \<leftarrow> set_wait_queue s1 ob t; object_wait_queue_check s2 t; Some s2 }"
        using Nil F(1) head_ok [OF rep ob] check_unqueued [OF t(2)] t(2)
        by (simp add: object_wait_queue_enqueue_def s1_def)
    qed (use i F(3) in \<open>auto simp: s1_def\<close>)
  next
    case (Cons h c)
    have qo: "queue_ok s ob ([] @ h # c)" using q Cons by simp
    have th: "t \<noteq> h" using nin [of ob] Cons by auto
    define s1 where "s1 = s\<lparr>threads := (threads s)(t := (threads s t)\<lparr>wq_prev := wq_prev (threads s h), wq_next := h,
      wait_queue_tail := False, wait_queue_p := True, wait_queue_head := True\<rparr>,
      h := (threads s h)\<lparr>wait_queue_head := False, wq_prev := t\<rparr>)\<rparr>"
    have i: "winfo s1 = winfo s" "store_ok s1" using st by (simp_all add: s1_def winfo_def store_ok_def fun_eq_iff)
    show ?thesis
    proof (rule fin [of s1])
      show "linked ob (t # qs ob) a b (threads s1 u)" if sp: "t # qs ob = a @ u # b" for a u b
      proof (cases a)
        case Nil
        then have "u = t" "b = h # c" using sp \<open>qs ob = h # c\<close> by simp_all
        then show ?thesis using \<open>qs ob = h # c\<close> Nil th queue_okD(1) [OF qo] by (simp add: s1_def linked_def)
      next
        case (Cons _ a')
        then have sp': "a = t # a'" "qs ob = a' @ u # b" using sp by auto
        then have l: "linked ob (qs ob) a' b (threads s u)" using q by (auto simp: queue_ok_def)
        have ut: "u \<noteq> t" using nin [of ob] sp' by auto
        have uh: "u = h \<longleftrightarrow> a' = []" using sp'(2) \<open>qs ob = h # c\<close> queue_okD(6) [OF qo] by (cases a') auto
        show ?thesis using l ut uh th unfolding sp'(1) by (auto simp: s1_def linked_def)
      qed
      show "object_wait_queue_enqueue s ob t = do { s2 \<leftarrow> set_wait_queue s1 ob t; object_wait_queue_check s2 t; Some s2 }"
        using Cons th queue_okD(1) [OF qo] head_ok [OF rep ob] check_unqueued [OF t(2)] t(2)
        by (simp add: object_wait_queue_enqueue_def s1_def linked_def fun_upd_twist)
    qed (use i queue_okD(4) [OF qo] Cons in \<open>auto simp: s1_def\<close>)
  qed
qed

text \<open>Unlinking a thread between \<open>a\<close> and \<open>b\<close>.\<close>

definition relink :: "oid_t \<Rightarrow> oid_t list \<Rightarrow> oid_t list \<Rightarrow> oid_t \<Rightarrow> wq_thread \<Rightarrow> wq_thread" where
  "relink ob a b u r = r\<lparr>
     wq_next := if a \<noteq> [] \<and> u = last a then hd (b @ [ob]) else wq_next r,
     wait_queue_tail := (wait_queue_tail r \<or> a \<noteq> [] \<and> u = last a \<and> b = []),
     wait_queue_head := (wait_queue_head r \<or> a = [] \<and> b \<noteq> [] \<and> u = hd b),
     wq_prev := if b \<noteq> [] \<and> u = hd b then last (b @ a) else if b = [] \<and> a \<noteq> [] \<and> u = hd a then last a else wq_prev r\<rparr>"

lemma linked_relink:
  assumes d: "distinct (a @ t # b)"
    and l: "\<And>c u d. a @ t # b = c @ u # d \<Longrightarrow> linked ob (a @ t # b) c d (T u)"
    and sp: "a @ b = c @ u # d"
  shows "linked ob (a @ b) c d (relink ob a b u (T u))"
proof -
  consider (l) e where "a = c @ u # e" "d = e @ b" | (r) e where "b = e @ u # d" "c = a @ e"
    using sp by (auto simp: append_eq_append_conv2 Cons_eq_append_conv append_eq_Cons_conv)
  then show ?thesis
  proof cases
    case l
    have L: "linked ob (a @ t # b) c (e @ t # b) (T u)" by (rule assms(2)) (simp add: l)
    have "u = last a \<longleftrightarrow> e = []" using d l(1) by (cases e rule: rev_cases) auto
    moreover have "u = hd a \<longleftrightarrow> c = []" using d l(1) by (cases c) auto
    moreover have "b = [] \<or> u \<noteq> hd b" using d l(1) by (cases b) auto
    ultimately show ?thesis using L unfolding linked_def relink_def l by (cases "b = []"; cases "e = []"; cases "c = []") auto
  next
    case r
    have L: "linked ob (a @ t # b) (a @ t # e) d (T u)" by (rule assms(2)) (simp add: r)
    have "u = hd b \<longleftrightarrow> e = []" using d r(1) by (cases e) auto
    moreover have "a = [] \<or> u \<noteq> last a" using d r(1) by (cases a rule: rev_cases) auto
    ultimately show ?thesis using L unfolding linked_def relink_def r by (cases "a = []"; cases "e = []") auto
  qed
qed

definition unlinked :: "wq_state \<Rightarrow> oid_t \<Rightarrow> oid_t list \<Rightarrow> oid_t \<Rightarrow> oid_t list \<Rightarrow> wq_state option \<Rightarrow> bool" where
  "unlinked s ob a t b r \<longleftrightarrow> (\<exists>s'. r = Some s' \<and> objects s' = objects s \<and> futex_waiters s' = futex_waiters s \<and> store_ok s' \<and>
     (\<forall>c. c \<noteq> ob \<longrightarrow> winfo s' c = winfo s c) \<and> (fst (winfo s' ob) \<longleftrightarrow> a @ b \<noteq> []) \<and> (a @ b \<noteq> [] \<longrightarrow> snd (winfo s' ob) = hd (a @ b)) \<and>
     (\<forall>u \<in> set (a @ b). threads s' u = relink ob a b u (threads s u)) \<and>
     (\<forall>u. u \<notin> set (a @ b) \<longrightarrow> threads s' u = threads s u))"

lemma store_threads [simp]:
  "store_ok (s\<lparr>threads := T\<rparr>) = store_ok s" "winfo (s\<lparr>threads := T\<rparr>) = winfo s"
  by (simp_all add: store_ok_def winfo_def fun_eq_iff)

lemma store_threads_folios [simp]:
  "store_ok (s\<lparr>folios := F, threads := T\<rparr>) = store_ok (s\<lparr>folios := F\<rparr>)"
  "winfo (s\<lparr>folios := F, threads := T\<rparr>) = winfo (s\<lparr>folios := F\<rparr>)"
  by (simp_all add: store_ok_def winfo_def fun_eq_iff)

lemma dequeue_only:
  assumes rep: "wait_queues_rep s qs" and q: "qs ob = [t]"
  shows "unlinked s ob [] t [] (dequeue_tail s t)"
proof -
  have qo: "queue_ok s ob ([] @ t # [])" using rep_queue(1) [OF rep, of ob] q by simp
  note D = queue_okD [OF qo] and st = rep_queue(2) [OF rep]
  obtain F where F: "set_wait_queue_p s ob False = Some (s\<lparr>folios := F\<rparr>)" "store_ok (s\<lparr>folios := F\<rparr>)"
    "winfo (s\<lparr>folios := F\<rparr>) = (winfo s)(ob := (False, snd (winfo s ob)))"
    using set_wait_queue_p_eq [OF st D(3)] by blast
  have "dequeue_tail s t = Some (s\<lparr>folios := F\<rparr>)"
    using D F(1) q tail_ok [OF rep D(3)] objects_folio_eq [OF st D(3)] wait_queue_get(1) [OF st, of ob]
    by (simp add: dequeue_tail_def linked_def)
  then show ?thesis using F st by (simp add: unlinked_def)
qed

lemma dequeue_last:
  assumes rep: "wait_queues_rep s qs" and q: "qs ob = a @ [t]" and a: "a \<noteq> []"
  shows "unlinked s ob a t [] (dequeue_tail s t)"
proof -
  have qo: "queue_ok s ob (a @ t # [])" using rep_queue(1) [OF rep, of ob] q by simp
  obtain h c where h: "a = h # c" using a by (cases a) auto
  obtain e p where p: "a = e @ [p]" using a by (cases a rule: rev_cases) auto
  have qh: "queue_ok s ob ([] @ h # c @ [t])" using qo h by simp
  have qp: "queue_ok s ob (e @ p # [t])" using qo p by simp
  note D = queue_okD [OF qo] and H = queue_okD [OF qh] and P = queue_okD [OF qp] and st = rep_queue(2) [OF rep]
  have lp: "last a = p" using p by simp
  have ha: "hd a = h" using h by simp
  have ne: "t \<noteq> h" "t \<noteq> p" using D(6) h P(6) by auto
  define s' where "s' = s\<lparr>threads := (threads s)(h := (threads s h)\<lparr>wq_prev := p\<rparr>,
    p := (if p = h then (threads s p)\<lparr>wq_prev := p\<rparr> else threads s p)\<lparr>wait_queue_tail := True, wq_next := ob\<rparr>)\<rparr>"
  have "dequeue_tail s t = Some s'"
    using D(1-5) H(1,2) P(1,2) q lp ha a ne tail_ok [OF rep D(3)] head_ok [OF rep D(3)] objects_folio_eq [OF st D(3)]
      wait_queue_get(1) [OF st, of ob]
    by (auto simp: dequeue_tail_def linked_def s'_def)
  moreover have "threads s' u = relink ob a [] u (threads s u)" if "u \<in> set a" for u
    using that lp ha a ne by (auto simp: s'_def relink_def)
  moreover have "threads s' u = threads s u" if "u \<notin> set a" for u
    using that lp ha a hd_in_set [OF a] last_in_set [OF a] by (auto simp: s'_def)
  ultimately show ?thesis using st D(4,5) a by (auto simp: unlinked_def s'_def)
qed

lemma dequeue_first:
  assumes rep: "wait_queues_rep s qs" and q: "qs ob = t # b" and b: "b \<noteq> []"
  shows "unlinked s ob [] t b (dequeue_not_tail s t)"
proof -
  have qo: "queue_ok s ob ([] @ t # b)" using rep_queue(1) [OF rep, of ob] q by simp
  obtain n c where n: "b = n # c" using b by (cases b) auto
  obtain e l where l: "b = e @ [l]" using b by (cases b rule: rev_cases) auto
  have qn: "queue_ok s ob ([t] @ n # c)" and ql: "queue_ok s ob ((t # e) @ l # [])" using qo n l by auto
  note D = queue_okD [OF qo] and N = queue_okD [OF qn] and L = queue_okD [OF ql] and st = rep_queue(2) [OF rep]
  have ne: "t \<noteq> n" "t \<noteq> l" using N(6) L(6) by auto
  have hl: "hd b = n" using n by simp
  have ll: "last b = l" using l by simp
  define T where "T = (threads s)(n := (threads s n)\<lparr>wait_queue_head := True\<rparr>)"
  obtain F where F: "set_wait_queue (s\<lparr>threads := T\<rparr>) ob n = Some (s\<lparr>threads := T, folios := F\<rparr>)"
    "store_ok (s\<lparr>threads := T, folios := F\<rparr>)" "winfo (s\<lparr>threads := T, folios := F\<rparr>) = (winfo s)(ob := (fst (winfo s ob), n))"
    using set_wait_queue_eq [of "s\<lparr>threads := T\<rparr>" ob n] st D(3) by auto
  define s' where "s' = s\<lparr>threads := T(n := (T n)\<lparr>wq_prev := l\<rparr>), folios := F\<rparr>"
  have "dequeue_not_tail s t = Some s'"
    using D(1-5) L(1,2) hl ll b ne next_ok [OF qo] head_ok [OF rep D(3)] q F(1)
    by (simp add: dequeue_not_tail_def linked_def s'_def T_def)
  moreover have "threads s' u = relink ob [] b u (threads s u)" if "u \<in> set b" for u
    using that hl ll b by (auto simp: s'_def T_def relink_def)
  moreover have "threads s' u = threads s u" if "u \<notin> set b" for u
    using that n by (auto simp: s'_def T_def)
  moreover have "store_ok s'" "winfo s' = (winfo s)(ob := (fst (winfo s ob), n))"
    using F(2,3) by (simp_all add: s'_def store_ok_def winfo_def fun_eq_iff)
  ultimately show ?thesis using D(4) b hl by (auto simp: unlinked_def s'_def)
qed

lemma dequeue_middle:
  assumes rep: "wait_queues_rep s qs" and q: "qs ob = a @ t # b" and ab: "a \<noteq> []" "b \<noteq> []"
  shows "unlinked s ob a t b (dequeue_not_tail s t)"
proof -
  have qo: "queue_ok s ob (a @ t # b)" using rep_queue(1) [OF rep, of ob] q by simp
  obtain n c where n: "b = n # c" using ab by (cases b) auto
  obtain e p where p: "a = e @ [p]" using ab by (cases a rule: rev_cases) auto
  have qp: "queue_ok s ob (e @ p # t # b)" using qo p by auto
  note D = queue_okD [OF qo] and P = queue_okD [OF qp] and st = rep_queue(2) [OF rep]
  have ne: "t \<noteq> n" "t \<noteq> p" "p \<noteq> n" using D(6) n p by auto
  have hl: "hd b = n" "last a = p" using n p by simp_all
  define s' where "s' = s\<lparr>threads := (threads s)(p := (threads s p)\<lparr>wq_next := n\<rparr>, n := (threads s n)\<lparr>wq_prev := p\<rparr>)\<rparr>"
  have "dequeue_not_tail s t = Some s'"
    using D(1-5) P(2) hl ab ne next_ok [OF qo] by (simp add: dequeue_not_tail_def linked_def s'_def)
  moreover have "threads s' u = relink ob a b u (threads s u)" if "u \<in> set (a @ b)" for u
    using that hl ab ne by (auto simp: s'_def relink_def)
  moreover have "threads s' u = threads s u" if "u \<notin> set (a @ b)" for u
    using that n p by (auto simp: s'_def)
  ultimately show ?thesis using st D(4,5) ab by (auto simp: unlinked_def s'_def)
qed

text \<open>Every thread that waits for a futex is on the debugging list of futex waiters.\<close>

definition futex_ok :: "wq_state \<Rightarrow> (oid_t \<Rightarrow> oid_t list) \<Rightarrow> bool" where
  "futex_ok s qs \<longleftrightarrow> (\<forall>ob. \<forall>t \<in> set (qs ob). wait_reason (threads s t) = THREAD_WAIT_FUTEX \<longrightarrow> t \<in> set (futex_waiters s))"

lemma unlink_ok:
  assumes "wait_queues_rep s qs" "qs ob = a @ t # b"
  shows "unlinked s ob a t b (if b = [] then dequeue_tail s t else dequeue_not_tail s t)"
  using assms dequeue_only [OF assms(1)] dequeue_last [OF assms(1)] dequeue_first [OF assms(1)] dequeue_middle [OF assms(1)]
  by (cases "a = []"; cases "b = []") simp_all

lemma dequeue_ok:
  assumes rep: "wait_queues_rep s qs" and t: "t \<in> set (qs ob)" and fu: "futex_ok s qs"
  shows "\<exists>s'. object_wait_queue_dequeue s t = Some s' \<and> wait_queues_rep s' (qs(ob := remove1 t (qs ob))) \<and>
    futex_ok s' (qs(ob := remove1 t (qs ob))) \<and> objects s' = objects s \<and>
    (\<forall>x. wait_reason (threads s' x) = wait_reason (threads s x))"
proof -
  obtain a b where q: "qs ob = a @ t # b" using t by (meson split_list)
  have qo: "queue_ok s ob (a @ t # b)" using rep_queue(1) [OF rep, of ob] q by simp
  note D = queue_okD [OF qo]
  have r1: "remove1 t (qs ob) = a @ b" using D(6) q by (simp add: remove1_append)
  obtain s1 where s1: "(if b = [] then dequeue_tail s t else dequeue_not_tail s t) = Some s1" "objects s1 = objects s"
    "futex_waiters s1 = futex_waiters s" "store_ok s1" "\<And>c. c \<noteq> ob \<Longrightarrow> winfo s1 c = winfo s c"
    "fst (winfo s1 ob) \<longleftrightarrow> a @ b \<noteq> []" "a @ b \<noteq> [] \<Longrightarrow> snd (winfo s1 ob) = hd (a @ b)"
    "\<And>u. u \<in> set (a @ b) \<Longrightarrow> threads s1 u = relink ob a b u (threads s u)"
    "\<And>u. u \<notin> set (a @ b) \<Longrightarrow> threads s1 u = threads s u"
    using unlink_ok [OF rep q] unfolding unlinked_def by blast
  have tn: "t \<notin> set (a @ b)" using D(6) by auto
  define s2 where "s2 = upd_thread t (wait_queue_p_update (\<lambda>_. False)) s1"
  define s3 where "s3 = (if wait_reason (threads s t) = THREAD_WAIT_FUTEX
    then s2\<lparr>futex_waiters := remove1 t (futex_waiters s)\<rparr> else s2)"
  have wr: "wait_reason (threads s2 x) = wait_reason (threads s x)" for x
    using s1(8,9) [of x] by (cases "x \<in> set (a @ b)") (auto simp: s2_def relink_def)
  have th: "threads s3 = threads s2" "objects s3 = objects s" "winfo s3 = winfo s1" "store_ok s3"
    using s1(2,4) by (auto simp: s3_def s2_def winfo_def store_ok_def fun_eq_iff)
  have un: "\<not> wait_queue_p (threads s3 t)" by (simp add: th s2_def)
  have same: "threads s3 u = threads s1 u" if "u \<noteq> t" for u using that by (simp add: th s2_def)
  have "wait_queue_tail (threads s t) \<longleftrightarrow> b = []" using D(1) by (simp add: linked_def)
  then have e: "object_wait_queue_dequeue s t = Some s3"
    using D(1) s1(1,3) wr [of t] un check_ok [OF rep t] check_unqueued [OF un] fu t
    by (auto simp: object_wait_queue_dequeue_def linked_def futex_waiter_list_unlink_def s3_def s2_def futex_ok_def)
  have "wait_queues_rep s3 (qs(ob := a @ b))"
  proof (rule rep_update [OF rep th(2,4) D(3)])
    show "linked ob (a @ b) c d (threads s3 u)" if "a @ b = c @ u # d" for c u d
    proof -
      have u: "u \<in> set (a @ b)" "u \<noteq> t" using that tn by auto
      have "linked ob (a @ b) c d (relink ob a b u (threads s u))"
        by (rule linked_relink [OF D(6) _ that]) (use qo in \<open>simp add: queue_ok_def\<close>)
      then show ?thesis using same [OF u(2)] s1(8) [OF u(1)] by simp
    qed
  qed (use s1 th same un q qo tn rep_disjoint [OF rep] in \<open>auto simp: queue_ok_def\<close>)
  moreover have "futex_ok s3 (qs(ob := a @ b))"
    unfolding futex_ok_def
  proof (intro allI ballI impI)
    fix ob' x assume x: "x \<in> set ((qs(ob := a @ b)) ob')" "wait_reason (threads s3 x) = THREAD_WAIT_FUTEX"
    then have "x \<in> set (qs ob')" using q by (cases "ob' = ob") auto
    moreover have "x \<noteq> t" using x(1) tn t rep_disjoint [OF rep, of t ob' ob] by (cases "ob' = ob") auto
    moreover have "wait_reason (threads s x) = THREAD_WAIT_FUTEX" using x(2) wr [of x] th(1) by simp
    ultimately have "x \<noteq> t" "x \<in> set (futex_waiters s)" using fu by (auto simp: futex_ok_def)
    then show "x \<in> set (futex_waiters s3)" using s1(3) by (auto simp: s3_def s2_def)
  qed
  ultimately show ?thesis using e r1 th wr by auto
qed

subsection \<open>The interface of the queues\<close>

text \<open>What the rest of the kernel relies on: a thread that does not wait can be queued, and a queued thread
  can be taken off its queue whatever its position; no other queue changes.\<close>

locale thread_queues =
  fixes rep :: "'s \<Rightarrow> ('o \<Rightarrow> 't list) \<Rightarrow> bool"
    and deq :: "'s \<Rightarrow> 't \<Rightarrow> 's option"
  assumes deq: "rep s qs \<Longrightarrow> t \<in> set (qs ob) \<Longrightarrow> \<exists>s'. deq s t = Some s' \<and> rep s' (qs(ob := remove1 t (qs ob)))"
    and dist: "rep s qs \<Longrightarrow> distinct (qs ob)"
begin

fun deq_all :: "'s \<Rightarrow> 't list \<Rightarrow> 's option" where
  "deq_all s [] = Some s"
| "deq_all s (t # ts) = deq s t \<bind> (\<lambda>s. deq_all s ts)"

lemma deq_all_ok:
  "rep s qs \<Longrightarrow> qs ob = ts @ us \<Longrightarrow> \<exists>s'. deq_all s ts = Some s' \<and> rep s' (qs(ob := us))"
proof (induction ts arbitrary: s qs)
  case Nil
  then have "qs(ob := us) = qs" by (auto simp: fun_eq_iff)
  then show ?case using Nil by simp
next
  case (Cons t ts)
  then have "t \<in> set (qs ob)" by simp
  from deq [OF Cons.prems(1) this] obtain s' where s': "deq s t = Some s'" "rep s' (qs(ob := ts @ us))"
    using Cons.prems(2) by auto
  from Cons.IH [OF s'(2)] have "\<exists>s''. deq_all s' ts = Some s'' \<and> rep s'' (qs(ob := us))"
    by (simp only: fun_upd_same fun_upd_upd)
  with s'(1) show ?case by (simp del: fun_upd_apply)
qed

lemma deq_last_in_first_out:
  assumes "rep s qs" "qs ob = t # ts"
  shows "\<exists>s'. deq s t = Some s' \<and> rep s' (qs(ob := ts))"
  using deq_all_ok [of s qs ob "[t]" ts] assms by (auto split: bind_splits)

end

interpretation wq: thread_queues "\<lambda>s qs. wait_queues_rep s qs \<and> futex_ok s qs" object_wait_queue_dequeue
proof unfold_locales
  fix s :: wq_state and qs :: "oid_t \<Rightarrow> oid_t list" and t ob
  assume "wait_queues_rep s qs \<and> futex_ok s qs" "t \<in> set (qs ob)"
  then show "\<exists>s'. object_wait_queue_dequeue s t = Some s' \<and>
      (wait_queues_rep s' (qs(ob := remove1 t (qs ob))) \<and> futex_ok s' (qs(ob := remove1 t (qs ob))))"
    using dequeue_ok [of s qs t ob] by blast
next
  fix s :: wq_state and qs :: "oid_t \<Rightarrow> oid_t list" and ob
  assume "wait_queues_rep s qs \<and> futex_ok s qs"
  then show "distinct (qs ob)" by (simp add: wait_queues_rep_def queue_ok_def)
qed

lemma wake_loop_ok:
  assumes "wait_queues_rep s qs" "futex_ok s qs" "qs ob = ts"
  shows "\<exists>s'. wake_loop rc s (if ts = [] then None else Some (hd ts)) rs =
      Some (s', rs @ map (\<lambda>t. (t, if wait_reason (threads s t) = THREAD_WAIT_DESTROY then Some rc else None)) ts) \<and>
    wait_queues_rep s' (qs(ob := [])) \<and> futex_ok s' (qs(ob := [])) \<and> wq.deq_all s ts = Some s'"
  using assms
proof (induction ts arbitrary: s qs rs)
  case Nil
  then have "qs(ob := []) = qs" by (auto simp: fun_eq_iff)
  then show ?case using Nil by (simp add: wake_loop.simps)
next
  case (Cons t ts)
  have t: "t \<in> set (qs ob)" using Cons.prems(3) by simp
  have n: "object_wait_queue_next s t = Some (if ts = [] then None else Some (hd ts))"
    using next_ok [of s ob "[]" t ts] rep_queue(1) [OF Cons.prems(1), of ob] Cons.prems(3) by simp
  obtain s' where s': "object_wait_queue_dequeue s t = Some s'" "wait_queues_rep s' (qs(ob := ts))" "futex_ok s' (qs(ob := ts))"
    "\<And>x. wait_reason (threads s' x) = wait_reason (threads s x)"
    using dequeue_ok [OF Cons.prems(1) t Cons.prems(2)] Cons.prems(3) by auto
  let ?r = "\<lambda>t. (t, if wait_reason (threads s t) = THREAD_WAIT_DESTROY then Some rc else None)"
  obtain s'' where "wake_loop rc s' (if ts = [] then None else Some (hd ts)) (rs @ [?r t]) = Some (s'', (rs @ [?r t]) @ map ?r ts)"
    "wait_queues_rep s'' (qs(ob := []))" "futex_ok s'' (qs(ob := []))" "wq.deq_all s' ts = Some s''"
    using Cons.IH [OF s'(2,3) fun_upd_same, of "rs @ [?r t]"] unfolding s'(4) fun_upd_upd by blast
  then show ?case using n s'(1,4) by (simp add: wake_loop.simps [of rc s "Some t"] split del: if_split del: fun_upd_apply)
qed

subsection \<open>What the queues promise\<close>

text \<open>C12: the wait queues refine a family of lists of threads. Queuing a thread that does not wait puts it at the
  front of the object's list, dequeuing removes it from wherever it is, head, tail, successor and
  predecessor read the lists, the other objects' queues are unchanged and no assertion, including those
  of the consistency check, fails.\<close>

theorem wait_queue_refines_lists:
  assumes "wait_queues_rep s qs" "futex_ok s qs" "objects s ob \<noteq> None"
  shows "object_wait_queue_head s ob = Some (if qs ob = [] then None else Some (hd (qs ob))) \<and>
    object_wait_queue_tail s ob = Some (if qs ob = [] then None else Some (last (qs ob))) \<and>
    (\<forall>a t b. qs ob = a @ t # b \<longrightarrow>
       object_wait_queue_next s t = Some (if b = [] then None else Some (hd b)) \<and>
       object_wait_queue_prev s t = Some (if a = [] then None else Some (last a))) \<and>
    (\<forall>t. objects s t = Some cap_thread \<longrightarrow> \<not> wait_queue_p (threads s t) \<longrightarrow>
       (\<exists>s'. object_wait_queue_enqueue s ob t = Some s' \<and> wait_queues_rep s' (qs(ob := t # qs ob)))) \<and>
    (\<forall>t \<in> set (qs ob). \<exists>s'. object_wait_queue_dequeue s t = Some s' \<and>
       wait_queues_rep s' (qs(ob := remove1 t (qs ob))) \<and> futex_ok s' (qs(ob := remove1 t (qs ob))))"
proof (intro conjI allI impI ballI)
  show "object_wait_queue_head s ob = Some (if qs ob = [] then None else Some (hd (qs ob)))" by (rule head_ok [OF assms(1,3)])
  show "object_wait_queue_tail s ob = Some (if qs ob = [] then None else Some (last (qs ob)))" by (rule tail_ok [OF assms(1,3)])
next
  fix a t b assume "qs ob = a @ t # b"
  then have q: "queue_ok s ob (a @ t # b)" using rep_queue(1) [OF assms(1), of ob] by simp
  show "object_wait_queue_next s t = Some (if b = [] then None else Some (hd b))" by (rule next_ok [OF q])
  show "object_wait_queue_prev s t = Some (if a = [] then None else Some (last a))" by (rule prev_ok [OF q])
next
  fix t assume "objects s t = Some cap_thread" "\<not> wait_queue_p (threads s t)"
  then show "\<exists>s'. object_wait_queue_enqueue s ob t = Some s' \<and> wait_queues_rep s' (qs(ob := t # qs ob))"
    using enqueue_ok [OF assms(1,3)] by blast
next
  fix t assume "t \<in> set (qs ob)"
  then show "\<exists>s'. object_wait_queue_dequeue s t = Some s' \<and>
       wait_queues_rep s' (qs(ob := remove1 t (qs ob))) \<and> futex_ok s' (qs(ob := remove1 t (qs ob)))"
    using wq.deq [of s qs t ob] assms(1,2) by blast
qed

text \<open>A state with two threads (objects 1 and 2 of the first folio), a page (object 3) and empty queues.\<close>

definition wq_example :: wq_state where
  "wq_example = \<lparr>objects = [0 \<mapsto> cap_folio, 1 \<mapsto> cap_thread, 2 \<mapsto> cap_thread, 3 \<mapsto> cap_page], folios = (\<lambda>_. folio_zero),
     threads = (\<lambda>_. \<lparr>wait_queue_p = False, wait_queue_head = False, wait_queue_tail = False, wait_reason = THREAD_WAIT_DESTROY,
       wq_next = 0, wq_prev = 0\<rparr>), futex_waiters = []\<rparr>"

lemma wq_example_rep: "wait_queues_rep wq_example (\<lambda>_. [])" "futex_ok wq_example (\<lambda>_. [])"
proof -
  have w: "\<not> fst (winfo wq_example ob)" for ob
  proof -
    obtain k where k: "objects_folio_offset ob = int k - 1" "k < 129" by (rule offset_nat)
    show ?thesis unfolding winfo_def k(1)
      by (simp add: wq_example_def folio_abs_def FOLIO_OBJECTS_def k(2) object_info_of_def folio_zero_def bits_of_def Let_def)
  qed
  have f: "foid 0 = 0" "foid 1 = 0" "foid 2 = 0" "foid 3 = 0" by (simp_all add: foid_def objects_folio_offset_def)
  have "store_ok wq_example" by (auto simp: store_ok_def wq_example_def f split: if_splits)
  then show "wait_queues_rep wq_example (\<lambda>_. [])"
    using w by (simp add: wait_queues_rep_def queue_ok_def) (simp add: wq_example_def)
qed (simp add: futex_ok_def)

theorem wait_queue_refines_lists_witness:
  "\<exists>s. object_wait_queue_enqueue wq_example 3 1 = Some s \<and> wait_queues_rep s ((\<lambda>_. [])(3 := [1]))"
proof -
  have "objects wq_example 3 \<noteq> None" "objects wq_example 1 = Some cap_thread" "\<not> wait_queue_p (threads wq_example 1)"
    by (simp_all add: wq_example_def)
  then show ?thesis using wait_queue_refines_lists [OF wq_example_rep, of 3] by blast
qed

text \<open>C13: when an object is destroyed every thread that waits on it is woken exactly once, in the order of the queue,
  with the return code if it waits for the destruction and with an error otherwise; the loop ends, the
  object's queue is empty afterwards and all other queues are unchanged.\<close>

theorem wake_waiters_wakes_all:
  assumes "wait_queues_rep s qs" "futex_ok s qs" "objects s ob \<noteq> None"
  shows "\<exists>s'. wake_waiters rc s ob =
      Some (s', map (\<lambda>t. (t, if wait_reason (threads s t) = THREAD_WAIT_DESTROY then Some rc else None)) (qs ob)) \<and>
    wait_queues_rep s' (qs(ob := [])) \<and> futex_ok s' (qs(ob := []))"
proof -
  have st: "store_ok s" by (rule rep_queue(2) [OF assms(1)])
  have "fst (winfo s ob) \<longleftrightarrow> qs ob \<noteq> []" "qs ob \<noteq> [] \<Longrightarrow> snd (winfo s ob) = hd (qs ob) \<and> objects s (hd (qs ob)) \<noteq> None"
    using rep_queue(1) [OF assms(1), of ob] assms(3) by (auto simp: queue_ok_def)
  then have "wake_waiters rc s ob = wake_loop rc s (if qs ob = [] then None else Some (hd (qs ob))) []"
    by (auto simp: wake_waiters_def objects_folio_eq [OF st assms(3)] wait_queue_get [OF st])
  then show ?thesis using wake_loop_ok [OF assms(1,2) refl, of rc ob "[]"] by auto
qed

theorem wake_waiters_wakes_all_witness:
  "\<exists>s s'. object_wait_queue_enqueue wq_example 3 1 = Some s \<and> wake_waiters 7 s 3 = Some (s', [(1, Some 7)])"
proof -
  obtain s where s: "object_wait_queue_enqueue wq_example 3 1 = Some s" "wait_queues_rep s ((\<lambda>_. [])(3 := [1]))"
    "objects s = objects wq_example" "\<And>x. wait_reason (threads s x) = THREAD_WAIT_DESTROY"
    using enqueue_ok [OF wq_example_rep(1), of 3 1] by (auto simp: wq_example_def)
  have "futex_ok s ((\<lambda>_. [])(3 := [1]))" using s(4) by (simp add: futex_ok_def THREAD_WAIT_DESTROY_def THREAD_WAIT_FUTEX_def)
  then show ?thesis
    using wake_waiters_wakes_all [OF s(2), of 3 7] s by (auto simp: wq_example_def)
qed

end
