(* ===== verification/Mutex.thy ===== *)
theory Mutex
  imports Machine
begin

text \<open>
  The mutexes of user space (\<^verbatim>\<open>hurd/mutex.h\<close>, on futexes), of the kernel (\<^verbatim>\<open>viengoos/mutex.h\<close>, on message
  passing) and the recursive mutexes (\<^verbatim>\<open>hurd/rmutex.h\<close>), as interleavings of their atomic actions.

  Any number of threads share one lock. A thread's program counter says which atomic action of the
  locking code it performs next; a step of the system is one action of one thread. The order of
  the steps is arbitrary. The tracing of lock operations is not modelled.
\<close>

type_synonym tid = nat

subsection \<open>The futex-based mutex\<close>

definition MUTEX_UNLOCKED :: int where "MUTEX_UNLOCKED = 0"
definition MUTEX_LOCKED :: int where "MUTEX_LOCKED = 1"
definition MUTEX_WAITERS :: int where "MUTEX_WAITERS = 2"

lemmas mutex_values = MUTEX_UNLOCKED_def MUTEX_LOCKED_def MUTEX_WAITERS_def

text \<open>Outside of the mutex, before the compare-and-exchange, before the exchange, before and inside of
  \<open>futex_wait\<close>, in the critical section; then the decrement, the store and the wake-up of unlocking.\<close>

datatype mpc = Idle | Cas | Xchg | Wait | Sleep | Crit | Dec | Store | Wake

record umutex =
  lockp :: int
  pc :: "tid \<Rightarrow> mpc"

text \<open>The atomic actions of \<open>ss_mutex_lock\<close>, \<open>ss_mutex_unlock\<close> and \<open>ss_mutex_trylock\<close>: the new value of the lock
  and what the thread does next.\<close>

definition mutex_cas :: "int \<Rightarrow> int \<times> mpc" where
  "mutex_cas c = (if c = MUTEX_UNLOCKED then (MUTEX_LOCKED, Crit)
     else if c \<noteq> MUTEX_WAITERS then (c, Xchg) else (c, Wait))"

definition mutex_xchg :: "int \<Rightarrow> int \<times> mpc" where
  "mutex_xchg c = (MUTEX_WAITERS, if c \<noteq> MUTEX_UNLOCKED then Wait else Crit)"

definition mutex_dec :: "int \<Rightarrow> int \<times> mpc" where
  "mutex_dec c = (c - 1, if c - 1 = 0 then Idle else Store)"

definition mutex_trylock :: "int \<Rightarrow> int \<times> mpc" where
  "mutex_trylock c = (if c = MUTEX_UNLOCKED then (MUTEX_LOCKED, Crit) else (c, Idle))"

definition act :: "umutex \<Rightarrow> tid \<Rightarrow> int \<times> mpc \<Rightarrow> umutex" where
  "act s t r = s\<lparr>lockp := fst r, pc := (pc s)(t := snd r)\<rparr>"

abbreviation goto :: "umutex \<Rightarrow> tid \<Rightarrow> mpc \<Rightarrow> umutex" where
  "goto s t p \<equiv> act s t (lockp s, p)"

text \<open>\<open>futex_wait\<close> puts the thread to sleep only if the lock has the expected value and may also return with
  an error; \<open>futex_wake\<close> wakes one sleeping thread if there is one.\<close>

inductive ustep :: "umutex \<Rightarrow> umutex \<Rightarrow> bool" where
  lock: "pc s t = Idle \<Longrightarrow> ustep s (goto s t Cas)"
| cas: "pc s t = Cas \<Longrightarrow> ustep s (act s t (mutex_cas (lockp s)))"
| xchg: "pc s t = Xchg \<Longrightarrow> ustep s (act s t (mutex_xchg (lockp s)))"
| sleep: "pc s t = Wait \<Longrightarrow> lockp s = MUTEX_WAITERS \<Longrightarrow> ustep s (goto s t Sleep)"
| wait_returns: "pc s t = Wait \<Longrightarrow> ustep s (goto s t Xchg)"
| trylock: "pc s t = Idle \<Longrightarrow> ustep s (act s t (mutex_trylock (lockp s)))"
| unlock: "pc s t = Crit \<Longrightarrow> ustep s (goto s t Dec)"
| dec: "pc s t = Dec \<Longrightarrow> ustep s (act s t (mutex_dec (lockp s)))"
| store: "pc s t = Store \<Longrightarrow> ustep s (act s t (MUTEX_UNLOCKED, Wake))"
| wake: "pc s t = Wake \<Longrightarrow> pc s w = Sleep \<Longrightarrow> ustep s (goto (goto s t Idle) w Xchg)"
| wake_none: "pc s t = Wake \<Longrightarrow> (\<forall>w. pc s w \<noteq> Sleep) \<Longrightarrow> ustep s (goto s t Idle)"

definition umutex_init :: umutex where
  "umutex_init = \<lparr>lockp = MUTEX_UNLOCKED, pc = (\<lambda>_. Idle)\<rparr>"

subsection \<open>Mutual exclusion and wake-ups of the futex-based mutex\<close>

definition holds :: "mpc \<Rightarrow> bool" where
  "holds p \<longleftrightarrow> p = Crit \<or> p = Dec \<or> p = Store"

definition active :: "mpc \<Rightarrow> bool" where
  "active p \<longleftrightarrow> p = Xchg \<or> p = Store \<or> p = Wake"

definition excl :: "umutex \<Rightarrow> bool" where
  "excl s \<longleftrightarrow> (lockp s = 0 \<longleftrightarrow> (\<forall>t. \<not> holds (pc s t))) \<and> (\<forall>t u. holds (pc s t) \<longrightarrow> holds (pc s u) \<longrightarrow> t = u)"

definition wakeful :: "umutex \<Rightarrow> bool" where
  "wakeful s \<longleftrightarrow> (\<exists>t. pc s t = Sleep) \<longrightarrow> lockp s = 2 \<or> (\<exists>t. active (pc s t))"

definition umutex_inv :: "umutex \<Rightarrow> bool" where
  "umutex_inv s \<longleftrightarrow> lockp s \<in> {0, 1, 2} \<and> excl s \<and> wakeful s"

lemmas umutex_defs = mutex_cas_def mutex_xchg_def mutex_dec_def mutex_trylock_def mutex_values holds_def active_def

lemma act_sel [simp]: "lockp (act s t r) = fst r" "pc (act s t r) = (pc s)(t := snd r)"
  by (simp_all add: act_def)

lemma excl_act:
  assumes "excl s"
    and "holds (snd r) = holds (pc s t) \<and> (fst r = 0 \<longleftrightarrow> lockp s = 0) \<or>
      holds (snd r) \<and> lockp s = 0 \<and> fst r \<noteq> 0 \<or> holds (pc s t) \<and> \<not> holds (snd r) \<and> fst r = 0"
  shows "excl (act s t r)"
proof -
  consider (same) "holds (snd r) = holds (pc s t)" "fst r = 0 \<longleftrightarrow> lockp s = 0"
    | (acquire) "holds (snd r)" "lockp s = 0" "fst r \<noteq> 0" | (release) "holds (pc s t)" "\<not> holds (snd r)" "fst r = 0"
    using assms(2) by blast
  then show ?thesis
  proof cases
    case same
    then have "holds (pc (act s t r) u) = holds (pc s u)" for u by simp
    then show ?thesis using assms(1) same(2) unfolding excl_def by simp
  next
    case acquire
    then have "\<not> holds (pc s u)" for u using assms(1) by (simp add: excl_def)
    then have "holds (pc (act s t r) u) \<longleftrightarrow> u = t" for u using acquire(1) by simp
    then show ?thesis using acquire(3) unfolding excl_def by simp
  next
    case release
    then have "holds (pc s u) \<longleftrightarrow> u = t" for u using assms(1) by (auto simp: excl_def)
    then have "\<not> holds (pc (act s t r) u)" for u using release(2) by simp
    then show ?thesis using release(3) unfolding excl_def by simp
  qed
qed

lemma wakeful_act:
  assumes "wakeful s" "fst r = 2 \<or> active (snd r) \<or> snd r \<noteq> Sleep \<and> \<not> active (pc s t) \<and> (lockp s = 2 \<longrightarrow> fst r = 2)"
  shows "wakeful (act s t r)"
  using assms unfolding wakeful_def by auto

lemma holder_lock: "excl s \<Longrightarrow> holds (pc s t) \<Longrightarrow> lockp s \<noteq> 0"
  by (auto simp: excl_def)

lemma act_inv:
  assumes "umutex_inv s" "fst r \<in> {0, 1, 2}"
    "holds (snd r) = holds (pc s t) \<and> (fst r = 0 \<longleftrightarrow> lockp s = 0) \<or>
      holds (snd r) \<and> lockp s = 0 \<and> fst r \<noteq> 0 \<or> holds (pc s t) \<and> \<not> holds (snd r) \<and> fst r = 0"
    "fst r = 2 \<or> active (snd r) \<or> snd r \<noteq> Sleep \<and> \<not> active (pc s t) \<and> (lockp s = 2 \<longrightarrow> fst r = 2)"
  shows "umutex_inv (act s t r)"
  using assms excl_act wakeful_act by (auto simp: umutex_inv_def)

lemma ustep_inv: "ustep s s' \<Longrightarrow> umutex_inv s \<Longrightarrow> umutex_inv s'"
proof (induction rule: ustep.induct)
  case (wake s t w)
  have ne: "t \<noteq> w" using wake by auto
  have "excl (goto s t Idle)" using wake by (intro excl_act) (auto simp: umutex_inv_def umutex_defs)
  then have "excl (goto (goto s t Idle) w Xchg)" by (rule excl_act) (use wake ne in \<open>auto simp: umutex_defs\<close>)
  moreover have "wakeful (goto (goto s t Idle) w Xchg)" by (auto simp: wakeful_def active_def)
  ultimately show ?case using wake.prems by (simp add: umutex_inv_def)
next
  case (wake_none s t)
  have "excl (goto s t Idle)" using wake_none by (intro excl_act) (auto simp: umutex_inv_def umutex_defs)
  moreover have "wakeful (goto s t Idle)" using wake_none.hyps by (simp add: wakeful_def)
  ultimately show ?case using wake_none.prems by (simp add: umutex_inv_def)
next
  case (dec s t)
  then have "lockp s \<noteq> 0" "lockp s \<in> {0, 1, 2}" using holder_lock [of s t] by (simp_all add: umutex_inv_def holds_def)
  then show ?case using dec by (intro act_inv) (auto simp: umutex_defs)
next
  case (store s t)
  then show ?case by (intro act_inv) (simp_all add: umutex_defs)
next
  case (lock s t)
  then show ?case by (intro act_inv) (simp_all add: umutex_inv_def umutex_defs)
next
  case (cas s t)
  then show ?case by (intro act_inv) (auto simp: umutex_inv_def umutex_defs)
next
  case (xchg s t)
  then show ?case by (intro act_inv) (auto simp: umutex_inv_def umutex_defs)
next
  case (sleep s t)
  then show ?case by (intro act_inv) (simp_all add: umutex_defs)
next
  case (wait_returns s t)
  then show ?case by (intro act_inv) (simp_all add: umutex_inv_def umutex_defs)
next
  case (trylock s t)
  then show ?case by (intro act_inv) (auto simp: umutex_inv_def umutex_defs)
next
  case (unlock s t)
  then show ?case by (intro act_inv) (simp_all add: umutex_inv_def umutex_defs)
qed

interpretation um: invariant_of ustep umutex_init umutex_inv
proof unfold_locales
  show "umutex_inv umutex_init"
    by (simp add: umutex_init_def umutex_inv_def excl_def wakeful_def holds_def mutex_values)
qed (rule ustep_inv)

text \<open>C34: however the threads interleave, at most one of them is in the critical section of a user-space mutex, and
  while one is the lock word is not zero, so that neither \<open>ss_mutex_lock\<close> nor \<open>ss_mutex_trylock\<close> succeeds.\<close>

theorem mutex_mutual_exclusion:
  assumes "reachable ustep umutex_init s" "pc s t = Crit"
  shows "(\<forall>u. pc s u = Crit \<longrightarrow> u = t) \<and> snd (mutex_cas (lockp s)) \<noteq> Crit \<and> snd (mutex_xchg (lockp s)) \<noteq> Crit \<and>
    snd (mutex_trylock (lockp s)) \<noteq> Crit"
proof -
  have e: "excl s" using um.reachable_inv [OF assms(1)] by (simp add: umutex_inv_def)
  have "holds (pc s t)" using assms(2) by (simp add: holds_def)
  with holder_lock [OF e this] show ?thesis using e assms(2)
    by (auto simp: excl_def mutex_cas_def mutex_xchg_def mutex_trylock_def mutex_values holds_def)
qed

lemma example_run: "reachable ustep umutex_init (act (goto umutex_init 0 Cas) 0 (mutex_cas 0))"
  using reachable.more [OF reachable.more [OF reachable.start], of ustep umutex_init "goto umutex_init 0 Cas"]
    ustep.lock [of umutex_init 0] ustep.cas [of "goto umutex_init 0 Cas" 0]
  by (simp add: umutex_init_def mutex_values)

theorem mutex_mutual_exclusion_witness:
  "\<exists>s. reachable ustep umutex_init s \<and> pc s 0 = Crit \<and> snd (mutex_trylock (lockp s)) \<noteq> Crit"
proof -
  let ?s = "act (goto umutex_init 0 Cas) 0 (mutex_cas 0)"
  have "pc ?s 0 = Crit" by (simp add: mutex_cas_def mutex_values)
  then show ?thesis using mutex_mutual_exclusion [OF example_run] example_run by blast
qed

text \<open>C35: no wake-up is lost: whenever a thread sleeps on a user-space mutex, some other thread holds the mutex
  or is about to wake a sleeper or to mark the lock as having waiters; and when the holder of a mutex
  that has been marked unlocks it, it goes on to wake a sleeper.\<close>

theorem mutex_no_lost_wakeup:
  assumes "reachable ustep umutex_init s" "pc s t = Sleep"
  shows "\<exists>u. holds (pc s u) \<and> lockp s = MUTEX_WAITERS \<and> snd (mutex_dec (lockp s)) = Store \<or> active (pc s u)"
proof -
  have i: "excl s" "wakeful s" using um.reachable_inv [OF assms(1)] by (simp_all add: umutex_inv_def)
  then have "lockp s = 2 \<or> (\<exists>u. active (pc s u))" using assms(2) by (auto simp: wakeful_def)
  moreover have "lockp s = 2 \<Longrightarrow> \<exists>u. holds (pc s u)" using i(1) by (auto simp: excl_def)
  ultimately show ?thesis by (auto simp: mutex_dec_def mutex_values)
qed

lemma example_sleep:
  "\<exists>s. reachable ustep umutex_init s \<and> pc s 1 = Sleep"
proof -
  let ?s = "act (goto umutex_init 0 Cas) 0 (mutex_cas 0)"
  have p: "pc ?s 1 = Idle" "lockp ?s = 1" by (simp_all add: umutex_init_def mutex_cas_def mutex_values)
  let ?s1 = "goto ?s 1 Cas" let ?s2 = "act ?s1 1 (mutex_cas (lockp ?s1))" let ?s3 = "act ?s2 1 (mutex_xchg (lockp ?s2))"
  have "ustep ?s ?s1" using p by (intro ustep.lock) simp
  moreover have "ustep ?s1 ?s2" by (rule ustep.cas) simp
  moreover have "ustep ?s2 ?s3" using p by (intro ustep.xchg) (simp add: mutex_cas_def mutex_values)
  moreover have "ustep ?s3 (goto ?s3 1 Sleep)" using p by (intro ustep.sleep) (simp_all add: mutex_cas_def mutex_xchg_def mutex_values)
  ultimately have "reachable ustep umutex_init (goto ?s3 1 Sleep)" using example_run by (blast intro: reachable.more)
  then show ?thesis by (rule exI [where x = "goto ?s3 1 Sleep", OF conjI]) simp
qed

theorem mutex_no_lost_wakeup_witness:
  "\<exists>(s :: umutex) u. pc s 1 = Sleep \<and> (holds (pc s u) \<or> active (pc s u))"
proof -
  obtain s where s: "reachable ustep umutex_init s" "pc s 1 = Sleep" using example_sleep by blast
  then show ?thesis using mutex_no_lost_wakeup [OF s] by blast
qed

subsection \<open>The kernel's mutex\<close>

text \<open>The lock word holds the identifier of the thread that exchanged it last, \<open>None\<close> if it is free. A thread that
  did not get the lock waits for a message from any thread; \<open>KFail\<close> is a failed assertion.\<close>

datatype kpc = KIdle | KXchg | KWait | KCrit | KUnlock | KSend tid | KFail

record kmutex =
  klock :: "tid option"
  kpcs :: "tid \<Rightarrow> kpc"

definition kmutex_lock :: "tid \<Rightarrow> tid option \<Rightarrow> tid option \<times> kpc" where
  "kmutex_lock me owner = (Some me, if owner = None then KCrit else if owner = Some me then KFail else KWait)"

definition kmutex_unlock :: "tid \<Rightarrow> tid option \<Rightarrow> tid option \<times> kpc" where
  "kmutex_unlock me waiter = (None,
     if waiter = Some me then KIdle else case waiter of None \<Rightarrow> KFail | Some w \<Rightarrow> KSend w)"

definition kmutex_trylock :: "tid \<Rightarrow> tid option \<Rightarrow> tid option \<times> kpc" where
  "kmutex_trylock me owner = (if owner = None then (Some me, KCrit) else (owner, KIdle))"

definition kact :: "kmutex \<Rightarrow> tid \<Rightarrow> tid option \<times> kpc \<Rightarrow> kmutex" where
  "kact s t r = s\<lparr>klock := fst r, kpcs := (kpcs s)(t := snd r)\<rparr>"

abbreviation kgoto :: "kmutex \<Rightarrow> tid \<Rightarrow> kpc \<Rightarrow> kmutex" where
  "kgoto s t p \<equiv> kact s t (klock s, p)"

text \<open>The steps of the threads of the set \<open>T\<close>. Sending is a rendezvous: it completes when the receiver waits.\<close>

inductive kstep :: "tid set \<Rightarrow> kmutex \<Rightarrow> kmutex \<Rightarrow> bool" for T where
  klock: "t \<in> T \<Longrightarrow> kpcs s t = KIdle \<Longrightarrow> kstep T s (kgoto s t KXchg)"
| kxchg: "t \<in> T \<Longrightarrow> kpcs s t = KXchg \<Longrightarrow> kstep T s (kact s t (kmutex_lock t (klock s)))"
| ktry: "t \<in> T \<Longrightarrow> kpcs s t = KIdle \<Longrightarrow> kstep T s (kact s t (kmutex_trylock t (klock s)))"
| kleave: "t \<in> T \<Longrightarrow> kpcs s t = KCrit \<Longrightarrow> kstep T s (kgoto s t KUnlock)"
| kunlock: "t \<in> T \<Longrightarrow> kpcs s t = KUnlock \<Longrightarrow> kstep T s (kact s t (kmutex_unlock t (klock s)))"
| ksend: "t \<in> T \<Longrightarrow> kpcs s t = KSend w \<Longrightarrow> kpcs s w = KWait \<Longrightarrow> kstep T s (kgoto (kgoto s t KIdle) w KXchg)"

definition kmutex_init :: kmutex where
  "kmutex_init = \<lparr>klock = None, kpcs = (\<lambda>_. KIdle)\<rparr>"

lemma kact_sel [simp]: "klock (kact s t r) = fst r" "kpcs (kact s t r) = (kpcs s)(t := snd r)"
  by (simp_all add: kact_def)

abbreviation kholds :: "kpc \<Rightarrow> bool" where
  "kholds p \<equiv> p = KCrit \<or> p = KUnlock"

text \<open>The lock names its holder or a waiting thread; a thread that is to be woken waits, is not named by the
  lock any more, and is woken by one thread only.\<close>

definition kinv :: "kmutex \<Rightarrow> bool" where
  "kinv s \<longleftrightarrow> (\<forall>t. klock s = Some t \<longrightarrow> kpcs s t = KWait \<or> kholds (kpcs s t)) \<and>
     (\<forall>t w. kpcs s t = KSend w \<longrightarrow> kpcs s w = KWait \<and> klock s \<noteq> Some w) \<and>
     (\<forall>t u w. kpcs s t = KSend w \<longrightarrow> kpcs s u = KSend w \<longrightarrow> t = u) \<and>
     (\<forall>t. kholds (kpcs s t) \<longrightarrow> klock s \<noteq> None) \<and>
     (\<forall>t u. kholds (kpcs s t) \<longrightarrow> kholds (kpcs s u) \<longrightarrow> t = u) \<and>
     (\<forall>t. kpcs s t \<noteq> KFail)"

lemma kinvI:
  assumes "\<And>t. klock s = Some t \<Longrightarrow> kpcs s t = KWait \<or> kholds (kpcs s t)"
    "\<And>t w. kpcs s t = KSend w \<Longrightarrow> kpcs s w = KWait \<and> klock s \<noteq> Some w"
    "\<And>t u w. kpcs s t = KSend w \<Longrightarrow> kpcs s u = KSend w \<Longrightarrow> t = u"
    "\<And>t. kholds (kpcs s t) \<Longrightarrow> klock s \<noteq> None"
    "\<And>t u. kholds (kpcs s t) \<Longrightarrow> kholds (kpcs s u) \<Longrightarrow> t = u"
    "\<And>t. kpcs s t \<noteq> KFail"
  shows "kinv s"
  unfolding kinv_def using assms by blast

lemma kinvD:
  assumes "kinv s"
  shows "klock s = Some t \<Longrightarrow> kpcs s t = KWait \<or> kholds (kpcs s t)"
    "kpcs s t = KSend w \<Longrightarrow> kpcs s w = KWait" "kpcs s t = KSend w \<Longrightarrow> klock s \<noteq> Some w"
    "kpcs s t = KSend w \<Longrightarrow> kpcs s u = KSend w \<Longrightarrow> t = u"
    "kholds (kpcs s t) \<Longrightarrow> klock s \<noteq> None"
    "kholds (kpcs s t) \<Longrightarrow> kholds (kpcs s u) \<Longrightarrow> t = u"
    "kpcs s t \<noteq> KFail"
  using assms unfolding kinv_def by blast+

lemma kinv_act:
  assumes k: "kinv s"
    and lock: "\<And>u. l = Some u \<Longrightarrow> if u = t then p = KWait \<or> kholds p else kpcs s u = KWait \<or> kholds (kpcs s u)"
    and sends: "\<And>u w. u \<noteq> t \<Longrightarrow> kpcs s u = KSend w \<Longrightarrow> (w = t \<longrightarrow> p = KWait) \<and> l \<noteq> Some w \<and> p \<noteq> KSend w"
    and send: "\<And>w. p = KSend w \<Longrightarrow> w \<noteq> t \<and> kpcs s w = KWait \<and> l \<noteq> Some w"
    and other: "\<And>u. u \<noteq> t \<Longrightarrow> kholds (kpcs s u) \<Longrightarrow> l \<noteq> None \<and> \<not> kholds p"
    and own: "kholds p \<Longrightarrow> l \<noteq> None" "p \<noteq> KFail"
  shows "kinv (kact s t (l, p))"
proof -
  note D = kinvD [OF k]
  let ?s = "kact s t (l, p)"
  show ?thesis
  proof (rule kinvI)
    show "kpcs ?s u = KWait \<or> kholds (kpcs ?s u)" if "klock ?s = Some u" for u
      using that lock [of u] by (cases "u = t") auto
    show "kpcs ?s w = KWait \<and> klock ?s \<noteq> Some w" if "kpcs ?s u = KSend w" for u w
      using that D(2) [of u w] sends [of u w] send [of w] by (cases "u = t"; cases "w = t") auto
    show "u = v" if "kpcs ?s u = KSend w" "kpcs ?s v = KSend w" for u v w
      using that D(4) [of u w v] sends [of u w] sends [of v w] by (cases "u = t"; cases "v = t") auto
    show "klock ?s \<noteq> None" if "kholds (kpcs ?s u)" for u
      using that other [of u] own(1) by (cases "u = t") auto
    show "u = v" if "kholds (kpcs ?s u)" "kholds (kpcs ?s v)" for u v
      using that D(6) [of u v] other [of u] other [of v] by (cases "u = t"; cases "v = t") auto
    show "kpcs ?s u \<noteq> KFail" for u using D(7) [of u] own(2) by simp
  qed
qed

lemma kstep_inv: "kstep T s s' \<Longrightarrow> kinv s \<Longrightarrow> kinv s'"
proof (induction rule: kstep.induct)
  case (klock t s)
  note D = kinvD [OF klock.prems]
  have "klock s \<noteq> Some t" using D(1) [of t] klock.hyps by auto
  moreover have "kpcs s u \<noteq> KSend t" for u using D(2) [of u t] klock.hyps by auto
  ultimately show ?case using D by (intro kinv_act [OF klock.prems]) (auto simp del: kact_sel split del: if_split split: if_splits)
next
  case (kxchg t s)
  note D = kinvD [OF kxchg.prems]
  have ne: "klock s \<noteq> Some t" using D(1) [of t] kxchg.hyps by auto
  have wt: "kpcs s w \<noteq> KSend t" for w using D(2) [of w t] kxchg.hyps by auto
  have "kinv (kact s t (Some t, if klock s = None then KCrit else KWait))"
  proof (rule kinv_act [OF kxchg.prems])
    show "Some t \<noteq> None \<and> \<not> kholds (if klock s = None then KCrit else KWait)" if "kholds (kpcs s u)" for u
      using D(5) [OF that] by simp
  qed (use wt in \<open>auto split: if_splits\<close>)
  then show ?case using ne by (cases "klock s") (simp_all add: kmutex_lock_def)
next
  case (ktry t s)
  note D = kinvD [OF ktry.prems]
  have wt: "kpcs s w \<noteq> KSend t" for w using D(2) [of w t] ktry.hyps by auto
  show ?case
  proof (cases "klock s")
    case None
    have "kinv (kact s t (Some t, KCrit))"
    proof (rule kinv_act [OF ktry.prems])
      show "Some t \<noteq> None \<and> \<not> kholds KCrit" if "kholds (kpcs s u)" for u
        using D(5) [OF that] None by simp
    qed (use wt in \<open>auto split: if_splits\<close>)
    then show ?thesis using None by (simp add: kmutex_trylock_def)
  next
    case (Some x)
    then have "kact s t (kmutex_trylock t (klock s)) = s" using ktry.hyps by (cases s) (auto simp: kmutex_trylock_def kact_def)
    then show ?thesis using ktry.prems by simp
  qed
next
  case (kleave t s)
  note D = kinvD [OF kleave.prems]
  have wt: "kpcs s w \<noteq> KSend t" for w using D(2) [of w t] kleave.hyps by auto
  have lk: "klock s \<noteq> None" using D(5) [of t] kleave.hyps by auto
  show ?case
  proof (rule kinv_act [OF kleave.prems])
    show "if u = t then KUnlock = KWait \<or> kholds KUnlock else kpcs s u = KWait \<or> kholds (kpcs s u)"
      if "klock s = Some u" for u using D(1) [OF that] by simp
    show "klock s \<noteq> None \<and> \<not> kholds KUnlock" if "u \<noteq> t" "kholds (kpcs s u)" for u
      using D(6) [of t u] kleave.hyps that by simp
  qed (use wt lk D(3) in auto)
next
  case (kunlock t s)
  note D = kinvD [OF kunlock.prems]
  obtain w where w: "klock s = Some w" using D(5) [of t] kunlock.hyps by auto
  have u: "kholds (kpcs s u) \<longleftrightarrow> u = t" for u using D(6) [of t u] kunlock.hyps by auto
  have wt: "kpcs s u \<noteq> KSend t" for u using D(2) [of u t] kunlock.hyps by auto
  have ww: "w \<noteq> t \<Longrightarrow> kpcs s w = KWait" "kpcs s u \<noteq> KSend w" for u using D(1) [OF w] u D(3) [of u w] w by auto
  have "kinv (kact s t (None, if w = t then KIdle else KSend w))"
  proof (rule kinv_act [OF kunlock.prems])
    show "None \<noteq> None \<and> \<not> kholds (if w = t then KIdle else KSend w)" if "v \<noteq> t" "kholds (kpcs s v)" for v
      using u [of v] that by simp
  qed (use wt ww in \<open>auto split: if_splits\<close>)
  then show ?case using w by (cases "w = t") (simp_all add: kmutex_unlock_def)
next
  case (ksend t s w)
  note D = kinvD [OF ksend.prems]
  have tw: "t \<noteq> w" using ksend.hyps by auto
  have wt: "kpcs s u \<noteq> KSend t" for u using D(2) [of u t] ksend.hyps by auto
  have lt: "klock s \<noteq> Some t" using D(1) [of t] ksend.hyps by auto
  let ?s = "kgoto s t KIdle"
  have k: "kinv ?s"
  proof (rule kinv_act [OF ksend.prems])
    show "if u = t then KIdle = KWait \<or> kholds KIdle else kpcs s u = KWait \<or> kholds (kpcs s u)"
      if "klock s = Some u" for u using D(1) [OF that] lt that by auto
  qed (use wt D(3,5) in auto)
  note D' = kinvD [OF k]
  have lw: "klock ?s \<noteq> Some w" using D(3) [OF ksend.hyps(2)] by simp
  have sw: "kpcs ?s u \<noteq> KSend w" for u using D(4) [OF ksend.hyps(2), of u] by auto
  have "kinv (kact ?s w (klock ?s, KXchg))"
  proof (rule kinv_act [OF k])
    show "if u = w then KXchg = KWait \<or> kholds KXchg else kpcs ?s u = KWait \<or> kholds (kpcs ?s u)"
      if "klock ?s = Some u" for u using D'(1) [OF that] lw that by (auto simp del: kact_sel)
  qed (use sw D'(3,5) in \<open>auto simp del: kact_sel\<close>)
  then show ?case by simp
qed

interpretation km: invariant_of "kstep T" kmutex_init kinv for T
proof unfold_locales
  show "kinv kmutex_init" by (simp add: kinv_def kmutex_init_def)
qed (rule kstep_inv)

text \<open>C36: the kernel's mutex is exclusive for any number of threads, and none of its assertions fails: no thread
  finds itself as the owner when it locks, and the holder never finds the lock free when it unlocks.\<close>

theorem kernel_mutex_mutual_exclusion:
  assumes "reachable (kstep T) kmutex_init s"
  shows "(\<forall>t u. kpcs s t = KCrit \<longrightarrow> kpcs s u = KCrit \<longrightarrow> t = u) \<and> (\<forall>t. kpcs s t \<noteq> KFail)"
  using kinvD(6,7) [OF km.reachable_inv [OF assms]] by blast

text \<open>A run in which three threads compete.\<close>

definition k_lock :: "tid \<Rightarrow> kmutex \<Rightarrow> kmutex" where
  "k_lock t s = kact (kgoto s t KXchg) t (kmutex_lock t (klock s))"

definition k_unlock :: "tid \<Rightarrow> kmutex \<Rightarrow> kmutex" where
  "k_unlock t s = kact (kgoto s t KUnlock) t (kmutex_unlock t (klock s))"

lemma reach_lock:
  assumes "reachable (kstep T) kmutex_init s" "kpcs s t = KIdle" "t \<in> T"
  shows "reachable (kstep T) kmutex_init (k_lock t s)"
proof -
  have "reachable (kstep T) kmutex_init (kgoto s t KXchg)" using assms by (blast intro: reachable.more kstep.klock)
  moreover have "kstep T (kgoto s t KXchg) (k_lock t s)"
    using kstep.kxchg [of t T "kgoto s t KXchg"] assms(3) by (simp add: k_lock_def)
  ultimately show ?thesis by (rule reachable.more)
qed

lemma reach_unlock:
  assumes "reachable (kstep T) kmutex_init s" "kpcs s t = KCrit" "t \<in> T"
  shows "reachable (kstep T) kmutex_init (k_unlock t s)"
proof -
  have "reachable (kstep T) kmutex_init (kgoto s t KUnlock)" using assms by (blast intro: reachable.more kstep.kleave)
  moreover have "kstep T (kgoto s t KUnlock) (k_unlock t s)"
    using kstep.kunlock [of t T "kgoto s t KUnlock"] assms(3) by (simp add: k_unlock_def)
  ultimately show ?thesis by (rule reachable.more)
qed

theorem kernel_mutex_mutual_exclusion_witness:
  "\<exists>s. reachable (kstep UNIV) kmutex_init s \<and> kpcs s 0 = KCrit \<and> (\<forall>u. kpcs s u = KCrit \<longrightarrow> 0 = u)"
proof -
  have r: "reachable (kstep UNIV) kmutex_init (k_lock 0 kmutex_init)"
    by (rule reach_lock [OF reachable.start]) (simp_all add: kmutex_init_def)
  have "kpcs (k_lock 0 kmutex_init) 0 = KCrit" by (simp add: k_lock_def kmutex_lock_def kmutex_init_def)
  then show ?thesis using kernel_mutex_mutual_exclusion [OF r] r by blast
qed

text \<open>C38: with three threads the kernel's mutex loses a wake-up: there is a run after which the mutex is free, nobody
  is about to send a message, every other thread is idle, and one thread waits; it never gets the mutex
  unless another thread happens to wait after it and to be overwritten in turn.\<close>

theorem kernel_mutex_lost_wakeup:
  "\<exists>s. reachable (kstep {0, 1, 2}) kmutex_init s \<and> klock s = None \<and> kpcs s = (\<lambda>_. KIdle)(1 := KWait)"
proof -
  let ?R = "reachable (kstep {0, 1, 2}) kmutex_init"
  note E = k_lock_def k_unlock_def kmutex_lock_def kmutex_unlock_def kmutex_init_def
  define s1 where "s1 = k_lock 2 (k_lock 1 (k_lock 0 kmutex_init))"
  have r0: "?R (k_lock 0 kmutex_init)" by (rule reach_lock [OF reachable.start]) (simp_all add: E)
  have r1: "?R (k_lock 1 (k_lock 0 kmutex_init))" by (rule reach_lock [OF r0]) (simp_all add: E)
  have r2: "?R s1" unfolding s1_def by (rule reach_lock [OF r1]) (simp_all add: E)
  have p1: "kpcs s1 = (\<lambda>_. KIdle)(0 := KCrit, 1 := KWait, 2 := KWait)" "klock s1 = Some 2"
    by (simp_all add: s1_def E fun_eq_iff)
  define s2 where "s2 = k_unlock 0 s1"
  have r3: "?R s2" unfolding s2_def by (rule reach_unlock [OF r2]) (simp_all add: p1)
  have p2: "kpcs s2 = (\<lambda>_. KIdle)(0 := KSend 2, 1 := KWait, 2 := KWait)" "klock s2 = None"
    by (auto simp: s2_def k_unlock_def kmutex_unlock_def p1 fun_eq_iff)
  define s3 where "s3 = kgoto (kgoto s2 0 KIdle) 2 KXchg"
  have r4: "?R s3" unfolding s3_def by (rule reachable.more [OF r3], rule kstep.ksend) (simp_all add: p2)
  define s4 where "s4 = kact s3 2 (kmutex_lock 2 (klock s3))"
  have r5: "?R s4" unfolding s4_def by (rule reachable.more [OF r4], rule kstep.kxchg) (simp_all add: s3_def)
  have p4: "kpcs s4 = (\<lambda>_. KIdle)(1 := KWait, 2 := KCrit)" "klock s4 = Some 2"
    by (auto simp: s4_def s3_def kmutex_lock_def p2 fun_eq_iff)
  have "?R (k_unlock 2 s4)" by (rule reach_unlock [OF r5]) (simp_all add: p4)
  moreover have "kpcs (k_unlock 2 s4) = (\<lambda>_. KIdle)(1 := KWait)" "klock (k_unlock 2 s4) = None"
    by (auto simp: k_unlock_def kmutex_unlock_def p4 fun_eq_iff)
  ultimately show ?thesis by (intro exI [of _ "k_unlock 2 s4"]) simp
qed

text \<open>Two threads only: the thread that waits is named by the lock while the other one holds it.\<close>

definition served :: "tid \<Rightarrow> tid \<Rightarrow> kmutex \<Rightarrow> bool" where
  "served t u s \<longleftrightarrow> (kpcs s t = KWait \<longrightarrow> klock s = Some t \<and> kholds (kpcs s u) \<or> kpcs s u = KSend t)"

definition kinv2 :: "tid \<Rightarrow> tid \<Rightarrow> kmutex \<Rightarrow> bool" where
  "kinv2 a b s \<longleftrightarrow> kinv s \<and> (\<forall>t. t \<notin> {a, b} \<longrightarrow> kpcs s t = KIdle) \<and> served a b s \<and> served b a s"

lemma kinv2_sym: "kinv2 a b s \<Longrightarrow> kinv2 b a s"
  unfolding kinv2_def by (simp add: insert_commute)

lemma kstep_one: "kstep {a, b} s s' \<Longrightarrow> kstep {a} s s' \<or> kstep {b} s s'"
  by (induction rule: kstep.induct) (blast intro: kstep.intros)+

lemma kinv2_mover:
  assumes "kstep {t} s s'" "kinv2 t u s" "t \<noteq> u"
  shows "kinv2 t u s'"
proof -
  have I: "kinv s" "\<And>x. x \<noteq> t \<Longrightarrow> x \<noteq> u \<Longrightarrow> kpcs s x = KIdle" "served t u s" "served u t s"
    using assms(2) by (auto simp: kinv2_def)
  have "served t u s' \<and> served u t s' \<and> (\<forall>x. x \<notin> {t, u} \<longrightarrow> kpcs s' x = KIdle)"
    using assms(1)
  proof cases
    case (kxchg t')
    then have t: "t' = t" "kpcs s t = KXchg" by simp_all
    have "klock s = None \<or> klock s = Some u \<and> kholds (kpcs s u)"
    proof (cases "klock s")
      case (Some x)
      then have p: "kpcs s x = KWait \<or> kholds (kpcs s x)" by (rule kinvD(1) [OF I(1)])
      then have "x = u" using I(2) [of x] t(2) by force
      then show ?thesis using Some p I(4) t(2) by (auto simp: served_def)
    qed simp
    then show ?thesis
      unfolding kxchg(1) t(1) using I(2,4) assms(3) t(2) by (auto simp: served_def kmutex_lock_def)
  next
    case (kunlock t')
    then have t: "t' = t" "kpcs s t = KUnlock" by simp_all
    then show ?thesis
      unfolding kunlock(1) t(1) using I(2,4) assms(3) by (auto simp: served_def kmutex_unlock_def split: option.splits)
  next
    case (ksend t' w)
    then have t: "t' = t" "kpcs s t = KSend w" "kpcs s w = KWait" by simp_all
    then have "w = u" using I(2) [of w] by fastforce
    then show ?thesis unfolding ksend(1) t(1) using I(2) assms(3) by (auto simp: served_def)
  next
    case (klock t')
    then have t: "t' = t" "kpcs s t = KIdle" by simp_all
    then show ?thesis unfolding klock(1) t(1) using I(2,4) assms(3) by (auto simp: served_def)
  next
    case (ktry t')
    then have t: "t' = t" "kpcs s t = KIdle" by simp_all
    then show ?thesis unfolding ktry(1) t(1) using I(2,4) assms(3) by (auto simp: served_def kmutex_trylock_def)
  next
    case (kleave t')
    then have t: "t' = t" "kpcs s t = KCrit" by simp_all
    then show ?thesis unfolding kleave(1) t(1) using I(2,4) assms(3) by (auto simp: served_def)
  qed
  then show ?thesis using kstep_inv [OF assms(1) I(1)] by (simp add: kinv2_def)
qed

lemma kstep_kinv2: "a \<noteq> b \<Longrightarrow> kinv2 a b s \<Longrightarrow> kstep {a, b} s s' \<Longrightarrow> kinv2 a b s'"
  using kstep_one [of a b s s'] kinv2_mover [of a s s' b] kinv2_mover [of b s s' a] kinv2_sym by metis

text \<open>With two threads, as in the kernel with its server and its ager, no wake-up is lost: a thread that waits
  is either about to be woken, or the other thread holds the mutex and will find it named in the lock.\<close>

theorem kernel_mutex_two_threads:
  assumes "a \<noteq> b" "reachable (kstep {a, b}) kmutex_init s" "kpcs s a = KWait"
  shows "kpcs s b = KSend a \<or> kholds (kpcs s b) \<and> snd (kmutex_unlock b (klock s)) = KSend a"
proof -
  have "kinv2 a b s" using assms(2)
  proof (induction rule: reachable.induct)
    case start
    show ?case by (simp add: kinv2_def kinv_def served_def kmutex_init_def)
  next
    case (more s s')
    then show ?case using kstep_kinv2 [OF assms(1)] by blast
  qed
  then show ?thesis using assms(1,3) by (auto simp: kinv2_def served_def kmutex_unlock_def)
qed

theorem kernel_mutex_two_threads_witness:
  "\<exists>s. reachable (kstep {1, 0}) kmutex_init s \<and> kpcs s 1 = KWait \<and> (kpcs s 0 = KSend 1 \<or> kholds (kpcs s 0))"
proof -
  note E = k_lock_def kmutex_lock_def kmutex_init_def
  have r0: "reachable (kstep {1, 0}) kmutex_init (k_lock 0 kmutex_init)" by (rule reach_lock [OF reachable.start]) (simp_all add: E)
  have r1: "reachable (kstep {1, 0}) kmutex_init (k_lock 1 (k_lock 0 kmutex_init))" by (rule reach_lock [OF r0]) (simp_all add: E)
  have w: "kpcs (k_lock 1 (k_lock 0 kmutex_init)) 1 = KWait" by (simp add: E)
  show ?thesis using kernel_mutex_two_threads [OF _ r1 w] r1 w by auto
qed

subsection \<open>The recursive mutex\<close>

text \<open>A recursive mutex consists of a mutex that protects the other two fields (here: whether somebody holds
  it), the nesting depth, negative when there may be waiters, and the owner.\<close>

record rmutex =
  meta :: bool
  count :: int
  owner :: "tid option"

definition SS_RMUTEX_INIT :: rmutex where
  "SS_RMUTEX_INIT = \<lparr>meta = False, count = 0, owner = None\<rparr>"

datatype lock_result = Got | Busy int

text \<open>What \<open>ss_rmutex_lock\<close> does while it holds the protecting mutex: it gets the mutex, or is to wait for
  the count to change. \<open>None\<close> is a failed assertion.\<close>

definition rmutex_lock :: "tid \<Rightarrow> rmutex \<Rightarrow> (lock_result \<times> rmutex) option" where
  "rmutex_lock me m =
     (if owner m = Some me then do {
        c_assert (count m \<noteq> 0);
        Some (Got, m\<lparr>count := if count m > 0 then count m + 1 else count m - 1\<rparr>)
      }
      else if owner m = None then do {
        c_assert (count m = 0);
        Some (Got, m\<lparr>count := 1, owner := Some me\<rparr>)
      }
      else do {
        c_assert (count m \<noteq> 0);
        let m = (if count m > 0 then m\<lparr>count := - count m\<rparr> else m);
        Some (Busy (count m), m)
      })"

text \<open>The result says whether a waiter is to be woken.\<close>

definition rmutex_unlock :: "tid \<Rightarrow> rmutex \<Rightarrow> (bool \<times> rmutex) option" where
  "rmutex_unlock me m = do {
     c_assert (owner m = Some me);
     c_assert (count m \<noteq> 0);
     let waiters = (count m < 0);
     let m = m\<lparr>count := if count m > 0 then count m - 1 else count m + 1\<rparr>;
     let released = (count m = 0);
     let m = (if released then m\<lparr>owner := None\<rparr> else m);
     Some (released \<and> waiters, m)
   }"

text \<open>\<open>ss_rmutex_trylock\<close> takes the protecting mutex itself; the path on which another thread owns the recursive
  mutex does not release it.\<close>

definition rmutex_trylock :: "tid \<Rightarrow> rmutex \<Rightarrow> (bool \<times> rmutex) option" where
  "rmutex_trylock me m =
     (if meta m then Some (False, m)
      else let m = m\<lparr>meta := True\<rparr> in
        if owner m = Some me then do {
          c_assert (count m \<noteq> 0);
          let m = m\<lparr>count := if count m > 0 then count m + 1 else count m - 1\<rparr>;
          Some (True, m\<lparr>meta := False\<rparr>)
        }
        else if owner m = None then do {
          c_assert (count m = 0);
          let m = m\<lparr>count := 1, owner := Some me\<rparr>;
          Some (True, m\<lparr>meta := False\<rparr>)
        }
        else do {
          c_assert (count m \<noteq> 0);
          Some (False, m)
        })"

text \<open>The system: a thread is outside, about to take the protecting mutex in order to lock, about to wait for the
  count to change, asleep, inside of \<open>n\<close> nested critical sections, or about to wake a sleeper. The parts of
  \<open>ss_rmutex_lock\<close> and \<open>ss_rmutex_unlock\<close> under the protecting mutex are one step; a failed assertion of either is a step
  to a state that is marked as failed.\<close>

datatype rpc = ROut | RLock nat | RWait int | RSleep | RIn nat | RWake

record rsys =
  rm :: rmutex
  rpcs :: "tid \<Rightarrow> rpc"
  rfailed :: bool

definition rgoto :: "rsys \<Rightarrow> tid \<Rightarrow> rpc \<Rightarrow> rsys" where
  "rgoto s t p = s\<lparr>rpcs := (rpcs s)(t := p)\<rparr>"

definition depth :: "rpc \<Rightarrow> nat" where
  "depth p = (case p of RIn n \<Rightarrow> n | RLock n \<Rightarrow> n | _ \<Rightarrow> 0)"

inductive rstep :: "rsys \<Rightarrow> rsys \<Rightarrow> bool" where
  rcall: "rpcs s t = ROut \<Longrightarrow> rstep s (rgoto s t (RLock 0))"
| ragain: "rpcs s t = RIn n \<Longrightarrow> rstep s (rgoto s t (RLock n))"
| rgot: "rpcs s t = RLock n \<Longrightarrow> \<not> meta (rm s) \<Longrightarrow> rmutex_lock t (rm s) = Some (Got, m) \<Longrightarrow>
    rstep s (rgoto (s\<lparr>rm := m\<rparr>) t (RIn (Suc n)))"
| rbusy: "rpcs s t = RLock n \<Longrightarrow> \<not> meta (rm s) \<Longrightarrow> rmutex_lock t (rm s) = Some (Busy c, m) \<Longrightarrow>
    rstep s (rgoto (s\<lparr>rm := m\<rparr>) t (RWait c))"
| rsleep: "rpcs s t = RWait c \<Longrightarrow> count (rm s) = c \<Longrightarrow> rstep s (rgoto s t RSleep)"
| rretry: "rpcs s t = RWait c \<Longrightarrow> rstep s (rgoto s t (RLock 0))"
| runlock: "rpcs s t = RIn n \<Longrightarrow> \<not> meta (rm s) \<Longrightarrow> rmutex_unlock t (rm s) = Some (w, m) \<Longrightarrow>
    rstep s (rgoto (s\<lparr>rm := m\<rparr>) t (if w then RWake else if n = 1 then ROut else RIn (n - 1)))"
| rlock_fails: "rpcs s t = RLock n \<Longrightarrow> \<not> meta (rm s) \<Longrightarrow> rmutex_lock t (rm s) = None \<Longrightarrow> rstep s (s\<lparr>rfailed := True\<rparr>)"
| runlock_fails: "rpcs s t = RIn n \<Longrightarrow> \<not> meta (rm s) \<Longrightarrow> rmutex_unlock t (rm s) = None \<Longrightarrow> rstep s (s\<lparr>rfailed := True\<rparr>)"
| rwake: "rpcs s t = RWake \<Longrightarrow> rpcs s u = RSleep \<Longrightarrow> rstep s (rgoto (rgoto s t ROut) u (RLock 0))"
| rwake_none: "rpcs s t = RWake \<Longrightarrow> (\<forall>u. rpcs s u \<noteq> RSleep) \<Longrightarrow> rstep s (rgoto s t ROut)"

definition rsys_init :: rsys where
  "rsys_init = \<lparr>rm = SS_RMUTEX_INIT, rpcs = (\<lambda>_. ROut), rfailed = False\<rparr>"

text \<open>The owner is the thread inside, and the count is its depth of nesting.\<close>

definition rinv :: "rsys \<Rightarrow> bool" where
  "rinv s \<longleftrightarrow> \<not> rfailed s \<and> (\<forall>t. rpcs s t \<noteq> RIn 0) \<and> \<not> meta (rm s) \<and> (\<forall>t. depth (rpcs s t) > 0 \<longrightarrow> owner (rm s) = Some t) \<and>
     (case owner (rm s) of None \<Rightarrow> count (rm s) = 0
      | Some t \<Rightarrow> \<bar>count (rm s)\<bar> = int (depth (rpcs s t)) \<and> depth (rpcs s t) > 0)"

lemma rgoto_sel [simp]: "rm (rgoto s t p) = rm s" "rpcs (rgoto s t p) = (rpcs s)(t := p)" "rfailed (rgoto s t p) = rfailed s"
  by (simp_all add: rgoto_def)

lemma depth_simps [simp]: "depth ROut = 0" "depth (RLock n) = n" "depth (RWait c) = 0" "depth RSleep = 0"
  "depth (RIn n) = n" "depth RWake = 0"
  by (simp_all add: depth_def)

lemma rinv_frame:
  assumes "rinv s" "rm s' = rm s" "rfailed s' = rfailed s" "\<And>t. depth (rpcs s' t) = depth (rpcs s t)" "\<And>t. rpcs s' t \<noteq> RIn 0"
  shows "rinv (s' :: rsys)"
  using assms unfolding rinv_def by (simp cong: option.case_cong)

lemma rinv_owner: "rinv s \<Longrightarrow> owner (rm s) = Some t \<Longrightarrow> \<bar>count (rm s)\<bar> = int (depth (rpcs s t)) \<and> depth (rpcs s t) > 0"
  by (simp add: rinv_def)

lemma rinv_depth: "rinv s \<Longrightarrow> depth (rpcs s t) > 0 \<Longrightarrow> owner (rm s) = Some t"
  by (simp add: rinv_def)

lemma rinvI:
  assumes "\<not> meta (rm s)" "owner (rm s) = Some t" "\<bar>count (rm s)\<bar> = int (depth (rpcs s t))" "depth (rpcs s t) > 0"
    "\<And>u. u \<noteq> t \<Longrightarrow> depth (rpcs s u) = 0" "\<not> rfailed s" "\<And>u. rpcs s u \<noteq> RIn 0"
  shows "rinv s"
proof -
  have "depth (rpcs s u) > 0 \<Longrightarrow> u = t" for u using assms(5) [of u] by (cases "u = t") simp_all
  then show ?thesis using assms(1,3,4,6,7) unfolding rinv_def assms(2) option.case option.inject by blast
qed

lemma rinv_others: "rinv s \<Longrightarrow> owner (rm s) = Some t \<Longrightarrow> u \<noteq> t \<Longrightarrow> depth (rpcs s u) = 0"
  using rinv_depth [of s u] by auto

lemma rinv_fine: "rinv s \<Longrightarrow> \<not> rfailed s" "rinv s \<Longrightarrow> rpcs s u \<noteq> RIn 0" "rinv s \<Longrightarrow> \<not> meta (rm s)"
  by (simp_all add: rinv_def)

lemma rinv_nobody: "rinv s \<Longrightarrow> owner (rm s) = None \<Longrightarrow> depth (rpcs s u) = 0 \<and> count (rm s) = 0"
  by (simp add: rinv_def)

text \<open>In such a state no assertion of locking fails for anybody, and none of unlocking for a thread that is inside.\<close>

lemma rinv_asserts:
  assumes "rinv s"
  shows "rmutex_lock u (rm s) \<noteq> None" "rpcs s t = RIn n \<Longrightarrow> rmutex_unlock t (rm s) \<noteq> None"
proof -
  have "count (rm s) \<noteq> 0" if "owner (rm s) = Some v" for v using rinv_owner [OF assms that] by auto
  then show "rmutex_lock u (rm s) \<noteq> None"
    using rinv_nobody [OF assms] by (cases "owner (rm s)") (auto simp: rmutex_lock_def Let_def)
  assume "rpcs s t = RIn n"
  then have "owner (rm s) = Some t" using rinv_depth [OF assms, of t] rinv_fine(2) [OF assms, of t] by (cases n) auto
  then show "rmutex_unlock t (rm s) \<noteq> None" using rinv_owner [OF assms, of t] by (auto simp: rmutex_unlock_def Let_def)
qed

lemma rstep_inv: "rstep s s' \<Longrightarrow> rinv s \<Longrightarrow> rinv s'"
proof (induction rule: rstep.induct)
  case (rgot s t n m)
  note I = rgot.prems
  show ?case
  proof (cases "owner (rm s)")
    case None
    then have m: "m = (rm s)\<lparr>count := 1, owner := Some t\<rparr>" "n = 0"
      using rgot.hyps rinv_nobody [OF I None, of t] by (simp_all add: rmutex_lock_def)
    show ?thesis by (rule rinvI [where t = t]) (use m rgot.hyps(2) rinv_nobody [OF I None] rinv_fine [OF I] in simp_all)
  next
    case (Some u)
    then have "u = t" using rgot.hyps by (auto simp: rmutex_lock_def c_assert_bind_if Let_def split: if_splits)
    then have t: "owner (rm s) = Some t" using Some by simp
    then have m: "m = (rm s)\<lparr>count := if count (rm s) > 0 then count (rm s) + 1 else count (rm s) - 1\<rparr>" "count (rm s) \<noteq> 0"
      using rgot.hyps by (auto simp: rmutex_lock_def)
    show ?thesis
      by (rule rinvI [where t = t]) (use m t rgot.hyps(1,2) rinv_owner [OF I t] rinv_others [OF I t] rinv_fine [OF I] in auto)
  qed
next
  case (rbusy s t n c m)
  note I = rbusy.prems
  obtain u where u: "owner (rm s) = Some u" "u \<noteq> t" "\<bar>count m\<bar> = \<bar>count (rm s)\<bar>" "owner m = owner (rm s)" "meta m = meta (rm s)"
    using rbusy.hyps by (cases "owner (rm s)") (auto simp: rmutex_lock_def c_assert_bind_if Let_def split: if_splits)
  then show ?case using rbusy.hyps(2) rinv_owner [OF I, of u] rinv_others [OF I, of u] rinv_fine [OF I]
    by (intro rinvI [where t = u]) auto
next
  case (runlock s t n w m)
  note I = runlock.prems
  have t: "owner (rm s) = Some t" "count (rm s) \<noteq> 0" using runlock.hyps(3) by (auto simp: rmutex_unlock_def)
  note o = rinv_owner [OF I t(1)] rinv_others [OF I t(1)]
  show ?case
  proof (cases "n = 1")
    case True
    then have "\<bar>count (rm s)\<bar> = 1" using o(1) runlock.hyps(1) by simp
    then have "count m = 0" "owner m = None" "meta m = meta (rm s)"
      using runlock.hyps(3) t by (auto simp: rmutex_unlock_def Let_def split: if_splits)
    then show ?thesis using o(2) runlock.hyps(2) True rinv_fine [OF I] by (auto simp: rinv_def)
  next
    case False
    then have "\<bar>count (rm s)\<bar> \<ge> 2" "int n = \<bar>count (rm s)\<bar>" using o(1) runlock.hyps(1) by auto
    then have "\<bar>count m\<bar> = int (n - 1)" "owner m = Some t" "meta m = meta (rm s)" "\<not> w" "n - 1 > 0"
      using runlock.hyps(3) t by (auto simp: rmutex_unlock_def Let_def split: if_splits)
    then show ?thesis using o(2) runlock.hyps(2) False rinv_fine [OF I] by (intro rinvI [where t = t]) auto
  qed
next
  case (rlock_fails s t n)
  then show ?case using rinv_asserts(1) by blast
next
  case (runlock_fails s t n)
  then show ?case using rinv_asserts(2) by blast
qed (rule rinv_frame, assumption, simp_all add: rinv_fine)+

interpretation rs: invariant_of rstep rsys_init rinv
proof unfold_locales
  show "rinv rsys_init" by (simp add: rinv_def rsys_init_def SS_RMUTEX_INIT_def)
qed (rule rstep_inv)

text \<open>C37: a recursive mutex that is only locked and unlocked. In no reachable state has an assertion of locking or
  unlocking failed, and none would fail for any thread that locks the mutex or any thread inside that unlocks it; this
  includes the assertion that a mutex without owner has count 0. At most one thread is inside, it is the owner,
  and the absolute value of the count is its depth of nesting; a mutex without owner has count 0 and nobody inside.\<close>

theorem rmutex_owner_depth:
  assumes "reachable rstep rsys_init s"
  shows "\<not> rfailed s \<and> (\<forall>u. rmutex_lock u (rm s) \<noteq> None) \<and> (\<forall>t n. rpcs s t = RIn n \<longrightarrow> rmutex_unlock t (rm s) \<noteq> None)
    \<and> (\<forall>t n. rpcs s t = RIn n \<longrightarrow> owner (rm s) = Some t \<and> \<bar>count (rm s)\<bar> = int n \<and> (\<forall>u k. rpcs s u = RIn k \<longrightarrow> u = t))
    \<and> (owner (rm s) = None \<longrightarrow> count (rm s) = 0 \<and> (\<forall>t n. rpcs s t \<noteq> RIn n))"
proof -
  have I: "rinv s" by (rule rs.reachable_inv [OF assms])
  have o: "owner (rm s) = Some t" if "rpcs s t = RIn n" for t n
    using that rinv_depth [OF I, of t] rinv_fine(2) [OF I, of t] by (cases n) auto
  have "\<bar>count (rm s)\<bar> = int n" if "rpcs s t = RIn n" for t n using rinv_owner [OF I o [OF that]] that by simp
  moreover have "count (rm s) = 0" if "owner (rm s) = None" using rinv_nobody [OF I that] by simp
  moreover have "u = t" if "rpcs s t = RIn n" "rpcs s u = RIn k" for t n u k using o [OF that(1)] o [OF that(2)] by simp
  moreover have "rpcs s t \<noteq> RIn n" if "owner (rm s) = None" for t n using o that by fastforce
  ultimately show ?thesis using rinv_asserts [OF I] rinv_fine(1) [OF I] o by blast
qed

text \<open>Three threads: the first is inside, the others sleep.\<close>

lemma rlock_run:
  assumes "reachable rstep rsys_init s" "rpcs s t = ROut" "\<not> meta (rm s)" "rmutex_lock t (rm s) = Some (Got, m)"
  shows "reachable rstep rsys_init (rgoto (s\<lparr>rm := m\<rparr>) t (RIn 1))"
proof -
  have "reachable rstep rsys_init (rgoto s t (RLock 0))" using assms(1,2) by (blast intro: reachable.more rstep.rcall)
  moreover have "rstep (rgoto s t (RLock 0)) (rgoto (s\<lparr>rm := m\<rparr>) t (RIn 1))"
    using rstep.rgot [of "rgoto s t (RLock 0)" t 0 m] assms(3,4) by (simp add: rgoto_def)
  ultimately show ?thesis by (rule reachable.more)
qed

lemma rsleep_run:
  assumes "reachable rstep rsys_init s" "rpcs s t = ROut" "\<not> meta (rm s)" "rmutex_lock t (rm s) = Some (Busy (count m), m)"
  shows "reachable rstep rsys_init (rgoto (s\<lparr>rm := m\<rparr>) t RSleep)"
proof -
  have "reachable rstep rsys_init (rgoto s t (RLock 0))" using assms(1,2) by (blast intro: reachable.more rstep.rcall)
  moreover have "rstep (rgoto s t (RLock 0)) (rgoto (s\<lparr>rm := m\<rparr>) t (RWait (count m)))"
    using rstep.rbusy [of "rgoto s t (RLock 0)" t 0 "count m" m] assms(3,4) by (simp add: rgoto_def)
  moreover have "rstep (rgoto (s\<lparr>rm := m\<rparr>) t (RWait (count m))) (rgoto (s\<lparr>rm := m\<rparr>) t RSleep)"
    using rstep.rsleep [of "rgoto (s\<lparr>rm := m\<rparr>) t (RWait (count m))" t "count m"] by (simp add: rgoto_def)
  ultimately show ?thesis by (blast intro: reachable.more)
qed

definition two_asleep :: rsys where
  "two_asleep = \<lparr>rm = \<lparr>meta = False, count = -1, owner = Some 0\<rparr>, rpcs = (\<lambda>_. ROut)(0 := RIn 1, 1 := RSleep, 2 := RSleep),
     rfailed = False\<rparr>"

lemma two_asleep_reachable: "reachable rstep rsys_init two_asleep"
proof -
  let ?m1 = "\<lparr>meta = False, count = 1, owner = Some 0\<rparr>" let ?m2 = "\<lparr>meta = False, count = -1, owner = Some 0\<rparr>"
  have 1: "reachable rstep rsys_init (rgoto (rsys_init\<lparr>rm := ?m1\<rparr>) 0 (RIn 1))"
    by (rule rlock_run [OF reachable.start]) (simp_all add: rsys_init_def SS_RMUTEX_INIT_def rmutex_lock_def)
  have 2: "reachable rstep rsys_init (rgoto ((rgoto (rsys_init\<lparr>rm := ?m1\<rparr>) 0 (RIn 1))\<lparr>rm := ?m2\<rparr>) 1 RSleep)" (is "reachable _ _ ?s2")
    by (rule rsleep_run [OF 1]) (simp_all add: rsys_init_def rmutex_lock_def)
  have "reachable rstep rsys_init (rgoto (?s2\<lparr>rm := ?m2\<rparr>) 2 RSleep)"
    by (rule rsleep_run [OF 2]) (simp_all add: rsys_init_def rmutex_lock_def rgoto_def)
  then show ?thesis by (simp add: two_asleep_def rsys_init_def rgoto_def)
qed

theorem rmutex_owner_depth_witness:
  "reachable rstep rsys_init two_asleep \<and> rpcs two_asleep 0 = RIn 1 \<and> owner (rm two_asleep) = Some 0 \<and> \<bar>count (rm two_asleep)\<bar> = int 1
    \<and> rmutex_lock 1 (rm two_asleep) \<noteq> None \<and> rmutex_unlock 0 (rm two_asleep) \<noteq> None"
proof -
  have p: "rpcs two_asleep 0 = RIn 1" by (simp add: two_asleep_def)
  show ?thesis using rmutex_owner_depth [OF two_asleep_reachable] p two_asleep_reachable by blast
qed

text \<open>A recursive mutex with two waiters loses a wake-up: the first waiter that is woken becomes the owner with a
  positive count, so its unlock wakes nobody. There is a run after which the mutex is free, no thread is
  inside or about to wake anybody, and a thread sleeps.\<close>

theorem rmutex_lost_wakeup:
  "\<exists>s. reachable rstep rsys_init s \<and> rm s = SS_RMUTEX_INIT \<and> rpcs s = (\<lambda>_. ROut)(2 := RSleep)"
proof -
  let ?R = "reachable rstep rsys_init"
  let ?f = "\<lparr>meta = False, count = 0, owner = None\<rparr>"
  define s1 where "s1 = rgoto (two_asleep\<lparr>rm := ?f\<rparr>) 0 RWake"
  have "rstep two_asleep s1" unfolding s1_def
    using rstep.runlock [of two_asleep 0 1 True ?f] by (simp add: two_asleep_def rmutex_unlock_def Let_def)
  then have 1: "?R s1" by (rule reachable.more [OF two_asleep_reachable])
  define s2 where "s2 = rgoto (rgoto s1 0 ROut) 1 (RLock 0)"
  have "rstep s1 s2" unfolding s2_def by (rule rstep.rwake) (simp_all add: s1_def two_asleep_def)
  then have 2: "?R s2" by (rule reachable.more [OF 1])
  let ?m = "\<lparr>meta = False, count = 1, owner = Some 1\<rparr>"
  define s3 where "s3 = rgoto (s2\<lparr>rm := ?m\<rparr>) 1 (RIn (Suc 0))"
  have "rstep s2 s3" unfolding s3_def by (rule rstep.rgot) (simp_all add: s2_def s1_def rmutex_lock_def)
  then have 3: "?R s3" by (rule reachable.more [OF 2])
  define s4 where "s4 = rgoto (s3\<lparr>rm := ?f\<rparr>) 1 ROut"
  have "rstep s3 s4" unfolding s4_def
    using rstep.runlock [of s3 1 1 False ?f] by (simp add: s3_def rmutex_unlock_def Let_def)
  then have 4: "?R s4" by (rule reachable.more [OF 3])
  show ?thesis using 4
    by (intro exI [of _ s4]) (auto simp: s4_def s3_def s2_def s1_def two_asleep_def SS_RMUTEX_INIT_def rgoto_def)
qed

text \<open>With \<open>ss_rmutex_trylock\<close> as a further step.\<close>

inductive rtstep :: "rsys \<Rightarrow> rsys \<Rightarrow> bool" where
  plain: "rstep s s' \<Longrightarrow> rtstep s s'"
| rtry: "rpcs s t = ROut \<Longrightarrow> rmutex_trylock t (rm s) = Some (b, m) \<Longrightarrow>
    rtstep s (rgoto (s\<lparr>rm := m\<rparr>) t (if b then RIn 1 else ROut))"

lemma wedged_step: "rtstep s s' \<Longrightarrow> meta (rm s) \<Longrightarrow> rm s' = rm s"
  by (induction rule: rtstep.induct) (auto simp: rmutex_trylock_def elim!: rstep.cases)

text \<open>A failed \<open>ss_rmutex_trylock\<close> on a recursive mutex that another thread owns keeps the protecting mutex locked:
  from then on no run changes the recursive mutex, so that nobody, the owner included, can lock or
  unlock it any more.\<close>

theorem rmutex_trylock_wedges:
  assumes "\<not> meta (rm s)" "owner (rm s) = Some u" "u \<noteq> t" "count (rm s) \<noteq> 0" "rpcs s t = ROut"
  shows "\<exists>s'. rmutex_trylock t (rm s) = Some (False, rm s') \<and> rtstep s s' \<and>
    (\<forall>s''. reachable rtstep s' s'' \<longrightarrow> meta (rm s'') \<and> owner (rm s'') = Some u \<and> count (rm s'') = count (rm s))"
proof -
  define m where "m = (rm s)\<lparr>meta := True\<rparr>"
  have t: "rmutex_trylock t (rm s) = Some (False, m)" using assms by (simp add: rmutex_trylock_def m_def)
  define s' where "s' = rgoto (s\<lparr>rm := m\<rparr>) t ROut"
  have st: "rtstep s s'" using rtstep.rtry [OF assms(5) t] by (simp add: s'_def)
  have "rm s'' = m" if "reachable rtstep s' s''" for s''
    using that
  proof (induction rule: reachable.induct)
    case (more x y)
    then show ?case using wedged_step [OF more.hyps(2)] by (simp add: m_def)
  qed (simp add: s'_def)
  then show ?thesis using t st assms(2) by (intro exI [of _ s']) (auto simp: m_def s'_def)
qed

theorem rmutex_trylock_wedges_witness:
  "\<exists>s'. rtstep two_asleep s' \<and> (\<forall>s''. reachable rtstep s' s'' \<longrightarrow> meta (rm s'') \<and> owner (rm s'') = Some 0)"
  using rmutex_trylock_wedges [of two_asleep 0 3] by (auto simp: two_asleep_def)

end
