(* ===== verification/Claim.thy ===== *)
theory Claim
  imports Cap
begin

text \<open>
  Accounting of memory to activities: \<open>activity_charge\<close> of \<^verbatim>\<open>viengoos/activity.h\<close> and \<open>object_desc_claim\<close> of
  \<^verbatim>\<open>viengoos/object.c\<close>, which transfers the ownership of an object in memory.

  Activities and object descriptors are named by numbers. The lists of an activity and the global lists
  of clean (\<open>available\<close>) and dirty (\<open>laundry\<close>) eviction candidates are lists of descriptors, as justified
  for the circular lists of \<^verbatim>\<open>viengoos/list.h\<close>; unlinking fails if the item is not attached to the
  list. The tree of objects with a priority is a list as well: this code only adds and removes.
  \<open>None\<close> is a failed assertion. Counters are 32-bit words.
\<close>

subsection \<open>State\<close>

type_synonym aid = nat
type_synonym did = nat

record object_desc =
  d_dirty :: bool
  d_user_dirty :: bool
  d_user_referenced :: bool
  d_eviction_candidate :: bool
  d_mapped :: bool
  d_live :: bool
  d_policy :: object_policy
  d_age :: u8
  d_activity :: "aid option"

record activity =
  a_parent :: "aid option"
  a_active :: "did list"
  a_inactive :: "did list"
  a_priorities :: "did list"
  a_priorities_count :: int
  a_eviction_clean :: "did list"
  a_eviction_dirty :: "did list"
  frames_local :: u32
  frames_total :: u32
  frames_pending_eviction :: u32
  free_bad_karma :: u32
  free_goal :: u32
  free_allocations :: u32
  free_initial_allocation :: u32
  frames_excluded :: u32
  stat_claimed :: u32
  stat_disowned :: u32
  stat_evicted :: u32

record mem_state =
  acts :: "aid \<Rightarrow> activity"
  descs :: "did \<Rightarrow> object_desc"
  laundry :: "did list"
  available :: "did list"
  root_activity :: aid

subsection \<open>Helpers\<close>

definition object_age :: "u8 \<Rightarrow> bool \<Rightarrow> u8" where
  "object_age age referenced = (let age = shr age 1 in if referenced then age OR shl 1 7 else age)"

definition object_active :: "object_desc \<Rightarrow> bool" where
  "object_active desc \<longleftrightarrow> d_age desc \<noteq> 0"

definition upd_act :: "aid \<Rightarrow> (activity \<Rightarrow> activity) \<Rightarrow> mem_state \<Rightarrow> mem_state" where
  "upd_act a f s = s\<lparr>acts := (acts s)(a := f (acts s a))\<rparr>"

definition upd_desc :: "did \<Rightarrow> (object_desc \<Rightarrow> object_desc) \<Rightarrow> mem_state \<Rightarrow> mem_state" where
  "upd_desc d f s = s\<lparr>descs := (descs s)(d := f (descs s d))\<rparr>"

definition unlink :: "did \<Rightarrow> did list \<Rightarrow> did list option" where
  "unlink d xs = do { c_assert (d \<in> set xs); Some (remove1 d xs) }"

text \<open>The activities from \<open>a\<close> to the root.\<close>

partial_function (option) ancestors :: "(aid \<Rightarrow> aid option) \<Rightarrow> aid \<Rightarrow> aid \<Rightarrow> aid list option" where
  "ancestors par root a = (case par a of
     None \<Rightarrow> do { c_assert (a = root); Some [a] }
   | Some p \<Rightarrow> do { as \<leftarrow> ancestors par root p; Some (a # as) })"

definition activity_for_each_ancestor :: "mem_state \<Rightarrow> aid \<Rightarrow> (activity \<Rightarrow> activity) \<Rightarrow> mem_state option" where
  "activity_for_each_ancestor s a f = do {
     as \<leftarrow> ancestors (\<lambda>x. a_parent (acts s x)) (root_activity s) a;
     Some (fold (\<lambda>x. upd_act x f) as s)
   }"

definition activity_charge :: "mem_state \<Rightarrow> aid \<Rightarrow> int \<Rightarrow> mem_state option" where
  "activity_charge s a n = do {
     c_assert (n < 0 \<longrightarrow> of_int (- n) \<le> frames_local (acts s a));
     let s = upd_act a (\<lambda>x. x\<lparr>frames_local := frames_local x + of_int n\<rparr>) s;
     as \<leftarrow> ancestors (\<lambda>x. a_parent (acts s x)) (root_activity s) a;
     c_assert (n < 0 \<longrightarrow> (\<forall>x \<in> set as. of_int (- n) \<le> frames_total (acts s x)));
     activity_for_each_ancestor s a (\<lambda>x. (if n > 0 then x\<lparr>stat_claimed := stat_claimed x + of_int n\<rparr>
       else x\<lparr>stat_disowned := stat_disowned x + of_int (- n)\<rparr>)\<lparr>frames_total := frames_total x + of_int n\<rparr>)
   }"

text \<open>The assertion on the lists of an activity that \<open>object_desc_claim\<close> checks before and after.\<close>

definition lists_counted :: "activity \<Rightarrow> bool" where
  "lists_counted x \<longleftrightarrow> of_int (a_priorities_count x + int (length (a_active x)) + int (length (a_inactive x))
     + int (length (a_eviction_dirty x))) = frames_local x"

subsection \<open>Claiming\<close>

definition needs_laundry :: "object_desc \<Rightarrow> bool" where
  "needs_laundry desc \<longleftrightarrow> d_dirty desc \<and> \<not> pol_discardable (d_policy desc)"

text \<open>The descriptor \<open>d\<close> is taken off the lists of its owner \<open>old\<close>.\<close>

definition claim_unlink :: "mem_state \<Rightarrow> aid \<Rightarrow> aid option \<Rightarrow> did \<Rightarrow> bool \<Rightarrow> mem_state option" where
  "claim_unlink s old a d update_accounting =
     (let desc = descs s d in
      if d_eviction_candidate desc then
        (if needs_laundry desc then do {
           l \<leftarrow> unlink d (laundry s);
           let s = s\<lparr>laundry := l\<rparr>;
           l \<leftarrow> unlink d (a_eviction_dirty (acts s old));
           let s = upd_act old (\<lambda>x. x\<lparr>a_eviction_dirty := l\<rparr>) s;
           if update_accounting then
             let s = (if a \<noteq> Some old then upd_act old (\<lambda>x. x\<lparr>frames_local := frames_local x - 1\<rparr>) s else s) in
             activity_for_each_ancestor s old (\<lambda>x.
               (if a \<noteq> Some old then x\<lparr>frames_total := frames_total x - 1\<rparr> else x)
                 \<lparr>frames_pending_eviction := frames_pending_eviction x - 1\<rparr>)
           else Some s
         }
         else do {
           l \<leftarrow> unlink d (available s);
           let s = s\<lparr>available := l\<rparr>;
           l \<leftarrow> unlink d (a_eviction_clean (acts s old));
           Some (upd_act old (\<lambda>x. x\<lparr>a_eviction_clean := l\<rparr>) s)
         })
      else do {
        s \<leftarrow> (if pol_priority (d_policy desc) \<noteq> OBJECT_PRIORITY_LRU then do {
               l \<leftarrow> unlink d (a_priorities (acts s old));
               Some (upd_act old (\<lambda>x. x\<lparr>a_priorities := l, a_priorities_count := a_priorities_count x - 1\<rparr>) s)
             }
             else if object_active desc then do {
               l \<leftarrow> unlink d (a_active (acts s old));
               Some (upd_act old (\<lambda>x. x\<lparr>a_active := l\<rparr>) s)
             }
             else do {
               l \<leftarrow> unlink d (a_inactive (acts s old));
               Some (upd_act old (\<lambda>x. x\<lparr>a_inactive := l\<rparr>) s)
             });
        if a \<noteq> Some old \<and> update_accounting then activity_charge s old (-1) else Some s
      })"

definition counts_afresh :: "aid option \<Rightarrow> object_desc \<Rightarrow> bool" where
  "counts_afresh a desc \<longleftrightarrow> a \<noteq> d_activity desc \<or> d_eviction_candidate desc \<and> \<not> needs_laundry desc"

text \<open>The old owner was asked to free memory and has freed a page.\<close>

definition claim_free_goal :: "mem_state \<Rightarrow> aid \<Rightarrow> mem_state option" where
  "claim_free_goal s old =
     (let s = upd_act old (\<lambda>x. x\<lparr>free_goal := free_goal x - 1\<rparr>) s in
      if free_goal (acts s old) = 0 then do {
        s \<leftarrow> activity_for_each_ancestor s old
          (\<lambda>x. x\<lparr>frames_excluded := frames_excluded x - free_initial_allocation (acts s old)\<rparr>);
        Some (upd_act old (\<lambda>x. x\<lparr>free_allocations := 0\<rparr>) s)
      }
      else Some s)"

definition claim_disconnect :: "mem_state \<Rightarrow> aid \<Rightarrow> aid option \<Rightarrow> did \<Rightarrow> bool \<Rightarrow> mem_state option" where
  "claim_disconnect s old a d update_accounting = do {
     s \<leftarrow> claim_unlink s old a d update_accounting;
     if counts_afresh a (descs s d) \<and> update_accounting \<and> free_goal (acts s old) \<noteq> 0
     then claim_free_goal s old else Some s
   }"

text \<open>The new owner allocates although it was asked to free memory.\<close>

definition claim_allocation :: "mem_state \<Rightarrow> aid \<Rightarrow> mem_state option" where
  "claim_allocation s a =
     (let s = upd_act a (\<lambda>x. x\<lparr>free_allocations := free_allocations x - 1\<rparr>) s in
      if free_allocations (acts s a) = 0 then do {
        let s = (if free_goal (acts s a) \<noteq> 0 then upd_act a (\<lambda>x. x\<lparr>free_bad_karma := 8\<rparr>) s else s);
        s \<leftarrow> activity_for_each_ancestor s a
          (\<lambda>x. x\<lparr>frames_excluded := frames_excluded x - free_initial_allocation (acts s a)\<rparr>);
        Some (upd_act a (\<lambda>x. x\<lparr>free_goal := 0\<rparr>) s)
      }
      else Some s)"

definition claim_assign :: "mem_state \<Rightarrow> aid \<Rightarrow> did \<Rightarrow> object_policy \<Rightarrow> bool \<Rightarrow> mem_state option" where
  "claim_assign s a d pol update_accounting = do {
     let s = upd_desc d (\<lambda>x. x\<lparr>d_policy := (d_policy x)\<lparr>pol_priority := pol_priority pol\<rparr>\<rparr>) s;
     let s = upd_desc d (\<lambda>x. x\<lparr>d_age := object_age (d_age x) True\<rparr>) s;
     let s = (if pol_priority (d_policy (descs s d)) \<noteq> OBJECT_PRIORITY_LRU
       then upd_act a (\<lambda>x. x\<lparr>a_priorities := d # a_priorities x, a_priorities_count := a_priorities_count x + 1\<rparr>) s
       else upd_act a (\<lambda>x. x\<lparr>a_active := d # a_active x\<rparr>) s);
     s \<leftarrow> (if counts_afresh (Some a) (descs s d) \<and> update_accounting then do {
            s \<leftarrow> activity_charge s a 1;
            if free_allocations (acts s a) \<noteq> 0 then claim_allocation s a else Some s
          }
          else Some s);
     Some (upd_desc d (\<lambda>x. x\<lparr>d_eviction_candidate := False, d_activity := Some a,
       d_policy := (d_policy x)\<lparr>pol_discardable := pol_discardable pol\<rparr>\<rparr>) s)
   }"

definition object_desc_claim ::
  "mem_state \<Rightarrow> aid option \<Rightarrow> did \<Rightarrow> object_policy \<Rightarrow> bool \<Rightarrow> mem_state option" where
  "object_desc_claim s activity d pol update_accounting = do {
     let desc = descs s d;
     c_assert (d_activity desc \<noteq> None \<or> activity \<noteq> None);
     c_assert (update_accounting \<longrightarrow> (\<forall>x \<in> set_option (d_activity desc). lists_counted (acts s x)));
     c_assert (\<forall>x \<in> set_option activity. lists_counted (acts s x));
     s \<leftarrow> (if d_activity desc = activity \<and> \<not> d_eviction_candidate desc
              \<and> pol_priority (d_policy desc) = pol_priority pol
          then Some (upd_desc d (\<lambda>x. x\<lparr>d_policy := (d_policy x)\<lparr>pol_discardable := pol_discardable pol\<rparr>\<rparr>) s)
          else do {
            s \<leftarrow> (case d_activity desc of None \<Rightarrow> Some s
                 | Some old \<Rightarrow> claim_disconnect s old activity d update_accounting);
            case activity of None \<Rightarrow> Some s | Some a \<Rightarrow> claim_assign s a d pol update_accounting
          });
     c_assert (update_accounting \<longrightarrow> (\<forall>x \<in> set_option (d_activity (descs s d)). lists_counted (acts s x)));
     c_assert (update_accounting \<longrightarrow> (\<forall>x \<in> set_option activity. lists_counted (acts s x)));
     Some s
   }"

subsection \<open>The ledger\<close>

text \<open>
  An abstract view of the books: for each descriptor the list it is on, with the activity that list
  belongs to, and the activity its frame is charged to. Only eviction candidates are on \<open>laundry\<close>: no code
  queues other objects, although a comment in \<^verbatim>\<open>viengoos/object.h\<close> allows it.
\<close>

datatype place = PActive | PInactive | PPriority | PClean | PDirty

type_synonym placement = "did \<Rightarrow> (aid \<times> place) option"
type_synonym charging = "did \<Rightarrow> aid option"

fun place_list :: "place \<Rightarrow> activity \<Rightarrow> did list" where
  "place_list PActive x = a_active x"
| "place_list PInactive x = a_inactive x"
| "place_list PPriority x = a_priorities x"
| "place_list PClean x = a_eviction_clean x"
| "place_list PDirty x = a_eviction_dirty x"

definition place_of :: "object_desc \<Rightarrow> place" where
  "place_of desc =
     (if d_eviction_candidate desc then (if needs_laundry desc then PDirty else PClean)
      else if pol_priority (d_policy desc) \<noteq> OBJECT_PRIORITY_LRU then PPriority
      else if object_active desc then PActive else PInactive)"

definition under :: "mem_state \<Rightarrow> aid \<Rightarrow> aid \<Rightarrow> bool" where
  "under s a b \<longleftrightarrow> (case ancestors (\<lambda>x. a_parent (acts s x)) (root_activity s) b of
     None \<Rightarrow> False | Some as \<Rightarrow> a \<in> set as)"

definition rooted :: "mem_state \<Rightarrow> aid \<Rightarrow> bool" where
  "rooted s b \<longleftrightarrow> ancestors (\<lambda>x. a_parent (acts s x)) (root_activity s) b \<noteq> None"

definition frames :: "did set \<Rightarrow> u32" where
  "frames ds = of_nat (card ds)"

definition books :: "placement \<Rightarrow> charging \<Rightarrow> (aid \<Rightarrow> aid \<Rightarrow> bool) \<Rightarrow> aid \<Rightarrow> activity \<Rightarrow> bool" where
  "books at ch un a x \<longleftrightarrow>
     (\<forall>k. distinct (place_list k x) \<and> set (place_list k x) = {d. at d = Some (a, k)})
     \<and> a_priorities_count x = int (length (place_list PPriority x))
     \<and> frames_local x = frames {d. ch d = Some a}
     \<and> frames_total x = frames {d. \<exists>b. ch d = Some b \<and> un a b}
     \<and> frames_pending_eviction x = frames {d. \<exists>b. at d = Some (b, PDirty) \<and> un a b}"

definition ledger :: "mem_state \<Rightarrow> placement \<Rightarrow> charging \<Rightarrow> bool" where
  "ledger s at ch \<longleftrightarrow>
     (\<forall>a. books at ch (under s) a (acts s a))
     \<and> distinct (laundry s) \<and> set (laundry s) = {d. \<exists>a. at d = Some (a, PDirty)}
     \<and> distinct (available s) \<and> set (available s) = {d. \<exists>a. at d = Some (a, PClean)}
     \<and> finite (dom at) \<and> finite (dom ch)
     \<and> (\<forall>d a k. at d = Some (a, k) \<longrightarrow> rooted s a) \<and> (\<forall>d a. ch d = Some a \<longrightarrow> rooted s a)"

subsection \<open>Ancestors\<close>

lemma ancestors_cases:
  assumes "ancestors par r a = Some as"
  obtains "par a = None" "a = r" "as = [a]"
  | p bs where "par a = Some p" "ancestors par r p = Some bs" "as = a # bs"
  using assms by (subst (asm) ancestors.simps) (auto split: option.splits bind_splits)

lemma ancestors_suffix:
  assumes "ancestors par r a = Some as" "x \<in> set as"
  shows "\<exists>bs. ancestors par r x = Some bs \<and> length bs \<le> length as"
  using assms
proof (induction as arbitrary: a)
  case (Cons y as)
  from Cons.prems(1) show ?case
  proof (cases rule: ancestors_cases)
    case (2 p bs)
    with Cons.prems Cons.IH [of p] show ?thesis
      by (cases "x = a") auto
  qed (use Cons.prems in auto)
qed simp

lemma ancestors_distinct: "ancestors par r a = Some as \<Longrightarrow> distinct as"
proof (induction as arbitrary: a)
  case (Cons y as)
  from Cons.prems show ?case
  proof (cases rule: ancestors_cases)
    case (2 p bs)
    moreover have "a \<notin> set bs"
      using ancestors_suffix [OF 2(2), of a] 2(3) Cons.prems by auto
    ultimately show ?thesis using Cons.IH by auto
  qed auto
qed simp

lemma ancestors_self: "ancestors par r a = Some as \<Longrightarrow> a \<in> set as"
  by (erule ancestors_cases) auto

lemma upd_act_sel [simp]:
  "acts (upd_act a f s) = (acts s)(a := f (acts s a))" "descs (upd_act a f s) = descs s"
  "laundry (upd_act a f s) = laundry s" "available (upd_act a f s) = available s"
  "root_activity (upd_act a f s) = root_activity s"
  by (simp_all add: upd_act_def)

lemma upd_desc_sel [simp]:
  "descs (upd_desc d g s) = (descs s)(d := g (descs s d))" "acts (upd_desc d g s) = acts s"
  "laundry (upd_desc d g s) = laundry s" "available (upd_desc d g s) = available s"
  "root_activity (upd_desc d g s) = root_activity s"
  by (simp_all add: upd_desc_def)

text \<open>The states differ at most in the lists and the counters of their activities.\<close>

definition same_rest :: "mem_state \<Rightarrow> mem_state \<Rightarrow> bool" where
  "same_rest s s' \<longleftrightarrow> descs s' = descs s \<and> laundry s' = laundry s \<and> available s' = available s
     \<and> root_activity s' = root_activity s \<and> (\<forall>x. a_parent (acts s' x) = a_parent (acts s x))"

lemma same_rest_simps [simp]: "same_rest s s"
  "(\<And>x. a_parent (f x) = a_parent x) \<Longrightarrow> same_rest s (upd_act a f s)"
  by (simp_all add: same_rest_def)

lemma same_rest_trans: "same_rest s t \<Longrightarrow> same_rest t u \<Longrightarrow> same_rest s u"
  by (simp add: same_rest_def)

lemma fold_upd_act:
  assumes "\<And>x. a_parent (f x) = a_parent x"
  shows "distinct as \<Longrightarrow> acts (fold (\<lambda>x. upd_act x f) as s) = (\<lambda>x. if x \<in> set as then f (acts s x) else acts s x)
     \<and> same_rest s (fold (\<lambda>x. upd_act x f) as s)"
proof (induction as arbitrary: s)
  case (Cons a as)
  with Cons.IH [of "upd_act a f s"] assms show ?case
    by (auto intro: same_rest_trans [of s "upd_act a f s"])
qed simp

lemma for_each_ancestor:
  assumes "rooted s b" "\<And>x. a_parent (f x) = a_parent x"
  obtains s' where "activity_for_each_ancestor s b f = Some s'" "same_rest s s'"
    "acts s' = (\<lambda>x. if under s x b then f (acts s x) else acts s x)"
proof -
  from assms(1) obtain as where as: "ancestors (\<lambda>x. a_parent (acts s x)) (root_activity s) b = Some as"
    by (auto simp: rooted_def)
  let ?s = "fold (\<lambda>x. upd_act x f) as s"
  have eff: "acts ?s = (\<lambda>x. if x \<in> set as then f (acts s x) else acts s x) \<and> same_rest s ?s"
    by (rule fold_upd_act) (rule assms(2), rule ancestors_distinct [OF as])
  show ?thesis
  proof (rule that)
    show "activity_for_each_ancestor s b f = Some ?s"
      by (simp add: activity_for_each_ancestor_def as)
    show "same_rest s ?s" using eff by (rule conjunct2)
    show "acts ?s = (\<lambda>x. if under s x b then f (acts s x) else acts s x)"
      unfolding under_def as option.case using eff by (rule conjunct1)
  qed
qed

lemma under_cong:
  "(\<And>x. a_parent (acts s' x) = a_parent (acts s x)) \<Longrightarrow> root_activity s' = root_activity s
     \<Longrightarrow> under s' = under s \<and> rooted s' = rooted s"
  by (simp add: under_def rooted_def fun_eq_iff)

lemma same_rest_under: "same_rest s s' \<Longrightarrow> under s' = under s \<and> rooted s' = rooted s"
  unfolding same_rest_def by (rule under_cong) blast+

lemma under_self: "rooted s a \<Longrightarrow> under s a a"
  using ancestors_self by (auto simp: rooted_def under_def)

subsection \<open>The books of one activity\<close>

fun unlist :: "place \<Rightarrow> did \<Rightarrow> activity \<Rightarrow> activity" where
  "unlist PActive d x = x\<lparr>a_active := remove1 d (a_active x)\<rparr>"
| "unlist PInactive d x = x\<lparr>a_inactive := remove1 d (a_inactive x)\<rparr>"
| "unlist PPriority d x = x\<lparr>a_priorities := remove1 d (a_priorities x), a_priorities_count := a_priorities_count x - 1\<rparr>"
| "unlist PClean d x = x\<lparr>a_eviction_clean := remove1 d (a_eviction_clean x)\<rparr>"
| "unlist PDirty d x = x\<lparr>a_eviction_dirty := remove1 d (a_eviction_dirty x)\<rparr>"

definition push_new :: "place \<Rightarrow> did \<Rightarrow> activity \<Rightarrow> activity" where
  "push_new k d x = (if k = PPriority
     then x\<lparr>a_priorities := d # a_priorities x, a_priorities_count := a_priorities_count x + 1\<rparr>
     else x\<lparr>a_active := d # a_active x\<rparr>)"

lemma place_list_unlist [simp]:
  "place_list j (unlist k d x) = (if j = k then remove1 d (place_list k x) else place_list j x)"
  by (cases j; cases k) simp_all

lemma unlist_sel [simp]:
  "frames_local (unlist k d x) = frames_local x" "frames_total (unlist k d x) = frames_total x"
  "frames_pending_eviction (unlist k d x) = frames_pending_eviction x"
  "a_parent (unlist k d x) = a_parent x"
  "a_priorities_count (unlist k d x) = a_priorities_count x - (if k = PPriority then 1 else 0)"
  by (cases k; simp)+

lemma place_list_push_new [simp]:
  "k = PActive \<or> k = PPriority \<Longrightarrow>
     place_list j (push_new k d x) = (if j = k then d # place_list k x else place_list j x)"
  by (cases j) (auto simp: push_new_def)

lemma push_new_sel [simp]:
  "frames_local (push_new k d x) = frames_local x" "frames_total (push_new k d x) = frames_total x"
  "frames_pending_eviction (push_new k d x) = frames_pending_eviction x"
  "a_parent (push_new k d x) = a_parent x"
  "a_priorities_count (push_new k d x) = a_priorities_count x + (if k = PPriority then 1 else 0)"
  by (simp_all add: push_new_def)

definition book_view :: "activity \<Rightarrow> (place \<Rightarrow> did list) \<times> int \<times> u32 \<times> u32 \<times> u32 \<times> aid option" where
  "book_view x = (\<lambda>k. place_list k x, a_priorities_count x, frames_local x, frames_total x,
     frames_pending_eviction x, a_parent x)"

lemma place_list_upd [simp]:
  "place_list k (x\<lparr>frames_local := v\<rparr>) = place_list k x" "place_list k (x\<lparr>frames_total := v\<rparr>) = place_list k x"
  "place_list k (x\<lparr>frames_pending_eviction := v\<rparr>) = place_list k x"
  "place_list k (x\<lparr>free_goal := v\<rparr>) = place_list k x" "place_list k (x\<lparr>free_allocations := v\<rparr>) = place_list k x"
  "place_list k (x\<lparr>free_bad_karma := v\<rparr>) = place_list k x" "place_list k (x\<lparr>frames_excluded := v\<rparr>) = place_list k x"
  "place_list k (x\<lparr>stat_claimed := v\<rparr>) = place_list k x" "place_list k (x\<lparr>stat_disowned := v\<rparr>) = place_list k x"
  "place_list k (x\<lparr>stat_evicted := v\<rparr>) = place_list k x"
  by (cases k; simp)+

lemma books_cong: "book_view x = book_view y \<Longrightarrow> books at ch un a x = books at ch un a y"
  unfolding books_def book_view_def by (simp add: fun_eq_iff del: place_list.simps)

lemma frames_delete: "finite ds \<Longrightarrow> d \<in> ds \<Longrightarrow> frames (ds - {d}) = frames ds - 1"
  unfolding frames_def by (subst (2) card.remove) (auto simp: algebra_simps)

lemma frames_insert: "finite ds \<Longrightarrow> d \<notin> ds \<Longrightarrow> frames (insert d ds) = frames ds + 1"
  by (simp add: frames_def)

lemma frames_step:
  assumes "finite ds" "ds' = (if p then ds - {d} else ds)" "p \<Longrightarrow> d \<in> ds"
  shows "frames ds' = frames ds - (if p then 1 else 0)"
  using assms frames_delete by simp

lemma frames_grow:
  assumes "finite ds" "ds' = (if p then insert d ds else ds)" "p \<Longrightarrow> d \<notin> ds"
  shows "frames ds' = frames ds + (if p then 1 else 0)"
  using assms frames_insert by simp

lemma finite_placed: "finite (dom (at :: placement)) \<Longrightarrow> finite {d. \<exists>b. at d = Some (b, k) \<and> un a b}"
  by (erule rev_finite_subset) auto

lemma finite_charged: "finite (dom (ch :: charging)) \<Longrightarrow> finite {d. ch d = Some a}"
  "finite (dom ch) \<Longrightarrow> finite {d. \<exists>b. ch d = Some b \<and> un a b}"
  by (erule rev_finite_subset; auto)+

lemma books_unlist:
  assumes "books at ch un a x" "finite (dom at)" "at d = Some (b, k)"
  shows "books (at(d := None)) ch un a ((if a = b then unlist k d x else x)
    \<lparr>frames_pending_eviction := frames_pending_eviction x - (if k = PDirty \<and> un a b then 1 else 0)\<rparr>)"
proof -
  have "frames {e. \<exists>c. (at(d := None)) e = Some (c, PDirty) \<and> un a c}
      = frames {e. \<exists>c. at e = Some (c, PDirty) \<and> un a c} - (if k = PDirty \<and> un a b then 1 else 0)"
    by (rule frames_step [where d = d, OF finite_placed [OF assms(2)]]) (use assms(3) in \<open>auto split: if_splits\<close>)
  moreover have "int (length (place_list k x) - Suc 0) = int (length (place_list k x)) - 1" if "a = b"
  proof -
    have "0 < length (place_list k x)"
      using assms(1,3) that by (intro length_pos_if_in_set [of d]) (simp add: books_def del: place_list.simps)
    then show ?thesis by (simp del: place_list.simps length_greater_0_conv add: of_nat_diff)
  qed
  ultimately show ?thesis
    using assms(1,3) unfolding books_def
    by (auto simp: length_remove1 distinct_remove1 set_remove1_eq of_nat_diff
        simp del: place_list.simps)
qed

lemma books_push:
  assumes "books at ch un a x" "at d = None" "k = PActive \<or> k = PPriority"
  shows "books (at(d \<mapsto> (b, k))) ch un a (if a = b then push_new k d x else x)"
proof -
  have "{e. \<exists>c. (at(d \<mapsto> (b, k))) e = Some (c, PDirty) \<and> un a c} = {e. \<exists>c. at e = Some (c, PDirty) \<and> un a c}"
    using assms(2,3) by auto
  then show ?thesis
    using assms unfolding books_def by (auto simp del: place_list.simps)
qed

lemma books_discharge:
  assumes "books at ch un a x" "finite (dom ch)" "ch d = Some b"
  shows "books at (ch(d := None)) un a (x\<lparr>frames_local := frames_local x - (if a = b then 1 else 0),
    frames_total := frames_total x - (if un a b then 1 else 0)\<rparr>)"
proof -
  have "frames {e. (ch(d := None)) e = Some a} = frames {e. ch e = Some a} - (if a = b then 1 else 0)"
    by (rule frames_step [where d = d, OF finite_charged(1) [OF assms(2)]]) (use assms(3) in \<open>auto split: if_splits\<close>)
  moreover have "frames {e. \<exists>c. (ch(d := None)) e = Some c \<and> un a c}
      = frames {e. \<exists>c. ch e = Some c \<and> un a c} - (if un a b then 1 else 0)"
    by (rule frames_step [where d = d, OF finite_charged(2) [OF assms(2)]]) (use assms(3) in \<open>auto split: if_splits\<close>)
  ultimately show ?thesis
    using assms(1) unfolding books_def by (simp del: place_list.simps fun_upd_apply)
qed

lemma books_charge:
  assumes "books at ch un a x" "finite (dom ch)" "ch d = None"
  shows "books at (ch(d \<mapsto> b)) un a (x\<lparr>frames_local := frames_local x + (if a = b then 1 else 0),
    frames_total := frames_total x + (if un a b then 1 else 0)\<rparr>)"
proof -
  have "frames {e. (ch(d \<mapsto> b)) e = Some a} = frames {e. ch e = Some a} + (if a = b then 1 else 0)"
    by (rule frames_grow [where d = d, OF finite_charged(1) [OF assms(2)]]) (use assms(3) in \<open>auto split: if_splits\<close>)
  moreover have "frames {e. \<exists>c. (ch(d \<mapsto> b)) e = Some c \<and> un a c}
      = frames {e. \<exists>c. ch e = Some c \<and> un a c} + (if un a b then 1 else 0)"
    by (rule frames_grow [where d = d, OF finite_charged(2) [OF assms(2)]]) (use assms(3) in \<open>auto split: if_splits\<close>)
  ultimately show ?thesis
    using assms(1) unfolding books_def by (simp del: place_list.simps fun_upd_apply)
qed

subsection \<open>Steps on the ledger\<close>

lemma ledger_acts:
  assumes "ledger s at ch" "same_rest s s'" "\<And>x. book_view (acts s' x) = book_view (acts s x)"
  shows "ledger s' at ch"
proof -
  have "under s' = under s \<and> rooted s' = rooted s"
    using assms(2,3) by (intro under_cong) (simp_all add: book_view_def same_rest_def)
  moreover have "books at ch (under s) a (acts s' a) = books at ch (under s) a (acts s a)" for a
    by (rule books_cong) (rule assms(3))
  ultimately show ?thesis
    using assms(1,2) by (simp add: ledger_def same_rest_def)
qed

lemma ledger_discharge:
  assumes "ledger s at ch" "ch d = Some b" "same_rest s s'"
    "\<And>x. book_view (acts s' x) = book_view ((acts s x)\<lparr>frames_local := frames_local (acts s x) - (if x = b then 1 else 0),
      frames_total := frames_total (acts s x) - (if under s x b then 1 else 0)\<rparr>)"
  shows "ledger s' at (ch(d := None))"
proof -
  have "under s' = under s \<and> rooted s' = rooted s"
    using assms(3,4) by (intro under_cong) (simp_all add: book_view_def same_rest_def)
  moreover have "books at (ch(d := None)) (under s) a (acts s' a)" for a
    unfolding books_cong [OF assms(4)]
    by (rule books_discharge) (use assms(1,2) in \<open>simp_all add: ledger_def\<close>)
  ultimately show ?thesis
    using assms(1,3) by (auto simp: ledger_def same_rest_def)
qed

lemma ledger_charge:
  assumes "ledger s at ch" "ch d = None" "rooted s b" "same_rest s s'"
    "\<And>x. book_view (acts s' x) = book_view ((acts s x)\<lparr>frames_local := frames_local (acts s x) + (if x = b then 1 else 0),
      frames_total := frames_total (acts s x) + (if under s x b then 1 else 0)\<rparr>)"
  shows "ledger s' at (ch(d \<mapsto> b))"
proof -
  have "under s' = under s \<and> rooted s' = rooted s"
    using assms(4,5) by (intro under_cong) (simp_all add: book_view_def same_rest_def)
  moreover have "books at (ch(d \<mapsto> b)) (under s) a (acts s' a)" for a
    unfolding books_cong [OF assms(5)]
    by (rule books_charge) (use assms(1,2) in \<open>simp_all add: ledger_def\<close>)
  ultimately show ?thesis
    using assms(1,3,4) by (auto simp: ledger_def same_rest_def)
qed

lemma ledger_push:
  assumes "ledger s at ch" "at d = None" "k = PActive \<or> k = PPriority" "rooted s b"
  shows "ledger (upd_act b (push_new k d) s) (at(d \<mapsto> (b, k))) ch"
proof -
  let ?s = "upd_act b (push_new k d) s"
  have "under ?s = under s \<and> rooted ?s = rooted s"
    by (intro under_cong) simp_all
  moreover have "books (at(d \<mapsto> (b, k))) ch (under s) a (acts ?s a)" for a
    using books_push [of at ch "under s" a "acts s a" d k b] assms by (auto simp: ledger_def split: if_splits)
  moreover have "(\<exists>a. (at(d \<mapsto> (b, k))) e = Some (a, p)) \<longleftrightarrow> (\<exists>a. at e = Some (a, p))" if "p = PDirty \<or> p = PClean" for e p
    using that assms(2,3) by auto
  moreover have "rooted s a" if "(at(d \<mapsto> (b, k))) e = Some (a, p)" for e a p
    using that assms(1,4) unfolding ledger_def by (metis fun_upd_apply option.inject prod.inject)
  ultimately show ?thesis
    using assms(1) unfolding ledger_def by (simp del: fun_upd_apply)
qed

lemma ledger_unlist:
  assumes "ledger s at ch" "at d = Some (b, k)"
    "laundry s' = (if k = PDirty then remove1 d (laundry s) else laundry s)"
    "available s' = (if k = PClean then remove1 d (available s) else available s)"
    "root_activity s' = root_activity s"
    "\<And>x. book_view (acts s' x) = book_view ((if x = b then unlist k d (acts s x) else acts s x)
       \<lparr>frames_pending_eviction := frames_pending_eviction (acts s x) - (if k = PDirty \<and> under s x b then 1 else 0)\<rparr>)"
  shows "ledger s' (at(d := None)) ch"
proof -
  have "a_parent (acts s' x) = a_parent (acts s x)" for x
    using assms(6) [of x] by (simp add: book_view_def split: if_splits)
  then have "under s' = under s \<and> rooted s' = rooted s"
    using assms(5) by (intro under_cong)
  moreover have "books (at(d := None)) ch (under s) a (acts s' a)" for a
    unfolding books_cong [OF assms(6)]
    by (rule books_unlist) (use assms(1,2) in \<open>simp_all add: ledger_def\<close>)
  moreover have "distinct (laundry s')" "set (laundry s') = {e. \<exists>a. (at(d := None)) e = Some (a, PDirty)}"
    using assms(1,2) unfolding ledger_def assms(3) by (auto simp: distinct_remove1 set_remove1_eq)
  moreover have "distinct (available s')" "set (available s') = {e. \<exists>a. (at(d := None)) e = Some (a, PClean)}"
    using assms(1,2) unfolding ledger_def assms(4) by (auto simp: distinct_remove1 set_remove1_eq)
  moreover have "finite (dom (at(d := None)))" "\<forall>e a p. (at(d := None)) e = Some (a, p) \<longrightarrow> rooted s a"
    using assms(1) by (auto simp: ledger_def)
  ultimately show ?thesis
    using assms(1) unfolding ledger_def by (simp del: fun_upd_apply)
qed

lemma frames_pos:
  assumes "finite ds" "d \<in> ds" "card ds < 2 ^ 32"
  shows "1 \<le> frames ds"
proof -
  have "0 < card ds" using assms(1,2) card_gt_0_iff by blast
  then have "0 < unat (frames ds)" using assms(3) by (simp add: frames_def unat_of_nat take_bit_nat_eq_self)
  then show ?thesis by (simp add: word_le_nat_alt Suc_le_eq)
qed

lemma activity_charge_effect:
  assumes "rooted s b" "n < 0 \<Longrightarrow> of_int (- n) \<le> frames_local (acts s b)"
    "\<And>x. n < 0 \<Longrightarrow> under s x b \<Longrightarrow> of_int (- n) \<le> frames_total (acts s x)"
  shows "\<exists>s'. activity_charge s b n = Some s' \<and> same_rest s s' \<and>
    (\<forall>x. book_view (acts s' x) = book_view ((acts s x)
      \<lparr>frames_local := frames_local (acts s x) + (if x = b then of_int n else 0),
       frames_total := frames_total (acts s x) + (if under s x b then of_int n else 0)\<rparr>))"
proof -
  let ?s = "upd_act b (\<lambda>x. x\<lparr>frames_local := frames_local x + of_int n\<rparr>) s"
  let ?f = "\<lambda>x. (if n > 0 then x\<lparr>stat_claimed := stat_claimed x + of_int n\<rparr>
       else x\<lparr>stat_disowned := stat_disowned x + of_int (- n)\<rparr>)\<lparr>frames_total := frames_total x + of_int n\<rparr>"
  have par: "(\<lambda>x. a_parent (acts ?s x)) = (\<lambda>x. a_parent (acts s x))"
    by (simp add: fun_eq_iff)
  from assms(1) obtain as where as: "ancestors (\<lambda>x. a_parent (acts s x)) (root_activity s) b = Some as"
    by (auto simp: rooted_def)
  then have un: "under s x b \<longleftrightarrow> x \<in> set as" for x by (simp add: under_def)
  have same: "under ?s = under s \<and> rooted ?s = rooted s"
    by (rule under_cong) simp_all
  with assms(1) have "rooted ?s b" by simp
  then obtain s' where s': "activity_for_each_ancestor ?s b ?f = Some s'" "same_rest ?s s'"
      "acts s' = (\<lambda>x. if under ?s x b then ?f (acts ?s x) else acts ?s x)"
    by (rule for_each_ancestor [where f = ?f]) simp_all
  have "\<forall>x\<in>set as. n < 0 \<longrightarrow> of_int (- n) \<le> frames_total (acts ?s x)"
    using assms(3) un by simp
  moreover have "ancestors (\<lambda>x. a_parent (acts ?s x)) (root_activity ?s) b = Some as"
    using as by (simp only: par upd_act_sel(5))
  ultimately have "activity_charge s b n = Some s'"
    using assms(2) s'(1) by (simp add: activity_charge_def Let_def del: upd_act_sel)
  moreover have "same_rest s s'"
    by (rule same_rest_trans [OF same_rest_simps(2) s'(2)]) simp
  moreover have "book_view (acts s' x) = book_view ((acts s x)
      \<lparr>frames_local := frames_local (acts s x) + (if x = b then of_int n else 0),
       frames_total := frames_total (acts s x) + (if under s x b then of_int n else 0)\<rparr>)" for x
    by (simp add: s'(3) same book_view_def fun_eq_iff)
  ultimately show ?thesis by blast
qed

lemma activity_charge_debit:
  assumes "ledger s at ch" "ch d = Some b" "card (dom ch) < 2 ^ 32"
  shows "\<exists>s'. activity_charge s b (- 1) = Some s' \<and> same_rest s s' \<and> ledger s' at (ch(d := None))"
proof -
  have fin: "finite (dom ch)" and root: "rooted s b" using assms(1,2) by (auto simp: ledger_def)
  have small: "card ds < 2 ^ 32" if "ds \<subseteq> dom ch" for ds
    using card_mono [OF fin that] assms(3) by linarith
  have loc: "of_int (- (- 1)) \<le> frames_local (acts s b)"
    using assms(1) frames_pos [OF finite_charged(1) [OF fin, of b], of d] small [of "{e. ch e = Some b}"] assms(2)
    by (auto simp: ledger_def books_def)
  have tot: "of_int (- (- 1)) \<le> frames_total (acts s x)" if "under s x b" for x
    using assms(1) frames_pos [OF finite_charged(2) [OF fin, of "under s" x], of d]
      small [of "{e. \<exists>c. ch e = Some c \<and> under s x c}"] assms(2) that
    by (auto simp: ledger_def books_def)
  obtain s' where s': "activity_charge s b (- 1) = Some s'" "same_rest s s'"
      "\<forall>x. book_view (acts s' x) = book_view ((acts s x)
        \<lparr>frames_local := frames_local (acts s x) + (if x = b then of_int (- 1) else 0),
         frames_total := frames_total (acts s x) + (if under s x b then of_int (- 1) else 0)\<rparr>)"
    using activity_charge_effect [OF root loc tot] by blast
  have "ledger s' at (ch(d := None))"
    by (rule ledger_discharge [OF assms(1,2) s'(2)]) (use s'(3) in \<open>simp add: book_view_def fun_eq_iff\<close>)
  with s' show ?thesis by blast
qed

lemma activity_charge_credit:
  assumes "ledger s at ch" "ch d = None" "rooted s b"
  shows "\<exists>s'. activity_charge s b 1 = Some s' \<and> same_rest s s' \<and> ledger s' at (ch(d \<mapsto> b))"
proof -
  obtain s' where s': "activity_charge s b 1 = Some s'" "same_rest s s'"
      "\<forall>x. book_view (acts s' x) = book_view ((acts s x)
        \<lparr>frames_local := frames_local (acts s x) + (if x = b then of_int 1 else 0),
         frames_total := frames_total (acts s x) + (if under s x b then of_int 1 else 0)\<rparr>)"
    using activity_charge_effect [OF assms(3), of 1] by auto
  have "ledger s' at (ch(d \<mapsto> b))"
    by (rule ledger_charge [OF assms s'(2)]) (use s'(3) in \<open>simp add: book_view_def fun_eq_iff\<close>)
  with s' show ?thesis by blast
qed

lemma claim_free_goal_ledger:
  assumes "ledger s at ch" "rooted s b"
  shows "\<exists>s'. claim_free_goal s b = Some s' \<and> same_rest s s' \<and> ledger s' at ch"
proof -
  let ?s = "upd_act b (\<lambda>x. x\<lparr>free_goal := free_goal x - 1\<rparr>) s"
  let ?f = "\<lambda>x. x\<lparr>frames_excluded := frames_excluded x - free_initial_allocation (acts ?s b)\<rparr>"
  have "ledger ?s at ch"
    by (rule ledger_acts [OF assms(1)]) (simp_all add: book_view_def fun_eq_iff)
  moreover have "under ?s = under s \<and> rooted ?s = rooted s"
    by (rule under_cong) simp_all
  with assms(2) have "rooted ?s b" by simp
  then obtain t where t: "activity_for_each_ancestor ?s b ?f = Some t" "same_rest ?s t"
      "acts t = (\<lambda>x. if under ?s x b then ?f (acts ?s x) else acts ?s x)"
    by (rule for_each_ancestor [where f = ?f]) simp_all
  let ?t = "upd_act b (\<lambda>x. x\<lparr>free_allocations := 0\<rparr>) t"
  have rest: "same_rest s ?t"
    using t(2) by (simp add: same_rest_def)
  have "ledger ?t at ch"
    by (rule ledger_acts [OF assms(1) rest]) (simp add: t(3) book_view_def fun_eq_iff)
  ultimately show ?thesis
    using t(1) rest by (auto simp: claim_free_goal_def Let_def)
qed

lemma claim_allocation_ledger:
  assumes "ledger s at ch" "rooted s b"
  shows "\<exists>s'. claim_allocation s b = Some s' \<and> same_rest s s' \<and> ledger s' at ch"
proof -
  let ?s = "upd_act b (\<lambda>x. x\<lparr>free_allocations := free_allocations x - 1\<rparr>) s"
  let ?u = "if free_goal (acts ?s b) \<noteq> 0 then upd_act b (\<lambda>x. x\<lparr>free_bad_karma := 8\<rparr>) ?s else ?s"
  let ?f = "\<lambda>x. x\<lparr>frames_excluded := frames_excluded x - free_initial_allocation (acts ?u b)\<rparr>"
  have "ledger ?s at ch"
    by (rule ledger_acts [OF assms(1)]) (simp_all add: book_view_def fun_eq_iff)
  moreover have "under ?u = under s \<and> rooted ?u = rooted s"
    by (rule under_cong) simp_all
  with assms(2) have "rooted ?u b" by simp
  then obtain t where t: "activity_for_each_ancestor ?u b ?f = Some t" "same_rest ?u t"
      "acts t = (\<lambda>x. if under ?u x b then ?f (acts ?u x) else acts ?u x)"
    by (rule for_each_ancestor [where f = ?f]) simp_all
  let ?t = "upd_act b (\<lambda>x. x\<lparr>free_goal := 0\<rparr>) t"
  have rest: "same_rest s ?t"
    using t(2) by (auto simp: same_rest_def)
  have "ledger ?t at ch"
    by (rule ledger_acts [OF assms(1) rest]) (simp add: t(3) book_view_def fun_eq_iff)
  ultimately show ?thesis
    using t(1) rest by (simp add: claim_allocation_def Let_def)
qed

subsection \<open>Disconnecting from the old owner\<close>

definition charged_at :: "(aid \<times> place) option \<Rightarrow> aid option" where
  "charged_at p = (case p of Some (a, k) \<Rightarrow> if k = PClean then None else Some a | None \<Rightarrow> None)"

lemma ledger_lists:
  assumes "ledger s at ch"
  shows "e \<in> set (place_list k (acts s a)) \<longleftrightarrow> at e = Some (a, k)"
    "e \<in> set (laundry s) \<longleftrightarrow> (\<exists>a. at e = Some (a, PDirty))" "e \<in> set (available s) \<longleftrightarrow> (\<exists>a. at e = Some (a, PClean))"
    "at e = Some (a, k) \<Longrightarrow> rooted s a"
  using assms unfolding ledger_def books_def by (auto simp del: place_list.simps) metis

lemma unlink_Some: "d \<in> set xs \<Longrightarrow> unlink d xs = Some (remove1 d xs)"
  by (simp add: unlink_def)

lemma claim_unlink_dirty:
  assumes L: "ledger s at ch" and at: "at d = Some (old, PDirty)" "ch d = Some old"
    and d: "d_eviction_candidate (descs s d)" "needs_laundry (descs s d)"
  shows "\<exists>s'. claim_unlink s old a d True = Some s' \<and> descs s' = descs s \<and> rooted s' = rooted s
    \<and> ledger s' (at(d := None)) (if a = Some old then ch else ch(d := None))"
proof -
  let ?l = "upd_act old (unlist PDirty d) (s\<lparr>laundry := remove1 d (laundry s)\<rparr>)"
  let ?m = "if a \<noteq> Some old then upd_act old (\<lambda>x. x\<lparr>frames_local := frames_local x - 1\<rparr>) ?l else ?l"
  let ?f = "\<lambda>x. (if a \<noteq> Some old then x\<lparr>frames_total := frames_total x - 1\<rparr> else x)
     \<lparr>frames_pending_eviction := frames_pending_eviction x - 1\<rparr>"
  have un: "under ?m = under s \<and> rooted ?m = rooted s"
    by (rule under_cong) simp_all
  with ledger_lists(4) [OF L at(1)] have "rooted ?m old" by simp
  then obtain t where t: "activity_for_each_ancestor ?m old ?f = Some t" "same_rest ?m t"
      "acts t = (\<lambda>x. if under ?m x old then ?f (acts ?m x) else acts ?m x)"
    by (rule for_each_ancestor [where f = ?f]) simp_all
  have t3: "acts t = (\<lambda>x. if under s x old then ?f (acts ?m x) else acts ?m x)"
    using t(3) un by (simp only: conjunct1 [OF un])
  define u where "u = s\<lparr>laundry := remove1 d (laundry s), acts := \<lambda>x. (if x = old then unlist PDirty d (acts s x) else acts s x)
    \<lparr>frames_pending_eviction := frames_pending_eviction (acts s x) - (if under s x old then 1 else 0)\<rparr>\<rparr>"
  have u: "ledger u (at(d := None)) ch"
    by (rule ledger_unlist [OF L at(1)]) (simp_all add: u_def)
  have same: "same_rest u t"
    using t(2) unfolding same_rest_def u_def by (auto split: if_splits)
  have un_u: "under u = under s" using same_rest_under [OF same] same_rest_under [OF t(2)] un by simp
  have "ledger t (at(d := None)) (if a = Some old then ch else ch(d := None))"
  proof (cases "a = Some old")
    case True
    have "ledger t (at(d := None)) ch"
      by (rule ledger_acts [OF u same]) (simp add: t3 True u_def book_view_def fun_eq_iff)
    with True show ?thesis by simp
  next
    case False
    have "ledger t (at(d := None)) (ch(d := None))"
      by (rule ledger_discharge [OF u at(2) same])
        (simp only: un_u, simp add: t3 False u_def book_view_def fun_eq_iff)
    with False show ?thesis by simp
  qed
  moreover have "claim_unlink s old a d True = Some t"
    using d t(1) ledger_lists(1) [OF L, of d PDirty old] ledger_lists(2) [OF L, of d] at(1)
    by (cases "a = Some old") (simp_all add: claim_unlink_def Let_def unlink_Some upd_act_def)
  moreover have "descs t = descs s" "rooted t = rooted s"
    using t(2) same_rest_under [OF t(2)] un by (auto simp: same_rest_def)
  ultimately show ?thesis by blast
qed

lemma claim_unlink_clean:
  assumes L: "ledger s at ch" and at: "at d = Some (old, PClean)" "ch d = None"
    and d: "d_eviction_candidate (descs s d)" "\<not> needs_laundry (descs s d)"
  shows "\<exists>s'. claim_unlink s old a d True = Some s' \<and> descs s' = descs s \<and> rooted s' = rooted s
    \<and> ledger s' (at(d := None)) (if a = Some old then ch else ch(d := None))"
proof -
  let ?s = "upd_act old (unlist PClean d) (s\<lparr>available := remove1 d (available s)\<rparr>)"
  have "ledger ?s (at(d := None)) ch"
    by (rule ledger_unlist [OF L at(1)]) (simp_all add: book_view_def)
  moreover have "ch(d := None) = ch" using at(2) by auto
  moreover have "rooted ?s = rooted s"
    by (rule conjunct2 [OF under_cong]) simp_all
  moreover have "claim_unlink s old a d True = Some ?s"
    using d at(1) ledger_lists(1) [OF L, of d PClean old] ledger_lists(3) [OF L, of d]
    by (simp add: claim_unlink_def Let_def unlink_Some upd_act_def)
  ultimately show ?thesis by simp
qed

lemma claim_unlink_live:
  assumes L: "ledger s at ch" and at: "at d = Some (old, k)" "ch d = Some old"
    and d: "\<not> d_eviction_candidate (descs s d)" "k = place_of (descs s d)" and small: "card (dom ch) < 2 ^ 32"
  shows "\<exists>s'. claim_unlink s old a d True = Some s' \<and> descs s' = descs s \<and> rooted s' = rooted s
    \<and> ledger s' (at(d := None)) (if a = Some old then ch else ch(d := None))"
proof -
  let ?s = "upd_act old (unlist k d) s"
  have k: "k \<noteq> PClean" "k \<noteq> PDirty"
    using d by (auto simp: place_of_def split: if_splits)
  have l: "ledger ?s (at(d := None)) ch"
    by (rule ledger_unlist [OF L at(1)]) (use k in \<open>simp_all add: book_view_def\<close>)
  have r: "rooted ?s = rooted s"
    by (rule conjunct2 [OF under_cong]) simp_all
  have "d \<in> set (place_list k (acts s old))"
    using ledger_lists(1) [OF L] at(1) by simp
  then have eq: "claim_unlink s old a d True = (if a = Some old then Some ?s else activity_charge ?s old (- 1))"
    using d by (auto simp: claim_unlink_def Let_def unlink_Some place_of_def upd_act_def split: if_splits)
  from activity_charge_debit [OF l at(2) small] obtain t where
      t: "activity_charge ?s old (- 1) = Some t" "same_rest ?s t" "ledger t (at(d := None)) (ch(d := None))"
    by blast
  have "descs t = descs s" "rooted t = rooted s"
    using t(2) r same_rest_under [OF t(2)] by (simp_all add: same_rest_def)
  with t l r eq show ?thesis by (cases "a = Some old") auto
qed

lemma claim_unlink_ledger:
  assumes "ledger s at ch" "at d = Some (old, place_of (descs s d))" "ch d = charged_at (at d)"
    "card (dom ch) < 2 ^ 32"
  shows "\<exists>s'. claim_unlink s old a d True = Some s' \<and> descs s' = descs s \<and> rooted s' = rooted s
    \<and> ledger s' (at(d := None)) (if a = Some old then ch else ch(d := None))"
proof (cases "d_eviction_candidate (descs s d)")
  case True
  with assms show ?thesis
    using claim_unlink_dirty [OF assms(1), of d old a] claim_unlink_clean [OF assms(1), of d old a]
    by (cases "needs_laundry (descs s d)") (simp_all add: place_of_def charged_at_def)
next
  case False
  with assms show ?thesis
    by (intro claim_unlink_live) (auto simp: place_of_def charged_at_def split: if_splits)
qed

lemma claim_disconnect_ledger:
  assumes "ledger s at ch" "at d = Some (old, place_of (descs s d))" "ch d = charged_at (at d)"
    "card (dom ch) < 2 ^ 32"
  shows "\<exists>s'. claim_disconnect s old a d True = Some s' \<and> descs s' = descs s \<and> rooted s' = rooted s
    \<and> ledger s' (at(d := None)) (if a = Some old then ch else ch(d := None))"
proof -
  from claim_unlink_ledger [OF assms, of a] obtain t where t: "claim_unlink s old a d True = Some t" "descs t = descs s"
      "rooted t = rooted s" "ledger t (at(d := None)) (if a = Some old then ch else ch(d := None))"
    by blast
  have "rooted t old" using ledger_lists(4) [OF assms(1,2)] t(3) by simp
  from claim_free_goal_ledger [OF t(4) this] obtain u where u: "claim_free_goal t old = Some u" "same_rest t u"
      "ledger u (at(d := None)) (if a = Some old then ch else ch(d := None))"
    by blast
  have "descs u = descs s" "rooted u = rooted s"
    using u(2) t(2,3) same_rest_under [OF u(2)] by (simp_all add: same_rest_def)
  with t u show ?thesis
    by (cases "counts_afresh a (descs t d) \<and> free_goal (acts t old) \<noteq> 0") (simp_all add: claim_disconnect_def)
qed

subsection \<open>Assigning to the new owner\<close>

lemma object_age_referenced: "object_age age True \<noteq> 0"
  by (simp add: object_age_def Let_def shl_def or_eq_0_iff)

definition new_place :: "object_policy \<Rightarrow> place" where
  "new_place pol = (if pol_priority pol \<noteq> OBJECT_PRIORITY_LRU then PPriority else PActive)"

definition claimed_desc :: "aid \<Rightarrow> object_policy \<Rightarrow> object_desc \<Rightarrow> object_desc" where
  "claimed_desc a pol desc = desc\<lparr>d_age := object_age (d_age desc) True,
     d_eviction_candidate := False, d_activity := Some a,
     d_policy := (d_policy desc)\<lparr>pol_priority := pol_priority pol, pol_discardable := pol_discardable pol\<rparr>\<rparr>"

lemma place_of_claimed [simp]: "place_of (claimed_desc a pol desc) = new_place pol"
  by (simp add: place_of_def claimed_desc_def new_place_def object_active_def object_age_referenced)

lemma claim_assign_ledger:
  assumes L: "ledger s at ch" "at d = None" "rooted s a"
    and ch: "if counts_afresh (Some a) (descs s d) then ch d = None else ch d = Some a"
  shows "\<exists>s'. claim_assign s a d pol True = Some s' \<and> descs s' = (descs s)(d := claimed_desc a pol (descs s d))
    \<and> ledger s' (at(d \<mapsto> (a, new_place pol))) (ch(d \<mapsto> a))"
proof -
  let ?at = "at(d \<mapsto> (a, new_place pol))"
  define u where "u = upd_desc d (\<lambda>x. x\<lparr>d_age := object_age (d_age x) True\<rparr>)
    (upd_desc d (\<lambda>x. x\<lparr>d_policy := (d_policy x)\<lparr>pol_priority := pol_priority pol\<rparr>\<rparr>) s)"
  let ?v = "upd_act a (push_new (new_place pol) d) u"
  let ?w = "upd_desc d (\<lambda>x. x\<lparr>d_eviction_candidate := False, d_activity := Some a,
       d_policy := (d_policy x)\<lparr>pol_discardable := pol_discardable pol\<rparr>\<rparr>)"
  have un: "under u = under s \<and> rooted u = rooted s" by (rule under_cong) (simp_all add: u_def)
  then have "ledger u at ch" using L(1) by (simp add: ledger_def u_def)
  with L un have v: "ledger ?v ?at ch"
    by (intro ledger_push) (auto simp: new_place_def)
  have rv: "rooted ?v = rooted s" using un under_cong [of ?v u] by simp
  have fresh: "counts_afresh (Some a) (descs ?v d) = counts_afresh (Some a) (descs s d)"
    by (simp add: u_def counts_afresh_def needs_laundry_def)
  have w: "descs (?w t) = (descs s)(d := claimed_desc a pol (descs s d)) \<and> ledger (?w t) x y"
    if "same_rest ?v t" "ledger t x y" for t x y
  proof -
    have "under (?w t) = under t \<and> rooted (?w t) = rooted t" by (rule under_cong) simp_all
    then show ?thesis
      using that by (simp add: ledger_def same_rest_def u_def claimed_desc_def)
  qed
  let ?charge = "do {
            s \<leftarrow> activity_charge ?v a 1;
            if free_allocations (acts s a) \<noteq> 0 then claim_allocation s a else Some s
          }"
  have eq: "claim_assign s a d pol True
      = do { s \<leftarrow> (if counts_afresh (Some a) (descs ?v d) then ?charge else Some ?v); Some (?w s) }"
    by (simp add: claim_assign_def Let_def u_def push_new_def [abs_def] new_place_def)
  have "\<exists>t. ?charge = Some t \<and> same_rest ?v t \<and> ledger t ?at (ch(d \<mapsto> a))" if ch: "ch d = None"
  proof -
    from activity_charge_credit [OF v ch, of a] L(3) rv obtain t where
        t: "activity_charge ?v a 1 = Some t" "same_rest ?v t" "ledger t ?at (ch(d \<mapsto> a))"
      by auto
    have "rooted t a" using same_rest_under [OF t(2)] rv L(3) by simp
    from claim_allocation_ledger [OF t(3) this] t show ?thesis
      by (auto intro: same_rest_trans)
  qed
  moreover have "ch(d \<mapsto> a) = ch" if "ch d = Some a" using that by auto
  ultimately show ?thesis
    using ch v w fresh by (fastforce simp: eq split: if_splits)
qed

subsection \<open>Claiming keeps the books\<close>

text \<open>
  The placement the code intends: a descriptor of the set \<open>D\<close> with an owner is on the list of its owner
  that its flags name. The books are consistent if the lists are exactly that and the counters of every
  activity are the numbers of frames so placed.
\<close>

definition placement_of :: "mem_state \<Rightarrow> did set \<Rightarrow> placement" where
  "placement_of s D d =
     (if d \<in> D then map_option (\<lambda>a. (a, place_of (descs s d))) (d_activity (descs s d)) else None)"

definition consistent :: "mem_state \<Rightarrow> did set \<Rightarrow> bool" where
  "consistent s D \<longleftrightarrow> ledger s (placement_of s D) (\<lambda>d. charged_at (placement_of s D d))"

lemma charged_sets:
  "{d. charged_at (at d) = Some a} = {d. at d = Some (a, PPriority)} \<union> {d. at d = Some (a, PActive)}
     \<union> {d. at d = Some (a, PInactive)} \<union> {d. at d = Some (a, PDirty)}" (is "?l = ?r")
proof (rule set_eqI)
  fix d
  show "d \<in> ?l \<longleftrightarrow> d \<in> ?r"
  proof (cases "at d")
    case (Some p)
    then show ?thesis by (cases p; cases "snd p") (auto simp: charged_at_def)
  qed (simp add: charged_at_def)
qed

lemma ledger_counted:
  assumes "ledger s at (\<lambda>d. charged_at (at d))"
  shows "lists_counted (acts s a)"
proof -
  let ?x = "acts s a"
  have len: "length (place_list k ?x) = card {d. at d = Some (a, k)}" for k
    using assms distinct_card [of "place_list k ?x"] by (auto simp: ledger_def books_def simp del: place_list.simps)
  have fin: "finite {d. at d = Some (a, k)}" for k
    by (rule finite_subset [of _ "dom at"]) (use assms in \<open>auto simp: ledger_def\<close>)
  have "card {d. charged_at (at d) = Some a} = card {d. at d = Some (a, PPriority)} + card {d. at d = Some (a, PActive)}
      + card {d. at d = Some (a, PInactive)} + card {d. at d = Some (a, PDirty)}"
    unfolding charged_sets using fin by (simp add: card_Un_disjoint disjoint_iff)
  moreover have "frames_local ?x = frames {d. charged_at (at d) = Some a}"
      "a_priorities_count ?x = int (length (place_list PPriority ?x))"
    using assms by (simp_all add: ledger_def books_def del: place_list.simps)
  ultimately show ?thesis
    using len [of PActive] len [of PInactive] len [of PPriority] len [of PDirty]
    by (simp add: lists_counted_def frames_def)
qed

lemma claim_change:
  assumes con: "consistent s D" and d: "d \<in> D \<or> d_activity (descs s d) = None"
    and act: "\<And>a. act = Some a \<Longrightarrow> rooted s a" and small: "finite D" "card D < 2 ^ 32"
  shows "\<exists>s'. do {
      s \<leftarrow> (case d_activity (descs s d) of None \<Rightarrow> Some s | Some old \<Rightarrow> claim_disconnect s old act d True);
      case act of None \<Rightarrow> Some s | Some a \<Rightarrow> claim_assign s a d pol True } = Some s'
    \<and> descs s' = (case act of None \<Rightarrow> descs s | Some a \<Rightarrow> (descs s)(d := claimed_desc a pol (descs s d)))
    \<and> ledger s' ((placement_of s D)(d := map_option (\<lambda>a. (a, new_place pol)) act))
        ((\<lambda>e. charged_at (placement_of s D e))(d := act))"
proof -
  let ?at = "placement_of s D" and ?ch = "\<lambda>e. charged_at (placement_of s D e)"
  have L: "ledger s ?at ?ch" using con by (simp add: consistent_def)
  have "dom ?ch \<subseteq> D" by (auto simp: charged_at_def placement_of_def split: if_splits option.splits prod.splits)
  then have card: "card (dom ?ch) < 2 ^ 32" using card_mono small by (meson le_less_trans)
  define ch where "ch = (if act = d_activity (descs s d) then ?ch else ?ch(d := None))"
  have "\<exists>t. (case d_activity (descs s d) of None \<Rightarrow> Some s | Some old \<Rightarrow> claim_disconnect s old act d True) = Some t
      \<and> descs t = descs s \<and> rooted t = rooted s \<and> ledger t (?at(d := None)) ch"
  proof (cases "d_activity (descs s d)")
    case None
    then have "?at d = None" by (simp add: placement_of_def)
    then have "?at(d := None) = ?at" "?ch(d := None) = ?ch" by (auto simp: charged_at_def fun_eq_iff)
    with None L show ?thesis by (simp add: ch_def)
  next
    case (Some old)
    with d have "?at d = Some (old, place_of (descs s d))" by (auto simp: placement_of_def)
    from claim_disconnect_ledger [OF L this refl card, of act] Some show ?thesis by (simp add: ch_def)
  qed
  then obtain t where t: "(case d_activity (descs s d) of None \<Rightarrow> Some s | Some old \<Rightarrow> claim_disconnect s old act d True) = Some t"
      "descs t = descs s" "rooted t = rooted s" "ledger t (?at(d := None)) ch"
    by blast
  show ?thesis
  proof (cases act)
    case None
    have "ch = ?ch(d := None)" by (auto simp: ch_def None charged_at_def placement_of_def fun_eq_iff)
    with t None show ?thesis by simp
  next
    case (Some a)
    have chd: "if counts_afresh (Some a) (descs t d) then ch d = None else ch d = Some a"
      using d by (cases "d_activity (descs s d)")
        (auto simp: ch_def Some t(2) counts_afresh_def charged_at_def placement_of_def place_of_def)
    have "ch(d \<mapsto> a) = ?ch(d \<mapsto> a)" by (auto simp: ch_def)
    moreover from claim_assign_ledger [OF t(4) _ _ chd, of pol] act [OF Some] t(3) obtain u where
        "claim_assign t a d pol True = Some u" "descs u = (descs t)(d := claimed_desc a pol (descs t d))"
        "ledger u (?at(d := None, d \<mapsto> (a, new_place pol))) (ch(d \<mapsto> a))"
      by auto
    ultimately show ?thesis using t Some by simp
  qed
qed

text \<open>C3: Claiming an object never fails an assertion of the code and keeps the books: it ends on
  the list of the new owner that its new priority names, its frame is charged to the new owner and to all
  its ancestors and to nobody else, and nothing else moves. Without a new owner, the object leaves
  all lists and is charged to nobody.
\<close>

theorem object_desc_claim_accounts:
  assumes con: "consistent s D" and d: "d \<in> D \<or> d_activity (descs s d) = None"
    and some: "d_activity (descs s d) \<noteq> None \<or> act \<noteq> None"
    and act: "\<And>a. act = Some a \<Longrightarrow> rooted s a" and small: "finite D" "card D < 2 ^ 32"
  shows "\<exists>s'. object_desc_claim s act d pol True = Some s'
    \<and> consistent s' (if act = None then D - {d} else insert d D)
    \<and> (\<forall>e. e \<noteq> d \<longrightarrow> descs s' e = descs s e)
    \<and> (act \<noteq> None \<longrightarrow> d_activity (descs s' d) = act \<and> \<not> d_eviction_candidate (descs s' d)
        \<and> pol_priority (d_policy (descs s' d)) = pol_priority pol
        \<and> pol_discardable (d_policy (descs s' d)) = pol_discardable pol)"
proof -
  let ?D = "if act = None then D - {d} else insert d D"
  have pre: "lists_counted (acts s x)" for x
    by (rule ledger_counted) (use con in \<open>simp add: consistent_def\<close>)
  show ?thesis
  proof (cases "d_activity (descs s d) = act \<and> \<not> d_eviction_candidate (descs s d)
      \<and> pol_priority (d_policy (descs s d)) = pol_priority pol")
    case True
    let ?s = "upd_desc d (\<lambda>x. x\<lparr>d_policy := (d_policy x)\<lparr>pol_discardable := pol_discardable pol\<rparr>\<rparr>) s"
    have D: "?D = D" using True some d by auto
    have "placement_of ?s D = placement_of s D"
      using True by (auto simp: placement_of_def place_of_def object_active_def fun_eq_iff)
    moreover have "under ?s = under s \<and> rooted ?s = rooted s" by (rule under_cong) simp_all
    ultimately have "consistent ?s D"
      using con by (simp add: consistent_def ledger_def)
    moreover have "object_desc_claim s act d pol True = Some ?s"
      using True some pre by (simp add: object_desc_claim_def Let_def)
    ultimately show ?thesis using True D by simp
  next
    case False
    from claim_change [OF con d act small, of act pol] obtain s' where s': "do {
        s \<leftarrow> (case d_activity (descs s d) of None \<Rightarrow> Some s | Some old \<Rightarrow> claim_disconnect s old act d True);
        case act of None \<Rightarrow> Some s | Some a \<Rightarrow> claim_assign s a d pol True } = Some s'"
        "descs s' = (case act of None \<Rightarrow> descs s | Some a \<Rightarrow> (descs s)(d := claimed_desc a pol (descs s d)))"
        "ledger s' ((placement_of s D)(d := map_option (\<lambda>a. (a, new_place pol)) act))
        ((\<lambda>e. charged_at (placement_of s D e))(d := act))" by blast
    have place: "(placement_of s D)(d := map_option (\<lambda>a. (a, new_place pol)) act) = placement_of s' ?D"
      by (cases act) (auto simp: placement_of_def s'(2) fun_eq_iff, simp_all add: claimed_desc_def)
    moreover have "(\<lambda>e. charged_at (placement_of s D e))(d := act) = (\<lambda>e. charged_at (placement_of s' ?D e))"
      unfolding place [symmetric] by (cases act) (auto simp: charged_at_def new_place_def fun_eq_iff)
    ultimately have con': "consistent s' ?D"
      using s'(3) by (simp add: consistent_def)
    then have "lists_counted (acts s' x)" for x
      using ledger_counted by (simp add: consistent_def)
    then have "object_desc_claim s act d pol True = Some s'"
      using False some pre s'(1) by (auto simp: object_desc_claim_def Let_def)
    with con' s'(2) show ?thesis by (cases act) (simp_all add: claimed_desc_def)
  qed
qed

text \<open>A system with a root activity and a child, and no object in memory.\<close>

definition idle_activity :: "aid option \<Rightarrow> activity" where
  "idle_activity p = \<lparr>a_parent = p, a_active = [], a_inactive = [], a_priorities = [], a_priorities_count = 0,
     a_eviction_clean = [], a_eviction_dirty = [], frames_local = 0, frames_total = 0,
     frames_pending_eviction = 0, free_bad_karma = 0, free_goal = 0, free_allocations = 1,
     free_initial_allocation = 1, frames_excluded = 0, stat_claimed = 0, stat_disowned = 0, stat_evicted = 0\<rparr>"

definition empty_memory :: mem_state where
  "empty_memory = \<lparr>acts = (\<lambda>a. idle_activity (if a = 0 then None else Some 0)),
     descs = (\<lambda>_. \<lparr>d_dirty = False, d_user_dirty = False, d_user_referenced = False,
       d_eviction_candidate = False, d_mapped = False, d_live = True,
       d_policy = \<lparr>pol_discardable = False, pol_priority = OBJECT_PRIORITY_LRU\<rparr>, d_age = 0, d_activity = None\<rparr>),
     laundry = [], available = [], root_activity = 0\<rparr>"

lemma empty_memory_consistent: "consistent empty_memory {}"
proof -
  have "place_list k (idle_activity p) = []" for k p by (cases k) (simp_all add: idle_activity_def)
  moreover have "placement_of empty_memory {} = (\<lambda>_. None)" by (simp add: placement_of_def fun_eq_iff)
  ultimately show ?thesis
    by (simp add: consistent_def ledger_def books_def charged_at_def frames_def
        empty_memory_def del: place_list.simps) (simp add: idle_activity_def)
qed

lemma empty_memory_rooted: "rooted empty_memory 1"
  by (simp add: rooted_def ancestors.simps [of _ _ "Suc 0"] ancestors.simps [of _ _ 0] empty_memory_def idle_activity_def)

theorem object_desc_claim_accounts_witness:
  "\<exists>s'. object_desc_claim empty_memory (Some 1) 7 \<lparr>pol_discardable = True, pol_priority = OBJECT_PRIORITY_LRU\<rparr> True = Some s'
    \<and> consistent s' {7} \<and> d_activity (descs s' 7) = Some 1"
  using object_desc_claim_accounts [OF empty_memory_consistent, of 7 "Some 1"
      "\<lparr>pol_discardable = True, pol_priority = OBJECT_PRIORITY_LRU\<rparr>"] empty_memory_rooted
  by (auto simp: empty_memory_def)

end
