(* ===== verification/Btree.thy ===== *)
theory Btree
  imports Prelude "HOL-Library.Tree"
begin

text \<open>
  The traversal of the threaded trees of \<^verbatim>\<open>libhurd-btree\<close>. A link of a node is a child or a thread; a missing right child is
  replaced by a thread to the next node, a missing left child by a thread to the previous node or, until
  \<^verbatim>\<open>prev\<close> has been there, by a null pointer. The functions work on a heap of nodes; the abstraction is a tree of
  node addresses, and what they return is read off its inorder list. Insertion is modelled on the abstraction, where the
  descent of \<^verbatim>\<open>find_internal\<close> determines the order of the nodes; the rotations of insertion and removal, which keep the
  order, are not modelled.
\<close>

subsection \<open>Nodes\<close>

text \<open>The lowest bit of a link is the thread bit, that of the parent pointer the colour; 0 is the null pointer.\<close>

record node_ptr =
  np_thread :: bool
  np_ptr :: nat

record btree_node =
  bn_red :: bool
  bn_parent :: nat
  bn_left :: node_ptr
  bn_right :: node_ptr

type_synonym btree_heap = "nat \<rightharpoonup> btree_node"

definition BTREE_NP_THREAD_P :: "node_ptr \<Rightarrow> bool" where
  "BTREE_NP_THREAD_P np = np_thread np"

definition BTREE_NP_THREAD :: "node_ptr \<Rightarrow> nat" where
  "BTREE_NP_THREAD np = (if BTREE_NP_THREAD_P np then np_ptr np else 0)"

definition BTREE_NP_CHILD :: "node_ptr \<Rightarrow> nat" where
  "BTREE_NP_CHILD np = (if BTREE_NP_THREAD_P np then 0 else np_ptr np)"

definition BTREE_NP_THREAD_SET :: "nat \<Rightarrow> node_ptr" where
  "BTREE_NP_THREAD_SET v = \<lparr>np_thread = True, np_ptr = v\<rparr>"

definition BTREE_NP_CHILD_SET :: "nat \<Rightarrow> node_ptr" where
  "BTREE_NP_CHILD_SET v = \<lparr>np_thread = False, np_ptr = v\<rparr>"

definition btree_tree_init :: node_ptr where
  "btree_tree_init = BTREE_NP_CHILD_SET 0"

subsection \<open>Traversal\<close>

partial_function (option) leftmost :: "btree_heap \<Rightarrow> nat \<Rightarrow> nat option" where
  "leftmost h node = (case h node of
     None \<Rightarrow> None
   | Some n \<Rightarrow> if BTREE_NP_CHILD (bn_left n) \<noteq> 0 then leftmost h (BTREE_NP_CHILD (bn_left n)) else Some node)"

partial_function (option) rightmost :: "btree_heap \<Rightarrow> nat \<Rightarrow> nat option" where
  "rightmost h node = (case h node of
     None \<Rightarrow> None
   | Some n \<Rightarrow> if BTREE_NP_CHILD (bn_right n) \<noteq> 0 then rightmost h (BTREE_NP_CHILD (bn_right n)) else Some node)"

definition btree_first :: "btree_heap \<Rightarrow> node_ptr \<Rightarrow> nat option" where
  "btree_first h root = (if np_ptr root = 0 then Some 0 else leftmost h (np_ptr root))"

definition btree_next :: "btree_heap \<Rightarrow> nat \<Rightarrow> nat option" where
  "btree_next h node = do {
     n \<leftarrow> h node;
     (if BTREE_NP_THREAD_P (bn_right n) then Some (BTREE_NP_THREAD (bn_right n))
      else do {
        _ \<leftarrow> c_assert (BTREE_NP_CHILD (bn_right n) \<noteq> 0);
        leftmost h (BTREE_NP_CHILD (bn_right n))
      })
   }"

text \<open>The loops that climb to the first ancestor which is a left, or right, child; they return its parent.\<close>

partial_function (option) climb_right :: "btree_heap \<Rightarrow> nat \<Rightarrow> nat option" where
  "climb_right h node = (case h node of
     None \<Rightarrow> None
   | Some n \<Rightarrow>
       if bn_parent n = 0 then Some 0
       else case h (bn_parent n) of
         None \<Rightarrow> None
       | Some p \<Rightarrow> if node = BTREE_NP_CHILD (bn_right p) then climb_right h (bn_parent n) else Some (bn_parent n))"

partial_function (option) climb_left :: "btree_heap \<Rightarrow> nat \<Rightarrow> nat option" where
  "climb_left h node = (case h node of
     None \<Rightarrow> None
   | Some n \<Rightarrow>
       if bn_parent n = 0 then Some 0
       else case h (bn_parent n) of
         None \<Rightarrow> None
       | Some p \<Rightarrow> if node = BTREE_NP_CHILD (bn_left p) then climb_left h (bn_parent n) else Some (bn_parent n))"

definition btree_next_hard :: "btree_heap \<Rightarrow> nat \<Rightarrow> nat option" where
  "btree_next_hard h node = do {
     n \<leftarrow> h node;
     (if BTREE_NP_THREAD_P (bn_right n) then Some (BTREE_NP_THREAD (bn_right n))
      else if BTREE_NP_CHILD (bn_right n) \<noteq> 0 then leftmost h (BTREE_NP_CHILD (bn_right n))
      else if bn_parent n = 0 then Some 0
      else do {
        p \<leftarrow> h (bn_parent n);
        (if BTREE_NP_CHILD (bn_left p) = node then Some (bn_parent n)
         else do {
           _ \<leftarrow> c_assert (BTREE_NP_CHILD (bn_right p) = node);
           climb_right h node
         })
      })
   }"

definition btree_prev_hard :: "btree_heap \<Rightarrow> nat \<Rightarrow> nat option" where
  "btree_prev_hard h node = do {
     n \<leftarrow> h node;
     (if BTREE_NP_THREAD_P (bn_left n) then Some (BTREE_NP_THREAD (bn_left n))
      else if BTREE_NP_CHILD (bn_left n) \<noteq> 0 then rightmost h (BTREE_NP_CHILD (bn_left n))
      else if bn_parent n = 0 then Some 0
      else do {
        p \<leftarrow> h (bn_parent n);
        (if BTREE_NP_CHILD (bn_right p) = node then Some (bn_parent n)
         else do {
           _ \<leftarrow> c_assert (BTREE_NP_CHILD (bn_left p) = node);
           climb_left h node
         })
      })
   }"

definition btree_prev :: "btree_heap \<Rightarrow> nat \<Rightarrow> (nat \<times> btree_heap) option" where
  "btree_prev h node = do {
     n \<leftarrow> h node;
     (if BTREE_NP_THREAD_P (bn_left n) then Some (BTREE_NP_THREAD (bn_left n), h)
      else do {
        prev \<leftarrow> btree_prev_hard h node;
        Some (prev, if BTREE_NP_CHILD (bn_left n) = 0 then h(node \<mapsto> n\<lparr>bn_left := BTREE_NP_THREAD_SET prev\<rparr>) else h)
      })
   }"

text \<open>The loop that the header recommends for deleting a tree: every node is freed after its successor has been computed.\<close>

partial_function (option) free_all :: "btree_heap \<Rightarrow> nat \<Rightarrow> (nat list \<times> btree_heap) option" where
  "free_all h node =
     (if node = 0 then Some ([], h)
      else do {
        nxt \<leftarrow> btree_next h node;
        r \<leftarrow> free_all (h(node := None)) nxt;
        Some (node # fst r, snd r)
      })"

lemmas np_defs = BTREE_NP_THREAD_P_def BTREE_NP_THREAD_def BTREE_NP_CHILD_def BTREE_NP_THREAD_SET_def BTREE_NP_CHILD_SET_def

subsection \<open>Trees in the heap\<close>

text \<open>
  The subtree \<open>t\<close> below \<open>par\<close>, between the nodes \<open>lo\<close> and \<open>hi\<close> of the inorder list (0 at its ends). With \<open>strict\<close> every
  missing right child is a thread, which is the state between operations.
\<close>

definition link_ok :: "bool \<Rightarrow> node_ptr \<Rightarrow> nat tree \<Rightarrow> nat \<Rightarrow> bool" where
  "link_ok strict np t d \<longleftrightarrow> (case t of
     Leaf \<Rightarrow> np = BTREE_NP_THREAD_SET d \<or> \<not> strict \<and> np = BTREE_NP_CHILD_SET 0
   | Node _ b _ \<Rightarrow> np = BTREE_NP_CHILD_SET b)"

fun btree_at :: "bool \<Rightarrow> btree_heap \<Rightarrow> nat \<Rightarrow> nat \<Rightarrow> nat \<Rightarrow> nat tree \<Rightarrow> bool" where
  "btree_at strict h par lo hi Leaf \<longleftrightarrow> True"
| "btree_at strict h par lo hi (Node l a r) \<longleftrightarrow> a \<noteq> 0
     \<and> (\<exists>n. h a = Some n \<and> bn_parent n = par \<and> link_ok False (bn_left n) l lo \<and> link_ok strict (bn_right n) r hi)
     \<and> btree_at strict h a lo a l \<and> btree_at strict h a a hi r"

definition hdd :: "nat list \<Rightarrow> nat \<Rightarrow> nat" where
  "hdd xs d = (case xs of [] \<Rightarrow> d | x # _ \<Rightarrow> x)"

lemma hdd_simps [simp]: "hdd [] d = d" "hdd (x # xs) d = x" "hdd (xs @ ys) d = hdd xs (hdd ys d)"
  by (auto simp: hdd_def split: list.splits)

lemma btree_at_cong: "btree_at s h par lo hi t \<Longrightarrow> (\<And>x. x \<in> set_tree t \<Longrightarrow> h' x = h x) \<Longrightarrow> btree_at s h' par lo hi t"
  by (induction s h par lo hi t rule: btree_at.induct) auto

lemma link_ok_child: "link_ok s np t d \<Longrightarrow> btree_at s' h par lo hi t \<Longrightarrow> BTREE_NP_CHILD np = (case t of Leaf \<Rightarrow> 0 | Node _ b _ \<Rightarrow> b)"
  by (auto simp: link_ok_def np_defs split: tree.splits)

text \<open>Descending on one side reaches the end of the inorder list of the subtree; only its nodes are read.\<close>

lemma leftmost_at:
  assumes "btree_at s h par lo hi (Node l a r)" "\<And>x. x \<in> set_tree (Node l a r) \<Longrightarrow> h' x = h x"
  shows "leftmost h' a = Some (hdd (inorder l) a)"
  using assms
proof (induction l arbitrary: par lo hi a r)
  case Leaf
  then show ?case by (subst leftmost.simps) (auto simp: link_ok_def np_defs)
next
  case (Node l b r')
  then obtain n where n: "h' a = Some n" "BTREE_NP_CHILD (bn_left n) = b" "b \<noteq> 0" "btree_at s h a lo a (Node l b r')"
    by (auto simp: link_ok_def np_defs)
  have "leftmost h' b = Some (hdd (inorder l) b)" by (rule Node.IH(1) [OF n(4)]) (use Node.prems(2) in auto)
  then show ?case using n(1-3) by (subst leftmost.simps) simp
qed

lemma rightmost_at:
  assumes "btree_at s h par lo hi (Node l a r)" "\<And>x. x \<in> set_tree (Node l a r) \<Longrightarrow> h' x = h x"
  shows "rightmost h' a = Some (last (a # inorder r))"
  using assms
proof (induction r arbitrary: par lo hi a l)
  case Leaf
  then show ?case by (subst rightmost.simps) (auto simp: link_ok_def np_defs)
next
  case (Node l' b r)
  then obtain n where n: "h' a = Some n" "BTREE_NP_CHILD (bn_right n) = b" "b \<noteq> 0" "btree_at s h a a hi (Node l' b r)"
    by (auto simp: link_ok_def np_defs)
  have "rightmost h' b = Some (last (b # inorder r))" by (rule Node.IH(2) [OF n(4)]) (use Node.prems(2) in auto)
  then show ?case using n(1-3) by (subst rightmost.simps) simp
qed

subsection \<open>Successors and predecessors\<close>

lemma inorder_split:
  assumes "xs @ a # ys = us @ x # vs"
  obtains (left) v where "xs = us @ x # v" "vs = v @ a # ys" | (here) "us = xs" "x = a" "vs = ys"
    | (right) u where "ys = u @ x # vs" "us = xs @ a # u"
proof -
  from assms consider w where "us = xs @ w" "a # ys = w @ x # vs" | w where "xs = us @ w" "w @ a # ys = x # vs"
    unfolding append_eq_append_conv2 by metis
  then show thesis
  proof cases
    case (1 w)
    then show ?thesis using here right by (cases w) auto
  next
    case (2 w)
    then show ?thesis using here left by (cases w) auto
  qed
qed

text \<open>\<^verbatim>\<open>next\<close> reads only the node and nodes behind it.\<close>

lemma next_at:
  assumes "btree_at True h par lo hi t" "inorder t = us @ x # vs" "\<And>y. y \<in> set (x # vs) \<Longrightarrow> h' y = h y"
  shows "btree_next h' x = Some (hdd vs hi)"
  using assms
proof (induction t arbitrary: par lo hi us vs)
  case (Node l a r)
  then obtain n where n: "h a = Some n" "link_ok True (bn_right n) r hi" "btree_at True h a lo a l" "btree_at True h a a hi r" by auto
  from Node.prems(2) have "inorder l @ a # inorder r = us @ x # vs" by simp
  then show ?case
  proof (cases rule: inorder_split)
    case (left v)
    have "btree_next h' x = Some (hdd v a)" by (rule Node.IH(1) [OF n(3) left(1)]) (use Node.prems(3) left(2) in auto)
    then show ?thesis using left(2) by simp
  next
    case (right u)
    show ?thesis by (rule Node.IH(2) [OF n(4) right(1)]) (use Node.prems(3) in auto)
  next
    case here
    have ha: "h' a = Some n" using Node.prems(3) n(1) here by simp
    show ?thesis
    proof (cases r)
      case Leaf
      then show ?thesis using ha n(2) here by (simp add: btree_next_def link_ok_def np_defs)
    next
      case (Node r1 b r2)
      then have "leftmost h' b = Some (hdd (inorder r1) b)"
        by (intro leftmost_at [OF n(4) [unfolded Node]]) (use Node.prems(3) here in auto)
      moreover have "b \<noteq> 0" using n(4) Node by simp
      ultimately show ?thesis using ha n(2) here Node by (simp add: btree_next_def link_ok_def np_defs)
    qed
  qed
qed simp

text \<open>The way up from the root of a subtree: its parent has exactly one link to it, and climbing reaches its bounds.\<close>

definition top_ok :: "btree_heap \<Rightarrow> nat \<Rightarrow> nat \<Rightarrow> nat \<Rightarrow> nat tree \<Rightarrow> bool" where
  "top_ok h par lo hi t \<longleftrightarrow> (case t of Leaf \<Rightarrow> True | Node _ a _ \<Rightarrow>
     climb_right h a = Some hi \<and> climb_left h a = Some lo
     \<and> (par = 0 \<or> (\<exists>p. h par = Some p \<and> (BTREE_NP_CHILD (bn_left p) = a) \<noteq> (BTREE_NP_CHILD (bn_right p) = a))))"

lemma top_ok_root:
  assumes "btree_at s h 0 0 0 t"
  shows "top_ok h 0 0 0 t"
proof (cases t)
  case (Node l a r)
  then obtain n where "h a = Some n" "bn_parent n = 0" using assms by auto
  then show ?thesis using Node by (auto simp: top_ok_def climb_right.simps [of h a] climb_left.simps [of h a])
qed (simp add: top_ok_def)

lemma top_ok_children:
  assumes at: "btree_at s h par lo hi (Node l a r)" and d: "distinct (inorder (Node l a r))" and top: "top_ok h par lo hi (Node l a r)"
  shows "top_ok h a lo a l" "top_ok h a a hi r"
proof -
  from at obtain n where n: "h a = Some n" "a \<noteq> 0" "link_ok False (bn_left n) l lo" "link_ok s (bn_right n) r hi"
      "btree_at s h a lo a l" "btree_at s h a a hi r" by auto
  have up: "climb_right h a = Some hi" "climb_left h a = Some lo" using top by (simp_all add: top_ok_def)
  have L: "BTREE_NP_CHILD (bn_left n) = (case l of Leaf \<Rightarrow> 0 | Node _ b _ \<Rightarrow> b)" by (rule link_ok_child [OF n(3,5)])
  have R: "BTREE_NP_CHILD (bn_right n) = (case r of Leaf \<Rightarrow> 0 | Node _ b _ \<Rightarrow> b)" by (rule link_ok_child [OF n(4,6)])
  show "top_ok h a lo a l"
  proof (cases l)
    case (Node l1 b l2)
    then obtain m where m: "h b = Some m" "bn_parent m = a" "b \<noteq> 0" using n(5) by auto
    have "BTREE_NP_CHILD (bn_right n) \<noteq> b" using R d Node m(3) by (auto split: tree.splits)
    then show ?thesis using Node L m n(1,2) up
      by (auto simp: top_ok_def climb_right.simps [of h b] climb_left.simps [of h b])
  qed (simp add: top_ok_def)
  show "top_ok h a a hi r"
  proof (cases r)
    case (Node l1 b l2)
    then obtain m where m: "h b = Some m" "bn_parent m = a" "b \<noteq> 0" using n(6) by auto
    have "BTREE_NP_CHILD (bn_left n) \<noteq> b" using L d Node m(3) by (auto split: tree.splits)
    then show ?thesis using Node R m n(1,2) up
      by (auto simp: top_ok_def climb_right.simps [of h b] climb_left.simps [of h b])
  qed (simp add: top_ok_def)
qed

lemma next_hard_at:
  assumes "btree_at s h par lo hi t" "distinct (inorder t)" "top_ok h par lo hi t" "inorder t = us @ x # vs"
  shows "btree_next_hard h x = Some (hdd vs hi)"
  using assms
proof (induction t arbitrary: par lo hi us vs)
  case (Node l a r)
  then obtain n where n: "h a = Some n" "bn_parent n = par" "link_ok s (bn_right n) r hi" "btree_at s h a lo a l" "btree_at s h a a hi r" by auto
  note top = top_ok_children [OF Node.prems(1-3)]
  have d: "distinct (inorder l)" "distinct (inorder r)" using Node.prems(2) by simp_all
  from Node.prems(4) have "inorder l @ a # inorder r = us @ x # vs" by simp
  then show ?case
  proof (cases rule: inorder_split)
    case (left v)
    then show ?thesis using Node.IH(1) [OF n(4) d(1) top(1) left(1)] by simp
  next
    case (right u)
    then show ?thesis using Node.IH(2) [OF n(5) d(2) top(2) right(1)] by simp
  next
    case here
    show ?thesis
    proof (cases r)
      case Leaf
      from Node.prems(3) have T: "climb_right h a = Some hi"
        "par = 0 \<or> (\<exists>p. h par = Some p \<and> (BTREE_NP_CHILD (bn_left p) = a) \<noteq> (BTREE_NP_CHILD (bn_right p) = a))"
        by (simp_all add: top_ok_def)
      note C = T(1) [unfolded climb_right.simps [of h a]]
      show ?thesis using n(1-3) here T C Leaf by (auto simp: btree_next_hard_def link_ok_def np_defs)
    next
      case (Node r1 b r2)
      have "leftmost h b = Some (hdd (inorder r1) b)" by (rule leftmost_at [OF n(5) [unfolded Node]]) simp
      moreover have "b \<noteq> 0" using n(5) Node by simp
      ultimately show ?thesis using n(1,3) here Node by (simp add: btree_next_hard_def link_ok_def np_defs)
    qed
  qed
qed simp

lemma prev_hard_at:
  assumes "btree_at s h par lo hi t" "distinct (inorder t)" "top_ok h par lo hi t" "inorder t = us @ x # vs"
  shows "btree_prev_hard h x = Some (last (lo # us))"
  using assms
proof (induction t arbitrary: par lo hi us vs)
  case (Node l a r)
  then obtain n where n: "h a = Some n" "bn_parent n = par" "link_ok False (bn_left n) l lo" "btree_at s h a lo a l" "btree_at s h a a hi r" by auto
  note top = top_ok_children [OF Node.prems(1-3)]
  have d: "distinct (inorder l)" "distinct (inorder r)" using Node.prems(2) by simp_all
  from Node.prems(4) have "inorder l @ a # inorder r = us @ x # vs" by simp
  then show ?case
  proof (cases rule: inorder_split)
    case (left v)
    then show ?thesis using Node.IH(1) [OF n(4) d(1) top(1) left(1)] by simp
  next
    case (right u)
    then show ?thesis using Node.IH(2) [OF n(5) d(2) top(2) right(1)] by simp
  next
    case here
    show ?thesis
    proof (cases l)
      case Leaf
      from Node.prems(3) have T: "climb_left h a = Some lo"
        "par = 0 \<or> (\<exists>p. h par = Some p \<and> (BTREE_NP_CHILD (bn_left p) = a) \<noteq> (BTREE_NP_CHILD (bn_right p) = a))"
        by (simp_all add: top_ok_def)
      note C = T(1) [unfolded climb_left.simps [of h a]]
      show ?thesis using n(1-3) here T C Leaf by (auto simp: btree_prev_hard_def link_ok_def np_defs)
    next
      case (Node l1 b l2)
      have "rightmost h b = Some (last (b # inorder l2))" by (rule rightmost_at [OF n(4) [unfolded Node]]) simp
      moreover have "b \<noteq> 0" using n(4) Node by simp
      ultimately show ?thesis using n(1,3) here Node by (simp add: btree_prev_hard_def link_ok_def np_defs)
    qed
  qed
qed simp

lemma btree_at_nz: "btree_at s h par lo hi t \<Longrightarrow> x \<in> set_tree t \<Longrightarrow> x \<noteq> 0"
  by (induction s h par lo hi t rule: btree_at.induct) auto

text \<open>\<^verbatim>\<open>prev\<close> may replace a null pointer by the thread to the node that it returns.\<close>

lemma prev_at:
  assumes "btree_at s h par lo hi t" "distinct (inorder t)" "top_ok h par lo hi t" "inorder t = us @ x # vs"
  shows "\<exists>h'. btree_prev h x = Some (last (lo # us), h') \<and> btree_at s h' par lo hi t \<and> (\<forall>y. y \<noteq> x \<longrightarrow> h' y = h y)"
  using assms
proof (induction t arbitrary: par lo hi us vs)
  case (Node l a r)
  then obtain n where n: "h a = Some n" "bn_parent n = par" "link_ok False (bn_left n) l lo" "btree_at s h a lo a l" "btree_at s h a a hi r"
    "link_ok s (bn_right n) r hi" "a \<noteq> 0" by auto
  note top = top_ok_children [OF Node.prems(1-3)]
  have d: "distinct (inorder l)" "distinct (inorder r)" "a \<notin> set_tree l" "a \<notin> set_tree r" "set_tree l \<inter> set_tree r = {}"
    using Node.prems(2) by simp_all
  from Node.prems(4) have "inorder l @ a # inorder r = us @ x # vs" by simp
  then show ?case
  proof (cases rule: inorder_split)
    case (left v)
    from Node.IH(1) [OF n(4) d(1) top(1) left(1)] obtain h' where h': "btree_prev h x = Some (last (lo # us), h')" "btree_at s h' a lo a l"
      "\<forall>y. y \<noteq> x \<longrightarrow> h' y = h y" by blast
    have x: "x \<in> set_tree l" using left(1) by (metis in_set_conv_decomp set_inorder)
    have "btree_at s h' a a hi r" using n(5) by (rule btree_at_cong) (use h'(3) x d in auto)
    moreover have "h' a = Some n" using h'(3) x d n(1) by auto
    ultimately show ?thesis using h' n by auto
  next
    case (right u)
    from Node.IH(2) [OF n(5) d(2) top(2) right(1)] obtain h' where h': "btree_prev h x = Some (last (a # u), h')" "btree_at s h' a a hi r"
      "\<forall>y. y \<noteq> x \<longrightarrow> h' y = h y" by blast
    have x: "x \<in> set_tree r" using right(1) by (metis in_set_conv_decomp set_inorder)
    have "btree_at s h' a lo a l" using n(4) by (rule btree_at_cong) (use h'(3) x d in auto)
    moreover have "h' a = Some n" using h'(3) x d n(1) by auto
    ultimately show ?thesis using h' n right(2) by auto
  next
    case here
    have ph: "btree_prev_hard h a = Some (last (lo # us))" using prev_hard_at [OF Node.prems(1-3), of us a vs] Node.prems(4) here(2) by simp
    define h' where "h' = (if l = Leaf \<and> \<not> BTREE_NP_THREAD_P (bn_left n) then h(a \<mapsto> n\<lparr>bn_left := BTREE_NP_THREAD_SET lo\<rparr>) else h)"
    have run: "btree_prev h x = Some (last (lo # us), h')"
      using n(1,3,4) here ph by (cases l) (auto simp: btree_prev_def h'_def link_ok_def np_defs)
    have "btree_at s h' a lo a l" by (rule btree_at_cong [OF n(4)]) (use d in \<open>auto simp: h'_def\<close>)
    moreover have "btree_at s h' a a hi r" by (rule btree_at_cong [OF n(5)]) (use d in \<open>auto simp: h'_def\<close>)
    moreover have "\<exists>m. h' a = Some m \<and> bn_parent m = par \<and> link_ok False (bn_left m) l lo \<and> link_ok s (bn_right m) r hi"
    proof -
      have "link_ok False (BTREE_NP_THREAD_SET lo) Leaf lo" by (simp add: link_ok_def)
      then show ?thesis using n(1-3,6) by (auto simp: h'_def)
    qed
    ultimately have "btree_at s h' par lo hi (Node l a r)" using n(7) by simp
    moreover have "\<forall>y. y \<noteq> x \<longrightarrow> h' y = h y" using here(2) by (simp add: h'_def)
    ultimately show ?thesis using run by blast
  qed
qed simp

subsection \<open>Whole trees\<close>

definition btree_ok :: "btree_heap \<Rightarrow> node_ptr \<Rightarrow> nat tree \<Rightarrow> bool" where
  "btree_ok h root t \<longleftrightarrow> distinct (inorder t) \<and> btree_at True h 0 0 0 t
     \<and> root = BTREE_NP_CHILD_SET (case t of Leaf \<Rightarrow> 0 | Node _ a _ \<Rightarrow> a)"

lemma free_all_at:
  assumes "btree_at True h 0 0 0 t" "distinct (inorder t)" "inorder t = us @ vs"
  shows "free_all (\<lambda>y. if y \<in> set us then None else h y) (hdd vs 0) = Some (vs, \<lambda>y. if y \<in> set_tree t then None else h y)"
  using assms(3)
proof (induction vs arbitrary: us)
  case Nil
  then have "set us = set_tree t" by (metis append_Nil2 set_inorder)
  then show ?case by (simp add: free_all.simps)
next
  case (Cons v vs)
  let ?h = "\<lambda>y. if y \<in> set us then None else h y"
  have "v \<in> set_tree t" using Cons.prems by (metis in_set_conv_decomp set_inorder)
  then have v: "v \<noteq> 0" by (rule btree_at_nz [OF assms(1)])
  have nx: "btree_next ?h v = Some (hdd vs 0)"
    by (rule next_at [OF assms(1) Cons.prems]) (use assms(2) Cons.prems in auto)
  have "?h(v := None) = (\<lambda>y. if y \<in> set (us @ [v]) then None else h y)" by (auto simp: fun_eq_iff)
  then have "free_all (?h(v := None)) (hdd vs 0) = Some (vs, \<lambda>y. if y \<in> set_tree t then None else h y)"
    using Cons.IH [of "us @ [v]"] Cons.prems by simp
  then show ?case using v nx by (subst free_all.simps) simp
qed

text \<open>C17: Traversal of a threaded tree. \<^verbatim>\<open>first\<close> returns the first node of the inorder list; \<^verbatim>\<open>next\<close>, \<^verbatim>\<open>next_hard\<close> and
  \<^verbatim>\<open>prev\<close> return the neighbours of a node in it, a null pointer at its ends, no assertion fails, and \<^verbatim>\<open>prev\<close> keeps the tree
  although it may add a thread. The loop that frees every node after computing its successor ends, frees
  all the nodes in order and never reads a node that has been freed, as the header promises.
\<close>

theorem btree_traversal:
  assumes "btree_ok h root t"
  shows "btree_first h root = Some (hdd (inorder t) 0)
    \<and> (\<forall>us x vs. inorder t = us @ x # vs \<longrightarrow>
        btree_next h x = Some (hdd vs 0) \<and> btree_next_hard h x = Some (hdd vs 0)
        \<and> (\<exists>h'. btree_prev h x = Some (last (0 # us), h') \<and> btree_ok h' root t))
    \<and> btree_first h root \<bind> free_all h = Some (inorder t, \<lambda>y. if y \<in> set_tree t then None else h y)"
proof -
  from assms have ok: "distinct (inorder t)" "btree_at True h 0 0 0 t" "root = BTREE_NP_CHILD_SET (case t of Leaf \<Rightarrow> 0 | Node _ a _ \<Rightarrow> a)"
    by (simp_all add: btree_ok_def)
  note top = top_ok_root [OF ok(2)]
  have first: "btree_first h root = Some (hdd (inorder t) 0)"
  proof (cases t)
    case (Node l a r)
    then show ?thesis using leftmost_at [OF ok(2) [unfolded Node], of h] ok(2,3) by (simp add: btree_first_def np_defs)
  qed (simp add: btree_first_def ok(3) np_defs)
  have "btree_next h x = Some (hdd vs 0) \<and> btree_next_hard h x = Some (hdd vs 0)
      \<and> (\<exists>h'. btree_prev h x = Some (last (0 # us), h') \<and> btree_ok h' root t)" if x: "inorder t = us @ x # vs" for us x vs
    using next_at [OF ok(2) x, of h] next_hard_at [OF ok(2,1) top x] prev_at [OF ok(2,1) top x] ok(1,3) by (auto simp: btree_ok_def)
  moreover have "btree_first h root \<bind> free_all h = Some (inorder t, \<lambda>y. if y \<in> set_tree t then None else h y)"
    using free_all_at [OF ok(2,1), of "[]" "inorder t"] first by simp
  ultimately show ?thesis using first by blast
qed

definition demo_btree :: btree_heap where
  "demo_btree = [16 \<mapsto> \<lparr>bn_red = False, bn_parent = 0, bn_left = BTREE_NP_CHILD_SET 8, bn_right = BTREE_NP_CHILD_SET 24\<rparr>,
     8 \<mapsto> \<lparr>bn_red = True, bn_parent = 16, bn_left = BTREE_NP_CHILD_SET 0, bn_right = BTREE_NP_THREAD_SET 16\<rparr>,
     24 \<mapsto> \<lparr>bn_red = True, bn_parent = 16, bn_left = BTREE_NP_CHILD_SET 0, bn_right = BTREE_NP_THREAD_SET 0\<rparr>]"

theorem btree_traversal_witness:
  "btree_first demo_btree (BTREE_NP_CHILD_SET 16) = Some 8 \<and> btree_next demo_btree 8 = Some 16 \<and> btree_next demo_btree 16 = Some 24
    \<and> btree_next_hard demo_btree 24 = Some 0 \<and> (\<exists>h. btree_prev demo_btree 24 = Some (16, h))
    \<and> (\<exists>h. btree_first demo_btree (BTREE_NP_CHILD_SET 16) \<bind> free_all demo_btree = Some ([8, 16, 24], h))"
proof -
  let ?t = "Node (Node Leaf 8 Leaf) 16 (Node Leaf 24 Leaf)"
  have "btree_ok demo_btree (BTREE_NP_CHILD_SET 16) ?t"
    by (simp add: btree_ok_def demo_btree_def link_ok_def)
  note T = btree_traversal [OF this]
  from T have s: "btree_next demo_btree x = Some (hdd vs 0) \<and> btree_next_hard demo_btree x = Some (hdd vs 0)
      \<and> (\<exists>h'. btree_prev demo_btree x = Some (last (0 # us), h'))" if "inorder ?t = us @ x # vs" for us x vs
    using that by blast
  show ?thesis using T s [of "[]" 8 "[16, 24]"] s [of "[8]" 16 "[24]"] s [of "[8, 16]" 24 "[]"] by auto
qed

subsection \<open>Where a new node goes\<close>

text \<open>\<open>insert\<close> descends as \<open>find_internal\<close> does with \<open>may_overlap\<close>: to the left of a node with a greater key, to the right
  of all others, and installs the new node where there is no child.\<close>

fun btree_insert :: "('a \<Rightarrow> 'a \<Rightarrow> int) \<Rightarrow> 'a \<Rightarrow> 'a tree \<Rightarrow> 'a tree" where
  "btree_insert compare x Leaf = Node Leaf x Leaf"
| "btree_insert compare x (Node l node r) =
     (let c = compare x node
      in if c < 0 then Node (btree_insert compare x l) node r else Node l node (btree_insert compare x r))"

lemma set_btree_insert [simp]: "set_tree (btree_insert compare x t) = insert x (set_tree t)"
  by (induction t) (auto simp: Let_def)

lemma distinct_btree_insert: "distinct (inorder (btree_insert compare x t)) \<longleftrightarrow> x \<notin> set_tree t \<and> distinct (inorder t)"
  by (induction t) (auto simp: Let_def)

lemma sorted_btree_insert:
  "sorted (map key (inorder t)) \<Longrightarrow> sorted (map key (inorder (btree_insert (\<lambda>a b. key a - key b) x t)))"
  by (induction t) (auto simp: Let_def sorted_append)

lemma size_btree_insert [simp]: "size (btree_insert compare x t) = Suc (size t)"
  by (induction t) (auto simp: Let_def)

text \<open>Inserted one after the other, the nodes are sorted by their keys.\<close>

lemma btree_fold_insert:
  "set_tree (fold (btree_insert compare) xs t) = set xs \<union> set_tree t"
  "size (fold (btree_insert compare) xs t) = length xs + size t"
  "distinct (inorder (fold (btree_insert compare) xs t)) \<longleftrightarrow> distinct xs \<and> set xs \<inter> set_tree t = {} \<and> distinct (inorder t)"
  "sorted (map key (inorder t)) \<Longrightarrow> sorted (map key (inorder (fold (btree_insert (\<lambda>a b. key a - key b)) xs t)))"
  by (induction xs arbitrary: t) (auto simp: distinct_btree_insert sorted_btree_insert)

subsection \<open>Trees with missing threads\<close>

text \<open>While insertion and removal work, right links of leaves may be null pointers instead of threads.\<close>

definition btree_sane :: "btree_heap \<Rightarrow> nat tree \<Rightarrow> bool" where
  "btree_sane h t \<longleftrightarrow> distinct (inorder t) \<and> btree_at False h 0 0 0 t"

text \<open>C18: In a tree in which threads are missing on either side, \<^verbatim>\<open>next_hard\<close> and \<^verbatim>\<open>prev_hard\<close> still return the neighbours of
  a node in the inorder list, a null pointer at its ends: where there is neither a thread nor a child they climb to the first ancestor
  that is a left, or right, child and return its parent. No assertion fails and the loops end.\<close>

theorem btree_hard_traversal:
  assumes "btree_sane h t" "inorder t = us @ x # vs"
  shows "btree_next_hard h x = Some (hdd vs 0) \<and> btree_prev_hard h x = Some (last (0 # us))"
proof -
  have d: "distinct (inorder t)" and at: "btree_at False h 0 0 0 t" using assms(1) by (simp_all add: btree_sane_def)
  note top = top_ok_root [OF at]
  show ?thesis using next_hard_at [OF at d top assms(2)] prev_hard_at [OF at d top assms(2)] by simp
qed

definition demo_unthreaded :: btree_heap where
  "demo_unthreaded = [32 \<mapsto> \<lparr>bn_red = False, bn_parent = 0, bn_left = BTREE_NP_CHILD_SET 8, bn_right = BTREE_NP_CHILD_SET 0\<rparr>,
     8 \<mapsto> \<lparr>bn_red = False, bn_parent = 32, bn_left = BTREE_NP_CHILD_SET 0, bn_right = BTREE_NP_CHILD_SET 24\<rparr>,
     24 \<mapsto> \<lparr>bn_red = True, bn_parent = 8, bn_left = BTREE_NP_CHILD_SET 16, bn_right = BTREE_NP_CHILD_SET 0\<rparr>,
     16 \<mapsto> \<lparr>bn_red = True, bn_parent = 24, bn_left = BTREE_NP_CHILD_SET 0, bn_right = BTREE_NP_CHILD_SET 0\<rparr>]"

theorem btree_hard_traversal_witness:
  "btree_next_hard demo_unthreaded 24 = Some 32 \<and> btree_prev_hard demo_unthreaded 16 = Some 8
    \<and> btree_next_hard demo_unthreaded 32 = Some 0 \<and> btree_prev_hard demo_unthreaded 8 = Some 0"
proof -
  let ?t = "Node (Node Leaf 8 (Node (Node Leaf 16 Leaf) 24 Leaf)) 32 Leaf"
  have "btree_sane demo_unthreaded ?t"
    by (simp add: btree_sane_def demo_unthreaded_def link_ok_def)
  note T = btree_hard_traversal [OF this]
  show ?thesis using T [of "[]" 8 "[16, 24, 32]"] T [of "[8]" 16 "[24, 32]"] T [of "[8, 16]" 24 "[32]"] T [of "[8, 16, 24]" 32 "[]"]
    by simp
qed

end
