(* ===== verification/Pager.thy ===== *)
theory Pager
  imports Claim Btree
begin

text \<open>
  Reclaiming frames: \<open>reclaim_from\<close> of \<^verbatim>\<open>viengoos/pager.c\<close>, with \<open>object_desc_unmap\<close> and \<open>object_desc_flush\<close> of
  \<^verbatim>\<open>viengoos/object.h\<close>.

  What the machine does appears as parameters, collected in the record \<open>pager_env\<close>: the status bits that the
  microkernel reports when a page is unmapped or flushed, and when \<open>is_clean\<close> unmaps it once more, and the words of the
  page that \<open>is_clean\<close> reads. \<open>None\<close> is a failed assertion or a dereferenced null pointer. A descriptor has one link for the two lists
  \<open>laundry\<close> and \<open>available\<close> (a union), so it is attached if it is on either.
\<close>

subsection \<open>Flushing\<close>

record l4_status =
  was_written :: bool
  was_referenced :: bool

record pager_env =
  l4_unmap_fpage :: "did \<Rightarrow> l4_status"
  l4_flush :: "did \<Rightarrow> l4_status"
  l4_unmap_again :: "did \<Rightarrow> l4_status"
  page_words :: "did \<Rightarrow> u64 list"

definition status_bits :: "l4_status \<Rightarrow> object_desc \<Rightarrow> object_desc" where
  "status_bits r desc = desc\<lparr>d_dirty := d_dirty desc \<or> was_written r,
     d_user_referenced := d_user_referenced desc \<or> was_referenced r,
     d_user_dirty := d_user_dirty desc \<or> was_written r\<rparr>"

definition object_desc_unmap :: "pager_env \<Rightarrow> did \<Rightarrow> mem_state \<Rightarrow> mem_state option" where
  "object_desc_unmap env d s = do {
     c_assert (d_live (descs s d));
     Some (if d_mapped (descs s d)
       then upd_desc d (\<lambda>x. (status_bits (l4_unmap_fpage env d) x)\<lparr>d_mapped := False\<rparr>) s else s)
   }"

definition object_desc_flush :: "pager_env \<Rightarrow> did \<Rightarrow> bool \<Rightarrow> mem_state \<Rightarrow> mem_state option" where
  "object_desc_flush env d clear_kernel s = do {
     s \<leftarrow> object_desc_unmap env d s;
     Some (if clear_kernel \<or> \<not> d_dirty (descs s d) \<or> \<not> d_user_referenced (descs s d)
       then upd_desc d (status_bits (l4_flush env d)) s else s)
   }"

subsection \<open>Reclaiming\<close>

definition node_attached :: "did \<Rightarrow> mem_state \<Rightarrow> bool" where
  "node_attached d s \<longleftrightarrow> d \<in> set (laundry s) \<or> d \<in> set (available s)"

definition obj_priority :: "mem_state \<Rightarrow> did \<Rightarrow> int" where
  "obj_priority s d = sint (pol_priority (d_policy (descs s d)))"

text \<open>The objects of an activity with a priority, in the order in which the tree is traversed. \<open>a_priorities\<close> lists them, the
  newest first; a new node goes behind the nodes of the same priority. Rotations and removals keep the order.\<close>

definition priority_compare :: "mem_state \<Rightarrow> did \<Rightarrow> did \<Rightarrow> int" where
  "priority_compare s a b = obj_priority s a - obj_priority s b"

definition by_priority :: "mem_state \<Rightarrow> aid \<Rightarrow> did list" where
  "by_priority s v = inorder (fold (btree_insert (priority_compare s)) (rev (a_priorities (acts s v))) Leaf)"

text \<open>The check of a page that is taken as clean; \<open>desc\<close> is its descriptor.\<close>

definition is_clean :: "pager_env \<Rightarrow> did \<Rightarrow> object_desc \<Rightarrow> unit option" where
  "is_clean env d desc = do {
     let result = l4_unmap_again env d;
     c_assert (\<not> was_written result \<and> \<not> was_referenced result);
     if \<not> d_dirty desc then c_assert (list_all (\<lambda>w. w = 0) (page_words env d)) else Some ()
   }"

definition list_queue :: "did list \<Rightarrow> did \<Rightarrow> did list" where
  "list_queue xs d = xs @ [d]"

text \<open>The common end of three of the loops: the descriptor becomes an eviction candidate.\<close>

definition evict_checked :: "pager_env \<Rightarrow> aid \<Rightarrow> did \<Rightarrow> mem_state \<times> nat \<Rightarrow> (mem_state \<times> nat) option" where
  "evict_checked env victim d = (\<lambda>(s, laundry_count).
     let s = upd_desc d (\<lambda>x. x\<lparr>d_eviction_candidate := True\<rparr>) s in
     if needs_laundry (descs s d) then
       let s = (if \<not> node_attached d s then s\<lparr>laundry := list_queue (laundry s) d\<rparr> else s);
           s = upd_act victim (\<lambda>x. x\<lparr>a_eviction_dirty := list_queue (a_eviction_dirty x) d\<rparr>) s
       in Some (s, laundry_count + 1)
     else do {
       c_assert (\<not> node_attached d s);
       is_clean env d (descs s d);
       let s = s\<lparr>available := list_queue (available s) d\<rparr>;
       let s = upd_act victim (\<lambda>x. x\<lparr>a_eviction_clean := list_queue (a_eviction_clean x) d\<rparr>) s;
       Some (s, laundry_count)
     })"

definition evict_priority :: "pager_env \<Rightarrow> aid \<Rightarrow> did \<Rightarrow> mem_state \<times> nat \<Rightarrow> (mem_state \<times> nat) option" where
  "evict_priority env victim d = (\<lambda>(s, laundry_count). do {
     s \<leftarrow> object_desc_flush env d False s;
     l \<leftarrow> unlink d (a_priorities (acts s victim));
     let s = upd_act victim (\<lambda>x. x\<lparr>a_priorities := l, a_priorities_count := a_priorities_count x - 1\<rparr>) s;
     evict_checked env victim d (s, laundry_count)
   })"

text \<open>The loops return the state, the counters and the rest of the traversal.\<close>

fun reclaim_low :: "pager_env \<Rightarrow> aid \<Rightarrow> int \<Rightarrow> did list \<Rightarrow> mem_state \<Rightarrow> nat \<Rightarrow> nat
    \<Rightarrow> (mem_state \<times> nat \<times> nat \<times> did list) option" where
  "reclaim_low env victim goal [] s count laundry_count = Some (s, count, laundry_count, [])"
| "reclaim_low env victim goal (d # ds) s count laundry_count =
     (if int count < goal then do {
        c_assert (\<not> d_eviction_candidate (descs s d));
        c_assert (pol_priority (d_policy (descs s d)) \<noteq> OBJECT_PRIORITY_LRU);
        if obj_priority s d > sint OBJECT_PRIORITY_LRU then Some (s, count, laundry_count, d # ds)
        else do {
          (s, laundry_count) \<leftarrow> evict_priority env victim d (s, laundry_count);
          reclaim_low env victim goal ds s (count + 1) laundry_count
        }
      }
      else Some (s, count, laundry_count, d # ds))"

text \<open>The loop over the inactive objects reads the policy of the descriptor \<open>desc\<close> at which the
  first loop stopped.\<close>

definition evict_inactive :: "pager_env \<Rightarrow> aid \<Rightarrow> did option \<Rightarrow> did \<Rightarrow> mem_state \<times> nat \<Rightarrow> (mem_state \<times> nat) option" where
  "evict_inactive env victim desc d = (\<lambda>(s, laundry_count). do {
     c_assert (\<not> d_eviction_candidate (descs s d));
     c_assert (\<not> node_attached d s);
     l \<leftarrow> unlink d (a_inactive (acts s victim));
     let s = upd_act victim (\<lambda>x. x\<lparr>a_inactive := l\<rparr>) s;
     s \<leftarrow> object_desc_flush env d False s;
     (s, laundry_count) \<leftarrow> (if needs_laundry (descs s d) then
         let s = upd_act victim (\<lambda>x. x\<lparr>a_eviction_dirty := d # a_eviction_dirty x\<rparr>) s;
             s = s\<lparr>laundry := list_queue (laundry s) d\<rparr>
         in Some (s, laundry_count + 1)
       else do {
         is_clean env d (descs s d);
         let s = upd_act victim (\<lambda>x. x\<lparr>a_eviction_clean := d # a_eviction_clean x\<rparr>) s;
         let s = s\<lparr>available := list_queue (available s) d\<rparr>;
         c_assert (desc \<noteq> None);
         Some (s, laundry_count)
       });
     Some (upd_desc d (\<lambda>x. x\<lparr>d_eviction_candidate := True\<rparr>) s, laundry_count)
   })"

definition evict_active :: "pager_env \<Rightarrow> aid \<Rightarrow> did \<Rightarrow> mem_state \<times> nat \<Rightarrow> (mem_state \<times> nat) option" where
  "evict_active env victim d = (\<lambda>(s, laundry_count). do {
     c_assert (\<not> d_eviction_candidate (descs s d));
     s \<leftarrow> object_desc_flush env d False s;
     l \<leftarrow> unlink d (a_active (acts s victim));
     let s = upd_act victim (\<lambda>x. x\<lparr>a_active := l\<rparr>) s;
     evict_checked env victim d (s, laundry_count)
   })"

definition evict_high :: "pager_env \<Rightarrow> aid \<Rightarrow> did \<Rightarrow> mem_state \<times> nat \<Rightarrow> (mem_state \<times> nat) option" where
  "evict_high env victim d = (\<lambda>(s, laundry_count). do {
     c_assert (\<not> d_eviction_candidate (descs s d));
     c_assert (obj_priority s d > sint OBJECT_PRIORITY_LRU);
     evict_priority env victim d (s, laundry_count)
   })"

fun reclaim_loop :: "(did \<Rightarrow> mem_state \<times> nat \<Rightarrow> (mem_state \<times> nat) option) \<Rightarrow> int \<Rightarrow> did list \<Rightarrow> mem_state \<Rightarrow> nat \<Rightarrow> nat
    \<Rightarrow> (mem_state \<times> nat \<times> nat) option" where
  "reclaim_loop evict goal [] s count laundry_count = Some (s, count, laundry_count)"
| "reclaim_loop evict goal (d # ds) s count laundry_count =
     (if int count < goal then do {
        (s, laundry_count) \<leftarrow> evict d (s, laundry_count);
        reclaim_loop evict goal ds s (count + 1) laundry_count
      }
      else Some (s, count, laundry_count))"

definition reclaim_accounts :: "aid \<Rightarrow> nat \<Rightarrow> nat \<Rightarrow> mem_state \<Rightarrow> mem_state option" where
  "reclaim_accounts victim count laundry_count s = do {
     let s = upd_act victim (\<lambda>x. x\<lparr>frames_local := frames_local x - (of_nat count - of_nat laundry_count),
       stat_evicted := stat_evicted x + of_nat count\<rparr>) s;
     activity_for_each_ancestor s victim (\<lambda>x. x\<lparr>
       frames_total := frames_total x - (of_nat count - of_nat laundry_count),
       frames_pending_eviction := frames_pending_eviction x + of_nat laundry_count\<rparr>)
   }"

definition reclaim_loops :: "pager_env \<Rightarrow> mem_state \<Rightarrow> aid \<Rightarrow> int \<Rightarrow> (mem_state \<times> nat \<times> nat) option" where
  "reclaim_loops env s victim goal = do {
     (s, count, laundry_count, rest) \<leftarrow>
       reclaim_low env victim goal (by_priority s victim) s 0 0;
     let desc = (case rest of [] \<Rightarrow> None | d # _ \<Rightarrow> Some d);
     (s, count, laundry_count) \<leftarrow>
       reclaim_loop (evict_inactive env victim desc) goal (a_inactive (acts s victim)) s count laundry_count;
     (s, count, laundry_count) \<leftarrow>
       reclaim_loop (evict_active env victim) goal (a_active (acts s victim)) s count laundry_count;
     reclaim_loop (evict_high env victim) goal rest s count laundry_count
   }"

definition reclaim_from :: "pager_env \<Rightarrow> mem_state \<Rightarrow> aid \<Rightarrow> int \<Rightarrow> (mem_state \<times> nat) option" where
  "reclaim_from env s victim goal = do {
     c_assert (lists_counted (acts s victim));
     (s, count, laundry_count) \<leftarrow> reclaim_loops env s victim goal;
     s \<leftarrow> reclaim_accounts victim count laundry_count s;
     c_assert (lists_counted (acts s victim));
     c_assert (count > 0);
     Some (s, count)
   }"

subsection \<open>Lists and counters of the ledger\<close>

definition filed :: "mem_state \<Rightarrow> placement \<Rightarrow> bool" where
  "filed s at \<longleftrightarrow>
     (\<forall>a k. distinct (place_list k (acts s a)) \<and> set (place_list k (acts s a)) = {d. at d = Some (a, k)})
     \<and> (\<forall>a. a_priorities_count (acts s a) = int (length (place_list PPriority (acts s a))))
     \<and> distinct (laundry s) \<and> set (laundry s) = {d. \<exists>a. at d = Some (a, PDirty)}
     \<and> distinct (available s) \<and> set (available s) = {d. \<exists>a. at d = Some (a, PClean)} \<and> finite (dom at)"

definition tallied :: "mem_state \<Rightarrow> placement \<Rightarrow> charging \<Rightarrow> bool" where
  "tallied s at ch \<longleftrightarrow>
     (\<forall>a. frames_local (acts s a) = frames {d. ch d = Some a}
       \<and> frames_total (acts s a) = frames {d. \<exists>b. ch d = Some b \<and> under s a b}
       \<and> frames_pending_eviction (acts s a) = frames {d. \<exists>b. at d = Some (b, PDirty) \<and> under s a b})
     \<and> finite (dom ch) \<and> (\<forall>d a k. at d = Some (a, k) \<longrightarrow> rooted s a) \<and> (\<forall>d a. ch d = Some a \<longrightarrow> rooted s a)"

lemma ledger_iff: "ledger s at ch \<longleftrightarrow> filed s at \<and> tallied s at ch"
  unfolding ledger_def filed_def tallied_def books_def by blast

lemma filed_lists:
  assumes "filed s at"
  shows "e \<in> set (place_list k (acts s a)) \<longleftrightarrow> at e = Some (a, k)" "distinct (place_list k (acts s a))"
    "e \<in> set (laundry s) \<longleftrightarrow> (\<exists>a. at e = Some (a, PDirty))" "e \<in> set (available s) \<longleftrightarrow> (\<exists>a. at e = Some (a, PClean))"
  using assms unfolding filed_def by (auto simp del: place_list.simps)

lemma filed_attached:
  "filed s at \<Longrightarrow> node_attached d s \<longleftrightarrow> (\<exists>a k. at d = Some (a, k) \<and> (k = PDirty \<or> k = PClean))"
  by (auto simp: node_attached_def filed_lists)

definition live_place :: "place \<Rightarrow> bool" where
  "live_place k \<longleftrightarrow> k = PActive \<or> k = PInactive \<or> k = PPriority"

text \<open>The lists of a state in which the live object \<open>d\<close> was made an eviction candidate.\<close>

definition refiled :: "place \<Rightarrow> did \<Rightarrow> aid \<Rightarrow> place \<Rightarrow> mem_state \<Rightarrow> mem_state \<Rightarrow> bool" where
  "refiled k d v k' s s' \<longleftrightarrow>
     (\<forall>a j. if a = v \<and> j = k then place_list j (acts s' a) = remove1 d (place_list j (acts s a))
        else if a = v \<and> j = k' then distinct (place_list j (acts s' a)) = distinct (d # place_list j (acts s a))
               \<and> set (place_list j (acts s' a)) = insert d (set (place_list j (acts s a)))
        else place_list j (acts s' a) = place_list j (acts s a))
     \<and> (\<forall>a. a_priorities_count (acts s' a) = a_priorities_count (acts s a) - (if a = v \<and> k = PPriority then 1 else 0))
     \<and> laundry s' = (if k' = PDirty then laundry s @ [d] else laundry s)
     \<and> available s' = (if k' = PClean then available s @ [d] else available s)"

lemma refiled_filed:
  assumes "filed s at" "at d = Some (v, k)" "live_place k" "k' = PDirty \<or> k' = PClean" "refiled k d v k' s s'"
  shows "filed s' (at(d \<mapsto> (v, k')))"
proof -
  note r = assms(5) [unfolded refiled_def]
  have ne: "k \<noteq> PDirty" "k \<noteq> PClean" "k \<noteq> k'" using assms(3,4) by (auto simp: live_place_def)
  have "distinct (place_list j (acts s' a)) \<and> set (place_list j (acts s' a)) = {e. (at(d \<mapsto> (v, k'))) e = Some (a, j)}" for a j
    using conjunct1 [OF r, rule_format, of a j] filed_lists(1,2) [OF assms(1)] assms(2) ne
    by (auto simp: distinct_remove1 set_remove1_eq simp del: place_list.simps split: if_splits)
  moreover have "a_priorities_count (acts s' a) = int (length (place_list PPriority (acts s' a)))" for a
  proof -
    have c: "a_priorities_count (acts s a) = int (length (place_list PPriority (acts s a)))"
      using assms(1) by (simp add: filed_def del: place_list.simps)
    show ?thesis
    proof (cases "a = v \<and> k = PPriority")
      case True
      then have "d \<in> set (place_list PPriority (acts s a))"
        using filed_lists(1) [OF assms(1)] assms(2) by (simp del: place_list.simps)
      moreover from this have "0 < length (place_list PPriority (acts s a))" by (rule length_pos_if_in_set)
      moreover have "place_list PPriority (acts s' a) = remove1 d (place_list PPriority (acts s a))"
        using conjunct1 [OF r, rule_format, of a PPriority] True by (simp del: place_list.simps)
      ultimately show ?thesis using r True c
        by (simp add: length_remove1 of_nat_diff del: place_list.simps length_greater_0_conv)
    next
      case False
      then have "place_list PPriority (acts s' a) = place_list PPriority (acts s a)"
        using conjunct1 [OF r, rule_format, of a PPriority] assms(4) by (auto simp del: place_list.simps split: if_splits)
      with False r c show ?thesis by (auto simp del: place_list.simps)
    qed
  qed
  moreover have "distinct (laundry s')" "set (laundry s') = {e. \<exists>a. (at(d \<mapsto> (v, k'))) e = Some (a, PDirty)}"
      "distinct (available s')" "set (available s') = {e. \<exists>a. (at(d \<mapsto> (v, k'))) e = Some (a, PClean)}"
    using r assms(1,2,4) ne by (auto simp: filed_def simp del: place_list.simps)
  ultimately show ?thesis
    using assms(1) unfolding filed_def by (simp del: place_list.simps fun_upd_apply)
qed

subsection \<open>Evicting one object\<close>

text \<open>From \<open>s\<close> to \<open>s'\<close> exactly the objects in \<open>E\<close>, owned by \<open>v\<close>, became eviction candidates; no counter of frames
  changed.\<close>

definition evicted :: "aid \<Rightarrow> did set \<Rightarrow> mem_state \<Rightarrow> mem_state \<Rightarrow> bool" where
  "evicted v E s s' \<longleftrightarrow>
     (\<forall>e. e \<notin> E \<longrightarrow> descs s' e = descs s e)
     \<and> (\<forall>e\<in>E. \<not> d_eviction_candidate (descs s e) \<and> d_eviction_candidate (descs s' e)
          \<and> d_activity (descs s e) = Some v \<and> d_activity (descs s' e) = Some v
          \<and> d_policy (descs s' e) = d_policy (descs s e))
     \<and> root_activity s' = root_activity s
     \<and> (\<forall>a. a_parent (acts s' a) = a_parent (acts s a) \<and> frames_local (acts s' a) = frames_local (acts s a)
          \<and> frames_total (acts s' a) = frames_total (acts s a)
          \<and> frames_pending_eviction (acts s' a) = frames_pending_eviction (acts s a))
     \<and> (\<forall>a k. live_place k \<longrightarrow> place_list k (acts s' a) = filter (\<lambda>e. e \<notin> E) (place_list k (acts s a)))"

lemma evicted_refl: "evicted v {} s s"
  by (simp add: evicted_def)

lemma evicted_trans:
  assumes "evicted v E s t" "evicted v F t u"
  shows "evicted v (E \<union> F) s u"
proof -
  have "d_eviction_candidate (descs u e)" "d_activity (descs u e) = Some v" "d_policy (descs u e) = d_policy (descs s e)"
      "\<not> d_eviction_candidate (descs s e)" "d_activity (descs s e) = Some v" if "e \<in> E \<union> F" for e
    using assms that unfolding evicted_def by (metis UnE)+
  moreover have "descs u e = descs s e" if "e \<notin> E \<union> F" for e
    using assms that unfolding evicted_def by (metis UnCI)
  moreover have "place_list k (acts u a) = filter (\<lambda>e. e \<notin> E \<union> F) (place_list k (acts s a))" if "live_place k" for a k
    using assms that by (auto simp: evicted_def conj_commute simp del: place_list.simps intro: filter_cong)
  moreover have "root_activity u = root_activity s \<and> (\<forall>a. a_parent (acts u a) = a_parent (acts s a)
      \<and> frames_local (acts u a) = frames_local (acts s a) \<and> frames_total (acts u a) = frames_total (acts s a)
      \<and> frames_pending_eviction (acts u a) = frames_pending_eviction (acts s a))"
    using assms unfolding evicted_def by (metis (no_types, lifting))
  ultimately show ?thesis unfolding evicted_def by blast
qed

definition dirty_after :: "pager_env \<Rightarrow> did \<Rightarrow> object_desc \<Rightarrow> bool" where
  "dirty_after env d desc \<longleftrightarrow>
     d_dirty desc \<or> d_mapped desc \<and> was_written (l4_unmap_fpage env d) \<or> was_written (l4_flush env d)"

lemma object_desc_flush_effect:
  assumes "d_live (descs s d)"
  obtains x where "object_desc_flush env d c s = Some (upd_desc d (\<lambda>_. x) s)"
    "d_eviction_candidate x = d_eviction_candidate (descs s d)" "d_activity x = d_activity (descs s d)"
    "d_policy x = d_policy (descs s d)" "d_dirty x = dirty_after env d (descs s d)"
proof -
  let ?u = "\<lambda>x. (status_bits (l4_unmap_fpage env d) x)\<lparr>d_mapped := False\<rparr>"
  let ?x = "if d_mapped (descs s d) then ?u (descs s d) else descs s d"
  let ?y = "if c \<or> \<not> d_dirty ?x \<or> \<not> d_user_referenced ?x then status_bits (l4_flush env d) ?x else ?x"
  have "object_desc_flush env d c s = Some (upd_desc d (\<lambda>_. ?y) s)"
    using assms by (auto simp: object_desc_flush_def object_desc_unmap_def upd_desc_def)
  then show ?thesis
    by (rule that) (auto simp: status_bits_def dirty_after_def)
qed

definition put_evict :: "bool \<Rightarrow> bool \<Rightarrow> did \<Rightarrow> activity \<Rightarrow> activity" where
  "put_evict front dirty d x =
     (if dirty then x\<lparr>a_eviction_dirty := if front then d # a_eviction_dirty x else a_eviction_dirty x @ [d]\<rparr>
      else x\<lparr>a_eviction_clean := if front then d # a_eviction_clean x else a_eviction_clean x @ [d]\<rparr>)"

definition evict_place :: "bool \<Rightarrow> place" where
  "evict_place dirty = (if dirty then PDirty else PClean)"

lemma place_list_put_evict:
  "place_list j (put_evict front dirty d x) = (if j = evict_place dirty
     then (if front then d # place_list j x else place_list j x @ [d]) else place_list j x)"
  by (cases j) (simp_all add: put_evict_def evict_place_def)

lemma put_evict_sel [simp]:
  "frames_local (put_evict f y d x) = frames_local x" "frames_total (put_evict f y d x) = frames_total x"
  "frames_pending_eviction (put_evict f y d x) = frames_pending_eviction x" "a_parent (put_evict f y d x) = a_parent x"
  "a_priorities_count (put_evict f y d x) = a_priorities_count x"
  by (simp_all add: put_evict_def)

text \<open>What each of the loop bodies does.\<close>

definition evict_effect :: "bool \<Rightarrow> place \<Rightarrow> did \<Rightarrow> aid \<Rightarrow> object_desc \<Rightarrow> mem_state \<Rightarrow> mem_state" where
  "evict_effect front k d v x s = (let y = needs_laundry x in
     s\<lparr>acts := (acts s)(v := put_evict front y d (unlist k d (acts s v))),
       descs := (descs s)(d := x\<lparr>d_eviction_candidate := True\<rparr>),
       laundry := (if y then laundry s @ [d] else laundry s),
       available := (if y then available s else available s @ [d])\<rparr>)"

lemma evict_effect_ok:
  assumes "filed s (placement_of s D)" "placement_of s D d = Some (v, k)" "live_place k"
    "\<not> d_eviction_candidate (descs s d)" "d_activity x = d_activity (descs s d)" "d_policy x = d_policy (descs s d)"
  shows "filed (evict_effect front k d v x s) (placement_of (evict_effect front k d v x s) D)"
    "evicted v {d} s (evict_effect front k d v x s)"
proof -
  let ?s = "evict_effect front k d v x s" and ?k = "evict_place (needs_laundry x)"
  have k: "k \<noteq> ?k" "k \<noteq> PClean" "k \<noteq> PDirty" using assms(3) by (auto simp: live_place_def evict_place_def)
  have notin: "d \<notin> set (place_list ?k (acts s v))"
    using filed_lists(1) [OF assms(1)] assms(2) k(1) by (simp del: place_list.simps)
  have own: "d_activity (descs s d) = Some v" "d \<in> D"
    using assms(2) by (auto simp: placement_of_def split: if_splits)
  have "refiled k d v ?k s ?s"
    using k notin
    by (simp add: refiled_def evict_effect_def Let_def place_list_put_evict del: place_list.simps unlist.simps)
      (auto simp: evict_place_def simp del: place_list.simps unlist.simps)
  from refiled_filed [OF assms(1-3) _ this]
  have "filed ?s ((placement_of s D)(d \<mapsto> (v, ?k)))" by (simp add: evict_place_def)
  moreover have "place_of (x\<lparr>d_eviction_candidate := True\<rparr>) = ?k"
    by (simp add: place_of_def evict_place_def needs_laundry_def)
  then have "placement_of ?s D = (placement_of s D)(d \<mapsto> (v, ?k))"
    using own assms(5) by (auto simp: placement_of_def evict_effect_def Let_def fun_eq_iff)
  ultimately show "filed ?s (placement_of ?s D)" by simp
  have "place_list j (acts ?s a) = filter (\<lambda>e. e \<notin> {d}) (place_list j (acts s a))" if "live_place j" for a j
  proof -
    have "filter (\<lambda>e. e \<noteq> d) (place_list j (acts s a)) = place_list j (acts s a)" if "\<not> (a = v \<and> j = k)"
      using filed_lists(1) [OF assms(1), of d j a] assms(2) that
      by (auto simp: filter_id_conv simp del: place_list.simps)
    moreover have "remove1 d (place_list k (acts s v)) = filter (\<lambda>e. e \<noteq> d) (place_list k (acts s v))"
      using filed_lists(2) [OF assms(1)] by (simp add: distinct_remove1_removeAll removeAll_filter_not_eq neq_commute)
    moreover have "j \<noteq> ?k" using that by (auto simp: live_place_def evict_place_def)
    ultimately show ?thesis
      by (auto simp: evict_effect_def Let_def place_list_put_evict simp del: place_list.simps)
  qed
  then show "evicted v {d} s ?s"
    using own assms(4,5,6) unfolding evicted_def
    by (simp add: evict_effect_def Let_def del: place_list.simps)
qed

text \<open>An object that the loops may evict, and the facts the bodies rely on.\<close>

definition evictable :: "mem_state \<Rightarrow> did set \<Rightarrow> aid \<Rightarrow> place \<Rightarrow> did \<Rightarrow> bool" where
  "evictable s D v k d \<longleftrightarrow> placement_of s D d = Some (v, k) \<and> live_place k \<and> d_live (descs s d)"

definition dirty_count :: "mem_state \<Rightarrow> did set \<Rightarrow> nat" where
  "dirty_count s E = card {e \<in> E. place_of (descs s e) = PDirty}"

lemma evictable_facts:
  assumes "evictable s D v k d" "filed s (placement_of s D)"
  shows "\<not> d_eviction_candidate (descs s d)" "\<not> node_attached d s" "d \<in> set (place_list k (acts s v))"
    "k = place_of (descs s d)"
  using assms filed_attached [OF assms(2), of d] filed_lists(1) [OF assms(2), of d k v]
  by (auto simp: evictable_def live_place_def placement_of_def place_of_def split: if_splits)

text \<open>A loop body takes the object if \<open>q\<close> holds and fails otherwise.\<close>

definition evicts :: "(did \<Rightarrow> mem_state \<times> nat \<Rightarrow> (mem_state \<times> nat) option) \<Rightarrow> did set \<Rightarrow> aid \<Rightarrow> place
    \<Rightarrow> (did \<Rightarrow> object_desc \<Rightarrow> bool) \<Rightarrow> bool" where
  "evicts f D v k q \<longleftrightarrow> (\<forall>s d lc. filed s (placement_of s D) \<and> evictable s D v k d \<longrightarrow>
     (if q d (descs s d)
      then \<exists>s'. f d (s, lc) = Some (s', lc + dirty_count s' {d}) \<and> filed s' (placement_of s' D) \<and> evicted v {d} s s'
      else f d (s, lc) = None))"

text \<open>Whether an object needs laundry once its status bits are read, and whether it passes the check for clean pages.\<close>

definition stays_dirty :: "pager_env \<Rightarrow> did \<Rightarrow> object_desc \<Rightarrow> bool" where
  "stays_dirty env d x \<longleftrightarrow> dirty_after env d x \<and> \<not> pol_discardable (d_policy x)"

definition passes_clean :: "pager_env \<Rightarrow> did \<Rightarrow> object_desc \<Rightarrow> bool" where
  "passes_clean env d x \<longleftrightarrow> \<not> was_written (l4_unmap_again env d) \<and> \<not> was_referenced (l4_unmap_again env d)
     \<and> (\<not> dirty_after env d x \<longrightarrow> (\<forall>w \<in> set (page_words env d). w = 0))"

definition takes :: "pager_env \<Rightarrow> did \<Rightarrow> object_desc \<Rightarrow> bool" where
  "takes env d x \<longleftrightarrow> stays_dirty env d x \<or> passes_clean env d x"

definition flushed :: "pager_env \<Rightarrow> did \<Rightarrow> mem_state \<Rightarrow> object_desc \<Rightarrow> bool" where
  "flushed env d s x \<longleftrightarrow> object_desc_flush env d False s = Some (upd_desc d (\<lambda>_. x) s) \<and>
     d_policy x = d_policy (descs s d) \<and> d_dirty x = dirty_after env d (descs s d)"

lemma flushed_needs_laundry: "flushed env d s x \<Longrightarrow> needs_laundry x \<longleftrightarrow> stays_dirty env d (descs s d)"
  by (simp add: flushed_def needs_laundry_def stays_dirty_def)

lemma is_clean_iff:
  assumes "flushed env d s x"
  shows "is_clean env d (x\<lparr>d_eviction_candidate := b\<rparr>) = (if passes_clean env d (descs s d) then Some () else None)"
    "is_clean env d x = (if passes_clean env d (descs s d) then Some () else None)"
  using assms by (auto simp: is_clean_def passes_clean_def flushed_def c_assert_bind_if list_all_iff c_assert_def)

lemma dirty_count_effect: "dirty_count (evict_effect front k d v x s) {d} = (if needs_laundry x then 1 else 0)"
proof -
  have "{e. e = d \<and> place_of (descs (evict_effect front k d v x s) e) = PDirty} = (if needs_laundry x then {d} else {})"
    by (auto simp: evict_effect_def Let_def place_of_def needs_laundry_def)
  then show ?thesis by (simp add: dirty_count_def)
qed

text \<open>A body with the given effect evicts.\<close>

lemma evictsI:
  assumes "\<And>s d lc x. filed s (placement_of s D) \<Longrightarrow> evictable s D v k d \<Longrightarrow> flushed env d s x \<Longrightarrow>
      f d (s, lc) = (if q d (descs s d) then Some (evict_effect front k d v x s, lc + (if needs_laundry x then 1 else 0)) else None)"
  shows "evicts f D v k q"
  unfolding evicts_def
proof (intro allI impI, elim conjE)
  fix s d lc assume fi: "filed s (placement_of s D)" and e: "evictable s D v k d"
  from e obtain x where x: "object_desc_flush env d False s = Some (upd_desc d (\<lambda>_. x) s)"
      "d_activity x = d_activity (descs s d)" "d_policy x = d_policy (descs s d)" "d_dirty x = dirty_after env d (descs s d)"
    using object_desc_flush_effect [of s d env False] by (auto simp: evictable_def)
  then have fl: "flushed env d s x" by (simp add: flushed_def)
  have "placement_of s D d = Some (v, k)" "live_place k" using e by (auto simp: evictable_def)
  from assms [OF fi e fl, of lc] evict_effect_ok [OF fi this evictable_facts(1) [OF e fi] x(2,3), of front]
  show "if q d (descs s d) then \<exists>s'. f d (s, lc) = Some (s', lc + dirty_count s' {d}) \<and> filed s' (placement_of s' D) \<and> evicted v {d} s s'
      else f d (s, lc) = None"
    unfolding dirty_count_effect [symmetric, of x front k d v s] by auto
qed

lemmas evict_defs = Let_def unlink_Some upd_act_def upd_desc_def
  evict_effect_def list_queue_def put_evict_def node_attached_def

lemma evict_checked_eq:
  assumes "flushed env d s x" "\<not> node_attached d t" "descs t d = x"
  shows "evict_checked env v d (t, lc) = (if takes env d (descs s d) then
    Some (t\<lparr>acts := (acts t)(v := put_evict False (needs_laundry x) d (acts t v)), descs := (descs t)(d := x\<lparr>d_eviction_candidate := True\<rparr>),
      laundry := (if needs_laundry x then laundry t @ [d] else laundry t),
      available := (if needs_laundry x then available t else available t @ [d])\<rparr>, lc + (if needs_laundry x then 1 else 0)) else None)"
proof -
  have "needs_laundry (x\<lparr>d_eviction_candidate := True\<rparr>) = needs_laundry x" by (simp add: needs_laundry_def)
  then show ?thesis using assms(2,3) is_clean_iff(1) [OF assms(1)] flushed_needs_laundry [OF assms(1)]
    by (auto simp: evict_checked_def evict_defs takes_def)
qed

lemma evicts_active: "evicts (evict_active env v) D v PActive (takes env)"
proof (rule evictsI [where front = False])
  fix s d lc x assume a: "filed s (placement_of s D)" "evictable s D v PActive d" "flushed env d s x"
  let ?t = "upd_act v (\<lambda>y. y\<lparr>a_active := remove1 d (a_active (acts s v))\<rparr>) (upd_desc d (\<lambda>_. x) s)"
  note e = evictable_facts [OF a(2,1)]
  have "evict_active env v d (s, lc) = evict_checked env v d (?t, lc)"
    using a(3) e by (simp add: evict_active_def flushed_def unlink_Some)
  also have "\<dots> = (if takes env d (descs s d) then Some (evict_effect False PActive d v x s, lc + (if needs_laundry x then 1 else 0)) else None)"
    using e by (subst evict_checked_eq [OF a(3)]) (auto simp: evict_defs)
  finally show "evict_active env v d (s, lc) =
    (if takes env d (descs s d) then Some (evict_effect False PActive d v x s, lc + (if needs_laundry x then 1 else 0)) else None)" .
qed

lemma object_desc_flush_upd_act:
  "object_desc_flush env d c (upd_act v f s) = map_option (upd_act v f) (object_desc_flush env d c s)"
  by (auto simp: object_desc_flush_def object_desc_unmap_def upd_desc_def upd_act_def c_assert_bind_if)

lemma evicts_inactive:
  "evicts (evict_inactive env v desc) D v PInactive (\<lambda>d x. takes env d x \<and> (desc = None \<longrightarrow> stays_dirty env d x))"
proof (rule evictsI [where front = True])
  fix s d lc x assume a: "filed s (placement_of s D)" "evictable s D v PInactive d" "flushed env d s x"
  have "object_desc_flush env d False (upd_act v f s) = Some (upd_desc d (\<lambda>_. x) (upd_act v f s))" for f
    using a(3) unfolding object_desc_flush_upd_act flushed_def by (auto simp: upd_desc_def upd_act_def)
  with evictable_facts [OF a(2,1)] is_clean_iff(2) [OF a(3)] flushed_needs_laundry [OF a(3)]
  show "evict_inactive env v desc d (s, lc) = (if takes env d (descs s d) \<and> (desc = None \<longrightarrow> stays_dirty env d (descs s d))
      then Some (evict_effect True PInactive d v x s, lc + (if needs_laundry x then 1 else 0)) else None)"
    by (auto simp: evict_inactive_def evict_defs takes_def)
qed

lemma evict_priority_effect:
  assumes "filed s (placement_of s D)" "evictable s D v PPriority d" "flushed env d s x"
  shows "evict_priority env v d (s, lc) =
    (if takes env d (descs s d) then Some (evict_effect False PPriority d v x s, lc + (if needs_laundry x then 1 else 0)) else None)"
proof -
  let ?t = "upd_act v (\<lambda>y. y\<lparr>a_priorities := remove1 d (a_priorities (acts s v)), a_priorities_count := a_priorities_count y - 1\<rparr>)
    (upd_desc d (\<lambda>_. x) s)"
  note e = evictable_facts [OF assms(2,1)]
  have "evict_priority env v d (s, lc) = evict_checked env v d (?t, lc)"
    using assms(3) e by (simp add: evict_priority_def flushed_def unlink_Some)
  also have "\<dots> = (if takes env d (descs s d) then Some (evict_effect False PPriority d v x s, lc + (if needs_laundry x then 1 else 0)) else None)"
    using e by (subst evict_checked_eq [OF assms(3)]) (auto simp: evict_defs)
  finally show ?thesis .
qed

lemma evicts_high:
  "evicts (evict_high env v) D v PPriority (\<lambda>d x. takes env d x \<and> sint (pol_priority (d_policy x)) > sint OBJECT_PRIORITY_LRU)"
proof (rule evictsI [where front = False])
  fix s d lc x assume a: "filed s (placement_of s D)" "evictable s D v PPriority d" "flushed env d s x"
  from evictable_facts(1) [OF a(2,1)] evict_priority_effect [OF a]
  show "evict_high env v d (s, lc) = (if takes env d (descs s d) \<and> sint (pol_priority (d_policy (descs s d))) > sint OBJECT_PRIORITY_LRU
      then Some (evict_effect False PPriority d v x s, lc + (if needs_laundry x then 1 else 0)) else None)"
    by (auto simp: evict_high_def obj_priority_def c_assert_bind_if)
qed

lemma evicts_priority: "evicts (evict_priority env v) D v PPriority (takes env)"
  by (rule evictsI [where front = False]) (rule evict_priority_effect)

subsection \<open>The loops\<close>

lemma if_both: "(if b then P else Q) \<Longrightarrow> b \<Longrightarrow> P" "(if b then P else Q) \<Longrightarrow> \<not> b \<Longrightarrow> Q"
    "(b \<Longrightarrow> P) \<Longrightarrow> (\<not> b \<Longrightarrow> Q) \<Longrightarrow> (if b then P else Q)"
  by simp_all

lemma evicted_keeps:
  assumes "evicted v E s s'" "e \<notin> E"
  shows "evictable s' D w k e \<longleftrightarrow> evictable s D w k e" "descs s' e = descs s e"
  using assms by (auto simp: evicted_def evictable_def placement_of_def)

lemma dirty_count_Un:
  assumes "evicted v F s' s''" "E \<inter> F = {}" "finite E" "finite F"
  shows "dirty_count s'' (E \<union> F) = dirty_count s' E + dirty_count s'' F"
proof -
  have "descs s'' e = descs s' e" if "e \<in> E" for e
    using evicted_keeps(2) [OF assms(1)] assms(2) that by auto
  then have "{e \<in> E \<union> F. place_of (descs s'' e) = PDirty}
      = {e \<in> E. place_of (descs s' e) = PDirty} \<union> {e \<in> F. place_of (descs s'' e) = PDirty}"
    by auto
  moreover have "card \<dots> = card {e \<in> E. place_of (descs s' e) = PDirty} + card {e \<in> F. place_of (descs s'' e) = PDirty}"
    using assms(2-4) by (intro card_Un_disjoint) auto
  ultimately show ?thesis by (simp add: dirty_count_def)
qed

lemma dirty_count_insert:
  "evicted v F s' s'' \<Longrightarrow> d \<notin> F \<Longrightarrow> finite F \<Longrightarrow> dirty_count s'' (insert d F) = dirty_count s' {d} + dirty_count s'' F"
  using dirty_count_Un [of v F s' s'' "{d}"] by simp

lemma reclaim_loop_ok:
  assumes ev: "evicts f D v k q"
  shows "filed s (placement_of s D) \<Longrightarrow> distinct ds \<Longrightarrow> n = min (length ds) (nat (goal - int c)) \<Longrightarrow>
    \<forall>d\<in>set (take n ds). evictable s D v k d \<Longrightarrow>
    if \<forall>d\<in>set (take n ds). q d (descs s d)
    then \<exists>s'. reclaim_loop f goal ds s c lc = Some (s', c + n, lc + dirty_count s' (set (take n ds)))
      \<and> filed s' (placement_of s' D) \<and> evicted v (set (take n ds)) s s'
    else reclaim_loop f goal ds s c lc = None"
proof (induction ds arbitrary: s c lc n)
  case Nil
  then show ?case by (simp add: dirty_count_def evicted_refl)
next
  case (Cons d ds)
  show ?case
  proof (cases "int c < goal")
    case False
    then have "n = 0" using Cons.prems by simp
    with False Cons.prems show ?thesis by (simp add: dirty_count_def evicted_refl)
  next
    case True
    define m where "m = min (length ds) (nat (goal - int (c + 1)))"
    have n: "n = Suc m" using True Cons.prems(3) by (auto simp: m_def)
    have e: "evictable s D v k d" using Cons.prems(4) unfolding n by simp
    show ?thesis
    proof (cases "q d (descs s d)")
      case False
      then have "f d (s, lc) = None" using ev Cons.prems(1) e by (simp add: evicts_def)
      then show ?thesis using False True by (simp add: n)
    next
      case q: True
      from ev Cons.prems(1) e q obtain t where t: "f d (s, lc) = Some (t, lc + dirty_count t {d})"
          "filed t (placement_of t D)" "evicted v {d} s t"
        unfolding evicts_def by fastforce
      have d: "d \<notin> set (take m ds)" using Cons.prems(2) by (auto dest: in_set_takeD)
      then have k: "evictable t D v k e" "descs t e = descs s e" if "e \<in> set (take m ds)" for e
        using evicted_keeps [OF t(3)] Cons.prems(4) that unfolding n take_Suc_Cons
        by (metis empty_iff insert_iff list.set_intros(2))+
      then have "\<forall>e \<in> set (take m ds). evictable t D v k e" by blast
      note IH = Cons.IH [OF t(2) _ m_def this, of "lc + dirty_count t {d}"]
      show ?thesis
      proof (cases "\<forall>e \<in> set (take m ds). q e (descs t e)")
        case False
        then have "reclaim_loop f goal ds t (c + 1) (lc + dirty_count t {d}) = None" using IH Cons.prems(2) by (auto split: if_splits)
        moreover have "\<not> (\<forall>e \<in> set (take n (d # ds)). q e (descs s e))" using False k(2) by (auto simp: n)
        ultimately show ?thesis using True t(1) by auto
      next
        case qs: True
        with IH Cons.prems(2) obtain u where
          u: "reclaim_loop f goal ds t (c + 1) (lc + dirty_count t {d})
              = Some (u, c + 1 + m, lc + dirty_count t {d} + dirty_count u (set (take m ds)))"
            "filed u (placement_of u D)" "evicted v (set (take m ds)) t u" by auto
        have "evicted v (set (take n (d # ds))) s u"
          using evicted_trans [OF t(3) u(3)] by (simp add: n)
        with True t(1) u dirty_count_insert [OF u(3) d] q qs k(2) show ?thesis by (simp add: n)
      qed
    qed
  qed
qed

definition low_part :: "mem_state \<Rightarrow> did list \<Rightarrow> did list" where
  "low_part s ds = takeWhile (\<lambda>d. obj_priority s d \<le> sint OBJECT_PRIORITY_LRU) ds"

lemma reclaim_low_ok:
  "filed s (placement_of s D) \<Longrightarrow> distinct ds \<Longrightarrow> n = min (length (low_part s ds)) (nat (goal - int c)) \<Longrightarrow>
    \<forall>d\<in>set ds. evictable s D v PPriority d \<Longrightarrow>
    if \<forall>d\<in>set (take n ds). takes env d (descs s d)
    then \<exists>s'. reclaim_low env v goal ds s c lc = Some (s', c + n, lc + dirty_count s' (set (take n ds)), drop n ds)
      \<and> filed s' (placement_of s' D) \<and> evicted v (set (take n ds)) s s'
    else reclaim_low env v goal ds s c lc = None"
proof (induction ds arbitrary: s c lc n)
  case Nil
  then show ?case by (simp add: dirty_count_def evicted_refl low_part_def)
next
  case (Cons d ds)
  have e: "evictable s D v PPriority d" using Cons.prems(4) by simp
  note ef = evictable_facts [OF e Cons.prems(1)]
  have prio: "pol_priority (d_policy (descs s d)) \<noteq> OBJECT_PRIORITY_LRU"
    using ef(1,4) by (auto simp: place_of_def split: if_splits)
  show ?case
  proof (cases "int c < goal \<and> obj_priority s d \<le> sint OBJECT_PRIORITY_LRU")
    case False
    then have "n = 0" using Cons.prems(3) by (auto simp: low_part_def)
    with False ef(1) prio show ?thesis
      using Cons.prems(1) by (auto simp: dirty_count_def evicted_refl)
  next
    case True
    have d: "d \<notin> set ds" using Cons.prems(2) by simp
    define m where "m = min (length (low_part s ds)) (nat (goal - int (c + 1)))"
    have n: "n = Suc m" using True Cons.prems(3) by (auto simp: m_def) (auto simp: low_part_def)
    show ?thesis
    proof (cases "takes env d (descs s d)")
      case False
      then have "evict_priority env v d (s, lc) = None" using evicts_priority Cons.prems(1) e by (simp add: evicts_def)
      then show ?thesis using False True ef(1) prio by (simp add: n)
    next
      case q: True
      from evicts_priority [of env v D] Cons.prems(1) e q obtain t where
        t: "evict_priority env v d (s, lc) = Some (t, lc + dirty_count t {d})"
          "filed t (placement_of t D)" "evicted v {d} s t"
        unfolding evicts_def by fastforce
      have keep: "descs t x = descs s x" if "x \<in> set ds" for x
        using evicted_keeps(2) [OF t(3), of x] d that by blast
      then have "low_part t ds = low_part s ds"
        unfolding low_part_def by (intro takeWhile_cong) (auto simp: obj_priority_def)
      then have m: "m = min (length (low_part t ds)) (nat (goal - int (c + 1)))" by (simp add: m_def)
      have "\<forall>e\<in>set ds. evictable t D v PPriority e"
        using evicted_keeps(1) [OF t(3)] Cons.prems(4) d by (metis list.set_intros(2) singletonD)
      note IH = Cons.IH [OF t(2) _ m this, of "lc + dirty_count t {d}"]
      have keep': "descs t x = descs s x" if "x \<in> set (take m ds)" for x using keep that by (auto dest: in_set_takeD)
      show ?thesis
      proof (cases "\<forall>e \<in> set (take m ds). takes env e (descs t e)")
        case False
        then have "reclaim_low env v goal ds t (c + 1) (lc + dirty_count t {d}) = None" using IH Cons.prems(2) by (auto split: if_splits)
        moreover have "\<not> (\<forall>e \<in> set (take n (d # ds)). takes env e (descs s e))" using False keep' by (auto simp: n)
        ultimately show ?thesis using True t(1) ef(1) prio by auto
      next
        case qs: True
        with IH Cons.prems(2) obtain u where
          u: "reclaim_low env v goal ds t (c + 1) (lc + dirty_count t {d})
              = Some (u, c + 1 + m, lc + dirty_count t {d} + dirty_count u (set (take m ds)), drop m ds)"
            "filed u (placement_of u D)" "evicted v (set (take m ds)) t u" by auto
        have "evicted v (set (take n (d # ds))) s u"
          using evicted_trans [OF t(3) u(3)] by (simp add: n)
        moreover have "d \<notin> set (take m ds)" using d by (auto dest: in_set_takeD)
        ultimately show ?thesis
          using True t(1) u dirty_count_insert [OF u(3)] ef(1) prio q qs keep' by (simp add: n)
      qed
    qed
  qed
qed

subsection \<open>The order of eviction\<close>

lemma by_priority_ok:
  "distinct (a_priorities (acts s v)) \<Longrightarrow> distinct (by_priority s v)" "set (by_priority s v) = set (a_priorities (acts s v))"
  "sorted (map (obj_priority s) (by_priority s v))" "length (by_priority s v) = length (a_priorities (acts s v))"
proof -
  have c: "priority_compare s = (\<lambda>a b. obj_priority s a - obj_priority s b)"
    by (simp add: priority_compare_def fun_eq_iff)
  show "distinct (a_priorities (acts s v)) \<Longrightarrow> distinct (by_priority s v)" "set (by_priority s v) = set (a_priorities (acts s v))"
    "sorted (map (obj_priority s) (by_priority s v))" "length (by_priority s v) = length (a_priorities (acts s v))"
    unfolding by_priority_def c by (simp_all add: btree_fold_insert)
qed

definition high_part :: "mem_state \<Rightarrow> did list \<Rightarrow> did list" where
  "high_part s ds = dropWhile (\<lambda>d. obj_priority s d \<le> sint OBJECT_PRIORITY_LRU) ds"

text \<open>Low priorities first, then inactive and active objects, then high priorities.\<close>

definition reclaim_order :: "mem_state \<Rightarrow> aid \<Rightarrow> did list" where
  "reclaim_order s v = low_part s (by_priority s v) @ a_inactive (acts s v) @ a_active (acts s v)
     @ high_part s (by_priority s v)"

lemma sorted_dropWhile_le:
  fixes x :: int
  assumes "sorted (map f ds)" "d \<in> set (dropWhile (\<lambda>d. f d \<le> x) ds)"
  shows "x < f d"
  using assms by (induction ds) (auto split: if_splits)

lemma take_append_min: "n = min (length a) g \<Longrightarrow> take g (a @ x) = take n a @ take (g - n) x"
  by (cases "length a \<le> g") simp_all

lemma take_parts:
  assumes "n1 = min (length a) g" "n2 = min (length b) (g - n1)" "n3 = min (length c) (g - n1 - n2)"
    "n4 = min (length d) (g - n1 - n2 - n3)"
  shows "take g (a @ b @ c @ d) = take n1 a @ take n2 b @ take n3 c @ take n4 d"
  unfolding take_append_min [OF assms(1)] take_append_min [OF assms(2)] take_append_min [OF assms(3)]
  using take_append_min [OF assms(4), of "[]"] by simp

lemma evicted_list_untouched:
  assumes "evicted v E s t" "filed s (placement_of s D)" "live_place k" "\<And>e. e \<in> E \<Longrightarrow> placement_of s D e \<noteq> Some (v, k)"
  shows "place_list k (acts t v) = place_list k (acts s v)"
proof -
  have "place_list k (acts t v) = filter (\<lambda>e. e \<notin> E) (place_list k (acts s v))"
    using assms(1,3) by (simp add: evicted_def del: place_list.simps)
  moreover have "e \<notin> E" if "e \<in> set (place_list k (acts s v))" for e
    using that filed_lists(1) [OF assms(2)] assms(4) by blast
  ultimately show ?thesis by (simp add: filter_id_conv del: place_list.simps)
qed

lemma reclaim_sets:
  assumes f: "filed s (placement_of s D)"
  shows "distinct (by_priority s v)" "distinct (reclaim_order s v)"
    "d \<in> set (by_priority s v) \<longleftrightarrow> placement_of s D d = Some (v, PPriority)"
    "d \<in> set (reclaim_order s v) \<longleftrightarrow> (\<exists>k. live_place k \<and> placement_of s D d = Some (v, k))"
    "d \<in> set (high_part s (by_priority s v)) \<Longrightarrow> sint OBJECT_PRIORITY_LRU < obj_priority s d"
proof -
  let ?ps = "by_priority s v"
  have l: "d \<in> set (a_priorities (acts s v)) \<longleftrightarrow> placement_of s D d = Some (v, PPriority)"
      "d \<in> set (a_inactive (acts s v)) \<longleftrightarrow> placement_of s D d = Some (v, PInactive)"
      "d \<in> set (a_active (acts s v)) \<longleftrightarrow> placement_of s D d = Some (v, PActive)" for d
    using filed_lists(1) [OF f, of d PPriority v] filed_lists(1) [OF f, of d PInactive v]
      filed_lists(1) [OF f, of d PActive v] by simp_all
  have dist: "distinct (a_priorities (acts s v))" "distinct (a_inactive (acts s v))" "distinct (a_active (acts s v))"
    using filed_lists(2) [OF f, of PPriority v] filed_lists(2) [OF f, of PInactive v] filed_lists(2) [OF f, of PActive v]
    by simp_all
  have ps: "distinct ?ps" "set ?ps = set (a_priorities (acts s v))" "sorted (map (obj_priority s) ?ps)"
    using by_priority_ok dist(1) by auto
  then show "distinct ?ps" "d \<in> set ?ps \<longleftrightarrow> placement_of s D d = Some (v, PPriority)"
    using l by simp_all
  have parts: "low_part s ?ps @ high_part s ?ps = ?ps" by (simp add: low_part_def high_part_def)
  then have lh: "set (low_part s ?ps) \<union> set (high_part s ?ps) = set ?ps" by (metis set_append)
  have "distinct (low_part s ?ps @ high_part s ?ps)" using ps(1) parts by simp
  moreover have "placement_of s D x = Some (v, PPriority)"
    if "x \<in> set (low_part s ?ps) \<or> x \<in> set (high_part s ?ps)" for x
    using that lh ps(2) l(1) by blast
  ultimately show "distinct (reclaim_order s v)"
    using dist l(2,3) by (fastforce simp: reclaim_order_def)
  show "d \<in> set (reclaim_order s v) \<longleftrightarrow> (\<exists>k. live_place k \<and> placement_of s D d = Some (v, k))"
    using lh ps(2) l by (auto simp: reclaim_order_def live_place_def)
  show "d \<in> set (high_part s ?ps) \<Longrightarrow> sint OBJECT_PRIORITY_LRU < obj_priority s d"
    using sorted_dropWhile_le [OF ps(3)] by (simp add: high_part_def)
qed

lemma evictable_later:
  assumes "evicted v E s t" "evictable s D v k d" "d \<notin> E"
  shows "evictable t D v k d" "d_policy (descs t d) = d_policy (descs s d)"
  using evicted_keeps [OF assms(1,3)] assms(2) by simp_all

lemma low_prefix:
  "n \<le> length (low_part s ds) \<Longrightarrow> take n ds = take n (low_part s ds)"
  "n = length (low_part s ds) \<Longrightarrow> drop n ds = high_part s ds"
proof -
  have "ds = low_part s ds @ high_part s ds" by (simp add: low_part_def high_part_def)
  then show "n \<le> length (low_part s ds) \<Longrightarrow> take n ds = take n (low_part s ds)"
      "n = length (low_part s ds) \<Longrightarrow> drop n ds = high_part s ds"
    by (metis take_append append_Nil2 diff_is_0_eq take0, metis append_eq_conv_conj)
qed

text \<open>The objects that the loops can take: a clean one has to pass its check, and an inactive one that is not
  dirty needs an object of high priority, whose policy the loop reads instead.\<close>

definition reclaimable :: "pager_env \<Rightarrow> mem_state \<Rightarrow> aid \<Rightarrow> did \<Rightarrow> bool" where
  "reclaimable env s v d \<longleftrightarrow> takes env d (descs s d) \<and>
     (d \<in> set (a_inactive (acts s v)) \<and> high_part s (by_priority s v) = [] \<longrightarrow> stays_dirty env d (descs s d))"

lemma reclaim_loops_ok:
  assumes f: "filed s (placement_of s D)"
    and live: "\<And>d. d \<in> set (reclaim_order s v) \<Longrightarrow> d_live (descs s d)"
    and E: "E = set (take (nat goal) (reclaim_order s v))"
  shows "if \<forall>d \<in> E. reclaimable env s v d
    then \<exists>s'. reclaim_loops env s v goal = Some (s', card E, dirty_count s' E)
      \<and> filed s' (placement_of s' D) \<and> evicted v E s s'
    else reclaim_loops env s v goal = None"
proof -
  let ?ps = "by_priority s v" and ?g = "nat goal"
  let ?low = "low_part s ?ps" and ?high = "high_part s ?ps"
  let ?in = "a_inactive (acts s v)" and ?ac = "a_active (acts s v)"
  note rs = reclaim_sets [OF f, where v = v]
  have ev: "evictable s D v k d" if "placement_of s D d = Some (v, k)" "live_place k" for k d
    using that live rs(4) by (auto simp: evictable_def)
  have lists: "d \<in> set ?in \<longleftrightarrow> placement_of s D d = Some (v, PInactive)" "distinct ?in"
      "d \<in> set ?ac \<longleftrightarrow> placement_of s D d = Some (v, PActive)" "distinct ?ac" for d
    using filed_lists(1,2) [OF f, where k = PInactive and a = v] filed_lists(1,2) [OF f, where k = PActive and a = v]
    by simp_all
  define n1 where "n1 = min (length ?low) ?g"
  define n2 where "n2 = min (length ?in) (?g - n1)"
  define n3 where "n3 = min (length ?ac) (?g - n1 - n2)"
  define n4 where "n4 = min (length ?high) (?g - n1 - n2 - n3)"
  let ?E1 = "set (take n1 ?ps)" and ?E2 = "set (take n2 ?in)" and ?E3 = "set (take n3 ?ac)" and ?E4 = "set (take n4 ?high)"
  have take1: "take n1 ?ps = take n1 ?low" by (rule low_prefix) (simp add: n1_def)
  have order: "take ?g (reclaim_order s v) = take n1 ?low @ take n2 ?in @ take n3 ?ac @ take n4 ?high"
    unfolding reclaim_order_def by (rule take_parts [OF n1_def n2_def n3_def n4_def])
  have dist: "distinct (take n1 ?low @ take n2 ?in @ take n3 ?ac @ take n4 ?high)"
    using distinct_take [OF rs(2), of ?g] unfolding order .
  have EU: "E = ?E1 \<union> ?E2 \<union> ?E3 \<union> ?E4" unfolding E order take1 by auto
  have "n1 \<le> length ?low" "n2 \<le> length ?in" "n3 \<le> length ?ac" "n4 \<le> length ?high"
    unfolding n1_def n2_def n3_def n4_def by (rule min.cobounded1)+
  then have cardE: "card E = n1 + n2 + n3 + n4"
    unfolding E order distinct_card [OF dist] by simp
  have disj: "?E1 \<inter> ?E2 = {}" "(?E1 \<union> ?E2) \<inter> ?E3 = {}" "(?E1 \<union> ?E2 \<union> ?E3) \<inter> ?E4 = {}"
    using dist unfolding take1 by auto
  have p1: "placement_of s D d = Some (v, PPriority)" if "d \<in> ?E1" for d using that rs(3) by (auto dest: in_set_takeD)
  have hp: "placement_of s D d = Some (v, PPriority)" if "d \<in> ?E4" for d
    using that rs(3) unfolding high_part_def by (auto dest: in_set_takeD set_dropWhileD)
  have p2: "placement_of s D d \<noteq> Some (v, PActive)" if "d \<in> ?E1 \<union> ?E2" for d
    using that p1 lists(1) by (auto dest: in_set_takeD)
  have R: "reclaimable env s v d \<longleftrightarrow> takes env d (descs s d)" if "d \<in> ?E1 \<union> ?E3 \<union> ?E4" for d
    using that p1 hp lists(1,3) by (auto simp: reclaimable_def dest: in_set_takeD)
  \<comment> \<open>low priorities\<close>
  have "\<forall>d\<in>set ?ps. evictable s D v PPriority d" using rs(3) ev by (auto simp: live_place_def)
  note S1 = reclaim_low_ok [OF f rs(1) _ this, where n = n1 and goal = goal and c = 0 and lc = 0 and env = env]
  show ?thesis
  proof (cases "\<forall>d \<in> ?E1. takes env d (descs s d)")
    case False
    then show ?thesis using S1 R unfolding EU by (auto simp: n1_def reclaim_loops_def)
  next
    case G1: True
    with S1 obtain t1 where t1: "reclaim_low env v goal ?ps s 0 0 = Some (t1, n1, dirty_count t1 ?E1, drop n1 ?ps)"
        "filed t1 (placement_of t1 D)" "evicted v ?E1 s t1"
      by (auto simp: n1_def)
    have in1: "a_inactive (acts t1 v) = ?in"
      using evicted_list_untouched [OF t1(3) f, of PInactive] p1 by (auto simp: live_place_def)
    \<comment> \<open>inactive objects\<close>
    let ?rest = "drop n1 ?ps"
    let ?desc = "case ?rest of [] \<Rightarrow> None | d # _ \<Rightarrow> Some d"
    let ?q = "\<lambda>d x. takes env d x \<and> (?desc = None \<longrightarrow> stays_dirty env d x)"
    have e2: "\<forall>d\<in>?E2. evictable t1 D v PInactive d"
    proof
      fix d assume d: "d \<in> ?E2"
      then have "evictable s D v PInactive d" using ev lists(1) by (auto simp: live_place_def dest: in_set_takeD)
      then show "evictable t1 D v PInactive d" using evictable_later(1) [OF t1(3)] d disj(1) by blast
    qed
    have n2: "n2 = min (length ?in) (nat (goal - int n1))" by (simp add: n2_def nat_diff_distrib')
    note S2 = reclaim_loop_ok [OF evicts_inactive [of env v ?desc] t1(2) lists(2) n2 e2, where lc = "dirty_count t1 ?E1"]
    have Q: "?q d (descs t1 d) \<longleftrightarrow> reclaimable env s v d" if "d \<in> ?E2" for d
    proof -
      have "0 < n2" using that by (cases n2) simp_all
      then have "n1 = length ?low" unfolding n2_def n1_def by (cases "length ?low \<le> ?g") simp_all
      then have "?rest = ?high" by (rule low_prefix(2))
      moreover have "descs t1 d = descs s d" using evicted_keeps(2) [OF t1(3)] that disj(1) by blast
      ultimately show ?thesis using that by (auto simp: reclaimable_def dest: in_set_takeD split: list.splits)
    qed
    show ?thesis
    proof (cases "\<forall>d \<in> ?E2. reclaimable env s v d")
      case False
      then have "\<not> (\<forall>d \<in> ?E2. ?q d (descs t1 d))" using Q by blast
      from if_both(2) [OF S2 this] have "reclaim_loop (evict_inactive env v ?desc) goal ?in t1 n1 (dirty_count t1 ?E1) = None" .
      then show ?thesis using False t1(1) in1 unfolding EU by (auto simp: reclaim_loops_def Let_def)
    next
      case G2: True
      then have "\<forall>d \<in> ?E2. ?q d (descs t1 d)" using Q by blast
      from if_both(1) [OF S2 this] obtain t2 where t2: "reclaim_loop (evict_inactive env v ?desc) goal ?in t1 n1 (dirty_count t1 ?E1)
            = Some (t2, n1 + n2, dirty_count t1 ?E1 + dirty_count t2 ?E2)"
          "filed t2 (placement_of t2 D)" "evicted v ?E2 t1 t2"
        by blast
      note e12 = evicted_trans [OF t1(3) t2(3)]
      have dc2: "dirty_count t2 (?E1 \<union> ?E2) = dirty_count t1 ?E1 + dirty_count t2 ?E2"
        by (rule dirty_count_Un [OF t2(3) disj(1)]) simp_all
      have ac2: "a_active (acts t2 v) = ?ac"
        using evicted_list_untouched [OF e12 f, of PActive] p2 by (auto simp: live_place_def)
      \<comment> \<open>active objects\<close>
      have e3: "\<forall>d\<in>?E3. evictable t2 D v PActive d"
      proof
        fix d assume d: "d \<in> ?E3"
        then have "evictable s D v PActive d" using ev lists(3) by (auto simp: live_place_def dest: in_set_takeD)
        then show "evictable t2 D v PActive d" using evictable_later(1) [OF e12] d disj(2) by blast
      qed
      have n3: "n3 = min (length ?ac) (nat (goal - int (n1 + n2)))" by (simp add: n3_def nat_diff_distrib')
      note S3 = reclaim_loop_ok [OF evicts_active [of env] t2(2) lists(4) n3 e3, where lc = "dirty_count t2 (?E1 \<union> ?E2)"]
      have Q3: "takes env d (descs t2 d) \<longleftrightarrow> reclaimable env s v d" if "d \<in> ?E3" for d
        using evicted_keeps(2) [OF e12] that disj(2) R by (metis UnCI disjoint_iff)
      have loops2: "reclaim_loops env s v goal = do {
          (s, count, laundry_count) \<leftarrow> reclaim_loop (evict_active env v) goal ?ac t2 (n1 + n2) (dirty_count t2 (?E1 \<union> ?E2));
          reclaim_loop (evict_high env v) goal ?rest s count laundry_count }"
        using t1(1) t2(1) by (simp add: reclaim_loops_def Let_def in1 ac2 dc2)
      show ?thesis
      proof (cases "\<forall>d \<in> ?E3. reclaimable env s v d")
        case False
        then have "\<not> (\<forall>d \<in> ?E3. takes env d (descs t2 d))" using Q3 by blast
        from if_both(2) [OF S3 this] have "reclaim_loop (evict_active env v) goal ?ac t2 (n1 + n2) (dirty_count t2 (?E1 \<union> ?E2)) = None" .
        then show ?thesis using False loops2 unfolding EU by auto
      next
        case G3: True
        then have "\<forall>d \<in> ?E3. takes env d (descs t2 d)" using Q3 by blast
        from if_both(1) [OF S3 this] obtain t3 where t3: "reclaim_loop (evict_active env v) goal ?ac t2 (n1 + n2) (dirty_count t2 (?E1 \<union> ?E2))
              = Some (t3, n1 + n2 + n3, dirty_count t2 (?E1 \<union> ?E2) + dirty_count t3 ?E3)"
            "filed t3 (placement_of t3 D)" "evicted v ?E3 t2 t3"
          by blast
        note e123 = evicted_trans [OF e12 t3(3)]
        have dc3: "dirty_count t3 (?E1 \<union> ?E2 \<union> ?E3) = dirty_count t2 (?E1 \<union> ?E2) + dirty_count t3 ?E3"
          by (rule dirty_count_Un [OF t3(3) disj(2)]) simp_all
        \<comment> \<open>high priorities\<close>
        have n4: "n4 = min (length ?rest) (nat (goal - int (n1 + n2 + n3)))" and take4: "take n4 ?rest = take n4 ?high"
        proof -
          have "?rest = ?high" if "length ?low \<le> ?g" using that by (intro low_prefix(2)) (simp add: n1_def)
          moreover have "n4 = 0" "nat (goal - int (n1 + n2 + n3)) = 0" if "\<not> length ?low \<le> ?g"
            using that by (simp_all add: n1_def n4_def)
          ultimately show "n4 = min (length ?rest) (nat (goal - int (n1 + n2 + n3)))" "take n4 ?rest = take n4 ?high"
            by (cases "length ?low \<le> ?g"; simp add: n4_def nat_diff_distrib')+
        qed
        have k4: "evictable t3 D v PPriority d" "descs t3 d = descs s d" "sint (pol_priority (d_policy (descs s d))) > sint OBJECT_PRIORITY_LRU"
          if d: "d \<in> ?E4" for d
        proof -
          have "evictable s D v PPriority d" using ev hp [OF d] by (auto simp: live_place_def)
          moreover have "d \<notin> ?E1 \<union> ?E2 \<union> ?E3" using d disj(3) by blast
          ultimately show "evictable t3 D v PPriority d" "descs t3 d = descs s d"
            using evicted_keeps [OF e123] by blast+
          show "sint (pol_priority (d_policy (descs s d))) > sint OBJECT_PRIORITY_LRU"
            using rs(5) in_set_takeD [OF d] by (simp add: obj_priority_def)
        qed
        then have e4: "\<forall>d\<in>set (take n4 ?rest). evictable t3 D v PPriority d" unfolding take4 by blast
        note S4 = reclaim_loop_ok [OF evicts_high [of env] t3(2) distinct_drop [OF rs(1)] n4 e4,
          where lc = "dirty_count t3 (?E1 \<union> ?E2 \<union> ?E3)", unfolded take4]
        have Q4: "takes env d (descs t3 d) \<and> sint (pol_priority (d_policy (descs t3 d))) > sint OBJECT_PRIORITY_LRU
            \<longleftrightarrow> reclaimable env s v d" if "d \<in> ?E4" for d using k4(2,3) [OF that] R that by auto
        have all: "(\<forall>d \<in> E. reclaimable env s v d) \<longleftrightarrow> (\<forall>d \<in> ?E4. takes env d (descs t3 d)
            \<and> sint (pol_priority (d_policy (descs t3 d))) > sint OBJECT_PRIORITY_LRU)"
          using G1 G2 G3 R Q4 unfolding EU by blast
        have loops3: "reclaim_loops env s v goal =
            reclaim_loop (evict_high env v) goal ?rest t3 (n1 + n2 + n3) (dirty_count t3 (?E1 \<union> ?E2 \<union> ?E3))"
          using loops2 t3(1) by (simp add: dc3)
        have dc4: "evicted v ?E4 t3 t4 \<Longrightarrow> dirty_count t4 E = dirty_count t3 (?E1 \<union> ?E2 \<union> ?E3) + dirty_count t4 ?E4" for t4
          unfolding EU by (rule dirty_count_Un [OF _ disj(3)]) simp_all
        show ?thesis unfolding all loops3 cardE
        proof (rule if_both(3))
          assume "\<forall>d \<in> ?E4. takes env d (descs t3 d) \<and> sint (pol_priority (d_policy (descs t3 d))) > sint OBJECT_PRIORITY_LRU"
          from if_both(1) [OF S4 this] obtain t4 where
            t4: "reclaim_loop (evict_high env v) goal ?rest t3 (n1 + n2 + n3) (dirty_count t3 (?E1 \<union> ?E2 \<union> ?E3))
              = Some (t4, n1 + n2 + n3 + n4, dirty_count t3 (?E1 \<union> ?E2 \<union> ?E3) + dirty_count t4 ?E4)"
            "filed t4 (placement_of t4 D)" "evicted v ?E4 t3 t4" by blast
          moreover have "evicted v E s t4" unfolding EU by (rule evicted_trans [OF e123 t4(3)])
          ultimately show "\<exists>s'. reclaim_loop (evict_high env v) goal ?rest t3 (n1 + n2 + n3) (dirty_count t3 (?E1 \<union> ?E2 \<union> ?E3))
              = Some (s', n1 + n2 + n3 + n4, dirty_count s' E) \<and> filed s' (placement_of s' D) \<and> evicted v E s s'"
            using dc4 [OF t4(3)] by auto
        qed (rule if_both(2) [OF S4])
      qed
    qed
  qed
qed

subsection \<open>The counters after reclaiming\<close>

lemma frames_diff: "finite S \<Longrightarrow> C \<subseteq> S \<Longrightarrow> frames (S - C) = frames S - of_nat (card C)"
  by (simp add: frames_def card_Diff_subset finite_subset of_nat_diff card_mono)

lemma frames_union: "finite S \<Longrightarrow> finite Y \<Longrightarrow> S \<inter> Y = {} \<Longrightarrow> frames (S \<union> Y) = frames S + of_nat (card Y)"
  by (simp add: frames_def card_Un_disjoint)

lemma placement_evicted:
  assumes "evicted v E s t" "\<And>e. e \<in> E \<Longrightarrow> e \<in> D"
  shows "placement_of t D d = (if d \<in> E then Some (v, place_of (descs t d)) else placement_of s D d)"
    "d \<in> E \<Longrightarrow> place_of (descs t d) = PDirty \<or> place_of (descs t d) = PClean"
  using assms by (auto simp: placement_of_def evicted_def place_of_def)

lemma evicted_tally_sets:
  assumes ev: "evicted v E s t" and E: "\<And>e. e \<in> E \<Longrightarrow> \<exists>k. live_place k \<and> placement_of s D e = Some (v, k)"
  defines "at \<equiv> placement_of s D" and "at' \<equiv> placement_of t D"
    and "C \<equiv> {e \<in> E. place_of (descs t e) \<noteq> PDirty}" and "Y \<equiv> {e \<in> E. place_of (descs t e) = PDirty}"
  shows "{d. charged_at (at' d) = Some a} = {d. charged_at (at d) = Some a} - (if a = v then C else {})"
    "{d. \<exists>b. charged_at (at' d) = Some b \<and> u b} = {d. \<exists>b. charged_at (at d) = Some b \<and> u b} - (if u v then C else {})"
    "{d. \<exists>b. at' d = Some (b, PDirty) \<and> u b} = {d. \<exists>b. at d = Some (b, PDirty) \<and> u b} \<union> (if u v then Y else {})"
    "C \<subseteq> {d. charged_at (at d) = Some v}" "Y \<inter> {d. \<exists>b. at d = Some (b, PDirty) \<and> u b} = {}"
proof -
  have inD: "e \<in> D" if "e \<in> E" for e using E [OF that] by (auto simp: placement_of_def split: if_splits)
  have live: "charged_at (at e) = Some v" "at e \<noteq> Some (b, PDirty)" if "e \<in> E" for e b
    using E [OF that] by (auto simp: at_def charged_at_def live_place_def)
  have new: "charged_at (at' d) = (if d \<in> C then None else charged_at (at d))"
      "at' d = Some (b, PDirty) \<longleftrightarrow> d \<in> Y \<and> b = v \<or> at d = Some (b, PDirty)" for d b
    using placement_evicted [OF ev inD, where d = d] live(1) [of d] live(2) [of d b]
    by (auto simp: at'_def at_def C_def Y_def charged_at_def)
  show "{d. charged_at (at' d) = Some a} = {d. charged_at (at d) = Some a} - (if a = v then C else {})"
    using live(1) by (auto simp: new C_def split: if_splits)
  show "{d. \<exists>b. charged_at (at' d) = Some b \<and> u b} = {d. \<exists>b. charged_at (at d) = Some b \<and> u b} - (if u v then C else {})"
    using live(1) by (auto simp: new C_def split: if_splits)
  show "{d. \<exists>b. at' d = Some (b, PDirty) \<and> u b} = {d. \<exists>b. at d = Some (b, PDirty) \<and> u b} \<union> (if u v then Y else {})"
    by (auto simp: new split: if_splits)
  show "C \<subseteq> {d. charged_at (at d) = Some v}" using live(1) by (auto simp: C_def)
  show "Y \<inter> {d. \<exists>b. at d = Some (b, PDirty) \<and> u b} = {}" using live(2) by (auto simp: Y_def)
qed

lemma filed_cong:
  assumes "filed t at" "laundry u = laundry t" "available u = available t"
    "\<And>a k. place_list k (acts u a) = place_list k (acts t a)"
    "\<And>a. a_priorities_count (acts u a) = a_priorities_count (acts t a)"
  shows "filed u at"
  using assms unfolding filed_def by (simp del: place_list.simps)

lemma reclaim_accounts_ok:
  assumes con: "consistent s D" and ev: "evicted v E s t" and fil: "filed t (placement_of t D)"
    and E: "\<And>e. e \<in> E \<Longrightarrow> \<exists>k. live_place k \<and> placement_of s D e = Some (v, k)" and root: "rooted s v" and fin: "finite E"
  shows "\<exists>u. reclaim_accounts v (card E) (dirty_count t E) t = Some u \<and> consistent u D \<and> descs u = descs t"
proof -
  let ?at = "placement_of s D" and ?at' = "placement_of t D"
  let ?C = "{e \<in> E. place_of (descs t e) \<noteq> PDirty}" and ?Y = "{e \<in> E. place_of (descs t e) = PDirty}"
  have tal: "tallied s ?at (\<lambda>d. charged_at (?at d))" and finat: "finite (dom ?at)"
    using con by (auto simp: consistent_def ledger_iff filed_def)
  have "E = ?C \<union> ?Y" "?C \<inter> ?Y = {}" by auto
  then have "card E = card ?C + card ?Y" using fin by (metis (no_types, lifting) card_Un_disjoint finite_Un)
  then have n: "of_nat (card E) - of_nat (dirty_count t E) = (of_nat (card ?C) :: u32)"
      "of_nat (dirty_count t E) = (of_nat (card ?Y) :: u32)"
    by (simp_all add: dirty_count_def)
  let ?l = "\<lambda>x. x\<lparr>frames_local := frames_local x - (of_nat (card E) - of_nat (dirty_count t E)),
       stat_evicted := stat_evicted x + of_nat (card E)\<rparr>"
  let ?m = "upd_act v ?l t"
  let ?f = "\<lambda>x. x\<lparr>frames_total := frames_total x - (of_nat (card E) - of_nat (dirty_count t E)),
       frames_pending_eviction := frames_pending_eviction x + of_nat (dirty_count t E)\<rparr>"
  have un: "under t = under s \<and> rooted t = rooted s" by (rule under_cong) (use ev in \<open>simp_all add: evicted_def\<close>)
  have um: "under ?m = under t \<and> rooted ?m = rooted t" by (rule under_cong) simp_all
  with un root have "rooted ?m v" by simp
  then obtain u where u: "activity_for_each_ancestor ?m v ?f = Some u" "same_rest ?m u"
      "acts u = (\<lambda>x. if under ?m x v then ?f (acts ?m x) else acts ?m x)"
    by (rule for_each_ancestor [where f = ?f]) simp_all
  have uu: "under u = under s" "rooted u = rooted s" using same_rest_under [OF u(2)] um un by simp_all
  have acts: "acts u a = (if under s a v then ?f (acts ?m a) else acts ?m a)" for a
    unfolding u(3) using um un by simp
  have descs: "descs u = descs t" using u(2) by (simp add: same_rest_def)
  then have at_u: "placement_of u D = ?at'" by (simp add: placement_of_def fun_eq_iff)
  have "filed u ?at'"
    by (rule filed_cong [OF fil]) (use u(2) in \<open>simp_all add: same_rest_def acts del: place_list.simps\<close>)
  moreover have "tallied u ?at' (\<lambda>d. charged_at (?at' d))"
  proof -
    note sets = evicted_tally_sets [OF ev E]
    have old: "frames_local (acts t a) = frames {d. charged_at (?at d) = Some a}"
        "frames_total (acts t a) = frames {d. \<exists>b. charged_at (?at d) = Some b \<and> under s a b}"
        "frames_pending_eviction (acts t a) = frames {d. \<exists>b. ?at d = Some (b, PDirty) \<and> under s a b}" for a
      using tal ev by (simp_all add: tallied_def evicted_def)
    have dch: "dom (\<lambda>d. charged_at (?at d)) \<subseteq> dom ?at" by (auto simp: charged_at_def split: option.splits)
    then have finch: "finite (dom (\<lambda>d. charged_at (?at d)))" using finat by (rule finite_subset)
    have "frames_local (acts u a) = frames {d. charged_at (?at' d) = Some a}" for a
      using sets(1) [where a = a] old(1) [of a] frames_diff [OF finite_charged(1) [OF finch] sets(4)] n
      by (cases "a = v") (simp_all add: acts)
    moreover have "frames_total (acts u a) = frames {d. \<exists>b. charged_at (?at' d) = Some b \<and> under s a b}" for a
    proof -
      have "under s a v \<Longrightarrow> ?C \<subseteq> {d. \<exists>b. charged_at (?at d) = Some b \<and> under s a b}" using sets(4) by blast
      from frames_diff [OF finite_charged(2) [OF finch, of "under s" a] this]
      show ?thesis using sets(2) [where u = "under s a"] old(2) [of a] n by (cases "under s a v"; cases "a = v") (simp_all add: acts)
    qed
    moreover have "frames_pending_eviction (acts u a) = frames {d. \<exists>b. ?at' d = Some (b, PDirty) \<and> under s a b}" for a
    proof -
      have "{d. \<exists>b. ?at d = Some (b, PDirty) \<and> under s a b} \<inter> ?Y = {}" using sets(5) [where u = "under s a"] by blast
      from frames_union [OF finite_placed [OF finat, of PDirty "under s" a] _ this] fin
      show ?thesis using sets(3) [where u = "under s a"] old(3) [of a] n by (cases "under s a v"; cases "a = v") (simp_all add: acts)
    qed
    moreover have inD: "e \<in> D" if "e \<in> E" for e using E [OF that] by (auto simp: placement_of_def split: if_splits)
    have "rooted s a" if "?at' d = Some (a, k)" for d a k
      using that placement_evicted(1) [OF ev inD, where d = d] tal root by (auto simp: tallied_def split: if_splits)
    moreover have "\<exists>k. ?at' d = Some (a, k)" if "charged_at (?at' d) = Some a" for d a
      using that by (auto simp: charged_at_def split: option.splits if_splits)
    moreover have "dom (\<lambda>d. charged_at (?at' d)) \<subseteq> dom (\<lambda>d. charged_at (?at d)) \<union> E"
      using placement_evicted(1) [OF ev inD] by (auto split: if_splits)
    then have "finite (dom (\<lambda>d. charged_at (?at' d)))" using finch fin by (meson finite_UnI finite_subset)
    ultimately show ?thesis unfolding tallied_def uu by blast
  qed
  ultimately have "consistent u D" by (simp add: consistent_def ledger_iff at_u)
  then show ?thesis using u(1) descs by (simp add: reclaim_accounts_def Let_def)
qed

text \<open>C6: Reclaiming from an activity makes exactly the first \<open>goal\<close> of its live objects eviction candidates, in the
  order of low priorities, inactive objects, active objects, high priorities; it fails no assertion, returns
  their number and keeps the lists and counters of all activities exact, provided that every one of these objects that
  is not dirty or is discardable passes the check \<open>is_clean\<close> and is not an inactive object of an activity without
  objects of high priority. Otherwise it fails: it is the check that fails, or the loop over the inactive objects reads
  the policy of a null pointer. The activity is in the tree, its objects are live and there is one to reclaim.\<close>

theorem reclaim_from_evicts:
  assumes con: "consistent s D" and live: "\<And>d. d \<in> set (reclaim_order s v) \<Longrightarrow> d_live (descs s d)" and root: "rooted s v"
    and some: "0 < goal" "reclaim_order s v \<noteq> []"
  shows "if \<forall>d \<in> set (take (nat goal) (reclaim_order s v)). reclaimable env s v d
    then \<exists>s'. reclaim_from env s v goal = Some (s', min (length (reclaim_order s v)) (nat goal)) \<and> consistent s' D
      \<and> (\<forall>d. d_eviction_candidate (descs s' d) \<longleftrightarrow>
           d_eviction_candidate (descs s d) \<or> d \<in> set (take (nat goal) (reclaim_order s v)))
    else reclaim_from env s v goal = None"
proof -
  let ?E = "set (take (nat goal) (reclaim_order s v))"
  have fil: "filed s (placement_of s D)" using con by (simp add: consistent_def ledger_iff)
  note rs = reclaim_sets [OF fil, where v = v]
  have cnt: "lists_counted (acts s v)" using con by (auto simp: consistent_def intro: ledger_counted)
  have L: "if \<forall>d \<in> ?E. reclaimable env s v d
    then \<exists>s'. reclaim_loops env s v goal = Some (s', card ?E, dirty_count s' ?E) \<and> filed s' (placement_of s' D) \<and> evicted v ?E s s'
    else reclaim_loops env s v goal = None" by (rule reclaim_loops_ok [OF fil live refl])
  show ?thesis
  proof (cases "\<forall>d \<in> ?E. reclaimable env s v d")
    case False
    from if_both(2) [OF L this] have "reclaim_from env s v goal = None" by (simp add: reclaim_from_def cnt)
    then show ?thesis using False by (intro if_both(3)) blast+
  next
    case True
    then have "\<exists>s'. reclaim_loops env s v goal = Some (s', card ?E, dirty_count s' ?E) \<and> filed s' (placement_of s' D) \<and> evicted v ?E s s'"
      by (rule if_both(1) [OF L])
    then obtain t where t:
        "reclaim_loops env s v goal = Some (t, card ?E, dirty_count t ?E)" "filed t (placement_of t D)" "evicted v ?E s t"
      by blast
    have "\<exists>k. live_place k \<and> placement_of s D e = Some (v, k)" if "e \<in> ?E" for e
      using that rs(4) by (blast dest: in_set_takeD)
    from reclaim_accounts_ok [OF con t(3,2) this root] obtain u where u:
        "reclaim_accounts v (card ?E) (dirty_count t ?E) t = Some u" "consistent u D" "descs u = descs t"
      by auto
    have card: "card ?E = min (length (reclaim_order s v)) (nat goal)"
      using distinct_card [OF distinct_take [OF rs(2), of "nat goal"]] by simp
    moreover have "0 < card ?E" using some by (simp add: card)
    moreover have "lists_counted (acts u v)" using u(2) by (auto simp: consistent_def intro: ledger_counted)
    ultimately have "reclaim_from env s v goal = Some (u, min (length (reclaim_order s v)) (nat goal))"
      using t(1) u(1) cnt by (simp add: reclaim_from_def)
    moreover have "d_eviction_candidate (descs u d) \<longleftrightarrow> d_eviction_candidate (descs s d) \<or> d \<in> ?E" for d
      using t(3) unfolding u(3) evicted_def by metis
    ultimately have "\<exists>s'. reclaim_from env s v goal = Some (s', min (length (reclaim_order s v)) (nat goal)) \<and> consistent s' D
      \<and> (\<forall>d. d_eviction_candidate (descs s' d) \<longleftrightarrow> d_eviction_candidate (descs s d) \<or> d \<in> ?E)" using u(2) by blast
    then show ?thesis using True by (intro if_both(3)) blast+
  qed
qed

text \<open>A machine on which nothing was written and all pages are zero.\<close>

definition calm_env :: pager_env where
  "calm_env = (let r = \<lparr>was_written = False, was_referenced = False\<rparr> in
     \<lparr>l4_unmap_fpage = (\<lambda>_. r), l4_flush = (\<lambda>_. r), l4_unmap_again = (\<lambda>_. r), page_words = (\<lambda>_. replicate 512 0)\<rparr>)"

text \<open>The child of the root activity owns one object, active or inactive.\<close>

definition one_object :: "bool \<Rightarrow> mem_state" where
  "one_object active = empty_memory
     \<lparr>acts := (acts empty_memory)(0 := (idle_activity None)\<lparr>frames_total := 1\<rparr>,
        1 := (idle_activity (Some 0))\<lparr>a_active := (if active then [7] else []),
          a_inactive := (if active then [] else [7]), frames_local := 1, frames_total := 1\<rparr>),
      descs := (descs empty_memory)(7 := (descs empty_memory 7)\<lparr>d_age := (if active then 128 else 0), d_activity := Some 1\<rparr>)\<rparr>"

lemma one_object_tree: "rooted (one_object p) a" "under (one_object p) b a \<longleftrightarrow> b = 0 \<or> b = a"
proof -
  have par: "(\<lambda>x. a_parent (acts (one_object p) x)) = (\<lambda>x. if x = 0 then None else Some 0)" "root_activity (one_object p) = 0"
    by (auto simp: one_object_def empty_memory_def idle_activity_def fun_eq_iff)
  have "ancestors (\<lambda>x. if x = 0 then None else Some 0) 0 a = Some (if a = 0 then [0] else [a, 0])"
    by (simp add: ancestors.simps [of _ _ a] ancestors.simps [of _ _ 0])
  then show "rooted (one_object p) a" "under (one_object p) b a \<longleftrightarrow> b = 0 \<or> b = a"
    by (auto simp: rooted_def under_def par split: if_splits)
qed

definition one_place :: "bool \<Rightarrow> place" where
  "one_place active = (if active then PActive else PInactive)"

lemma one_place_neq [simp]: "one_place p \<noteq> PDirty" "one_place p \<noteq> PClean" "one_place p \<noteq> PPriority"
  "PDirty \<noteq> one_place p" "PClean \<noteq> one_place p" "PPriority \<noteq> one_place p"
  by (simp_all add: one_place_def)

lemma one_object_placement: "placement_of (one_object p) {7} = [7 \<mapsto> (1, one_place p)]"
  by (auto simp: placement_of_def one_object_def empty_memory_def place_of_def object_active_def one_place_def fun_eq_iff)

lemma one_object_consistent: "consistent (one_object p) {7}"
proof -
  have ch: "(\<lambda>d. charged_at (([7 \<mapsto> (1, one_place p)] :: placement) d)) = [7 \<mapsto> 1]"
    by (auto simp: charged_at_def one_place_def fun_eq_iff)
  have "place_list k (acts (one_object p) a) = (if a = 1 \<and> k = one_place p then [7] else [])" for k a
    by (cases k) (simp_all add: one_place_def one_object_def empty_memory_def idle_activity_def)
  moreover have "{d. ([7 \<mapsto> 1] :: charging) d = Some a} = (if a = 1 then {7} else {})" for a by auto
  moreover have "{d. \<exists>b. ([7 \<mapsto> 1] :: charging) d = Some b \<and> (a = 0 \<or> a = b)} = (if a = 0 \<or> a = 1 then {7} else {})" for a
    by auto
  moreover have "{d. \<exists>b. ([7 \<mapsto> (1, one_place p)] :: placement) d = Some (b, k) \<and> q b} = (if k = one_place p \<and> q 1 then {7} else {})"
      "{d. ([7 \<mapsto> (1, one_place p)] :: placement) d = Some (a, k)} = (if k = one_place p \<and> a = 1 then {7} else {})" for k q a by auto
  moreover have "laundry (one_object p) = []" "available (one_object p) = []" "a_priorities_count (acts (one_object p) a) = 0"
      "frames_local (acts (one_object p) a) = (if a = 1 then 1 else 0)"
      "frames_total (acts (one_object p) a) = (if a = 0 \<or> a = 1 then 1 else 0)"
      "frames_pending_eviction (acts (one_object p) a) = 0" for a
    by (simp_all add: one_object_def empty_memory_def idle_activity_def)
  ultimately show ?thesis
    unfolding consistent_def one_object_placement ch ledger_iff filed_def tallied_def one_object_tree(2)
    by (simp add: frames_def one_object_tree(1) del: place_list.simps fun_upd_apply) simp
qed

lemma one_object_order:
  "reclaim_order (one_object p) 1 = [7]" "by_priority (one_object p) 1 = []" "by_priority (one_object p) (Suc 0) = []" "high_part (one_object p) [] = []"
  by (simp_all add: one_object_def empty_memory_def idle_activity_def by_priority_def reclaim_order_def low_part_def high_part_def)

lemma one_object_inactive: "a_inactive (acts (one_object p) 1) = (if p then [] else [7])"
  by (simp add: one_object_def idle_activity_def)

lemma one_object_check: "takes calm_env 7 (descs (one_object p) 7)" "\<not> stays_dirty calm_env 7 (descs (one_object p) 7)"
  by (auto simp: takes_def passes_clean_def stays_dirty_def dirty_after_def calm_env_def Let_def one_object_def empty_memory_def)

text \<open>An active object is taken; an inactive one is not, for the activity has no object with a priority.\<close>

theorem reclaim_from_evicts_witness:
  "(\<exists>s'. reclaim_from calm_env (one_object True) 1 5 = Some (s', 1) \<and> consistent s' {7} \<and> d_eviction_candidate (descs s' 7))
   \<and> reclaim_from calm_env (one_object False) 1 5 = None"
proof -
  have "d_live (descs (one_object p) d)" for p d by (simp add: one_object_def empty_memory_def)
  moreover have "reclaimable calm_env (one_object True) 1 7" "\<not> reclaimable calm_env (one_object False) 1 7"
    using one_object_check one_object_inactive by (simp_all add: reclaimable_def one_object_order)
  ultimately show ?thesis
    using reclaim_from_evicts [OF one_object_consistent, of True 1 5 calm_env] reclaim_from_evicts [OF one_object_consistent, of False 1 5 calm_env]
      one_object_tree(1) one_object_order by auto
qed

text \<open>If the activity has no object with a priority and its first inactive object is clean or discardable, then
  the loop over the inactive objects reads the policy of a null pointer: its body fails for this object although the
  object passes the check, and would not if the variable \<open>desc\<close> designated any object.\<close>

theorem reclaim_from_null_pointer:
  assumes con: "consistent s D" and root: "rooted s v"
    and lists: "a_priorities (acts s v) = []" "a_inactive (acts s v) = d # ds" and live: "\<And>e. e \<in> set (reclaim_order s v) \<Longrightarrow> d_live (descs s e)"
    and clean: "\<not> stays_dirty env d (descs s d)" "passes_clean env d (descs s d)" and goal: "0 < goal"
  shows "reclaim_from env s v goal = None \<and> (\<forall>e. evict_inactive env v (Some e) d (s, 0) \<noteq> None)"
proof -
  have fil: "filed s (placement_of s D)" using con by (simp add: consistent_def ledger_iff)
  have o: "high_part s (by_priority s v) = []" "reclaim_order s v = d # ds @ a_active (acts s v)"
    using lists by (simp_all add: by_priority_def high_part_def reclaim_order_def low_part_def)
  obtain g where g: "nat goal = Suc g" using goal by (metis zero_less_nat_eq gr0_implies_Suc)
  have "\<not> reclaimable env s v d" using clean o(1) lists by (simp add: reclaimable_def)
  then have "reclaim_loops env s v goal = None"
    using reclaim_loops_ok [OF fil live refl, of v goal env] by (simp add: o g)
  then have "reclaim_from env s v goal = None" by (simp add: reclaim_from_def c_assert_bind_if)
  moreover have "evictable s D v PInactive d"
    using filed_lists(1) [OF fil, of d PInactive v] lists(2) live o(2) by (simp add: evictable_def live_place_def)
  with fil clean evicts_inactive [of env v "Some e" D for e] have "evict_inactive env v (Some e) d (s, 0) \<noteq> None" for e
    unfolding evicts_def by (fastforce simp: takes_def)
  ultimately show ?thesis by blast
qed

theorem reclaim_from_null_pointer_witness:
  "reclaim_from calm_env (one_object False) 1 5 = None \<and> evict_inactive calm_env 1 (Some 3) 7 (one_object False, 0) \<noteq> None"
proof -
  have "a_priorities (acts (one_object False) 1) = []" "a_inactive (acts (one_object False) 1) = [7]"
      "d_live (descs (one_object False) d)" for d
    by (simp_all add: one_object_def empty_memory_def idle_activity_def)
  then show ?thesis
    using reclaim_from_null_pointer [OF one_object_consistent one_object_tree(1), of False 1 7 "[]" calm_env 5] one_object_check [of False]
    by (simp add: takes_def)
qed

end
