(* ===== verification/Activity.thy ===== *)
theory Activity
  imports Pager
begin

text \<open>
  The tree of activities (\<^verbatim>\<open>viengoos/activity.c\<close>): the order of the children of an activity, and what becomes of the memory
  of an activity that is destroyed. Memory is the state of \<^verbatim>\<open>Claim\<close>; the children of an activity are lists, as
  justified for the circular lists of \<^verbatim>\<open>viengoos/list.h\<close>.
\<close>

subsection \<open>Inheriting memory\<close>

text \<open>The loops of \<open>activity_destroy\<close> check every object of a list and make the parent its owner. The nodes on \<open>laundry\<close> and on
  \<open>available\<close> share their storage, so that the checks see either.\<close>

fun inherit_all :: "(object_desc \<Rightarrow> bool \<Rightarrow> bool) \<Rightarrow> (object_desc \<Rightarrow> object_desc) \<Rightarrow> aid \<Rightarrow> aid \<Rightarrow> did list \<Rightarrow> mem_state \<Rightarrow> mem_state option" where
  "inherit_all ok f v p [] s = Some s"
| "inherit_all ok f v p (d # ds) s = do {
     c_assert (ok (descs s d) (node_attached d s));
     c_assert (d_activity (descs s d) = Some v);
     inherit_all ok f v p ds (upd_desc d (\<lambda>x. f (x\<lparr>d_activity := Some p\<rparr>)) s)
   }"

fun inherit_priorities :: "aid \<Rightarrow> aid \<Rightarrow> did list \<Rightarrow> mem_state \<Rightarrow> mem_state option" where
  "inherit_priorities v p [] s = Some s"
| "inherit_priorities v p (d # ds) s = do {
     c_assert (\<not> d_eviction_candidate (descs s d));
     c_assert (d_activity (descs s d) = Some v);
     c_assert (pol_priority (d_policy (descs s d)) \<noteq> OBJECT_PRIORITY_LRU);
     let s = upd_desc d (\<lambda>x. x\<lparr>d_age := 0, d_activity := Some p\<rparr>) s;
     inherit_priorities v p ds (upd_act p (\<lambda>x. x\<lparr>a_priorities := d # a_priorities x, a_priorities_count := a_priorities_count x + 1\<rparr>) s)
   }"

definition activity_inherit :: "mem_state \<Rightarrow> aid \<Rightarrow> mem_state option" where
  "activity_inherit s v = (case a_parent (acts s v) of None \<Rightarrow> None | Some p \<Rightarrow> do {
     let active = a_active (acts s v);
     s \<leftarrow> inherit_all (\<lambda>x attached. \<not> d_eviction_candidate x \<and> \<not> attached \<and> d_age x \<noteq> 0) (\<lambda>x. x\<lparr>d_age := 0\<rparr>) v p active s;
     let s = upd_act v (\<lambda>x. x\<lparr>a_active := []\<rparr>) (upd_act p (\<lambda>x. x\<lparr>a_inactive := a_inactive x @ active\<rparr>) s);
     let priorities = by_priority s v;
     s \<leftarrow> inherit_priorities v p priorities s;
     let s = upd_act v (\<lambda>x. x\<lparr>a_priorities := []\<rparr>) s;
     let inactive = a_inactive (acts s v);
     s \<leftarrow> inherit_all (\<lambda>x attached. \<not> d_eviction_candidate x \<and> \<not> attached \<and> d_age x = 0) (\<lambda>x. x) v p inactive s;
     let s = upd_act v (\<lambda>x. x\<lparr>a_inactive := []\<rparr>) (upd_act p (\<lambda>x. x\<lparr>a_inactive := a_inactive x @ inactive\<rparr>) s);
     let clean = a_eviction_clean (acts s v);
     s \<leftarrow> inherit_all (\<lambda>x attached. d_eviction_candidate x \<and> \<not> attached \<and> (\<not> d_dirty x \<or> pol_discardable (d_policy x))) (\<lambda>x. x) v p clean s;
     let s = upd_act v (\<lambda>x. x\<lparr>a_eviction_clean := []\<rparr>) (upd_act p (\<lambda>x. x\<lparr>a_eviction_clean := a_eviction_clean x @ clean\<rparr>) s);
     let dirty = a_eviction_dirty (acts s v);
     s \<leftarrow> inherit_all (\<lambda>x attached. d_eviction_candidate x \<and> attached \<and> d_dirty x \<and> \<not> pol_discardable (d_policy x)) (\<lambda>x. x) v p dirty s;
     let s = upd_act v (\<lambda>x. x\<lparr>a_eviction_dirty := []\<rparr>) (upd_act p (\<lambda>x. x\<lparr>a_eviction_dirty := a_eviction_dirty x @ dirty\<rparr>) s);
     let count = length active + length priorities + length inactive;
     c_assert (of_nat count = frames_local (acts s v));
     c_assert (of_nat count = frames_total (acts s v));
     let s = upd_act v (\<lambda>x. x\<lparr>frames_local := 0, frames_total := 0\<rparr>) s;
     Some (upd_act p (\<lambda>x. x\<lparr>frames_local := frames_local x + of_nat count\<rparr>) s)
   })"

text \<open>What the loops do.\<close>

definition reown :: "(object_desc \<Rightarrow> object_desc) \<Rightarrow> aid \<Rightarrow> did set \<Rightarrow> mem_state \<Rightarrow> mem_state" where
  "reown f p S s = s\<lparr>descs := (\<lambda>e. if e \<in> S then f ((descs s e)\<lparr>d_activity := Some p\<rparr>) else descs s e)\<rparr>"

lemma node_attached_upd [simp]: "node_attached d (upd_desc e f s) = node_attached d s" "node_attached d (upd_act a g s) = node_attached d s"
  "node_attached d (reown h p S s) = node_attached d s"
  by (simp_all add: node_attached_def reown_def)

lemma inherit_all_iff:
  "distinct ds \<Longrightarrow> inherit_all ok f v p ds s =
     (if \<forall>d \<in> set ds. ok (descs s d) (node_attached d s) \<and> d_activity (descs s d) = Some v then Some (reown f p (set ds) s) else None)"
proof (induction ds arbitrary: s)
  case (Cons d ds)
  let ?s = "upd_desc d (\<lambda>x. f (x\<lparr>d_activity := Some p\<rparr>)) s"
  have same: "descs ?s e = descs s e" if "e \<in> set ds" for e using that Cons.prems by auto
  have "reown f p (set ds) ?s = reown f p (set (d # ds)) s"
    using Cons.prems by (auto simp: reown_def upd_desc_def fun_eq_iff)
  then show ?case using Cons.IH [of ?s] Cons.prems same by (auto simp: c_assert_bind_if)
qed (simp add: reown_def)

definition push_priorities :: "did list \<Rightarrow> activity \<Rightarrow> activity" where
  "push_priorities ds x = x\<lparr>a_priorities := rev ds @ a_priorities x, a_priorities_count := a_priorities_count x + int (length ds)\<rparr>"

lemma inherit_priorities_ok:
  "distinct ds \<Longrightarrow> (\<And>d. d \<in> set ds \<Longrightarrow> \<not> d_eviction_candidate (descs s d) \<and> d_activity (descs s d) = Some v
     \<and> pol_priority (d_policy (descs s d)) \<noteq> OBJECT_PRIORITY_LRU) \<Longrightarrow>
   inherit_priorities v p ds s = Some (upd_act p (push_priorities ds) (reown (\<lambda>x. x\<lparr>d_age := 0\<rparr>) p (set ds) s))"
proof (induction ds arbitrary: s)
  case (Cons d ds)
  let ?t = "upd_desc d (\<lambda>x. x\<lparr>d_age := 0, d_activity := Some p\<rparr>) s"
  let ?s = "upd_act p (\<lambda>x. x\<lparr>a_priorities := d # a_priorities x, a_priorities_count := a_priorities_count x + 1\<rparr>) ?t"
  have "inherit_priorities v p ds ?s = Some (upd_act p (push_priorities ds) (reown (\<lambda>x. x\<lparr>d_age := 0\<rparr>) p (set ds) ?s))"
    by (rule Cons.IH) (use Cons.prems in auto)
  moreover have "upd_act p (push_priorities ds) (reown (\<lambda>x. x\<lparr>d_age := 0\<rparr>) p (set ds) ?s)
      = upd_act p (push_priorities (d # ds)) (reown (\<lambda>x. x\<lparr>d_age := 0\<rparr>) p (set (d # ds)) s)"
    using Cons.prems(1) by (auto simp: reown_def upd_act_def upd_desc_def fun_eq_iff push_priorities_def)
  ultimately show ?case using Cons.prems(2) [of d] by (simp add: Let_def)
qed (simp add: reown_def upd_act_def push_priorities_def)

subsection \<open>The memory after the loops\<close>

lemma place_of_facts:
  "place_of x = PActive \<Longrightarrow> \<not> d_eviction_candidate x \<and> d_age x \<noteq> 0 \<and> pol_priority (d_policy x) = OBJECT_PRIORITY_LRU"
  "place_of x = PInactive \<Longrightarrow> \<not> d_eviction_candidate x \<and> d_age x = 0 \<and> pol_priority (d_policy x) = OBJECT_PRIORITY_LRU"
  "place_of x = PPriority \<Longrightarrow> \<not> d_eviction_candidate x \<and> pol_priority (d_policy x) \<noteq> OBJECT_PRIORITY_LRU"
  "place_of x = PClean \<Longrightarrow> d_eviction_candidate x \<and> (\<not> d_dirty x \<or> pol_discardable (d_policy x))"
  "place_of x = PDirty \<Longrightarrow> d_eviction_candidate x \<and> d_dirty x \<and> \<not> pol_discardable (d_policy x)"
  by (auto simp: place_of_def object_active_def needs_laundry_def split: if_splits)

lemma filed_desc:
  assumes "filed s (placement_of s D)" "d \<in> set (place_list k (acts s v))"
  shows "d_activity (descs s d) = Some v" "place_of (descs s d) = k" "node_attached d s \<longleftrightarrow> k = PDirty \<or> k = PClean"
proof -
  have at: "placement_of s D d = Some (v, k)" using filed_lists(1) [OF assms(1)] assms(2) by blast
  then show "d_activity (descs s d) = Some v" "place_of (descs s d) = k" by (auto simp: placement_of_def split: if_splits)
  show "node_attached d s \<longleftrightarrow> k = PDirty \<or> k = PClean" using filed_attached [OF assms(1)] at by auto
qed

lemma by_priority_cong: "(\<And>d. d_policy (descs t d) = d_policy (descs s d)) \<Longrightarrow> a_priorities (acts t v) = a_priorities (acts s v) \<Longrightarrow> by_priority t v = by_priority s v"
  by (simp add: by_priority_def priority_compare_def [abs_def] obj_priority_def)

lemma filed_disjoint: "filed s at \<Longrightarrow> d \<in> set (place_list k (acts s a)) \<Longrightarrow> d \<in> set (place_list j (acts s b)) \<Longrightarrow> a = b \<and> k = j"
  using filed_lists(1) [of s at] by simp

definition inherited :: "aid \<Rightarrow> aid \<Rightarrow> mem_state \<Rightarrow> mem_state" where
  "inherited v p s = (let x = acts s v; y = acts s p in
     s\<lparr>descs := (\<lambda>d. if d \<in> set (a_active x) \<union> set (a_priorities x) then (descs s d)\<lparr>d_age := 0, d_activity := Some p\<rparr>
          else if d \<in> set (a_inactive x) then (descs s d)\<lparr>d_activity := Some p\<rparr> else descs s d),
       acts := (acts s)(v := x\<lparr>a_active := [], a_priorities := [], a_inactive := []\<rparr>,
         p := y\<lparr>a_inactive := a_inactive y @ a_active x @ a_inactive x, a_priorities := rev (by_priority s v) @ a_priorities y,
           a_priorities_count := a_priorities_count y + int (length (a_priorities x))\<rparr>)\<rparr>)"

definition inherit_rest :: "nat \<Rightarrow> aid \<Rightarrow> aid \<Rightarrow> mem_state \<Rightarrow> mem_state option" where
  "inherit_rest count v p s = do {
     let clean = a_eviction_clean (acts s v);
     s \<leftarrow> inherit_all (\<lambda>x attached. d_eviction_candidate x \<and> \<not> attached \<and> (\<not> d_dirty x \<or> pol_discardable (d_policy x))) (\<lambda>x. x) v p clean s;
     let s = upd_act v (\<lambda>x. x\<lparr>a_eviction_clean := []\<rparr>) (upd_act p (\<lambda>x. x\<lparr>a_eviction_clean := a_eviction_clean x @ clean\<rparr>) s);
     let dirty = a_eviction_dirty (acts s v);
     s \<leftarrow> inherit_all (\<lambda>x attached. d_eviction_candidate x \<and> attached \<and> d_dirty x \<and> \<not> pol_discardable (d_policy x)) (\<lambda>x. x) v p dirty s;
     let s = upd_act v (\<lambda>x. x\<lparr>a_eviction_dirty := []\<rparr>) (upd_act p (\<lambda>x. x\<lparr>a_eviction_dirty := a_eviction_dirty x @ dirty\<rparr>) s);
     c_assert (of_nat count = frames_local (acts s v));
     c_assert (of_nat count = frames_total (acts s v));
     let s = upd_act v (\<lambda>x. x\<lparr>frames_local := 0, frames_total := 0\<rparr>) s;
     Some (upd_act p (\<lambda>x. x\<lparr>frames_local := frames_local x + of_nat count\<rparr>) s)
   }"

definition live_count :: "activity \<Rightarrow> nat" where
  "live_count x = length (a_active x) + length (a_priorities x) + length (a_inactive x)"

lemma activity_inherit_live:
  assumes f: "filed s (placement_of s D)" and p: "a_parent (acts s v) = Some p" "p \<noteq> v"
  shows "activity_inherit s v = inherit_rest (live_count (acts s v)) v p (inherited v p s)"
proof -
  let ?x = "acts s v" and ?ps = "by_priority s v"
  have d: "distinct (a_active ?x)" "distinct ?ps" "distinct (a_inactive ?x)"
    using filed_lists(2) [OF f, of PActive v] filed_lists(2) [OF f, of PPriority v] filed_lists(2) [OF f, of PInactive v] by_priority_ok(1) by simp_all
  have A: "d_activity (descs s d) = Some v \<and> place_of (descs s d) = PActive \<and> \<not> node_attached d s" if "d \<in> set (a_active ?x)" for d
    using filed_desc [OF f, of d PActive v] that by simp
  have P: "d_activity (descs s d) = Some v \<and> place_of (descs s d) = PPriority \<and> d \<notin> set (a_active ?x)" if "d \<in> set (a_priorities ?x)" for d
    using filed_desc [OF f, of d PPriority v] filed_disjoint [OF f, of d PPriority v PActive v] that by auto
  have I: "d_activity (descs s d) = Some v \<and> place_of (descs s d) = PInactive \<and> \<not> node_attached d s \<and> d \<notin> set (a_active ?x) \<and> d \<notin> set (a_priorities ?x)"
    if "d \<in> set (a_inactive ?x)" for d
    using filed_desc [OF f, of d PInactive v] filed_disjoint [OF f, of d PInactive v PActive v]
      filed_disjoint [OF f, of d PInactive v PPriority v] that by auto
  define s1 where "s1 = upd_act v (\<lambda>x. x\<lparr>a_active := []\<rparr>) (upd_act p (\<lambda>x. x\<lparr>a_inactive := a_inactive x @ a_active ?x\<rparr>)
    (reown (\<lambda>x. x\<lparr>d_age := 0\<rparr>) p (set (a_active ?x)) s))"
  define s2 where "s2 = upd_act v (\<lambda>x. x\<lparr>a_priorities := []\<rparr>) (upd_act p (push_priorities ?ps)
    (reown (\<lambda>x. x\<lparr>d_age := 0\<rparr>) p (set ?ps) s1))"
  have l1: "by_priority s1 v = ?ps" using p(2) by (intro by_priority_cong) (simp_all add: s1_def reown_def upd_act_def)
  have l2: "a_inactive (acts s2 v) = a_inactive ?x" using p(2) by (simp add: s2_def s1_def reown_def upd_act_def push_priorities_def)
  have r1: "inherit_all (\<lambda>x attached. \<not> d_eviction_candidate x \<and> \<not> attached \<and> d_age x \<noteq> 0) (\<lambda>x. x\<lparr>d_age := 0\<rparr>) v p (a_active ?x) s
      = Some (reown (\<lambda>x. x\<lparr>d_age := 0\<rparr>) p (set (a_active ?x)) s)"
    unfolding inherit_all_iff [OF d(1)] using A place_of_facts(1) by auto
  have d1: "descs s1 e = descs s e" if "e \<notin> set (a_active ?x)" for e using that by (simp add: s1_def reown_def upd_act_def)
  have r2: "inherit_priorities v p ?ps s1 = Some (upd_act p (push_priorities ?ps)
      (reown (\<lambda>x. x\<lparr>d_age := 0\<rparr>) p (set ?ps) s1))"
    by (rule inherit_priorities_ok [OF d(2)]) (use P d1 place_of_facts(3) in \<open>auto simp: by_priority_ok(2)\<close>)
  have d2: "descs s2 e = descs s e" "node_attached e s2 = node_attached e s"
    if "e \<notin> set (a_active ?x)" "e \<notin> set (a_priorities ?x)" for e
    using that by (simp_all add: s2_def s1_def) (simp add: reown_def upd_act_def by_priority_ok(2))
  have r3: "inherit_all (\<lambda>x attached. \<not> d_eviction_candidate x \<and> \<not> attached \<and> d_age x = 0) (\<lambda>x. x) v p (a_inactive ?x) s2
      = Some (reown (\<lambda>x. x) p (set (a_inactive ?x)) s2)"
    unfolding inherit_all_iff [OF d(3)] using I d2 place_of_facts(2) by auto
  define s3 where "s3 = upd_act v (\<lambda>x. x\<lparr>a_inactive := []\<rparr>) (upd_act p (\<lambda>x. x\<lparr>a_inactive := a_inactive x @ a_inactive ?x\<rparr>)
    (reown (\<lambda>x. x) p (set (a_inactive ?x)) s2))"
  have "s3 = inherited v p s"
    using p(2) I P unfolding s3_def s2_def s1_def
    by (auto simp: inherited_def reown_def upd_act_def push_priorities_def Let_def fun_eq_iff by_priority_ok(2,4))
  moreover have "activity_inherit s v = inherit_rest (live_count ?x) v p s3"
    unfolding activity_inherit_def inherit_rest_def live_count_def by_priority_ok(4) [of s v, symmetric] Let_def
    by (simp only: p(1) option.case r1 bind.bind_lunit s1_def [symmetric] l1 r2 s2_def [symmetric] l2 r3 s3_def [symmetric])
  ultimately show ?thesis by simp
qed

lemma inherited_sel:
  assumes "p \<noteq> v"
  shows "a_eviction_clean (acts (inherited v p s) a) = a_eviction_clean (acts s a)"
    "a_eviction_dirty (acts (inherited v p s) a) = a_eviction_dirty (acts s a)"
    "frames_local (acts (inherited v p s) a) = frames_local (acts s a)" "frames_total (acts (inherited v p s) a) = frames_total (acts s a)"
    "node_attached d (inherited v p s) = node_attached d s" "a_parent (acts (inherited v p s) a) = a_parent (acts s a)"
    "root_activity (inherited v p s) = root_activity s" "laundry (inherited v p s) = laundry s" "available (inherited v p s) = available s"
    "frames_pending_eviction (acts (inherited v p s) a) = frames_pending_eviction (acts s a)"
  using assms by (simp_all add: inherited_def Let_def node_attached_def)

lemma inherited_desc_other:
  assumes f: "filed s (placement_of s D)" and d: "d \<in> set (place_list k (acts s v))" "k = PClean \<or> k = PDirty"
  shows "descs (inherited v p s) d = descs s d"
  using filed_disjoint [OF f d(1), of PActive v] filed_disjoint [OF f d(1), of PPriority v] filed_disjoint [OF f d(1), of PInactive v] d(2)
  by (auto simp: inherited_def Let_def)

lemma frames_local_lists:
  assumes "consistent s D"
  shows "frames_local (acts s v) = of_nat (live_count (acts s v) + length (a_eviction_dirty (acts s v)))"
proof -
  have "lists_counted (acts s v)" using ledger_counted assms by (simp add: consistent_def)
  moreover have "a_priorities_count (acts s v) = int (length (a_priorities (acts s v)))"
    using assms by (simp add: consistent_def ledger_def books_def)
  ultimately show ?thesis by (simp add: lists_counted_def live_count_def add_ac)
qed

lemma lists_bound:
  assumes con: "consistent s D" and fin: "finite D"
  shows "live_count (acts s v) + length (a_eviction_dirty (acts s v)) \<le> card D"
proof -
  have f: "filed s (placement_of s D)" using con by (simp add: consistent_def ledger_iff)
  let ?l = "\<lambda>k. place_list k (acts s v)"
  have "set (?l k) \<inter> set (?l j) = {}" if "k \<noteq> j" for k j using filed_disjoint [OF f, of _ k v j v] that by blast
  then have "distinct (?l PActive @ ?l PPriority @ ?l PInactive @ ?l PDirty)"
    using filed_lists(2) [OF f] by (simp add: Int_Un_distrib del: place_list.simps)
  moreover have "set (?l k) \<subseteq> D" for k
    using filed_lists(1) [OF f] by (auto simp: placement_of_def simp del: place_list.simps split: if_splits)
  ultimately have "length (?l PActive @ ?l PPriority @ ?l PInactive @ ?l PDirty) \<le> card D"
    using fin by (metis card_mono distinct_card le_sup_iff set_append)
  then show ?thesis by (simp add: live_count_def)
qed

lemma of_nat_u32_inj: "m < 2 ^ 32 \<Longrightarrow> n < 2 ^ 32 \<Longrightarrow> (of_nat m :: u32) = of_nat n \<longleftrightarrow> m = n"
  by (simp add: word_unat_eq_iff unat_of_nat take_bit_nat_eq_self)

definition settled :: "aid \<Rightarrow> aid \<Rightarrow> nat \<Rightarrow> mem_state \<Rightarrow> mem_state" where
  "settled v p n s = upd_act p (\<lambda>x. x\<lparr>frames_local := frames_local x + of_nat n\<rparr>)
     (upd_act v (\<lambda>x. x\<lparr>frames_local := 0, frames_total := 0\<rparr>) s)"

text \<open>The loops run through exactly if there are no eviction candidates.\<close>

lemma inherit_rest_iff:
  assumes con: "consistent s D" and p: "p \<noteq> v" and fin: "finite D" "card D < 2 ^ 32"
    and tot: "frames_total (acts s v) = frames_local (acts s v)"
  shows "inherit_rest (live_count (acts s v)) v p (inherited v p s) =
    (if a_eviction_clean (acts s v) = [] \<and> a_eviction_dirty (acts s v) = [] then Some (settled v p (live_count (acts s v)) (inherited v p s)) else None)"
proof -
  let ?n = "live_count (acts s v)" and ?t = "inherited v p s" and ?c = "a_eviction_clean (acts s v)" and ?e = "a_eviction_dirty (acts s v)"
  have f: "filed s (placement_of s D)" using con by (simp add: consistent_def ledger_iff)
  note S = inherited_sel [OF p, where s = s]
  have dc: "distinct ?c" "distinct ?e" using filed_lists(2) [OF f, of PClean v] filed_lists(2) [OF f, of PDirty v] by simp_all
  have fl: "frames_local (acts s v) = of_nat (?n + length ?e)" by (rule frames_local_lists [OF con])
  have cnt: "(of_nat ?n :: u32) = frames_local (acts s v) \<longleftrightarrow> ?e = []"
    unfolding fl using of_nat_u32_inj [of ?n "?n + length ?e"] lists_bound [OF con fin(1), of v] fin(2) by simp
  show ?thesis
  proof (cases "?c = []")
    case False
    then obtain d where d: "d \<in> set ?c" by (meson list.set_sel(1))
    then have "node_attached d ?t" using filed_desc(3) [OF f, of d PClean v] S(5) by simp
    then have "inherit_all (\<lambda>x attached. d_eviction_candidate x \<and> \<not> attached \<and> (\<not> d_dirty x \<or> pol_discardable (d_policy x))) (\<lambda>x. x) v p ?c ?t = None"
      unfolding inherit_all_iff [OF dc(1)] using d by auto
    then show ?thesis using False S(1) by (simp add: inherit_rest_def Let_def)
  next
    case True
    let ?t1 = "upd_act v (\<lambda>x. x\<lparr>a_eviction_clean := []\<rparr>) (upd_act p (\<lambda>x. x\<lparr>a_eviction_clean := a_eviction_clean x @ []\<rparr>) ?t)"
    have t1: "?t1 = ?t" using True S(1) p by (auto simp: upd_act_def fun_eq_iff)
    have ok: "d_activity (descs ?t d) = Some v" "place_of (descs ?t d) = PDirty" "node_attached d ?t" if "d \<in> set ?e" for d
      using filed_desc [OF f, of d PDirty v] inherited_desc_other [OF f, of d PDirty v p] S(5) that by simp_all
    have run: "inherit_all (\<lambda>x attached. d_eviction_candidate x \<and> attached \<and> d_dirty x \<and> \<not> pol_discardable (d_policy x)) (\<lambda>x. x) v p ?e ?t
        = Some (reown (\<lambda>x. x) p (set ?e) ?t)"
      unfolding inherit_all_iff [OF dc(2)] using ok place_of_facts(5) by simp
    show ?thesis
    proof (cases "?e = []")
      case e: True
      have "upd_act v (\<lambda>x. x\<lparr>a_eviction_dirty := []\<rparr>) (upd_act p (\<lambda>x. x\<lparr>a_eviction_dirty := a_eviction_dirty x @ []\<rparr>) ?t) = ?t"
        using e S(2) p by (auto simp: upd_act_def fun_eq_iff)
      then show ?thesis using True e t1 S(1-4) cnt tot p
        by (simp add: inherit_rest_def Let_def settled_def)
    next
      case e: False
      then have "(of_nat ?n :: u32) \<noteq> frames_local (acts s v)" using cnt by simp
      then show ?thesis using True e t1 run S(1-4) p
        by (simp add: inherit_rest_def Let_def reown_def)
    qed
  qed
qed

subsection \<open>The books after the parent has inherited\<close>

text \<open>The caller frees the victim, which clears its count of objects with a priority; the loops leave it as it was.\<close>

definition bequeathed :: "aid \<Rightarrow> aid \<Rightarrow> mem_state \<Rightarrow> mem_state" where
  "bequeathed v p s = upd_act v (\<lambda>x. x\<lparr>a_priorities_count := 0\<rparr>) (settled v p (live_count (acts s v)) (inherited v p s))"

fun heir_place :: "place \<Rightarrow> place" where
  "heir_place PActive = PInactive"
| "heir_place k = k"

definition heir :: "aid \<Rightarrow> aid \<Rightarrow> placement \<Rightarrow> placement" where
  "heir v p at d = (case at d of None \<Rightarrow> None | Some (a, k) \<Rightarrow> if a = v then Some (p, heir_place k) else Some (a, k))"

lemma bequeathed_lists:
  assumes "p \<noteq> v" "a_eviction_clean (acts s v) = []" "a_eviction_dirty (acts s v) = []"
  shows "place_list k (acts (bequeathed v p s) a) = (if a = v then [] else if a = p then
    (case k of PInactive \<Rightarrow> a_inactive (acts s p) @ a_active (acts s v) @ a_inactive (acts s v)
     | PPriority \<Rightarrow> rev (by_priority s v) @ a_priorities (acts s p) | _ \<Rightarrow> place_list k (acts s p)) else place_list k (acts s a))"
  using assms by (cases k) (auto simp: bequeathed_def settled_def inherited_def Let_def)

lemma bequeathed_sel:
  assumes "p \<noteq> v"
  shows "a_priorities_count (acts (bequeathed v p s) a) = (if a = v then 0 else if a = p then
      a_priorities_count (acts s p) + int (length (a_priorities (acts s v))) else a_priorities_count (acts s a))"
    "frames_local (acts (bequeathed v p s) a) = (if a = v then 0 else if a = p then frames_local (acts s p) + of_nat (live_count (acts s v))
      else frames_local (acts s a))"
    "frames_total (acts (bequeathed v p s) a) = (if a = v then 0 else frames_total (acts s a))"
    "frames_pending_eviction (acts (bequeathed v p s) a) = frames_pending_eviction (acts s a)"
    "a_parent (acts (bequeathed v p s) a) = a_parent (acts s a)" "root_activity (bequeathed v p s) = root_activity s"
    "laundry (bequeathed v p s) = laundry s" "available (bequeathed v p s) = available s"
    "descs (bequeathed v p s) = descs (inherited v p s)"
  using assms by (auto simp: bequeathed_def settled_def inherited_def Let_def)

lemma bequeathed_tree: "p \<noteq> v \<Longrightarrow> under (bequeathed v p s) = under s \<and> rooted (bequeathed v p s) = rooted s"
  by (rule under_cong) (simp_all add: bequeathed_sel)

lemma bequeathed_placement:
  assumes f: "filed s (placement_of s D)" and p: "p \<noteq> v"
    and e: "a_eviction_clean (acts s v) = []" "a_eviction_dirty (acts s v) = []"
  shows "placement_of (bequeathed v p s) D = heir v p (placement_of s D)"
proof
  fix d
  let ?at = "placement_of s D"
  have L: "d \<in> set (place_list k (acts s v)) \<longleftrightarrow> ?at d = Some (v, k)" for k by (rule filed_lists(1) [OF f])
  have l: "d \<in> set (a_active (acts s v)) \<longleftrightarrow> ?at d = Some (v, PActive)" "d \<in> set (a_priorities (acts s v)) \<longleftrightarrow> ?at d = Some (v, PPriority)"
      "d \<in> set (a_inactive (acts s v)) \<longleftrightarrow> ?at d = Some (v, PInactive)" "?at d \<noteq> Some (v, PClean)" "?at d \<noteq> Some (v, PDirty)"
    using L [of PActive] L [of PPriority] L [of PInactive] L [of PClean] L [of PDirty] e by simp_all
  show "placement_of (bequeathed v p s) D d = heir v p ?at d"
  proof (cases "\<exists>k. ?at d = Some (v, k)")
    case True
    then obtain k where k: "?at d = Some (v, k)" by blast
    then have D: "d \<in> D" and pl: "place_of (descs s d) = k" by (auto simp: placement_of_def split: if_splits)
    have new: "descs (bequeathed v p s) d = (if k = PInactive then (descs s d)\<lparr>d_activity := Some p\<rparr>
        else (descs s d)\<lparr>d_age := 0, d_activity := Some p\<rparr>)"
      using l k by (cases k) (simp_all add: bequeathed_sel [OF p] inherited_def Let_def)
    have "place_of (descs (bequeathed v p s) d) = heir_place k"
      using pl l(4,5) k unfolding new by (cases k) (auto simp: place_of_def object_active_def split: if_splits)
    then show ?thesis using D k new by (simp add: placement_of_def heir_def)
  next
    case False
    then have "descs (bequeathed v p s) d = descs s d" using l by (simp add: bequeathed_sel [OF p] inherited_def Let_def)
    then have "placement_of (bequeathed v p s) D d = ?at d" by (simp add: placement_of_def)
    then show ?thesis using False by (auto simp: heir_def split: option.splits prod.splits)
  qed
qed

lemma heir_sets:
  assumes "p \<noteq> v" "\<And>d. at d \<noteq> Some (v, PClean)" "\<And>d. at d \<noteq> Some (v, PDirty)"
  shows "{d. heir v p at d = Some (v, k)} = {}"
    "{d. heir v p at d = Some (p, k)} = (case k of PInactive \<Rightarrow> {d. at d = Some (p, k)} \<union> {d. at d = Some (v, PActive)} \<union> {d. at d = Some (v, PInactive)}
       | PActive \<Rightarrow> {d. at d = Some (p, k)} | _ \<Rightarrow> {d. at d = Some (p, k)} \<union> {d. at d = Some (v, k)})"
    "a \<noteq> v \<Longrightarrow> a \<noteq> p \<Longrightarrow> {d. heir v p at d = Some (a, k)} = {d. at d = Some (a, k)}"
    "{d. \<exists>a. heir v p at d = Some (a, PClean)} = {d. \<exists>a. at d = Some (a, PClean)}"
    "{d. \<exists>a. heir v p at d = Some (a, PDirty)} = {d. \<exists>a. at d = Some (a, PDirty)}"
proof -
  have H: "heir v p at d = Some (b, j) \<longleftrightarrow> b \<noteq> v \<and> at d = Some (b, j) \<or> b = p \<and> (\<exists>i. at d = Some (v, i) \<and> j = heir_place i)" for d b j
    using assms(1) by (auto simp: heir_def split: option.splits prod.splits)
  have hp: "j = heir_place i \<longleftrightarrow> (j = PInactive \<and> i = PActive \<or> j = i \<and> i \<noteq> PActive)" for i j by (cases i) auto
  show "{d. heir v p at d = Some (v, k)} = {}" using assms(1) by (auto simp: H)
  show "{d. heir v p at d = Some (p, k)} = (case k of PInactive \<Rightarrow> {d. at d = Some (p, k)} \<union> {d. at d = Some (v, PActive)} \<union> {d. at d = Some (v, PInactive)}
       | PActive \<Rightarrow> {d. at d = Some (p, k)} | _ \<Rightarrow> {d. at d = Some (p, k)} \<union> {d. at d = Some (v, k)})"
    using assms(1) by (cases k) (auto simp: H hp)
  show "{d. heir v p at d = Some (a, k)} = {d. at d = Some (a, k)}" if "a \<noteq> v" "a \<noteq> p" using that by (auto simp: H)
  show "{d. \<exists>a. heir v p at d = Some (a, PClean)} = {d. \<exists>a. at d = Some (a, PClean)}"
    "{d. \<exists>a. heir v p at d = Some (a, PDirty)} = {d. \<exists>a. at d = Some (a, PDirty)}"
    using assms(2,3) by (auto simp: H hp)
qed

lemma bequeathed_filed:
  assumes f: "filed s (placement_of s D)" and p: "p \<noteq> v"
    and e: "a_eviction_clean (acts s v) = []" "a_eviction_dirty (acts s v) = []"
  shows "filed (bequeathed v p s) (placement_of (bequeathed v p s) D)"
proof -
  let ?at = "placement_of s D" and ?t = "bequeathed v p s"
  have none: "?at d \<noteq> Some (v, PClean)" "?at d \<noteq> Some (v, PDirty)" for d
    using filed_lists(1) [OF f, of d PClean v] filed_lists(1) [OF f, of d PDirty v] e by simp_all
  note H = heir_sets [of p v ?at, OF p none]
  have L: "set (place_list k (acts s a)) = {d. ?at d = Some (a, k)}" "distinct (place_list k (acts s a))" for k a
    using filed_lists(1,2) [OF f] by blast+
  have A: "set (a_active (acts s a)) = {d. ?at d = Some (a, PActive)}" "distinct (a_active (acts s a))"
      "set (a_inactive (acts s a)) = {d. ?at d = Some (a, PInactive)}" "distinct (a_inactive (acts s a))"
      "set (a_priorities (acts s a)) = {d. ?at d = Some (a, PPriority)}" "distinct (a_priorities (acts s a))" for a
    using L [of PActive a] L [of PInactive a] L [of PPriority a] by simp_all
  have c: "a_priorities_count (acts s a) = int (length (a_priorities (acts s a)))" for a
    using f by (simp add: filed_def)
  show ?thesis
    unfolding bequeathed_placement [OF assms] filed_def bequeathed_sel [OF p] H
  proof (intro conjI allI)
    fix a k
    show "distinct (place_list k (acts ?t a))"
      unfolding bequeathed_lists [OF p e] using L(2) [of k a] L(2) [of k p] A p
      by (cases k) (auto simp: by_priority_ok)
    show "set (place_list k (acts ?t a)) = {d. heir v p ?at d = Some (a, k)}"
    proof (cases "a = v \<or> a = p")
      case True
      then show ?thesis unfolding bequeathed_lists [OF p e] using H(1,2) L(1) [of k p] A none p
        by (cases k) (auto simp: by_priority_ok)
    next
      case False
      then show ?thesis unfolding bequeathed_lists [OF p e] using H(3) L(1) by simp
    qed
    show "(if a = v then 0 else if a = p then a_priorities_count (acts s p) + int (length (a_priorities (acts s v)))
        else a_priorities_count (acts s a)) = int (length (place_list PPriority (acts ?t a)))"
      unfolding bequeathed_lists [OF p e] using c by (simp add: by_priority_ok)
    show "finite (dom (heir v p ?at))"
      by (rule finite_subset [of _ "dom ?at"]) (use f in \<open>auto simp: heir_def filed_def split: option.splits\<close>)
  qed (use f in \<open>simp_all add: filed_def\<close>)
qed

lemma under_parent:
  assumes "a_parent (acts s v) = Some p" "rooted s v"
  shows "under s a v \<longleftrightarrow> a = v \<or> under s a p" "rooted s p" "\<not> under s v p"
proof -
  let ?par = "\<lambda>x. a_parent (acts s x)" and ?r = "root_activity s"
  obtain as where v: "ancestors ?par ?r v = Some as" using assms(2) by (auto simp: rooted_def)
  from v obtain bs where b: "ancestors ?par ?r p = Some bs" "as = v # bs"
    by (rule ancestors_cases) (use assms(1) in auto)
  show "under s a v \<longleftrightarrow> a = v \<or> under s a p" "rooted s p" using v b by (auto simp: under_def rooted_def)
  have "v \<notin> set bs" using ancestors_distinct [OF v] b(2) by simp
  then show "\<not> under s v p" using b by (simp add: under_def)
qed

lemma frames_eq_sets:
  assumes "finite B" "A \<subseteq> B" "frames B = frames A" "card B < 2 ^ 32"
  shows "B = A"
proof -
  have "card A \<le> card B" using card_mono assms(1,2) by blast
  then have "card B = card A" using assms(3,4) of_nat_u32_inj [of "card B" "card A"] by (simp add: frames_def)
  then show ?thesis using card_subset_eq [OF assms(1,2)] by simp
qed

definition charged :: "placement \<Rightarrow> charging" where
  "charged at d = charged_at (at d)"

lemma charged_heir:
  "charged (heir v p at) d = (if charged at d = Some v then Some p else charged at d)"
  by (cases "at d"; cases "snd (the (at d))") (auto simp: charged_def charged_at_def heir_def split: prod.splits)

lemma consistent_charged: "consistent s D \<longleftrightarrow> filed s (placement_of s D) \<and> tallied s (placement_of s D) (charged (placement_of s D))"
  by (simp add: consistent_def ledger_iff charged_def [abs_def])

lemma bequeathed_consistent:
  assumes con: "consistent s D" and par: "a_parent (acts s v) = Some p" "rooted s v" and fin: "finite D" "card D < 2 ^ 32"
    and e: "a_eviction_clean (acts s v) = []" "a_eviction_dirty (acts s v) = []"
    and tot: "frames_total (acts s v) = frames_local (acts s v)"
  shows "consistent (bequeathed v p s) D"
proof -
  let ?at = "placement_of s D" and ?t = "bequeathed v p s"
  let ?ch = "charged ?at"
  have f: "filed s ?at" and T: "tallied s ?at ?ch" using con by (simp_all add: consistent_charged)
  note U = under_parent [OF par]
  have p: "p \<noteq> v" using U(3) under_self [OF par(2)] by auto
  note tree = bequeathed_tree [OF p, of s]
  have at': "placement_of ?t D = heir v p ?at" by (rule bequeathed_placement [OF f p e])
  have none: "?at d \<noteq> Some (v, PDirty)" for d using filed_lists(1) [OF f, of d PDirty v] e by simp
  have dom: "dom ?ch \<subseteq> D" by (auto simp: charged_def charged_at_def placement_of_def split: if_splits option.splits prod.splits)
  then have finc: "finite (dom ?ch)" using fin(1) finite_subset by blast
  have sub: "{d. \<exists>b. ?ch d = Some b \<and> Q b} \<subseteq> D" for Q using dom by auto
  have below: "{d. \<exists>b. ?ch d = Some b \<and> under s v b} = {d. ?ch d = Some v}"
  proof (rule frames_eq_sets)
    show "finite {d. \<exists>b. ?ch d = Some b \<and> under s v b}" using sub fin(1) finite_subset by blast
    show "card {d. \<exists>b. ?ch d = Some b \<and> under s v b} < 2 ^ 32" using sub card_mono fin by (meson le_less_trans)
    show "frames {d. \<exists>b. ?ch d = Some b \<and> under s v b} = frames {d. ?ch d = Some v}" using T tot by (simp add: tallied_def)
  qed (use under_self [OF par(2)] in auto)
  have loc: "frames_local (acts s a) = frames {d. ?ch d = Some a}" "frames_total (acts s a) = frames {d. \<exists>b. ?ch d = Some b \<and> under s a b}"
      "frames_pending_eviction (acts s a) = frames {d. \<exists>b. ?at d = Some (b, PDirty) \<and> under s a b}" for a
    using T by (auto simp: tallied_def)
  have n: "of_nat (live_count (acts s v)) = frames {d. ?ch d = Some v}" using frames_local_lists [OF con, of v] e(2) loc(1) by simp
  have ch': "{d. (if ?ch d = Some v then Some p else ?ch d) = Some a} = (if a = v then {} else if a = p then {d. ?ch d = Some p} \<union> {d. ?ch d = Some v} else {d. ?ch d = Some a})" for a
    using p by auto
  have fr: "frames ({d. ?ch d = Some p} \<union> {d. ?ch d = Some v}) = frames {d. ?ch d = Some p} + frames {d. ?ch d = Some v}"
    unfolding frames_def using p finc by (subst card_Un_disjoint) (auto intro: finite_charged)
  have tt: "{d. \<exists>b. (if ?ch d = Some v then Some p else ?ch d) = Some b \<and> under s a b} = (if a = v then {} else {d. \<exists>b. ?ch d = Some b \<and> under s a b})" for a
    using U(1,3) p below by (auto split: if_splits)
  have pe: "{d. \<exists>b. heir v p ?at d = Some (b, PDirty) \<and> under s a b} = {d. \<exists>b. ?at d = Some (b, PDirty) \<and> under s a b}" for a
    using none by (auto simp: heir_def split: option.splits prod.splits if_splits) (metis heir_place.elims place.distinct)+
  have "tallied ?t (heir v p ?at) (charged (heir v p ?at))"
    unfolding tallied_def conjunct1 [OF tree] conjunct2 [OF tree] charged_heir bequeathed_sel [OF p] ch' tt pe
  proof (intro conjI allI impI)
    show "finite (dom (\<lambda>d. if ?ch d = Some v then Some p else ?ch d))"
      by (rule finite_subset [OF _ finc]) (auto split: if_splits)
    show "rooted s a" if "heir v p ?at d = Some (a, k)" for d a k
      using that T U(2) by (auto simp: heir_def tallied_def split: option.splits prod.splits if_splits)
    show "rooted s a" if "(if ?ch d = Some v then Some p else ?ch d) = Some a" for d a
      using that T U(2) by (auto simp: tallied_def split: if_splits)
  qed (use loc n fr in \<open>auto simp: frames_def\<close>)
  then show ?thesis
    unfolding consistent_charged at' using bequeathed_filed [OF f p e] at' by simp
qed

lemma activity_inherit_run:
  assumes con: "consistent s D" and par: "a_parent (acts s v) = Some p" "rooted s v" and fin: "finite D" "card D < 2 ^ 32"
    and tot: "frames_total (acts s v) = frames_local (acts s v)"
    and e: "a_eviction_clean (acts s v) = []" "a_eviction_dirty (acts s v) = []"
  shows "activity_inherit s v = Some (settled v p (live_count (acts s v)) (inherited v p s))"
    "place_list k (acts (settled v p (live_count (acts s v)) (inherited v p s)) v) = []"
proof -
  have f: "filed s (placement_of s D)" using con by (simp add: consistent_charged)
  have p: "p \<noteq> v" using under_parent(3) [OF par] under_self [OF par(2)] by auto
  show "activity_inherit s v = Some (settled v p (live_count (acts s v)) (inherited v p s))"
    using activity_inherit_live [OF f par(1) p] inherit_rest_iff [OF con p fin tot] e by simp
  show "place_list k (acts (settled v p (live_count (acts s v)) (inherited v p s)) v) = []"
    using bequeathed_lists [OF p e, of k v] by (cases k) (simp_all add: bequeathed_def)
qed

text \<open>When an activity is destroyed, its parent inherits its memory. If the activity has no eviction candidates and all memory
  below it is its own, the loops fail no assertion, every object of the victim and no other object belongs to the
  parent afterwards, and the lists and counters of all activities are exact again once the victim is cleared.\<close>

lemma activity_destroy_bequeaths:
  assumes con: "consistent s D" and par: "a_parent (acts s v) = Some p" "rooted s v" and fin: "finite D" "card D < 2 ^ 32"
    and tot: "frames_total (acts s v) = frames_local (acts s v)"
    and e: "a_eviction_clean (acts s v) = []" "a_eviction_dirty (acts s v) = []"
  shows "\<exists>s'. activity_inherit s v = Some s' \<and> consistent (upd_act v (\<lambda>x. x\<lparr>a_priorities_count := 0\<rparr>) s') D
    \<and> frames_local (acts s' p) = frames_local (acts s p) + frames_local (acts s v) \<and> frames_total (acts s' p) = frames_total (acts s p)
    \<and> frames_local (acts s' v) = 0 \<and> frames_total (acts s' v) = 0
    \<and> (\<forall>d \<in> D. d_activity (descs s' d) = (if d_activity (descs s d) = Some v then Some p else d_activity (descs s d)))"
proof -
  have f: "filed s (placement_of s D)" using con by (simp add: consistent_charged)
  have p: "p \<noteq> v" using under_parent(3) [OF par] under_self [OF par(2)] by auto
  let ?s = "settled v p (live_count (acts s v)) (inherited v p s)"
  have run: "activity_inherit s v = Some ?s" by (rule activity_inherit_run [OF con par fin tot e])
  have con': "consistent (bequeathed v p s) D" by (rule bequeathed_consistent [OF con par fin e tot])
  have n: "of_nat (live_count (acts s v)) = frames_local (acts s v)" using frames_local_lists [OF con, of v] e(2) by simp
  have "d_activity (descs ?s d) = (if d_activity (descs s d) = Some v then Some p else d_activity (descs s d))" if "d \<in> D" for d
  proof -
    have "map_option fst (placement_of (bequeathed v p s) D d) = map_option fst (heir v p (placement_of s D) d)"
      by (simp add: bequeathed_placement [OF f p e])
    then show ?thesis using that by (cases "d_activity (descs s d)") (auto simp: placement_of_def heir_def bequeathed_def option.map_comp comp_def option.map_ident)
  qed
  then show ?thesis
    using run con' p n by (intro exI [of _ ?s]) (auto simp: bequeathed_def settled_def inherited_sel [OF p])
qed

text \<open>An activity that has an eviction candidate cannot be destroyed: the check of the clean candidates sees their link on the list of
  available frames, which shares its storage with the link that it checks, and the dirty candidates are charged to the
  activity but not counted by the loops.\<close>

theorem activity_destroy_eviction_asserts:
  assumes con: "consistent s D" and par: "a_parent (acts s v) = Some p" "rooted s v" and fin: "finite D" "card D < 2 ^ 32"
    and tot: "frames_total (acts s v) = frames_local (acts s v)"
    and e: "a_eviction_clean (acts s v) \<noteq> [] \<or> a_eviction_dirty (acts s v) \<noteq> []"
  shows "activity_inherit s v = None"
proof -
  have f: "filed s (placement_of s D)" using con by (simp add: consistent_charged)
  have p: "p \<noteq> v" using under_parent(3) [OF par] under_self [OF par(2)] by auto
  show ?thesis using activity_inherit_live [OF f par(1) p] inherit_rest_iff [OF con p fin tot] e by auto
qed

text \<open>The child of the root activity has one clean eviction candidate.\<close>

definition one_candidate :: mem_state where
  "one_candidate = empty_memory\<lparr>acts := (acts empty_memory)(1 := (idle_activity (Some 0))\<lparr>a_eviction_clean := [7]\<rparr>),
     descs := (descs empty_memory)(7 := (descs empty_memory 7)\<lparr>d_eviction_candidate := True, d_activity := Some 1\<rparr>), available := [7]\<rparr>"

lemma one_candidate_tree: "rooted one_candidate a" "under one_candidate b a \<longleftrightarrow> b = 0 \<or> b = a"
proof -
  have "under one_candidate = under (one_object True) \<and> rooted one_candidate = rooted (one_object True)"
    by (rule under_cong) (simp_all add: one_candidate_def one_object_def empty_memory_def idle_activity_def)
  then show "rooted one_candidate a" "under one_candidate b a \<longleftrightarrow> b = 0 \<or> b = a"
    using one_object_tree by simp_all
qed

lemma one_candidate_consistent: "consistent one_candidate {7}"
proof -
  have at: "placement_of one_candidate {7} = [7 \<mapsto> (1, PClean)]"
    by (auto simp: placement_of_def one_candidate_def empty_memory_def place_of_def needs_laundry_def fun_eq_iff)
  have ch: "charged [7 \<mapsto> (1, PClean)] = (\<lambda>_. None)" by (auto simp: charged_def charged_at_def fun_eq_iff)
  have "place_list k (acts one_candidate a) = (if a = 1 \<and> k = PClean then [7] else [])" for k a
    by (cases k) (simp_all add: one_candidate_def empty_memory_def idle_activity_def)
  moreover have "{d. ([7 \<mapsto> (1, PClean)] :: placement) d = Some (a, k)} = (if k = PClean \<and> a = 1 then {7} else {})"
      "{d. \<exists>b. ([7 \<mapsto> (1, PClean)] :: placement) d = Some (b, PDirty) \<and> q b} = {}"
      "{d. \<exists>b. ([7 \<mapsto> (1, PClean)] :: placement) d = Some (b, PClean)} = {7}" for k q a by auto
  moreover have "laundry one_candidate = []" "available one_candidate = [7]" "a_priorities_count (acts one_candidate a) = 0"
      "frames_local (acts one_candidate a) = 0" "frames_total (acts one_candidate a) = 0"
      "frames_pending_eviction (acts one_candidate a) = 0" for a
    by (simp_all add: one_candidate_def empty_memory_def idle_activity_def)
  ultimately show ?thesis
    unfolding consistent_charged at ch filed_def tallied_def one_candidate_tree(2)
    by (simp add: frames_def one_candidate_tree(1) del: place_list.simps fun_upd_apply) simp
qed

theorem activity_destroy_eviction_asserts_witness: "activity_inherit one_candidate 1 = None"
  by (rule activity_destroy_eviction_asserts [OF one_candidate_consistent _ one_candidate_tree(1), of 1 0])
    (simp_all add: one_candidate_def empty_memory_def idle_activity_def)

end
