(* ===== verification/Activity_Tree.thy ===== *)
theory Activity_Tree
  imports Activity
begin

text \<open>
  The children of activities (\<^verbatim>\<open>viengoos/activity.c\<close>). An activity keeps two lists of its children: one through
  capabilities, which survives on disk, and one of the children in memory, which is sorted by priority and from which the
  pager chooses its victims. The list in memory is an intrusive list of \<^verbatim>\<open>viengoos/list.h\<close> and modelled as a list; the
  list on disk is modelled by its links. A capability designates an activity or is void (\<open>None\<close>); \<open>cap_to_object\<close>
  follows it. \<open>t_folios\<close> is the capability to the first folio of an activity and \<open>t_root\<close> the variable \<open>root_activity\<close>.
\<close>

subsection \<open>State\<close>

record activity_memory_policy =
  amp_priority :: "16 word"
  amp_weight :: "16 word"

record activity_policy =
  sibling_rel :: activity_memory_policy
  child_rel :: activity_memory_policy
  ap_folios :: u32

record act_tree =
  parent_cap :: "aid \<Rightarrow> aid option"
  children_cap :: "aid \<Rightarrow> aid option"
  sibling_next_cap :: "aid \<Rightarrow> aid option"
  sibling_prev_cap :: "aid \<Rightarrow> aid option"
  t_policy :: "aid \<Rightarrow> activity_policy"
  t_parent :: "aid \<Rightarrow> aid option"
  t_children :: "aid \<Rightarrow> aid list"
  t_folios :: "aid \<Rightarrow> nat option"
  t_dying :: "aid \<Rightarrow> bool"
  t_root :: "aid option"

definition sibling_priority :: "act_tree \<Rightarrow> aid \<Rightarrow> int" where
  "sibling_priority s a = uint (amp_priority (sibling_rel (t_policy s a)))"

subsection \<open>Operations\<close>

text \<open>\<open>list_insert_after\<close>; a null pointer inserts at the head.\<close>

fun insert_behind :: "aid \<Rightarrow> aid option \<Rightarrow> aid list \<Rightarrow> aid list" where
  "insert_behind a None xs = a # xs"
| "insert_behind a (Some y) [] = []"
| "insert_behind a (Some y) (x # xs) = (if x = y then x # a # xs else x # insert_behind a (Some y) xs)"

text \<open>The loops that go along a list as long as the next item satisfies a condition.\<close>

fun advance :: "(aid \<Rightarrow> bool) \<Rightarrow> aid \<Rightarrow> aid list \<Rightarrow> aid" where
  "advance P x [] = x"
| "advance P x (n # ns) = (if P n then advance P n ns else x)"

fun retreat :: "(aid \<Rightarrow> bool) \<Rightarrow> aid list \<Rightarrow> aid option" where
  "retreat P [] = None"
| "retreat P (n # ns) = (if P n then retreat P ns else Some n)"

definition set_children :: "aid \<Rightarrow> aid list \<Rightarrow> act_tree \<Rightarrow> act_tree" where
  "set_children p xs s = s\<lparr>t_children := (t_children s)(p := xs)\<rparr>"

definition activity_prepare :: "act_tree \<Rightarrow> aid \<Rightarrow> act_tree option" where
  "activity_prepare s a = (case parent_cap s a of None \<Rightarrow> None | Some p \<Rightarrow>
     let s = s\<lparr>t_parent := (t_parent s)(a := Some p)\<rparr>;
         s = (case t_children s p of
            [] \<Rightarrow> set_children p (insert_behind a None []) s
          | head # rest \<Rightarrow>
              if sibling_priority s a \<ge> sibling_priority s head then set_children p (insert_behind a None (head # rest)) s
              else
                let prev = advance (\<lambda>n. sibling_priority s n > sibling_priority s a) head rest
                in set_children p (insert_behind a (Some prev) (head # rest)) s)
     in Some (set_children a [] s))"

text \<open>The activity's memory must be gone.\<close>

definition activity_deprepare :: "mem_state \<Rightarrow> act_tree \<Rightarrow> aid \<Rightarrow> act_tree option" where
  "activity_deprepare m s v = do {
     c_assert (t_children s v = []);
     c_assert (a_active (acts m v) = []);
     c_assert (a_inactive (acts m v) = []);
     c_assert (a_eviction_clean (acts m v) = []);
     c_assert (a_eviction_dirty (acts m v) = []);
     case t_parent s v of
       None \<Rightarrow> None
     | Some p \<Rightarrow> do {
         c_assert (v \<in> set (t_children s p));
         Some (set_children p (remove1 v (t_children s p)) s)
       }
   }"

definition set_priority :: "aid \<Rightarrow> 16 word \<Rightarrow> act_tree \<Rightarrow> act_tree" where
  "set_priority a n s = s\<lparr>t_policy := (t_policy s)(a := (t_policy s a)\<lparr>sibling_rel := (sibling_rel (t_policy s a))\<lparr>amp_priority := n\<rparr>\<rparr>)\<rparr>"

text \<open>The siblings of an activity without a parent are none.\<close>

definition siblings :: "act_tree \<Rightarrow> aid \<Rightarrow> aid list" where
  "siblings s a = (case t_parent s a of None \<Rightarrow> [] | Some p \<Rightarrow> t_children s p)"

definition reinsert :: "act_tree \<Rightarrow> aid \<Rightarrow> aid option \<Rightarrow> act_tree" where
  "reinsert s a y = (case t_parent s a of None \<Rightarrow> s
     | Some p \<Rightarrow> set_children p (insert_behind a y (remove1 a (t_children s p))) s)"

definition activity_policy_update :: "act_tree \<Rightarrow> aid \<Rightarrow> activity_policy \<Rightarrow> act_tree" where
  "activity_policy_update s a pol =
     (let priority = amp_priority (sibling_rel pol);
          before = rev (takeWhile (\<lambda>x. x \<noteq> a) (siblings s a));
          after = tl (dropWhile (\<lambda>x. x \<noteq> a) (siblings s a));
          s' =
            (if uint priority = sibling_priority s a then s
             else if uint priority > sibling_priority s a then
               let s = set_priority a priority s;
                   prev = retreat (\<lambda>x. sibling_priority s x < uint priority) before
               in if prev \<noteq> (case before of [] \<Rightarrow> None | y # _ \<Rightarrow> Some y) then reinsert s a prev else s
             else
               let s = set_priority a priority s;
                   next = advance (\<lambda>x. sibling_priority s x > uint priority) a after
               in if next \<noteq> a then reinsert s a (Some next) else s)
      in s'\<lparr>t_policy := (t_policy s')(a := pol)\<rparr>)"

text \<open>Connecting a new child to its parent's list on disk.\<close>

definition activity_link :: "act_tree \<Rightarrow> aid \<Rightarrow> aid \<Rightarrow> act_tree option" where
  "activity_link s p a =
     (let s = s\<lparr>parent_cap := (parent_cap s)(a := Some p)\<rparr>;
          s = s\<lparr>sibling_next_cap := (sibling_next_cap s)(a := children_cap s p), sibling_prev_cap := (sibling_prev_cap s)(a := None)\<rparr>;
          s = s\<lparr>children_cap := (children_cap s)(p := Some a)\<rparr>
      in case sibling_next_cap s a of
           None \<Rightarrow> Some s
         | Some old_head \<Rightarrow> do {
             c_assert (sibling_prev_cap s old_head = None);
             Some (s\<lparr>sibling_prev_cap := (sibling_prev_cap s)(old_head := Some a)\<rparr>)
           })"

text \<open>The end of \<open>activity_destroy\<close>: the victim leaves its parent's list on disk.\<close>

definition activity_unlink :: "act_tree \<Rightarrow> aid \<Rightarrow> act_tree option" where
  "activity_unlink s v = (case t_parent s v of None \<Rightarrow> None | Some p \<Rightarrow> do {
     c_assert (parent_cap s v = Some p);
     let prev = sibling_prev_cap s v;
     let next = sibling_next_cap s v;
     s \<leftarrow> (case prev of
         Some y \<Rightarrow> Some (s\<lparr>sibling_next_cap := (sibling_next_cap s)(y := sibling_next_cap s v)\<rparr>)
       | None \<Rightarrow> do {
           c_assert (children_cap s p = Some v);
           Some (s\<lparr>children_cap := (children_cap s)(p := sibling_next_cap s v)\<rparr>)
         });
     let s = (case next of Some z \<Rightarrow> s\<lparr>sibling_prev_cap := (sibling_prev_cap s)(z := sibling_prev_cap s v)\<rparr> | None \<Rightarrow> s);
     Some (s\<lparr>sibling_next_cap := (sibling_next_cap s)(v := None), sibling_prev_cap := (sibling_prev_cap s)(v := None)\<rparr>)
   })"

text \<open>\<open>activity_destroy\<close>: the folios and the children of the victim are freed until its lists are empty, its parent inherits
  its memory, and it leaves the lists of its parent. \<open>folio_free\<close> and \<open>object_free\<close> (\<^verbatim>\<open>viengoos/object.c\<close>) destroy the objects
  they free, among them activities, and are arguments; a destroyed root activity is a panic.\<close>

partial_function (option) free_folios :: "(mem_state \<times> act_tree \<Rightarrow> nat \<Rightarrow> (mem_state \<times> act_tree) option) \<Rightarrow> aid
    \<Rightarrow> mem_state \<times> act_tree \<Rightarrow> (mem_state \<times> act_tree) option" where
  "free_folios folio_free v st = (case t_folios (snd st) v of None \<Rightarrow> Some st
     | Some f \<Rightarrow> folio_free st f \<bind> (\<lambda>st. free_folios folio_free v st))"

partial_function (option) free_children :: "(mem_state \<times> act_tree \<Rightarrow> aid \<Rightarrow> (mem_state \<times> act_tree) option) \<Rightarrow> aid
    \<Rightarrow> mem_state \<times> act_tree \<Rightarrow> (mem_state \<times> act_tree) option" where
  "free_children object_free v st = (case children_cap (snd st) v of None \<Rightarrow> Some st
     | Some c \<Rightarrow> object_free st c \<bind> (\<lambda>st. free_children object_free v st))"

definition activity_destroy :: "(mem_state \<times> act_tree \<Rightarrow> nat \<Rightarrow> (mem_state \<times> act_tree) option) \<Rightarrow>
    (mem_state \<times> act_tree \<Rightarrow> aid \<Rightarrow> (mem_state \<times> act_tree) option) \<Rightarrow> mem_state \<Rightarrow> act_tree \<Rightarrow> aid \<Rightarrow> (mem_state \<times> act_tree) option" where
  "activity_destroy folio_free object_free m s v = (case t_parent s v of
     None \<Rightarrow> None
   | Some _ \<Rightarrow> do {
       c_assert (\<not> t_dying s v);
       let s = s\<lparr>t_dying := (t_dying s)(v := True)\<rparr>;
       (m, s) \<leftarrow> free_folios folio_free v (m, s);
       (m, s) \<leftarrow> free_children object_free v (m, s);
       m \<leftarrow> activity_inherit m v;
       s \<leftarrow> activity_deprepare m s v;
       s \<leftarrow> activity_unlink s v;
       Some (m, s)
     })"

text \<open>A child that is still alive is destroyed before it is created anew. The root activity has no parent.\<close>

definition activity_create :: "(mem_state \<times> act_tree \<Rightarrow> nat \<Rightarrow> (mem_state \<times> act_tree) option) \<Rightarrow>
    (mem_state \<times> act_tree \<Rightarrow> aid \<Rightarrow> (mem_state \<times> act_tree) option) \<Rightarrow> mem_state \<Rightarrow> act_tree \<Rightarrow> aid option \<Rightarrow> aid \<Rightarrow>
    (mem_state \<times> act_tree) option" where
  "activity_create folio_free object_free m s parent a = do {
     (m, s) \<leftarrow> (if parent_cap s a \<noteq> None then activity_destroy folio_free object_free m s a else Some (m, s));
     case parent of
       None \<Rightarrow> do {
         c_assert (t_root s = None);
         Some (m, s)
       }
     | Some p \<Rightarrow> do {
         s \<leftarrow> activity_link s p a;
         s \<leftarrow> activity_prepare s a;
         Some (m, s)
       }
   }"

subsection \<open>The children in memory are sorted\<close>

definition by_priority_desc :: "act_tree \<Rightarrow> aid list \<Rightarrow> bool" where
  "by_priority_desc s xs \<longleftrightarrow> sorted_wrt (\<lambda>x y. sibling_priority s x \<ge> sibling_priority s y) xs"

definition children_ok :: "act_tree \<Rightarrow> bool" where
  "children_ok s \<longleftrightarrow> (\<forall>p. distinct (t_children s p) \<and> by_priority_desc s (t_children s p) \<and> (\<forall>a \<in> set (t_children s p). t_parent s a = Some p))"

lemma children_okD:
  assumes "children_ok s"
  shows "distinct (t_children s p)" "by_priority_desc s (t_children s p)" "a \<in> set (t_children s p) \<Longrightarrow> t_parent s a = Some p"
  using assms by (auto simp: children_ok_def)

lemma insert_behind_mid: "y \<notin> set xs \<Longrightarrow> insert_behind a (Some y) (xs @ y # ys) = xs @ y # a # ys"
  by (induction xs) auto

lemma advance_eq: "advance P x ys = last (x # takeWhile P ys)"
  by (induction ys arbitrary: x) auto

lemma retreat_eq: "retreat P ys = (case dropWhile P ys of [] \<Rightarrow> None | y # _ \<Rightarrow> Some y)"
  by (induction ys) auto

lemma insert_behind_advance:
  assumes "distinct (x # ys)"
  shows "insert_behind a (Some (advance P x ys)) (x # ys) = x # takeWhile P ys @ a # dropWhile P ys"
proof -
  let ?l = "x # takeWhile P ys"
  have "?l = butlast ?l @ [last ?l]" by (metis append_butlast_last_id list.distinct(1))
  moreover have "x # ys = ?l @ dropWhile P ys" by simp
  ultimately have eq: "x # ys = butlast ?l @ last ?l # dropWhile P ys" by (metis append_Cons append_Nil append_assoc)
  have "last ?l \<notin> set (butlast ?l)" using assms unfolding eq by simp
  then have "insert_behind a (Some (last ?l)) (x # ys) = butlast ?l @ last ?l # a # dropWhile P ys"
    unfolding eq by (rule insert_behind_mid)
  also have "\<dots> = ?l @ a # dropWhile P ys" using \<open>?l = butlast ?l @ [last ?l]\<close> by (metis append_Cons append_Nil append_assoc)
  finally show ?thesis by (simp add: advance_eq)
qed

lemma desc_insert:
  "by_priority_desc s (b @ a # c) \<longleftrightarrow> by_priority_desc s (b @ c) \<and> (\<forall>x \<in> set b. sibling_priority s x \<ge> sibling_priority s a)
     \<and> (\<forall>x \<in> set c. sibling_priority s a \<ge> sibling_priority s x)"
  unfolding by_priority_desc_def sorted_wrt_append by auto

lemma desc_dropWhile:
  assumes "by_priority_desc s xs" "x \<in> set (dropWhile (\<lambda>n. sibling_priority s n > k) xs)"
  shows "sibling_priority s x \<le> k"
  using assms by (induction xs) (auto simp: by_priority_desc_def split: if_splits)

lemma desc_cong: "(\<And>x. x \<in> set xs \<Longrightarrow> sibling_priority s' x = sibling_priority s x) \<Longrightarrow> by_priority_desc s' xs = by_priority_desc s xs"
  unfolding by_priority_desc_def by (induction xs) auto

lemma set_children_sel [simp]:
  "t_children (set_children p xs s) = (t_children s)(p := xs)" "t_parent (set_children p xs s) = t_parent s"
  "t_policy (set_children p xs s) = t_policy s" "sibling_priority (set_children p xs s) = sibling_priority s"
  "parent_cap (set_children p xs s) = parent_cap s" "children_cap (set_children p xs s) = children_cap s"
  "sibling_next_cap (set_children p xs s) = sibling_next_cap s" "sibling_prev_cap (set_children p xs s) = sibling_prev_cap s"
  by (simp_all add: set_children_def sibling_priority_def fun_eq_iff)

lemma activity_prepare_eq:
  assumes p: "parent_cap s a = Some p" "p \<noteq> a" and d: "distinct (t_children s p)"
  defines "P \<equiv> \<lambda>n. sibling_priority s n > sibling_priority s a"
  shows "activity_prepare s a = Some (s\<lparr>t_parent := (t_parent s)(a := Some p),
    t_children := (t_children s)(p := takeWhile P (t_children s p) @ a # dropWhile P (t_children s p), a := [])\<rparr>)"
proof -
  have pr: "sibling_priority (s\<lparr>t_parent := f\<rparr>) = sibling_priority s" for f by (simp add: sibling_priority_def fun_eq_iff)
  show ?thesis
  proof (cases "t_children s p")
    case Nil
    then show ?thesis using p by (simp add: activity_prepare_def Let_def set_children_def)
  next
    case (Cons h r)
    then have dr: "distinct (h # r)" using d by simp
    show ?thesis
      using p Cons insert_behind_advance [OF dr, of a P]
      by (simp add: activity_prepare_def Let_def pr P_def set_children_def)
  qed
qed

lemma activity_prepare_ok:
  assumes ok: "children_ok s" and p: "parent_cap s a = Some p" "p \<noteq> a" and new: "\<And>q. a \<notin> set (t_children s q)"
  shows "\<exists>s' b c. activity_prepare s a = Some s' \<and> children_ok s' \<and> t_children s p = b @ c \<and> t_children s' p = b @ a # c"
proof -
  let ?P = "\<lambda>n. sibling_priority s n > sibling_priority s a" and ?xs = "t_children s p"
  define b c where bc_def: "b = takeWhile ?P ?xs" "c = dropWhile ?P ?xs"
  define s' where "s' = s\<lparr>t_parent := (t_parent s)(a := Some p), t_children := (t_children s)(p := b @ a # c, a := [])\<rparr>"
  note D = children_okD [OF ok]
  have bc: "?xs = b @ c" by (simp add: bc_def)
  have pr: "sibling_priority s' = sibling_priority s" by (simp add: s'_def sibling_priority_def fun_eq_iff)
  have desc: "by_priority_desc s' xs = by_priority_desc s xs" for xs by (rule desc_cong) (simp add: pr)
  have "sibling_priority s x > sibling_priority s a" if "x \<in> set b" for x using that by (auto simp: bc_def dest: set_takeWhileD)
  moreover have "sibling_priority s x \<le> sibling_priority s a" if "x \<in> set c" for x using that desc_dropWhile [OF D(2)] by (auto simp: bc_def)
  ultimately have "by_priority_desc s (b @ a # c)" unfolding desc_insert using D(2) [of p] bc by fastforce
  moreover have "distinct (b @ a # c)" using D(1) [of p] new [of p] bc by auto
  moreover have "t_parent s' x = Some q" if "x \<in> set (t_children s' q)" for x q
    using that D(3) [of x q] new [of q] p bc by (auto simp: s'_def split: if_splits)
  ultimately have "children_ok s'"
    unfolding children_ok_def desc using D(1,2) by (auto simp: s'_def by_priority_desc_def)
  moreover have "activity_prepare s a = Some s'" using activity_prepare_eq [OF p D(1)] by (simp add: s'_def bc_def)
  moreover have "t_children s' p = b @ a # c" using p(2) by (simp add: s'_def)
  ultimately show ?thesis using bc by blast
qed

lemma activity_deprepare_ok:
  assumes ok: "children_ok s" and v: "t_children s v = []" "v \<in> set (t_children s p)"
    and m: "a_active (acts m v) = []" "a_inactive (acts m v) = []" "a_eviction_clean (acts m v) = []" "a_eviction_dirty (acts m v) = []"
  shows "\<exists>s'. activity_deprepare m s v = Some s' \<and> children_ok s' \<and> s' = set_children p (remove1 v (t_children s p)) s"
proof -
  note D = children_okD [OF ok]
  let ?s = "set_children p (remove1 v (t_children s p)) s"
  have desc: "by_priority_desc ?s xs = by_priority_desc s xs" for xs by (rule desc_cong) simp
  have "by_priority_desc s (remove1 v (t_children s p))"
    using D(2) [of p] unfolding by_priority_desc_def by (metis D(1) distinct_remove1_removeAll removeAll_filter_not_eq sorted_wrt_filter)
  then have "children_ok ?s"
    unfolding children_ok_def desc using D set_remove1_subset [of v "t_children s p"] by auto
  then show ?thesis using v m D(3) [OF v(2)] by (simp add: activity_deprepare_def)
qed

text \<open>Where a changed priority moves an activity.\<close>

definition moved :: "act_tree \<Rightarrow> aid \<Rightarrow> int \<Rightarrow> aid list \<Rightarrow> aid list \<Rightarrow> aid list" where
  "moved s a n b c =
     (if n > sibling_priority s a then
        rev (dropWhile (\<lambda>x. sibling_priority s x < n) (rev b)) @ a # rev (takeWhile (\<lambda>x. sibling_priority s x < n) (rev b)) @ c
      else b @ takeWhile (\<lambda>x. sibling_priority s x > n) c @ a # dropWhile (\<lambda>x. sibling_priority s x > n) c)"

lemma set_priority_other: "x \<noteq> a \<Longrightarrow> sibling_priority (set_priority a n s) x = sibling_priority s x"
  by (simp add: sibling_priority_def set_priority_def)

lemma set_priority_sel [simp]:
  "t_children (set_priority a n s) = t_children s" "t_parent (set_priority a n s) = t_parent s"
  by (simp_all add: set_priority_def)

lemma takeWhile_upto: "a \<notin> set b \<Longrightarrow> takeWhile (\<lambda>x. x \<noteq> a) (b @ a # c) = b"
  and dropWhile_upto: "a \<notin> set b \<Longrightarrow> dropWhile (\<lambda>x. x \<noteq> a) (b @ a # c) = a # c"
  by (induction b) auto

lemma reinsert_after:
  assumes "t_parent s a = Some p" "t_children s p = b @ a # c" "distinct (b @ a # c)"
  shows "reinsert s a None = set_children p (a # b @ c) s"
    "b @ c = us @ y # vs \<Longrightarrow> reinsert s a (Some y) = set_children p (us @ y # a # vs) s"
proof -
  have r: "remove1 a (t_children s p) = b @ c" using assms(2,3) by (simp add: remove1_append)
  then show "reinsert s a None = set_children p (a # b @ c) s" using assms(1) by (simp add: reinsert_def)
  assume e: "b @ c = us @ y # vs"
  have "distinct (b @ c)" using assms(3) by auto
  then have "y \<notin> set us" unfolding e by simp
  then show "reinsert s a (Some y) = set_children p (us @ y # a # vs) s"
    using assms(1) r e by (simp add: reinsert_def insert_behind_mid)
qed

lemma activity_policy_update_children:
  assumes p: "t_parent s a = Some p" and l: "t_children s p = b @ a # c" and d: "distinct (b @ a # c)"
    and n: "n = uint (amp_priority (sibling_rel pol))" "n \<noteq> sibling_priority s a"
  shows "t_children (activity_policy_update s a pol) = (t_children s)(p := moved s a n b c)"
proof -
  let ?s = "set_priority a (amp_priority (sibling_rel pol)) s"
  have a: "a \<notin> set b" "a \<notin> set c" using d by auto
  have sib: "rev (takeWhile (\<lambda>x. x \<noteq> a) (siblings s a)) = rev b" "tl (dropWhile (\<lambda>x. x \<noteq> a) (siblings s a)) = c"
    using p l takeWhile_upto [OF a(1), of c] dropWhile_upto [OF a(1), of c] by (simp_all add: siblings_def)
  have pr: "takeWhile (\<lambda>x. Q (sibling_priority ?s x)) xs = takeWhile (\<lambda>x. Q (sibling_priority s x)) xs"
      "dropWhile (\<lambda>x. Q (sibling_priority ?s x)) xs = dropWhile (\<lambda>x. Q (sibling_priority s x)) xs"
    if "a \<notin> set xs" for xs and Q :: "int \<Rightarrow> bool"
    using that by (auto intro!: takeWhile_cong dropWhile_cong simp: set_priority_other) (metis set_priority_other)+
  have l': "t_parent ?s a = Some p" "t_children ?s p = b @ a # c" using p l by simp_all
  consider (up) "n > sibling_priority s a" | (down) "n < sibling_priority s a" using n(2) by linarith
  then show ?thesis
  proof cases
    case up
    define u v where uv: "u = takeWhile (\<lambda>x. sibling_priority s x < n) (rev b)" "v = dropWhile (\<lambda>x. sibling_priority s x < n) (rev b)"
    have b: "rev b = u @ v" by (simp add: uv)
    then have b': "b = rev v @ rev u" by (metis rev_append rev_rev_ident)
    have ret: "retreat (\<lambda>x. sibling_priority ?s x < n) (rev b) = (case v of [] \<Rightarrow> None | y # _ \<Rightarrow> Some y)"
      using pr(2) [of "rev b" "\<lambda>k. k < n"] a by (simp add: retreat_eq uv)
    let ?first = "case rev b of [] \<Rightarrow> None | y # _ \<Rightarrow> Some y" and ?prev = "case v of [] \<Rightarrow> None | y # _ \<Rightarrow> Some y"
    have act: "t_children (activity_policy_update s a pol) = t_children (if ?prev \<noteq> ?first then reinsert ?s a ?prev else ?s)"
      using up ret n(1) sib unfolding activity_policy_update_def Let_def by auto
    have mv: "moved s a n b c = rev v @ a # rev u @ c" using up by (simp add: moved_def uv)
    show ?thesis
    proof (cases "u = []")
      case True
      then have "?prev = ?first" "moved s a n b c = b @ a # c" using b b' mv by simp_all
      then show ?thesis using act l by (auto simp: fun_upd_idem)
    next
      case False
      then have ne: "?prev \<noteq> ?first"
      proof -
        have "distinct (u @ v)" using d b by (metis distinct_append distinct_rev)
        then show ?thesis using False b by (cases u; cases v) auto
      qed
      have "reinsert ?s a ?prev = set_children p (rev v @ a # rev u @ c) ?s"
      proof (cases v)
        case Nil
        then show ?thesis using reinsert_after(1) [OF l' d] b' by simp
      next
        case (Cons y w)
        have "reinsert ?s a (Some y) = set_children p (rev w @ y # a # rev u @ c) ?s"
          by (rule reinsert_after(2) [OF l' d]) (simp add: b' Cons)
        then show ?thesis using Cons by simp
      qed
      then show ?thesis using act ne mv by simp
    qed
  next
    case down
    define u v where uv: "u = takeWhile (\<lambda>x. sibling_priority s x > n) c" "v = dropWhile (\<lambda>x. sibling_priority s x > n) c"
    have c: "c = u @ v" by (simp add: uv)
    have adv: "advance (\<lambda>x. sibling_priority ?s x > n) a c = last (a # u)"
      using pr(1) [of c "\<lambda>k. k > n"] a by (simp add: advance_eq uv)
    have act: "t_children (activity_policy_update s a pol) = t_children (if last (a # u) \<noteq> a then reinsert ?s a (Some (last (a # u))) else ?s)"
      using down adv n(1) sib unfolding activity_policy_update_def Let_def by auto
    have mv: "moved s a n b c = b @ u @ a # v" using down by (simp add: moved_def uv)
    show ?thesis
    proof (cases u rule: rev_cases)
      case Nil
      then show ?thesis using act mv l c by (simp add: fun_upd_idem)
    next
      case (snoc w y)
      have "reinsert ?s a (Some y) = set_children p ((b @ w) @ y # a # v) ?s"
        by (rule reinsert_after(2) [OF l' d]) (simp add: c snoc)
      moreover have "y \<noteq> a" using a c snoc by auto
      ultimately show ?thesis using act mv snoc by simp
    qed
  qed
qed

lemma activity_policy_update_sel:
  "t_parent (activity_policy_update s a pol) = t_parent s" "t_policy (activity_policy_update s a pol) a = pol"
  "sibling_priority (activity_policy_update s a pol) x = (if x = a then uint (amp_priority (sibling_rel pol)) else sibling_priority s x)"
  by (auto simp: activity_policy_update_def Let_def reinsert_def set_priority_def set_children_def sibling_priority_def split: option.splits)

lemma moved_desc:
  assumes "by_priority_desc s (b @ a # c)" "n \<noteq> sibling_priority s a" "distinct (b @ a # c)"
    and pr: "\<And>x. sibling_priority t x = (if x = a then n else sibling_priority s x)"
  shows "by_priority_desc t (moved s a n b c)" "distinct (moved s a n b c)" "set (moved s a n b c) = set (b @ a # c)"
proof -
  note S = assms(1) [unfolded desc_insert]
  have na: "a \<notin> set (b @ c)" using assms(3) by auto
  have "sibling_priority t x = sibling_priority s x" if "x \<in> set (b @ c)" for x using that na pr by (cases "x = a") auto
  then have other: "by_priority_desc t (b @ c)" using S desc_cong by blast
  consider (up) "n > sibling_priority s a" | (down) "n < sibling_priority s a" using assms(2) by linarith
  then have "by_priority_desc t (moved s a n b c) \<and> distinct (moved s a n b c) \<and> set (moved s a n b c) = set (b @ a # c)"
  proof cases
    case up
    define u v where uv: "u = takeWhile (\<lambda>x. sibling_priority s x < n) (rev b)" "v = dropWhile (\<lambda>x. sibling_priority s x < n) (rev b)"
    have "rev b = u @ v" by (simp add: uv)
    then have b: "b = rev v @ rev u" by (metis rev_append rev_rev_ident)
    have u: "sibling_priority s x < n" if "x \<in> set u" for x using that by (auto simp: uv dest: set_takeWhileD)
    have "sibling_priority s x \<ge> n" if "x \<in> set v" for x
    proof (cases v)
      case (Cons y w)
      have "v \<noteq> []" using Cons by simp
      then have "\<not> sibling_priority s (hd v) < n" unfolding uv(2) by (rule hd_dropWhile)
      then have "sibling_priority s y \<ge> n" using Cons by simp
      moreover have "sorted_wrt (\<lambda>x y. sibling_priority s x \<ge> sibling_priority s y) (rev w @ [y])"
        using S b Cons by (simp add: by_priority_desc_def sorted_wrt_append)
      then have "x \<in> set w \<Longrightarrow> sibling_priority s x \<ge> sibling_priority s y" by (simp add: sorted_wrt_append)
      ultimately show ?thesis using that Cons by auto
    qed (use that in simp)
    moreover have mv: "moved s a n b c = rev v @ a # rev u @ c" using up by (simp add: moved_def uv)
    moreover have "a \<notin> set u" "a \<notin> set v" "a \<notin> set c" using na b by auto
    ultimately have "by_priority_desc t (moved s a n b c)"
      unfolding mv desc_insert using other b S up u pr by fastforce
    then show ?thesis using mv b assms(3) by auto
  next
    case down
    define u v where uv: "u = takeWhile (\<lambda>x. sibling_priority s x > n) c" "v = dropWhile (\<lambda>x. sibling_priority s x > n) c"
    have c: "c = u @ v" by (simp add: uv)
    have u: "sibling_priority s x > n" if "x \<in> set u" for x using that by (auto simp: uv dest: set_takeWhileD)
    have "by_priority_desc s c" using S by (simp add: by_priority_desc_def sorted_wrt_append)
    then have v: "sibling_priority s x \<le> n" if "x \<in> set v" for x using desc_dropWhile that by (simp add: uv)
    have mv: "moved s a n b c = (b @ u) @ a # v" using down by (simp add: moved_def uv)
    have "a \<notin> set b" "a \<notin> set u" "a \<notin> set v" using na c by auto
    then have "by_priority_desc t (moved s a n b c)"
      unfolding mv desc_insert using other c S down u v pr by fastforce
    then show ?thesis using mv c assms(3) by auto
  qed
  then show "by_priority_desc t (moved s a n b c)" "distinct (moved s a n b c)" "set (moved s a n b c) = set (b @ a # c)" by blast+
qed

lemma activity_policy_update_ok:
  assumes ok: "children_ok s" and orphan: "\<And>p. t_parent s a = Some p \<Longrightarrow> a \<in> set (t_children s p)"
  shows "children_ok (activity_policy_update s a pol)" "set (t_children (activity_policy_update s a pol) q) = set (t_children s q)"
proof -
  let ?t = "activity_policy_update s a pol" and ?n = "uint (amp_priority (sibling_rel pol))"
  note D = children_okD [OF ok] and U = activity_policy_update_sel [of s a pol]
  have same: "children_ok ?t \<and> set (t_children ?t q) = set (t_children s q)"
    if c: "t_children ?t = t_children s" and p: "?n = sibling_priority s a \<or> (\<forall>q. a \<notin> set (t_children s q))"
  proof -
    have "by_priority_desc ?t (t_children s q) = by_priority_desc s (t_children s q)" for q
      by (rule desc_cong) (use p U(3) in auto)
    then show ?thesis using D c by (simp add: children_ok_def U)
  qed
  have "children_ok ?t \<and> set (t_children ?t q) = set (t_children s q)"
  proof (cases "t_parent s a")
    case None
    then have "t_children ?t = t_children s" "a \<notin> set (t_children s q)" for q
      using D(3) [of a q] by (auto simp: activity_policy_update_def siblings_def reinsert_def Let_def split: option.splits)
    then show ?thesis using same by blast
  next
    case (Some p)
    obtain b c where l: "t_children s p = b @ a # c" using split_list [OF orphan [OF Some]] by blast
    then have d: "distinct (b @ a # c)" "by_priority_desc s (b @ a # c)" using D(1,2) [of p] by simp_all
    show ?thesis
    proof (cases "?n = sibling_priority s a")
      case True
      then have "t_children ?t = t_children s" by (simp add: activity_policy_update_def Let_def)
      then show ?thesis using same True by blast
    next
      case False
      note M = moved_desc [OF d(2) False d(1) U(3)]
      have c: "t_children ?t = (t_children s)(p := moved s a ?n b c)"
        by (rule activity_policy_update_children [OF Some l d(1) refl False])
      have "by_priority_desc ?t (t_children s r)" if "r \<noteq> p" for r
      proof -
        have "a \<notin> set (t_children s r)" using D(3) [of a r] Some that by auto
        then have "sibling_priority ?t x = sibling_priority s x" if "x \<in> set (t_children s r)" for x using that U(3) by auto
        then show ?thesis using D(2) [of r] desc_cong by blast
      qed
      then have "children_ok ?t"
        unfolding children_ok_def U(1) c using M D l by (metis (no_types, lifting) fun_upd_apply)
      then show ?thesis using c M(3) l by simp
    qed
  qed
  then show "children_ok ?t" "set (t_children ?t q) = set (t_children s q)" by blast+
qed


text \<open>A root activity and two activities on disk that name it as their parent; the first is in memory.\<close>

definition family :: act_tree where
  "family = \<lparr>parent_cap = (\<lambda>a. if a = 1 \<or> a = 2 then Some 0 else None), children_cap = (\<lambda>a. if a = 0 then Some 1 else None),
     sibling_next_cap = (\<lambda>a. if a = 1 then Some 2 else None), sibling_prev_cap = (\<lambda>a. if a = 2 then Some 1 else None),
     t_policy = (\<lambda>a. \<lparr>sibling_rel = \<lparr>amp_priority = of_nat a, amp_weight = 0\<rparr>, child_rel = \<lparr>amp_priority = 0, amp_weight = 0\<rparr>, ap_folios = 0\<rparr>),
     t_parent = (\<lambda>a. if a = 1 then Some 0 else None), t_children = (\<lambda>a. if a = 0 then [1] else []),
     t_folios = (\<lambda>_. None), t_dying = (\<lambda>_. False), t_root = Some 0\<rparr>"


subsection \<open>The list of children on disk\<close>

fun sib_chain :: "act_tree \<Rightarrow> aid option \<Rightarrow> aid list \<Rightarrow> aid option \<Rightarrow> bool" where
  "sib_chain s prev [] cur \<longleftrightarrow> cur = None"
| "sib_chain s prev (a # as) cur \<longleftrightarrow> cur = Some a \<and> sibling_prev_cap s a = prev \<and> sib_chain s (Some a) as (sibling_next_cap s a)"

definition disk_rep :: "act_tree \<Rightarrow> (aid \<Rightarrow> aid list) \<Rightarrow> bool" where
  "disk_rep s C \<longleftrightarrow> (\<forall>p. sib_chain s None (C p) (children_cap s p) \<and> distinct (C p) \<and> (\<forall>a \<in> set (C p). parent_cap s a = Some p))"

lemma disk_repD:
  assumes "disk_rep s C"
  shows "sib_chain s None (C p) (children_cap s p)" "distinct (C p)" "a \<in> set (C p) \<Longrightarrow> parent_cap s a = Some p"
  using assms by (auto simp: disk_rep_def)

lemma sib_chain_cong:
  "(\<And>a. a \<in> set as \<Longrightarrow> sibling_prev_cap s' a = sibling_prev_cap s a \<and> sibling_next_cap s' a = sibling_next_cap s a)
     \<Longrightarrow> sib_chain s' prev as cur = sib_chain s prev as cur"
  by (induction as arbitrary: prev cur) auto

text \<open>A chain in two parts: the last link of the first part leads into the second.\<close>

fun sib_seg :: "act_tree \<Rightarrow> aid option \<Rightarrow> aid list \<Rightarrow> aid option \<Rightarrow> aid option \<Rightarrow> bool" where
  "sib_seg s prev [] cur out \<longleftrightarrow> cur = out"
| "sib_seg s prev (a # as) cur out \<longleftrightarrow> cur = Some a \<and> sibling_prev_cap s a = prev \<and> sib_seg s (Some a) as (sibling_next_cap s a) out"

definition behind :: "aid option \<Rightarrow> aid list \<Rightarrow> aid option" where
  "behind prev as = (if as = [] then prev else Some (last as))"

lemma sib_chain_split:
  "sib_chain s prev (xs @ ys) cur \<longleftrightarrow> (\<exists>out. sib_seg s prev xs cur out \<and> sib_chain s (behind prev xs) ys out)"
  by (induction xs arbitrary: prev cur) (auto simp: behind_def)

lemma sib_seg_cong:
  "(\<And>a. a \<in> set as \<Longrightarrow> sibling_prev_cap s' a = sibling_prev_cap s a) \<Longrightarrow> (\<And>a. a \<in> set (butlast as) \<Longrightarrow> sibling_next_cap s' a = sibling_next_cap s a)
     \<Longrightarrow> as \<noteq> [] \<Longrightarrow> sibling_next_cap s' (last as) = out' \<Longrightarrow> sib_seg s prev as cur out \<Longrightarrow> sib_seg s' prev as cur out'"
  by (induction as arbitrary: prev cur) (auto split: if_splits)

lemma activity_link_ok:
  assumes rep: "disk_rep s C" and a: "parent_cap s a = None" "a \<noteq> p"
  shows "\<exists>s'. activity_link s p a = Some s' \<and> disk_rep s' (C(p := a # C p)) \<and> parent_cap s' = (parent_cap s)(a := Some p)
    \<and> t_children s' = t_children s \<and> t_policy s' = t_policy s \<and> t_parent s' = t_parent s"
proof -
  note D = disk_repD [OF rep]
  have new: "a \<notin> set (C q)" for q using D(3) [of a q] a by auto
  define t where "t = s\<lparr>parent_cap := (parent_cap s)(a := Some p), sibling_next_cap := (sibling_next_cap s)(a := children_cap s p),
    sibling_prev_cap := (sibling_prev_cap s)(a := None), children_cap := (children_cap s)(p := Some a)\<rparr>"
  define s' where "s' = (case C p of [] \<Rightarrow> t | h # _ \<Rightarrow> t\<lparr>sibling_prev_cap := (sibling_prev_cap t)(h := Some a)\<rparr>)"
  have head: "children_cap s p = (case C p of [] \<Rightarrow> None | h # _ \<Rightarrow> Some h)" using D(1) [of p] by (cases "C p") auto
  have run: "activity_link s p a = Some s'"
  proof (cases "C p")
    case Nil
    then show ?thesis using head by (simp add: activity_link_def s'_def t_def)
  next
    case (Cons h r)
    then have "sibling_prev_cap s h = None" "h \<noteq> a" using D(1) [of p] new [of p] by auto
    then show ?thesis using head Cons by (simp add: activity_link_def s'_def t_def)
  qed
  have nx: "sibling_next_cap s' x = (if x = a then children_cap s p else sibling_next_cap s x)" "parent_cap s' = (parent_cap s)(a := Some p)"
      "children_cap s' = (children_cap s)(p := Some a)" for x by (auto simp: s'_def t_def split: list.splits)
  have pv: "sibling_prev_cap s' x = (if C p \<noteq> [] \<and> x = hd (C p) then Some a else if x = a then None else sibling_prev_cap s x)" for x
    by (auto simp: s'_def t_def split: list.splits)
  have chain: "sib_chain s' None (C q) (children_cap s q)" if "q \<noteq> p" for q
  proof -
    have "hd (C p) \<notin> set (C q)" if "C p \<noteq> []" using D(3) [of "hd (C p)" p] D(3) [of "hd (C p)" q] that \<open>q \<noteq> p\<close> by auto
    then show ?thesis using D(1) [of q] new [of q] by (subst sib_chain_cong [where s = s]) (auto simp: nx pv)
  qed
  have "sib_chain s' (Some a) (C p) (children_cap s p)"
  proof (cases "C p")
    case (Cons h r)
    have "sib_chain s' (Some h) r (sibling_next_cap s h)"
      using D(1,2) [of p] new [of p] Cons by (subst sib_chain_cong [where s = s]) (auto simp: nx pv)
    then show ?thesis using Cons head new [of p] by (simp add: nx pv)
  qed (use head in simp)
  moreover have "sibling_prev_cap s' a = None" using new [of p] hd_in_set [of "C p"] by (auto simp: pv)
  ultimately have "disk_rep s' (C(p := a # C p))"
    unfolding disk_rep_def using D chain new a by (auto simp: nx)
  then show ?thesis using run nx(2) by (auto simp: s'_def t_def split: list.splits)
qed

lemma sib_chain_prev: "sib_chain s prev (z # zs) cur \<Longrightarrow> sibling_prev_cap s' z = prev' \<Longrightarrow> sibling_next_cap s' z = sibling_next_cap s z \<Longrightarrow>
    (\<And>a. a \<in> set zs \<Longrightarrow> sibling_prev_cap s' a = sibling_prev_cap s a \<and> sibling_next_cap s' a = sibling_next_cap s a) \<Longrightarrow>
    sib_chain s' prev' (z # zs) cur"
  using sib_chain_cong [of zs s' s] by simp

lemma activity_unlink_ok:
  assumes rep: "disk_rep s C" and v: "v \<in> set (C p)" "t_parent s v = Some p"
  shows "\<exists>s'. activity_unlink s v = Some s' \<and> disk_rep s' (C(p := remove1 v (C p))) \<and> parent_cap s' = parent_cap s
    \<and> t_children s' = t_children s \<and> t_policy s' = t_policy s \<and> t_parent s' = t_parent s"
proof -
  note D = disk_repD [OF rep]
  obtain xs ys where xy: "C p = xs @ v # ys" using split_list [OF v(1)] by blast
  have dist: "distinct (xs @ v # ys)" using D(2) [of p] xy by simp
  from D(1) [of p, unfolded xy sib_chain_split] obtain out where
    seg: "sib_seg s None xs (children_cap s p) out" and "sib_chain s (behind None xs) (v # ys) out" by blast
  then have w: "out = Some v" "sibling_prev_cap s v = behind None xs" "sib_chain s (Some v) ys (sibling_next_cap s v)" by auto
  let ?nv = "sibling_next_cap s v"
  have nv: "?nv = (case ys of [] \<Rightarrow> None | z # _ \<Rightarrow> Some z)" using w(3) by (cases ys) auto
  define s1 where "s1 = (if xs = [] then s\<lparr>children_cap := (children_cap s)(p := ?nv)\<rparr>
    else s\<lparr>sibling_next_cap := (sibling_next_cap s)(last xs := ?nv)\<rparr>)"
  define s2 where "s2 = (case ys of [] \<Rightarrow> s1 | z # _ \<Rightarrow> s1\<lparr>sibling_prev_cap := (sibling_prev_cap s1)(z := sibling_prev_cap s1 v)\<rparr>)"
  define s' where "s' = s2\<lparr>sibling_next_cap := (sibling_next_cap s2)(v := None), sibling_prev_cap := (sibling_prev_cap s2)(v := None)\<rparr>"
  have hd: "xs = [] \<Longrightarrow> children_cap s p = Some v" using seg w(1) by simp
  have run: "activity_unlink s v = Some s'"
    using v(2) D(3) [OF v(1)] w(2) hd nv
    by (cases ys; cases "xs = []") (simp_all add: activity_unlink_def s'_def s2_def s1_def behind_def Let_def)
  have nx: "sibling_next_cap s' x = (if x = v then None else if xs \<noteq> [] \<and> x = last xs then ?nv else sibling_next_cap s x)" for x
    by (auto simp: s'_def s2_def s1_def split: list.splits)
  have pv: "sibling_prev_cap s' x = (if x = v then None else if ys \<noteq> [] \<and> x = hd ys then behind None xs else sibling_prev_cap s x)" for x
    using w(2) by (auto simp: s'_def s2_def s1_def split: list.splits)
  have cc: "children_cap s' = (if xs = [] then (children_cap s)(p := ?nv) else children_cap s)" "parent_cap s' = parent_cap s"
    by (auto simp: s'_def s2_def s1_def split: list.splits)
  have other: "sib_chain s' None (C q) (children_cap s q)" if "q \<noteq> p" for q
  proof -
    have "x \<notin> set (C q)" if "x \<in> set (xs @ v # ys)" for x using D(3) [of x p] D(3) [of x q] that \<open>q \<noteq> p\<close> xy by auto
    then have "v \<notin> set (C q)" "xs \<noteq> [] \<longrightarrow> last xs \<notin> set (C q)" "ys \<noteq> [] \<longrightarrow> hd ys \<notin> set (C q)" by auto
    then show ?thesis using D(1) [of q] by (subst sib_chain_cong [where s = s]) (auto simp: nx pv)
  qed
  have tail: "sib_chain s' (behind None xs) ys ?nv"
  proof (cases ys)
    case (Cons z zs)
    have lx: "xs \<noteq> [] \<Longrightarrow> last xs \<notin> set ys"
      using dist last_in_set [of xs] by (metis disjoint_iff distinct_append list.set_intros(2))
    have zs: "x \<noteq> v" "x \<noteq> z" "xs \<noteq> [] \<longrightarrow> x \<noteq> last xs" if "x \<in> set zs" for x using that dist Cons lx by auto
    have z: "z \<noteq> v" "xs \<noteq> [] \<longrightarrow> z \<noteq> last xs" using dist Cons lx by auto
    show ?thesis unfolding Cons
      by (rule sib_chain_prev [OF w(3) [unfolded Cons]]) (use zs z Cons in \<open>auto simp: nx pv\<close>)
  qed (use nv in simp)
  have "sib_chain s' None (xs @ ys) (children_cap s' p)"
  proof (cases "xs = []")
    case True
    then show ?thesis using tail by (simp add: cc behind_def)
  next
    case False
    have "sib_seg s' None xs (children_cap s p) ?nv"
    proof (rule sib_seg_cong [OF _ _ False _ seg])
      show "sibling_prev_cap s' x = sibling_prev_cap s x" if "x \<in> set xs" for x
      proof -
        have "x \<noteq> v" "ys \<noteq> [] \<longrightarrow> x \<noteq> hd ys" using that dist hd_in_set [of ys] by auto
        then show ?thesis by (auto simp: pv)
      qed
      show "sibling_next_cap s' x = sibling_next_cap s x" if "x \<in> set (butlast xs)" for x
      proof -
        have "xs = butlast xs @ [last xs]" using False by simp
        then have "x \<noteq> last xs" "x \<noteq> v" using that dist in_set_butlastD [OF that] by (metis disjoint_iff distinct_append list.set_intros(1), auto)
        then show ?thesis by (simp add: nx)
      qed
      show "sibling_next_cap s' (last xs) = ?nv" using False dist last_in_set [of xs] by (auto simp: nx)
    qed
    then show ?thesis unfolding sib_chain_split using tail False by (auto simp: cc)
  qed
  moreover have "remove1 v (C p) = xs @ ys" using xy dist by (simp add: remove1_append)
  ultimately have "disk_rep s' (C(p := remove1 v (C p)))"
    unfolding disk_rep_def using D other dist xy by (auto simp: cc split: if_splits)
  then show ?thesis using run cc(2) by (auto simp: s'_def s2_def s1_def split: list.splits)
qed

subsection \<open>The life of an activity\<close>

lemma children_ok_cong:
  "t_children s' = t_children s \<Longrightarrow> t_policy s' = t_policy s \<Longrightarrow> t_parent s' = t_parent s \<Longrightarrow> children_ok s' = children_ok s"
  by (simp add: children_ok_def by_priority_desc_def sibling_priority_def)

lemma disk_rep_cong:
  assumes "parent_cap s' = parent_cap s" "children_cap s' = children_cap s" "sibling_next_cap s' = sibling_next_cap s" "sibling_prev_cap s' = sibling_prev_cap s"
  shows "disk_rep s' C = disk_rep s C"
proof -
  have "sib_chain s' prev as cur = sib_chain s prev as cur" for prev as cur by (rule sib_chain_cong) (simp add: assms)
  then show ?thesis by (simp add: disk_rep_def assms)
qed

lemma activity_prepare_disk: "activity_prepare s a = Some s' \<Longrightarrow> disk_rep s' C = disk_rep s C \<and> t_parent s' a = parent_cap s a"
proof -
  assume run: "activity_prepare s a = Some s'"
  then obtain p where p: "parent_cap s a = Some p" by (cases "parent_cap s a") (simp_all add: activity_prepare_def)
  let ?t = "s\<lparr>t_parent := (t_parent s)(a := Some p)\<rparr>"
  have "\<exists>xs. s' = set_children a [] (set_children p xs ?t)"
  proof (cases "t_children s p")
    case Nil
    then show ?thesis using run p by (simp add: activity_prepare_def Let_def) blast
  next
    case (Cons h r)
    then show ?thesis using run p
      by (cases "sibling_priority ?t a \<ge> sibling_priority ?t h") (simp add: activity_prepare_def Let_def, blast)+
  qed
  then show ?thesis using disk_rep_cong [of s' s C] p by auto
qed

text \<open>The loops end at once for an activity without folios and children.\<close>

lemma activity_destroy_barren:
  assumes "t_folios s v = None" "children_cap s v = None" "t_parent s v = Some p" "\<not> t_dying s v"
  shows "activity_destroy ff fc m s v = do {
    m \<leftarrow> activity_inherit m v;
    s \<leftarrow> activity_deprepare m (s\<lparr>t_dying := (t_dying s)(v := True)\<rparr>) v;
    s \<leftarrow> activity_unlink s v;
    Some (m, s)
  }"
  using assms by (simp add: activity_destroy_def free_folios.simps free_children.simps Let_def)

lemma activity_create_ok:
  assumes disk: "disk_rep s C" and ok: "children_ok s"
    and a: "parent_cap s a = None" "a \<noteq> p" "\<forall>q. a \<notin> set (t_children s q)"
  shows "\<exists>s' b c. activity_create folio_free object_free m s (Some p) a = Some (m, s') \<and> disk_rep s' (C(p := a # C p)) \<and> children_ok s'
    \<and> t_children s p = b @ c \<and> t_children s' p = b @ a # c \<and> t_parent s' a = Some p"
proof -
  from activity_link_ok [OF disk a(1,2)] obtain t where t: "activity_link s p a = Some t" "disk_rep t (C(p := a # C p))"
    "parent_cap t = (parent_cap s)(a := Some p)" "t_children t = t_children s" "t_policy t = t_policy s" "t_parent t = t_parent s" by blast
  have "children_ok t" using ok children_ok_cong [OF t(4-6)] by simp
  from activity_prepare_ok [OF this, of a p] t a obtain s' b c where s': "activity_prepare t a = Some s'" "children_ok s'"
    "t_children s p = b @ c" "t_children s' p = b @ a # c" by auto
  then show ?thesis using t a activity_prepare_disk [OF s'(1)] by (auto simp: activity_create_def)
qed

lemma activity_destroy_ok:
  assumes disk: "disk_rep s C" and ok: "children_ok s"
    and m: "consistent m D" "finite D" "card D < 2 ^ 32" "a_parent (acts m a) = Some p" "rooted m a"
      "frames_total (acts m a) = frames_local (acts m a)" "a_eviction_clean (acts m a) = []" "a_eviction_dirty (acts m a) = []"
    and t: "t_children s a = []" "a \<in> set (t_children s p)" "a \<in> set (C p)"
    and l: "C a = []" "t_folios s a = None" "\<not> t_dying s a"
  shows "\<exists>s'. activity_destroy ff fc m s a = Some (settled a p (live_count (acts m a)) (inherited a p m), s') \<and>
    disk_rep s' (C(p := remove1 a (C p))) \<and> children_ok s' \<and> t_children s' = (t_children s)(p := remove1 a (t_children s p))"
proof -
  let ?m = "settled a p (live_count (acts m a)) (inherited a p m)"
  let ?s = "s\<lparr>t_dying := (t_dying s)(a := True)\<rparr>"
  note run = activity_inherit_run [OF m(1,4,5,2,3,6,7,8)]
  have e: "a_active (acts ?m a) = []" "a_inactive (acts ?m a) = []" "a_eviction_clean (acts ?m a) = []" "a_eviction_dirty (acts ?m a) = []"
    using run(2) [of PActive] run(2) [of PInactive] run(2) [of PClean] run(2) [of PDirty] by simp_all
  have ok': "children_ok ?s" and disk': "disk_rep ?s C"
    using ok disk children_ok_cong [of ?s s] disk_rep_cong [of ?s s C] by simp_all
  have t': "t_children ?s a = []" "a \<in> set (t_children ?s p)" using t by simp_all
  from activity_deprepare_ok [OF ok' t' e] obtain s1 where s1: "activity_deprepare ?m ?s a = Some s1" "children_ok s1"
    "s1 = set_children p (remove1 a (t_children s p)) ?s" by auto
  have p: "t_parent s a = Some p" by (rule children_okD(3) [OF ok t(2)])
  have "disk_rep s1 C" "t_parent s1 a = Some p" using disk' disk_rep_cong [of s1 ?s C] s1(3) p by auto
  from activity_unlink_ok [OF this(1) t(3) this(2)] obtain s' where s': "activity_unlink s1 a = Some s'" "disk_rep s' (C(p := remove1 a (C p)))"
    "t_children s' = t_children s1" "t_policy s' = t_policy s1" "t_parent s' = t_parent s1" by blast
  have "children_ok s'" using s1(2) children_ok_cong [OF s'(3-5)] by simp
  moreover have "children_cap s a = None" using disk_repD(1) [OF disk, of a] l(1) by simp
  ultimately show ?thesis using run(1) s1 s' activity_destroy_barren [OF l(2) _ p l(3)] by auto
qed



end
