(* ===== verification/Slab.thy ===== *)
theory Slab
  imports Machine
begin

text \<open>
  The slab allocator (\<^verbatim>\<open>libhurd-slab/slab.c\<close>, \<^verbatim>\<open>slab.h\<close>), the allocator of the fixed-size descriptors of the run-time.

  A slab is a page: objects of equal size from the start of the page, the structure \<^verbatim>\<open>hurd_slab\<close> in its last 16 bytes.
  The last word of an object is its \<^verbatim>\<open>hurd_bufctl\<close>: the next free object while it is free, the slab while it is
  allocated. Memory is modelled at this level: \<open>slabs\<close> holds the slab structures by their addresses, \<open>bufs\<close> the control
  words; an address without an entry is not mapped and an access to it fails (\<open>None\<close>). Addresses are natural numbers
  and 0 is the null pointer. The contents of the objects belong to the callbacks: they are part of the \<open>world\<close>, as are
  the pages that the page allocator holds.

  The page allocator, the constructor and the destructor are callbacks of the user; \<^verbatim>\<open>mmap\<close> and \<^verbatim>\<open>munmap\<close> are system
  calls. They are parameters. A fresh page comes with the contents of its last 16 bytes, because the code does not
  initialise them.
\<close>

subsection \<open>Data\<close>

type_synonym errno = nat

abbreviation getpagesize :: nat where "getpagesize \<equiv> 4096"
abbreviation sizeof_hurd_slab :: nat where "sizeof_hurd_slab \<equiv> 16"
abbreviation sizeof_bufctl :: nat where "sizeof_bufctl \<equiv> 4"

definition SLAB_ENOMEM :: errno where "SLAB_ENOMEM = 12"
definition SLAB_EBUSY :: errno where "SLAB_EBUSY = 16"
definition SLAB_EINVAL :: errno where "SLAB_EINVAL = 22"

record hurd_slab =
  slab_next :: nat
  slab_prev :: nat
  refcount :: int
  free_list :: nat

type_synonym 'w alloc_fn = "nat \<Rightarrow> nat \<Rightarrow> 'w \<Rightarrow> (errno + nat \<times> hurd_slab) \<times> 'w"
type_synonym 'w dealloc_fn = "nat \<Rightarrow> nat \<Rightarrow> nat \<Rightarrow> 'w \<Rightarrow> errno \<times> 'w"
type_synonym 'w ctor_fn = "nat \<Rightarrow> nat \<Rightarrow> 'w \<Rightarrow> errno \<times> 'w"
type_synonym 'w dtor_fn = "nat \<Rightarrow> nat \<Rightarrow> 'w \<Rightarrow> 'w"

record 'w hurd_slab_space =
  initialized :: bool
  sp_lock :: bool
  requested_size :: u32
  requested_align :: u32
  sp_allocate_buffer :: "'w alloc_fn option"
  sp_deallocate_buffer :: "'w dealloc_fn option"
  constructor :: "'w ctor_fn option"
  destructor :: "'w dtor_fn option"
  hook :: nat
  slab_first :: nat
  slab_last :: nat
  first_free :: nat
  full_refcount :: int
  sp_size :: u32

text \<open>The system calls, and the state that the functions of the library work on.\<close>

record 'w system =
  sys_mmap :: "nat \<Rightarrow> 'w \<Rightarrow> (errno + nat \<times> hurd_slab) \<times> 'w"
  sys_munmap :: "nat \<Rightarrow> nat \<Rightarrow> 'w \<Rightarrow> errno \<times> 'w"
  sys_malloc :: "'w \<Rightarrow> bool \<times> 'w"
  sys_free :: "'w \<Rightarrow> 'w"

record 'w slab_state =
  space :: "'w hurd_slab_space"
  slabs :: "nat \<rightharpoonup> hurd_slab"
  bufs :: "nat \<rightharpoonup> nat"
  nr_pages :: int
  world :: 'w

abbreviation obj_size :: "'w slab_state \<Rightarrow> nat" where
  "obj_size st \<equiv> unat (sp_size (space st))"

definition upd_space :: "('w hurd_slab_space \<Rightarrow> 'w hurd_slab_space) \<Rightarrow> 'w slab_state \<Rightarrow> 'w slab_state" where
  "upd_space f st = st\<lparr>space := f (space st)\<rparr>"

definition upd_slab :: "nat \<Rightarrow> (hurd_slab \<Rightarrow> hurd_slab) \<Rightarrow> 'w slab_state \<Rightarrow> 'w slab_state option" where
  "upd_slab a f st = (case slabs st a of None \<Rightarrow> None | Some s \<Rightarrow> Some (st\<lparr>slabs := (slabs st)(a \<mapsto> f s)\<rparr>))"

subsection \<open>Pages\<close>

definition page_alloc :: "'w system \<Rightarrow> 'w hurd_slab_space \<Rightarrow> 'w \<Rightarrow> (errno + nat \<times> hurd_slab) \<times> 'w" where
  "page_alloc sys sp w = (case sp_allocate_buffer sp of
     Some f \<Rightarrow> f (hook sp) getpagesize w
   | None \<Rightarrow> sys_mmap sys getpagesize w)"

definition page_dealloc :: "'w system \<Rightarrow> 'w hurd_slab_space \<Rightarrow> nat \<Rightarrow> nat \<Rightarrow> 'w \<Rightarrow> errno \<times> 'w" where
  "page_dealloc sys sp buffer sz w = (case sp_deallocate_buffer sp of
     Some f \<Rightarrow> f (hook sp) buffer sz w
   | None \<Rightarrow> sys_munmap sys buffer sz w)"

definition allocate_buffer :: "'w system \<Rightarrow> nat \<Rightarrow> 'w slab_state \<Rightarrow> (errno + nat) \<times> 'w slab_state" where
  "allocate_buffer sys sz st =
     (case page_alloc sys (space st) (world st) of
        (Inl e, w) \<Rightarrow> (Inl e, st\<lparr>world := w\<rparr>)
      | (Inr (p, hdr), w) \<Rightarrow>
          (Inr p, st\<lparr>world := w, slabs := (slabs st)(p + getpagesize - sizeof_hurd_slab \<mapsto> hdr)\<rparr>))"

text \<open>Memory that has been given back is no longer mapped; the deallocators give back the page in which the buffer lies. The
  mask of the page size is the one of \<^verbatim>\<open>reap\<close>.\<close>

definition page_mask :: "nat \<Rightarrow> nat" where
  "page_mask s = nat (int s AND NOT (int getpagesize - 1))"

definition unmap_range :: "nat \<Rightarrow> nat \<Rightarrow> (nat \<rightharpoonup> 'a) \<Rightarrow> (nat \<rightharpoonup> 'a)" where
  "unmap_range p sz m = (\<lambda>a. if p \<le> a \<and> a < p + sz then None else m a)"

definition deallocate_buffer :: "'w system \<Rightarrow> nat \<Rightarrow> nat \<Rightarrow> 'w slab_state \<Rightarrow> errno \<times> 'w slab_state" where
  "deallocate_buffer sys buffer sz st =
     (case page_dealloc sys (space st) buffer sz (world st) of
        (e, w) \<Rightarrow>
          (e, if e = 0 then st\<lparr>world := w, slabs := unmap_range (page_mask buffer) sz (slabs st),
                  bufs := unmap_range (page_mask buffer) sz (bufs st)\<rparr>
              else st\<lparr>world := w\<rparr>))"

subsection \<open>The list of slabs\<close>

definition insert_slab :: "nat \<Rightarrow> 'w slab_state \<Rightarrow> 'w slab_state option" where
  "insert_slab slab st = do {
     s \<leftarrow> slabs st slab;
     _ \<leftarrow> c_assert (refcount s = 0);
     (if slab_first (space st) = 0
      then Some (upd_space (\<lambda>sp. sp\<lparr>slab_first := slab, slab_last := slab\<rparr>) st)
      else do {
        let lst = slab_last (space st);
        st \<leftarrow> upd_slab lst (\<lambda>s. s\<lparr>slab_next := slab\<rparr>) st;
        st \<leftarrow> upd_slab slab (\<lambda>s. s\<lparr>slab_prev := lst\<rparr>) st;
        Some (upd_space (\<lambda>sp. sp\<lparr>slab_last := slab\<rparr>) st)
      })
   }"

definition remove_slab :: "nat \<Rightarrow> 'w slab_state \<Rightarrow> 'w slab_state option" where
  "remove_slab slab st = do {
     s \<leftarrow> slabs st slab;
     (if slab \<noteq> slab_first (space st) \<and> slab \<noteq> slab_last (space st)
      then do {
        st \<leftarrow> upd_slab (slab_next s) (\<lambda>t. t\<lparr>slab_prev := slab_prev s\<rparr>) st;
        upd_slab (slab_prev s) (\<lambda>t. t\<lparr>slab_next := slab_next s\<rparr>) st
      }
      else do {
        st \<leftarrow> (if slab = slab_first (space st)
              then do {
                let st = upd_space (\<lambda>sp. sp\<lparr>slab_first := slab_next s\<rparr>) st;
                (if slab_first (space st) \<noteq> 0
                 then upd_slab (slab_first (space st)) (\<lambda>t. t\<lparr>slab_prev := 0\<rparr>) st
                 else Some st)
              }
              else Some st);
        (if slab = slab_last (space st)
         then do {
           s \<leftarrow> slabs st slab;
           st \<leftarrow> (if slab_prev s \<noteq> 0 then upd_slab (slab_prev s) (\<lambda>t. t\<lparr>slab_next := 0\<rparr>) st else Some st);
           s \<leftarrow> slabs st slab;
           Some (upd_space (\<lambda>sp. sp\<lparr>slab_last := slab_prev s\<rparr>) st)
         }
         else Some st)
      })
   }"

text \<open>The search for the first slab with a free object, at the end of \<^verbatim>\<open>reap\<close> and in \<^verbatim>\<open>hurd_slab_alloc\<close>.\<close>

partial_function (option) find_new_first :: "'w slab_state \<Rightarrow> nat \<Rightarrow> nat option" where
  "find_new_first st new_first =
     (if new_first = 0 then Some 0
      else case slabs st new_first of
        None \<Rightarrow> None
      | Some s \<Rightarrow> if refcount s \<noteq> full_refcount (space st) then Some new_first
                  else find_new_first st (slab_next s))"

subsection \<open>Destructors\<close>

text \<open>The loops over a free list that call the destructor. A call through a null pointer fails.\<close>

partial_function (option) destroy_buffers :: "'w slab_state \<Rightarrow> nat \<Rightarrow> 'w slab_state option" where
  "destroy_buffers st bufctl =
     (if bufctl = 0 then Some st
      else case destructor (space st) of
        None \<Rightarrow> None
      | Some f \<Rightarrow>
          let buffer = bufctl - (obj_size st - sizeof_bufctl);
              st = st\<lparr>world := f (hook (space st)) buffer (world st)\<rparr>
          in case bufs st bufctl of None \<Rightarrow> None | Some nxt \<Rightarrow> destroy_buffers st nxt)"

subsection \<open>Reaping\<close>

text \<open>The body of the loop of \<^verbatim>\<open>reap\<close> for a complete slab.\<close>

definition reap_slab :: "'w system \<Rightarrow> nat \<Rightarrow> 'w slab_state \<Rightarrow> (errno \<times> 'w slab_state) option" where
  "reap_slab sys s st = do {
     st \<leftarrow> remove_slab s st;
     st \<leftarrow> (if destructor (space st) \<noteq> None
           then do { sl \<leftarrow> slabs st s; destroy_buffers st (free_list sl) }
           else Some st);
     let (err, st) = deallocate_buffer sys (page_mask s) getpagesize st;
     Some (if err \<noteq> 0 then (err, st) else (0, st\<lparr>nr_pages := nr_pages st - 1\<rparr>))
   }"

partial_function (option) reap_loop :: "'w system \<Rightarrow> 'w slab_state \<Rightarrow> nat \<Rightarrow> (errno \<times> 'w slab_state) option" where
  "reap_loop sys st s =
     (if s = 0 then Some (0, st)
      else case slabs st s of
        None \<Rightarrow> None
      | Some sl \<Rightarrow>
          if refcount sl = 0
          then (case reap_slab sys s st of
                  None \<Rightarrow> None
                | Some (err, st) \<Rightarrow> if err \<noteq> 0 then Some (err, st) else reap_loop sys st (slab_next sl))
          else reap_loop sys st (slab_next sl))"

definition reap :: "'w system \<Rightarrow> 'w slab_state \<Rightarrow> (errno \<times> 'w slab_state) option" where
  "reap sys st = do {
     (err, st) \<leftarrow> reap_loop sys st (slab_first (space st));
     new_first \<leftarrow> find_new_first st (slab_first (space st));
     Some (err, upd_space (\<lambda>sp. sp\<lparr>first_free := new_first\<rparr>) st)
   }"

subsection \<open>Growing\<close>

text \<open>The size of an object with its control word, rounded up to the alignment; \<^verbatim>\<open>size_t\<close> is 32 bits wide.\<close>

definition slab_round :: "u32 \<Rightarrow> u32 \<Rightarrow> u32" where
  "slab_round sz alignment = (sz + 4 + alignment - 1) AND NOT (alignment - 1)"

text \<open>A division by zero stops the program.\<close>

definition init_space :: "'w slab_state \<Rightarrow> 'w slab_state option" where
  "init_space st = do {
     let sz = slab_round (requested_size (space st)) (requested_align (space st));
     _ \<leftarrow> c_assert (sz \<le> 4096 - 16 - 4);
     let st = upd_space (\<lambda>sp. sp\<lparr>sp_size := sz\<rparr>) st;
     _ \<leftarrow> c_assert (sz \<noteq> 0);
     Some (upd_space (\<lambda>sp. sp\<lparr>full_refcount := int ((getpagesize - sizeof_hurd_slab) div unat sz), initialized := True\<rparr>) st)
   }"

text \<open>The loop of \<^verbatim>\<open>grow\<close> over the objects of the new page, with \<open>n\<close> objects left and the next object at \<open>p\<close>.\<close>

fun grow_objs :: "'w system \<Rightarrow> nat \<Rightarrow> nat \<Rightarrow> nat \<Rightarrow> 'w slab_state \<Rightarrow> (errno \<times> 'w slab_state) option" where
  "grow_objs sys new_slab 0 p st = Some (0, st)"
| "grow_objs sys new_slab (Suc n) p st = do {
     let (err, st) = (case constructor (space st) of
                        None \<Rightarrow> (0, st)
                      | Some f \<Rightarrow> let (e, w) = f (hook (space st)) p (world st) in (e, st\<lparr>world := w\<rparr>));
     (if err \<noteq> 0
      then do {
        sl \<leftarrow> slabs st new_slab;
        st \<leftarrow> destroy_buffers st (free_list sl);
        let (_, st) = deallocate_buffer sys p getpagesize st;
        Some (err, st)
      }
      else do {
        let bufctl = p + obj_size st - sizeof_bufctl;
        sl \<leftarrow> slabs st new_slab;
        let st = st\<lparr>bufs := (bufs st)(bufctl \<mapsto> free_list sl)\<rparr>;
        st \<leftarrow> upd_slab new_slab (\<lambda>s. s\<lparr>free_list := bufctl\<rparr>) st;
        grow_objs sys new_slab n (p + obj_size st) st
      })
   }"

definition grow :: "'w system \<Rightarrow> 'w slab_state \<Rightarrow> (errno \<times> 'w slab_state) option" where
  "grow sys st = do {
     st \<leftarrow> (if \<not> initialized (space st) then init_space st else Some st);
     (case allocate_buffer sys getpagesize st of
        (Inl err, st) \<Rightarrow> Some (err, st)
      | (Inr p, st) \<Rightarrow> do {
          let st = st\<lparr>nr_pages := nr_pages st + 1\<rparr>;
          let new_slab = p + getpagesize - sizeof_hurd_slab;
          _ \<leftarrow> c_assert (obj_size st \<noteq> 0);
          let nr_objs = (getpagesize - sizeof_hurd_slab) div obj_size st;
          (err, st) \<leftarrow> grow_objs sys new_slab nr_objs p st;
          (if err \<noteq> 0 then Some (err, st)
           else do {
             st \<leftarrow> insert_slab new_slab st;
             Some (0, upd_space (\<lambda>sp. sp\<lparr>first_free := new_slab\<rparr>) st)
           })
        })
   }"

subsection \<open>The interface\<close>

text \<open>The lock is not recursive: locking it again never returns.\<close>

definition slab_lock :: "'w slab_state \<Rightarrow> 'w slab_state option" where
  "slab_lock st = do { _ \<leftarrow> c_assert (\<not> sp_lock (space st)); Some (upd_space (\<lambda>sp. sp\<lparr>sp_lock := True\<rparr>) st) }"

definition slab_unlock :: "'w slab_state \<Rightarrow> 'w slab_state" where
  "slab_unlock st = upd_space (\<lambda>sp. sp\<lparr>sp_lock := False\<rparr>) st"

definition zero_space :: "'w hurd_slab_space" where
  "zero_space = \<lparr>initialized = False, sp_lock = False, requested_size = 0, requested_align = 0,
     sp_allocate_buffer = None, sp_deallocate_buffer = None, constructor = None, destructor = None, hook = 0,
     slab_first = 0, slab_last = 0, first_free = 0, full_refcount = 0, sp_size = 0\<rparr>"

text \<open>\<^verbatim>\<open>pthread_mutex_init\<close> with default attributes returns 0.\<close>

definition hurd_slab_init ::
  "u32 \<Rightarrow> u32 \<Rightarrow> 'w alloc_fn option \<Rightarrow> 'w dealloc_fn option \<Rightarrow> 'w ctor_fn option \<Rightarrow> 'w dtor_fn option \<Rightarrow> nat
    \<Rightarrow> errno \<times> 'w hurd_slab_space" where
  "hurd_slab_init sz align alloc dealloc ctor dtor hk =
     (let alignment = (if align = 0 then 4 else align);
          sp = zero_space\<lparr>requested_size := sz, requested_align := alignment\<rparr>
      in if slab_round sz alignment > 4096 - 16 - 4 then (SLAB_EINVAL, sp)
         else (0, sp\<lparr>sp_lock := False, sp_allocate_buffer := alloc, sp_deallocate_buffer := dealloc,
                    constructor := ctor, destructor := dtor, hook := hk\<rparr>))"

definition HURD_SLAB_SPACE_INITIALIZER ::
  "u32 \<Rightarrow> u32 \<Rightarrow> 'w alloc_fn option \<Rightarrow> 'w dealloc_fn option \<Rightarrow> 'w ctor_fn option \<Rightarrow> 'w dtor_fn option \<Rightarrow> nat
    \<Rightarrow> 'w hurd_slab_space" where
  "HURD_SLAB_SPACE_INITIALIZER sizeof_type alignof_type alloc dealloc ctor dtor hk =
     zero_space\<lparr>requested_size := sizeof_type, requested_align := alignof_type,
       sp_allocate_buffer := alloc, sp_deallocate_buffer := dealloc, constructor := ctor, destructor := dtor, hook := hk\<rparr>"

definition hurd_slab_create ::
  "'w system \<Rightarrow> u32 \<Rightarrow> u32 \<Rightarrow> 'w alloc_fn option \<Rightarrow> 'w dealloc_fn option \<Rightarrow> 'w ctor_fn option \<Rightarrow> 'w dtor_fn option \<Rightarrow> nat
    \<Rightarrow> 'w \<Rightarrow> (errno + 'w hurd_slab_space) \<times> 'w" where
  "hurd_slab_create sys sz align alloc dealloc ctor dtor hk w =
     (let (ok, w) = sys_malloc sys w
      in if \<not> ok then (Inl SLAB_ENOMEM, w)
         else let (err, sp) = hurd_slab_init sz align alloc dealloc ctor dtor hk
              in if err \<noteq> 0 then (Inl err, sys_free sys w) else (Inr sp, w))"

definition hurd_slab_destroy :: "'w system \<Rightarrow> 'w slab_state \<Rightarrow> (errno \<times> 'w slab_state) option" where
  "hurd_slab_destroy sys st = do {
     st \<leftarrow> slab_lock st;
     (err, st) \<leftarrow> reap sys st;
     Some (if err \<noteq> 0 then (err, slab_unlock st)
           else if slab_first (space st) \<noteq> 0 then (SLAB_EBUSY, slab_unlock st)
           else (0, st))
   }"

definition hurd_slab_free :: "'w system \<Rightarrow> 'w slab_state \<Rightarrow> (errno \<times> 'w slab_state) option" where
  "hurd_slab_free sys st = do {
     (err, st) \<leftarrow> hurd_slab_destroy sys st;
     Some (if err \<noteq> 0 then (err, st) else (0, st\<lparr>world := sys_free sys (world st)\<rparr>))
   }"

text \<open>The part of \<^verbatim>\<open>hurd_slab_alloc\<close> after growing.\<close>

definition slab_take :: "'w slab_state \<Rightarrow> (nat \<times> 'w slab_state) option" where
  "slab_take st = do {
     let ff = first_free (space st);
     sl \<leftarrow> slabs st ff;
     let bufctl = free_list sl;
     nxt \<leftarrow> bufs st bufctl;
     st \<leftarrow> upd_slab ff (\<lambda>s. s\<lparr>free_list := nxt\<rparr>) st;
     st \<leftarrow> upd_slab ff (\<lambda>s. s\<lparr>refcount := refcount s + 1\<rparr>) st;
     let st = st\<lparr>bufs := (bufs st)(bufctl \<mapsto> ff)\<rparr>;
     sl \<leftarrow> slabs st ff;
     st \<leftarrow> (if refcount sl = full_refcount (space st)
           then do {
             new_first \<leftarrow> find_new_first st (slab_first (space st));
             Some (upd_space (\<lambda>sp. sp\<lparr>first_free := new_first\<rparr>) st)
           }
           else Some st);
     Some (bufctl - (obj_size st - sizeof_bufctl), st)
   }"

definition hurd_slab_alloc :: "'w system \<Rightarrow> 'w slab_state \<Rightarrow> ((errno + nat) \<times> 'w slab_state) option" where
  "hurd_slab_alloc sys st = do {
     st \<leftarrow> slab_lock st;
     (err, st) \<leftarrow> (if first_free (space st) = 0 then grow sys st else Some (0, st));
     (if err \<noteq> 0 then Some (Inl err, slab_unlock st)
      else do {
        (buffer, st) \<leftarrow> slab_take st;
        Some (Inr buffer, slab_unlock st)
      })
   }"

definition put_on_slab_list :: "nat \<Rightarrow> nat \<Rightarrow> 'w slab_state \<Rightarrow> 'w slab_state option" where
  "put_on_slab_list slab bufctl st = do {
     sl \<leftarrow> slabs st slab;
     let st = st\<lparr>bufs := (bufs st)(bufctl \<mapsto> free_list sl)\<rparr>;
     st \<leftarrow> upd_slab slab (\<lambda>s. s\<lparr>free_list := bufctl\<rparr>) st;
     st \<leftarrow> upd_slab slab (\<lambda>s. s\<lparr>refcount := refcount s - 1\<rparr>) st;
     sl \<leftarrow> slabs st slab;
     _ \<leftarrow> c_assert (refcount sl \<ge> 0);
     Some st
   }"

definition hurd_slab_dealloc :: "nat \<Rightarrow> 'w slab_state \<Rightarrow> 'w slab_state option" where
  "hurd_slab_dealloc buffer st = do {
     _ \<leftarrow> c_assert (initialized (space st));
     st \<leftarrow> slab_lock st;
     let bufctl = buffer + (obj_size st - sizeof_bufctl);
     slab \<leftarrow> bufs st bufctl;
     st \<leftarrow> put_on_slab_list slab bufctl st;
     st \<leftarrow> (if first_free (space st) = 0 then Some (upd_space (\<lambda>sp. sp\<lparr>first_free := slab\<rparr>) st)
           else do {
             sl \<leftarrow> slabs st slab;
             ff \<leftarrow> slabs st (first_free (space st));
             Some (if refcount sl < refcount ff then upd_space (\<lambda>sp. sp\<lparr>first_free := slab\<rparr>) st else st)
           });
     Some (slab_unlock st)
   }"

end
