(* ===== verification/Slab_Alloc.thy ===== *)
theory Slab_Alloc
  imports Slab
begin

text \<open>
  Correctness of the slab allocator. The invariant of a space relates the memory to a list of slabs and a free list for
  each of them. Seen from outside, a space is the set of its allocated objects: \<^verbatim>\<open>hurd_slab_alloc\<close> adds an object that
  was not in the set, \<^verbatim>\<open>hurd_slab_dealloc\<close> removes one, and the objects of the set occupy disjoint memory. The
  locale \<open>object_allocator\<close> states this interface.
\<close>

subsection \<open>Lists in memory\<close>

text \<open>A segment of the doubly-linked list: \<open>pv\<close> is in front of it and \<open>nx\<close> behind it.\<close>

definition hdn :: "nat list \<Rightarrow> nat \<Rightarrow> nat" where
  "hdn xs nx = (case xs of [] \<Rightarrow> nx | x # _ \<Rightarrow> x)"

fun dseg :: "(nat \<rightharpoonup> hurd_slab) \<Rightarrow> nat \<Rightarrow> nat list \<Rightarrow> nat \<Rightarrow> bool" where
  "dseg h pv [] nx \<longleftrightarrow> True"
| "dseg h pv (x # xs) nx \<longleftrightarrow>
     x \<noteq> 0 \<and> (\<exists>s. h x = Some s \<and> slab_prev s = pv \<and> slab_next s = hdn xs nx) \<and> dseg h x xs nx"

fun bufchain :: "(nat \<rightharpoonup> nat) \<Rightarrow> nat \<Rightarrow> nat list \<Rightarrow> bool" where
  "bufchain m a [] \<longleftrightarrow> a = 0"
| "bufchain m a (x # xs) \<longleftrightarrow> a = x \<and> x \<noteq> 0 \<and> (\<exists>n. m x = Some n \<and> bufchain m n xs)"

lemma hdn_simps [simp]: "hdn [] nx = nx" "hdn (x # xs) nx = x"
  by (simp_all add: hdn_def)

lemma hdn_append [simp]: "hdn (xs @ ys) nx = hdn xs (hdn ys nx)"
  by (cases xs) auto

lemma hdn_in: "xs \<noteq> [] \<Longrightarrow> hdn xs nx \<in> set xs"
  by (cases xs) auto

lemma dseg_nz: "dseg h pv xs nx \<Longrightarrow> x \<in> set xs \<Longrightarrow> x \<noteq> 0"
  by (induction xs arbitrary: pv) auto

lemma dseg_mapped: "dseg h pv xs nx \<Longrightarrow> x \<in> set xs \<Longrightarrow> \<exists>s. h x = Some s"
  by (induction xs arbitrary: pv) auto

lemma dseg_cong:
  "dseg h pv xs nx \<Longrightarrow> (\<And>x s. x \<in> set xs \<Longrightarrow> h x = Some s \<Longrightarrow>
      \<exists>s'. h' x = Some s' \<and> slab_prev s' = slab_prev s \<and> slab_next s' = slab_next s) \<Longrightarrow> dseg h' pv xs nx"
  by (induction xs arbitrary: pv) fastforce+

lemma dseg_frame: "dseg h pv xs nx \<Longrightarrow> (\<And>x. x \<in> set xs \<Longrightarrow> h' x = h x) \<Longrightarrow> dseg h' pv xs nx"
  by (erule dseg_cong) auto

lemma dseg_append [simp]:
  "dseg h pv (xs @ ys) nx \<longleftrightarrow> dseg h pv xs (hdn ys nx) \<and> dseg h (last (pv # xs)) ys nx"
  by (induction xs arbitrary: pv) auto

lemma dseg_hdn: "dseg h pv xs 0 \<Longrightarrow> hdn xs 0 = 0 \<longleftrightarrow> xs = []"
  by (cases xs) auto

lemma dseg_set_last:
  assumes "dseg h pv xs nx" "distinct xs" "xs \<noteq> []" "h (last xs) = Some t"
  shows "dseg (h(last xs \<mapsto> t\<lparr>slab_next := nx'\<rparr>)) pv xs nx'"
proof -
  obtain ys y where xs: "xs = ys @ [y]" using assms(3) by (metis append_butlast_last_id)
  then show ?thesis using assms by (auto elim!: dseg_frame)
qed

lemma dseg_set_first:
  assumes "dseg h pv xs nx" "distinct xs" "xs \<noteq> []" "h (hdn xs nx) = Some t"
  shows "dseg (h(hdn xs nx \<mapsto> t\<lparr>slab_prev := pv'\<rparr>)) pv' xs nx"
  using assms by (cases xs) (auto elim!: dseg_frame)

lemma bufchain_cong: "bufchain m a xs \<Longrightarrow> (\<And>x. x \<in> set xs \<Longrightarrow> m' x = m x) \<Longrightarrow> bufchain m' a xs"
  by (induction xs arbitrary: a) auto

lemma bufchain_0 [simp]: "bufchain m 0 xs \<longleftrightarrow> xs = []"
  by (cases xs) auto

lemma find_new_first_seg:
  "dseg (slabs st) pv xs 0 \<Longrightarrow> \<exists>r. find_new_first st (hdn xs 0) = Some r
     \<and> (if r = 0 then \<forall>x\<in>set xs. \<exists>s. slabs st x = Some s \<and> refcount s = full_refcount (space st)
        else r \<in> set xs \<and> (\<exists>s. slabs st r = Some s \<and> refcount s \<noteq> full_refcount (space st)))"
proof (induction xs arbitrary: pv)
  case Nil
  show ?case by (simp add: find_new_first.simps)
next
  case (Cons x xs)
  then obtain s where s: "slabs st x = Some s" "slab_next s = hdn xs 0" "x \<noteq> 0" and tl: "dseg (slabs st) x xs 0" by auto
  show ?case
  proof (cases "refcount s = full_refcount (space st)")
    case True
    then have "find_new_first st x = find_new_first st (hdn xs 0)" using s by (subst find_new_first.simps) simp
    with Cons.IH [OF tl] s(1,3) True show ?thesis by (fastforce split: if_splits)
  next
    case False
    with s have "find_new_first st x = Some x" by (subst find_new_first.simps) simp
    with s False show ?thesis by simp
  qed
qed

text \<open>The destructor is called once for every object of the list, in the order of the list.\<close>

definition destroy_all :: "'w dtor_fn \<Rightarrow> nat \<Rightarrow> nat \<Rightarrow> nat list \<Rightarrow> 'w \<Rightarrow> 'w" where
  "destroy_all f hk z bs w = fold (\<lambda>b. f hk (b - (z - sizeof_bufctl))) bs w"

lemma destroy_buffers_chain:
  assumes "bufchain (bufs st) b F" "destructor (space st) = Some f"
  shows "destroy_buffers st b = Some (st\<lparr>world := destroy_all f (hook (space st)) (obj_size st) F (world st)\<rparr>)"
  using assms
proof (induction F arbitrary: b st)
  case Nil
  then show ?case by (simp add: destroy_buffers.simps destroy_all_def)
next
  case (Cons x F)
  then obtain n where n: "b = x" "x \<noteq> 0" "bufs st x = Some n" "bufchain (bufs st) n F" by auto
  let ?st = "st\<lparr>world := f (hook (space st)) (x - (obj_size st - sizeof_bufctl)) (world st)\<rparr>"
  have "destroy_buffers st b = destroy_buffers ?st n"
    using n Cons.prems(2) by (subst destroy_buffers.simps) (simp add: Let_def)
  also have "\<dots> = Some (?st\<lparr>world := destroy_all f (hook (space ?st)) (obj_size ?st) F (world ?st)\<rparr>)"
    using Cons.IH [of ?st n] n(4) Cons.prems(2) by simp
  finally show ?case by (simp add: destroy_all_def)
qed

subsection \<open>The layout of a page\<close>

text \<open>The control words of the slab at \<open>s\<close> when objects have \<open>z\<close> bytes.\<close>

definition bufctls :: "nat \<Rightarrow> nat \<Rightarrow> nat set" where
  "bufctls z s = (\<lambda>i. s - 4080 + i * z + z - 4) ` {..<4080 div z}"

text \<open>The address of a slab structure: 16 bytes before the end of a page that is not page 0.\<close>

definition slab_addr :: "nat \<Rightarrow> bool" where
  "slab_addr s \<longleftrightarrow> s mod 4096 = 4080 \<and> 4096 < s"

definition page_of :: "nat \<Rightarrow> nat" where
  "page_of a = a - a mod 4096"

lemma slab_addrE:
  assumes "slab_addr s"
  obtains q where "s = 4096 * q + 4080" "0 < q"
proof -
  have "4096 * (s div 4096) + s mod 4096 = s" by simp
  with assms have "s = 4096 * (s div 4096) + 4080" "0 < s div 4096" unfolding slab_addr_def by linarith+
  then show thesis by (rule that)
qed

lemma obj_index: "(i::nat) < 4080 div z \<Longrightarrow> i * z + z \<le> 4080"
proof -
  assume "i < 4080 div z"
  then have "Suc i * z \<le> 4080 div z * z" by (intro mult_le_mono1 Suc_leI)
  also have "\<dots> \<le> 4080" by (rule div_times_less_eq_dividend)
  finally show ?thesis by simp
qed

lemma bufctlE:
  assumes "b \<in> bufctls z s" "slab_addr s" "4 \<le> z"
  obtains "s - 4080 \<le> b" "b + 4 \<le> s" "b mod 4096 \<noteq> 4080" "b \<noteq> 0" "page_of b = s - 4080" "page_of b = page_of s"
proof -
  from assms(1) obtain i where i: "i < 4080 div z" and b: "b = s - 4080 + i * z + z - 4" by (auto simp: bufctls_def)
  from obj_index [OF i] have "i * z + z \<le> 4080" .
  moreover from assms(2) obtain q where "s = 4096 * q + 4080" "0 < q" by (rule slab_addrE)
  moreover obtain r where "b = 4096 * q + r" "r \<le> 4076" "4096 * q + r \<noteq> 0" using calculation b assms(3) that [of "i * z + z - 4"] by auto
  ultimately show thesis using that by (simp add: page_of_def)
qed

lemma bufctls_disjoint:
  assumes "b \<in> bufctls z s" "b \<in> bufctls z s'" "slab_addr s" "slab_addr s'" "4 \<le> z"
  shows "s = s'"
proof -
  have "s - 4080 = s' - 4080" using assms by (metis bufctlE)
  moreover have "4080 < s" "4080 < s'" using assms(3,4) by (auto simp: slab_addr_def)
  ultimately show ?thesis by linarith
qed

lemma inj_bufctl: "4 \<le> (z :: nat) \<Longrightarrow> inj_on (\<lambda>i. s - 4080 + i * z + z - 4) A"
proof (rule inj_onI)
  fix x y
  assume z: "4 \<le> z" and eq: "s - 4080 + x * z + z - 4 = s - 4080 + y * z + z - 4"
  then have "x * z = y * z" by linarith
  with z show "x = y" by simp
qed

lemma card_bufctls [simp]: "4 \<le> z \<Longrightarrow> card (bufctls z s) = 4080 div z"
  by (simp add: bufctls_def card_image inj_bufctl)

lemma finite_bufctls [simp]: "finite (bufctls z s)"
  by (simp add: bufctls_def)

text \<open>The objects in front of two control words do not overlap.\<close>

lemma bufctls_apart:
  assumes "b \<in> bufctls z s" "c \<in> bufctls z s'" "slab_addr s" "slab_addr s'" "b < c" "4 \<le> z"
  shows "b + z \<le> c"
proof (cases "s = s'")
  case True
  from assms(1,2) True obtain i j where b: "b = s - 4080 + i * z + z - 4" and c: "c = s - 4080 + j * z + z - 4"
    by (auto simp: bufctls_def)
  have "i < j"
  proof (rule ccontr)
    assume "\<not> i < j"
    then have "j * z \<le> i * z" by simp
    with b c assms(5) show False by linarith
  qed
  then have "i * z + z \<le> j * z" by (metis Suc_leI add.commute mult_Suc mult_le_mono1)
  with b c show ?thesis using assms(6) by linarith
next
  case False
  from assms(2) obtain j where j: "j < 4080 div z" and c: "c = s' - 4080 + j * z + z - 4" by (auto simp: bufctls_def)
  from assms(3) obtain q where q: "s = 4096 * q + 4080" by (rule slab_addrE)
  from assms(4) obtain q' where q': "s' = 4096 * q' + 4080" by (rule slab_addrE)
  have b: "4096 * q \<le> b" "b + 4 \<le> 4096 * q + 4080" using bufctlE [OF assms(1,3,6)] q by simp_all
  have "q < q'" using assms(5) b c q' False q obj_index [OF j] assms(6) by simp
  then show ?thesis using b c q' assms(6) by simp
qed

subsection \<open>Callbacks\<close>

text \<open>
  What the code relies on. \<open>held\<close> are the pages that the page allocator has given out, a part of the world. A fresh page
  is aligned, is not page 0 and was not held. A page that is given back with success is no longer held; for any other
  address the deallocator may give back the page around it, as the callbacks of \<^verbatim>\<open>libhurd-mm\<close> do, which chop the
  address, or nothing, as \<^verbatim>\<open>munmap\<close> does where nothing is mapped. When it returns an error nothing changes. The last 16 bytes of a fresh page
  are zero (\<open>pages_zeroed\<close>; \<^verbatim>\<open>slab.h\<close> does not say so, but pages of \<^verbatim>\<open>mmap\<close> and of the storage allocator are). Constructor and
  destructor neither allocate nor free pages, and a space whose constructor can fail has a destructor.
\<close>

definition zero_slab :: hurd_slab where
  "zero_slab = \<lparr>slab_next = 0, slab_prev = 0, refcount = 0, free_list = 0\<rparr>"

definition pages_ok :: "'w system \<Rightarrow> ('w \<Rightarrow> nat set) \<Rightarrow> 'w hurd_slab_space \<Rightarrow> bool" where
  "pages_ok sys held sp \<longleftrightarrow>
     (\<forall>w e w'. page_alloc sys sp w = (Inl e, w') \<longrightarrow> e \<noteq> 0 \<and> held w' = held w)
   \<and> (\<forall>w p hdr w'. page_alloc sys sp w = (Inr (p, hdr), w') \<longrightarrow>
        p mod 4096 = 0 \<and> p \<noteq> 0 \<and> p \<notin> held w \<and> held w' = insert p (held w))
   \<and> (\<forall>p w e w'. page_dealloc sys sp p getpagesize w = (e, w') \<longrightarrow>
        (if e \<noteq> 0 then held w' = held w
         else if p mod 4096 = 0 \<and> p \<in> held w then held w' = held w - {p}
         else held w' = held w \<or> held w' = held w - {page_of p}))"

definition pages_zeroed :: "'w system \<Rightarrow> 'w hurd_slab_space \<Rightarrow> bool" where
  "pages_zeroed sys sp \<longleftrightarrow> (\<forall>w p hdr w'. page_alloc sys sp w = (Inr (p, hdr), w') \<longrightarrow> hdr = zero_slab)"

definition callbacks_ok :: "'w system \<Rightarrow> ('w \<Rightarrow> nat set) \<Rightarrow> 'w hurd_slab_space \<Rightarrow> bool" where
  "callbacks_ok sys held sp \<longleftrightarrow> pages_ok sys held sp \<and> pages_zeroed sys sp
   \<and> (\<forall>f. constructor sp = Some f \<longrightarrow> (\<forall>b w. held (snd (f (hook sp) b w)) = held w))
   \<and> (\<forall>f. destructor sp = Some f \<longrightarrow> (\<forall>b w. held (f (hook sp) b w) = held w))
   \<and> (\<forall>f b w. constructor sp = Some f \<longrightarrow> fst (f (hook sp) b w) \<noteq> 0 \<longrightarrow> destructor sp \<noteq> None)"

lemma pages_okD:
  assumes "pages_ok sys held sp"
  shows "page_alloc sys sp w = (Inl e, w') \<Longrightarrow> e \<noteq> 0 \<and> held w' = held w"
    "page_alloc sys sp w = (Inr (p, hdr), w') \<Longrightarrow>
       p mod 4096 = 0 \<and> p \<noteq> 0 \<and> p \<notin> held w \<and> held w' = insert p (held w)"
    "page_dealloc sys sp p getpagesize w = (e, w') \<Longrightarrow>
       (if e \<noteq> 0 then held w' = held w
        else if p mod 4096 = 0 \<and> p \<in> held w then held w' = held w - {p}
        else held w' = held w \<or> held w' = held w - {page_of p})"
  using assms unfolding pages_ok_def by blast+

lemma callbacks_okD:
  assumes "callbacks_ok sys held sp"
  shows "pages_ok sys held sp" "constructor sp = Some f \<Longrightarrow> held (snd (f (hook sp) b w)) = held w"
    "destructor sp = Some f' \<Longrightarrow> held (f' (hook sp) b w) = held w"
    "constructor sp = Some f \<Longrightarrow> fst (f (hook sp) b w) \<noteq> 0 \<Longrightarrow> destructor sp \<noteq> None"
    "page_alloc sys sp w = (Inr (p, hdr), w') \<Longrightarrow> hdr = zero_slab"
  using assms unfolding callbacks_ok_def pages_zeroed_def by blast+

text \<open>The callbacks of a space do not change; the contract depends on nothing else.\<close>

definition same_callbacks :: "'w hurd_slab_space \<Rightarrow> 'w hurd_slab_space \<Rightarrow> bool" where
  "same_callbacks sp sp' \<longleftrightarrow> sp_allocate_buffer sp' = sp_allocate_buffer sp \<and> sp_deallocate_buffer sp' = sp_deallocate_buffer sp
     \<and> constructor sp' = constructor sp \<and> destructor sp' = destructor sp \<and> hook sp' = hook sp
     \<and> requested_size sp' = requested_size sp \<and> requested_align sp' = requested_align sp"

lemma same_callbacks_pages:
  "same_callbacks sp sp' \<Longrightarrow> page_alloc sys sp' = page_alloc sys sp"
  "same_callbacks sp sp' \<Longrightarrow> page_dealloc sys sp' = page_dealloc sys sp"
  by (auto simp: page_alloc_def page_dealloc_def same_callbacks_def fun_eq_iff split: option.splits)

lemma same_callbacks_ok: "same_callbacks sp sp' \<Longrightarrow> callbacks_ok sys held sp \<Longrightarrow> callbacks_ok sys held sp'"
  using same_callbacks_pages [of sp sp' sys] by (simp add: callbacks_ok_def pages_ok_def pages_zeroed_def same_callbacks_def)

lemma same_callbacks_refl [simp]: "same_callbacks sp sp"
  by (simp add: same_callbacks_def)

lemma same_callbacks_trans: "same_callbacks a b \<Longrightarrow> same_callbacks b c \<Longrightarrow> same_callbacks a c"
  by (simp add: same_callbacks_def)

lemma held_destroy_all:
  assumes "callbacks_ok sys held sp" "destructor sp = Some f"
  shows "held (destroy_all f (hook sp) z bs w) = held w"
  using callbacks_okD(3) [OF assms] by (induction bs arbitrary: w) (auto simp: destroy_all_def)

subsection \<open>The invariant\<close>

definition valid_request :: "'w hurd_slab_space \<Rightarrow> bool" where
  "valid_request sp \<longleftrightarrow> unat (requested_size sp) + 4 \<le> unat (slab_round (requested_size sp) (requested_align sp))
     \<and> unat (slab_round (requested_size sp) (requested_align sp)) \<le> 4076"

definition space_ok :: "'w hurd_slab_space \<Rightarrow> bool" where
  "space_ok sp \<longleftrightarrow> valid_request sp \<and>
     (if initialized sp
      then sp_size sp = slab_round (requested_size sp) (requested_align sp) \<and> full_refcount sp = int (4080 div unat (sp_size sp))
      else slab_first sp = 0 \<and> slab_last sp = 0 \<and> first_free sp = 0)"

text \<open>The slab at \<open>s\<close> with the free list \<open>F\<close>: the control words of all other objects name the slab.\<close>

definition slab_ok :: "nat \<Rightarrow> (nat \<rightharpoonup> hurd_slab) \<Rightarrow> (nat \<rightharpoonup> nat) \<Rightarrow> nat list \<Rightarrow> nat \<Rightarrow> bool" where
  "slab_ok z sl bf F s \<longleftrightarrow> slab_addr s \<and> distinct F \<and> set F \<subseteq> bufctls z s
     \<and> (\<exists>h. sl s = Some h \<and> bufchain bf (free_list h) F \<and> refcount h = int (4080 div z) - int (length F))
     \<and> (\<forall>b \<in> bufctls z s - set F. bf b = Some s)"

definition mem_ok :: "nat \<Rightarrow> nat list \<Rightarrow> (nat \<Rightarrow> nat list) \<Rightarrow> (nat \<rightharpoonup> hurd_slab) \<Rightarrow> (nat \<rightharpoonup> nat) \<Rightarrow> nat set \<Rightarrow> bool" where
  "mem_ok z L FL sl bf pages \<longleftrightarrow> distinct L \<and> dseg sl 0 L 0 \<and> (\<forall>s \<in> set L. slab_ok z sl bf (FL s) s)
     \<and> (\<forall>b v. bf b = Some v \<longrightarrow> slab_addr v \<longrightarrow> v \<in> set L \<and> b \<in> bufctls z v)
     \<and> (\<forall>a. sl a \<noteq> None \<or> bf a \<noteq> None \<longrightarrow> page_of a \<in> pages)"

definition slab_rep :: "('w \<Rightarrow> nat set) \<Rightarrow> nat list \<Rightarrow> (nat \<Rightarrow> nat list) \<Rightarrow> 'w slab_state \<Rightarrow> bool" where
  "slab_rep held L FL st \<longleftrightarrow> space_ok (space st) \<and> mem_ok (obj_size st) L FL (slabs st) (bufs st) (held (world st))
     \<and> slab_first (space st) = hdn L 0 \<and> slab_last (space st) = last (0 # L)
     \<and> (if first_free (space st) = 0 then \<forall>s \<in> set L. FL s = []
        else first_free (space st) \<in> set L \<and> FL (first_free (space st)) \<noteq> [])"

definition slab_inv :: "('w \<Rightarrow> nat set) \<Rightarrow> 'w slab_state \<Rightarrow> bool" where
  "slab_inv held st \<longleftrightarrow> (\<exists>L FL. slab_rep held L FL st)"

text \<open>The allocated objects: those whose control word names a slab.\<close>

definition live :: "'w slab_state \<Rightarrow> nat set" where
  "live st = {b. \<exists>s. bufs st (b + (obj_size st - sizeof_bufctl)) = Some s \<and> slab_addr s}"

subsection \<open>Updates of the memory\<close>

lemma bufchain_value: "bufchain m a F \<Longrightarrow> x \<in> set F \<Longrightarrow> \<exists>n. m x = Some n \<and> (n = 0 \<or> n \<in> set F)"
proof (induction F arbitrary: a)
  case (Cons y F)
  then obtain n where n: "m y = Some n" "bufchain m n F" by auto
  then have "n = 0 \<or> n \<in> set F" by (cases F) auto
  with n Cons show ?case by auto
qed simp

lemma slab_okD:
  assumes "slab_ok z sl bf F s"
  obtains h where "sl s = Some h" "bufchain bf (free_list h) F" "refcount h = int (4080 div z) - int (length F)"
    "slab_addr s" "distinct F" "set F \<subseteq> bufctls z s" "\<And>b. b \<in> bufctls z s \<Longrightarrow> b \<notin> set F \<Longrightarrow> bf b = Some s"
  using assms unfolding slab_ok_def by blast

lemma slab_okI:
  assumes "sl s = Some h" "bufchain bf (free_list h) F" "refcount h = int (4080 div z) - int (length F)"
    "slab_addr s" "distinct F" "set F \<subseteq> bufctls z s" "\<And>b. b \<in> bufctls z s \<Longrightarrow> b \<notin> set F \<Longrightarrow> bf b = Some s"
  shows "slab_ok z sl bf F s"
  using assms unfolding slab_ok_def by blast

lemma slab_ok_frame:
  assumes ok: "slab_ok z sl bf F s"
    and sl: "\<And>h. sl s = Some h \<Longrightarrow> \<exists>h'. sl' s = Some h' \<and> free_list h' = free_list h \<and> refcount h' = refcount h"
    and bf: "\<And>b. b \<in> bufctls z s \<Longrightarrow> bf' b = bf b"
  shows "slab_ok z sl' bf' F s"
proof (rule slab_okD [OF ok])
  fix h
  assume h: "sl s = Some h" "bufchain bf (free_list h) F" "refcount h = int (4080 div z) - int (length F)"
    "slab_addr s" "distinct F" "set F \<subseteq> bufctls z s" "\<And>b. b \<in> bufctls z s \<Longrightarrow> b \<notin> set F \<Longrightarrow> bf b = Some s"
  from sl [OF h(1)] obtain h' where h': "sl' s = Some h'" "free_list h' = free_list h" "refcount h' = refcount h" by blast
  show ?thesis
  proof (rule slab_okI [where h = h'])
    show "bufchain bf' (free_list h') F" using h(2,6) h'(2) bf by (auto intro: bufchain_cong)
  qed (use h h' bf in auto)
qed

text \<open>The control word of a free object does not name a slab.\<close>

lemma slab_ok_free:
  assumes "slab_ok z sl bf F s" "4 \<le> z" "x \<in> set F"
  shows "x \<in> bufctls z s" "bf x = Some n \<Longrightarrow> \<not> slab_addr n"
proof (rule_tac [!] slab_okD [OF assms(1)])
  fix h
  assume h: "bufchain bf (free_list h) F" "slab_addr s" "set F \<subseteq> bufctls z s"
  show "x \<in> bufctls z s" using h(3) assms(3) by blast
  assume "bf x = Some n"
  then have "n = 0 \<or> n \<in> bufctls z s" using bufchain_value [OF h(1) assms(3)] h(3) by auto
  then show "\<not> slab_addr n" using bufctlE [OF _ h(2) assms(2), of n] by (auto simp: slab_addr_def)
qed

lemma slab_ok_full: "slab_ok z sl bf F s \<Longrightarrow> sl s = Some h \<Longrightarrow> refcount h = int (4080 div z) \<longleftrightarrow> F = []"
  by (auto simp: slab_ok_def)

lemma slab_ok_complete:
  assumes "slab_ok z sl bf F s" "sl s = Some h" "4 \<le> z"
  shows "refcount h = 0 \<longleftrightarrow> set F = bufctls z s"
proof (rule slab_okD [OF assms(1)])
  fix h'
  assume h: "sl s = Some h'" "refcount h' = int (4080 div z) - int (length F)" "distinct F" "set F \<subseteq> bufctls z s"
  have "refcount h = 0 \<longleftrightarrow> card (set F) = card (bufctls z s)" using h(1-3) assms(2,3) by (auto simp: distinct_card)
  then show ?thesis using h(4) by (metis card_subset_eq finite_bufctls)
qed

lemma slab_ok_bound: "slab_ok z sl bf F s \<Longrightarrow> 4 \<le> z \<Longrightarrow> length F \<le> 4080 div z"
  using card_mono [OF finite_bufctls, of "set F" z s] by (auto simp: slab_ok_def distinct_card)

lemma mem_okD:
  assumes "mem_ok z L FL sl bf pages"
  shows "distinct L" "dseg sl 0 L 0" "s \<in> set L \<Longrightarrow> slab_ok z sl bf (FL s) s"
    "bf b = Some v \<Longrightarrow> slab_addr v \<Longrightarrow> v \<in> set L" "bf b = Some v \<Longrightarrow> slab_addr v \<Longrightarrow> b \<in> bufctls z v"
    "sl a \<noteq> None \<or> bf a \<noteq> None \<Longrightarrow> page_of a \<in> pages"
  using assms unfolding mem_ok_def by blast+

lemma mem_okI:
  assumes "distinct L" "dseg sl 0 L 0" "\<And>s. s \<in> set L \<Longrightarrow> slab_ok z sl bf (FL s) s"
    "\<And>b v. bf b = Some v \<Longrightarrow> slab_addr v \<Longrightarrow> v \<in> set L \<and> b \<in> bufctls z v"
    "\<And>a. sl a \<noteq> None \<or> bf a \<noteq> None \<Longrightarrow> page_of a \<in> pages"
  shows "mem_ok z L FL sl bf pages"
  using assms unfolding mem_ok_def by blast

lemma mem_slab_addr: "mem_ok z L FL sl bf pages \<Longrightarrow> s \<in> set L \<Longrightarrow> slab_addr s"
  using mem_okD(3) slab_ok_def by blast

text \<open>One object of one slab changes between free and allocated.\<close>

lemma mem_ok_upd:
  assumes mem: "mem_ok z L FL sl bf pages" and s: "s \<in> set L" "sl s = Some h" and z: "4 \<le> z"
    and h': "slab_prev h' = slab_prev h" "slab_next h' = slab_next h" and b: "b \<in> bufctls z s"
    and v: "slab_addr v \<Longrightarrow> v = s" and ok: "slab_ok z (sl(s \<mapsto> h')) (bf(b \<mapsto> v)) F s"
  shows "mem_ok z L (FL(s := F)) (sl(s \<mapsto> h')) (bf(b \<mapsto> v)) pages"
proof (rule mem_okI)
  note M = mem_okD [OF mem] and A = mem_slab_addr [OF mem]
  show "distinct L" by (rule M(1))
  show "dseg (sl(s \<mapsto> h')) 0 L 0" using M(2) by (rule dseg_cong) (use s h' in auto)
  show "slab_ok z (sl(s \<mapsto> h')) (bf(b \<mapsto> v)) ((FL(s := F)) t) t" if t: "t \<in> set L" for t
  proof (cases "t = s")
    case True
    then show ?thesis using ok by simp
  next
    case False
    have "b \<notin> bufctls z t" using bufctls_disjoint [OF b _ A [OF s(1)] A [OF t] z] False by blast
    then show ?thesis using False by (auto intro!: slab_ok_frame [OF M(3) [OF t]])
  qed
  show "v' \<in> set L \<and> b' \<in> bufctls z v'" if "(bf(b \<mapsto> v)) b' = Some v'" "slab_addr v'" for b' v'
    using that M(4,5) v b s(1) by (auto split: if_splits)
  have "page_of b = page_of s" by (rule bufctlE [OF b A [OF s(1)] z])
  then have "page_of b \<in> pages" using M(6) [of s] s(2) by simp
  then show "page_of a \<in> pages" if "(sl(s \<mapsto> h')) a \<noteq> None \<or> (bf(b \<mapsto> v)) a \<noteq> None" for a
    using that M(6) [of a] M(6) [of s] s(2) by (auto split: if_splits)
qed

lemma mem_ok_take:
  assumes mem: "mem_ok z L FL sl bf pages" and s: "s \<in> set L" "sl s = Some h" and z: "4 \<le> z" and F: "FL s = b # F"
  obtains n where "free_list h = b" "bf b = Some n"
    "mem_ok z L (FL(s := F)) (sl(s \<mapsto> h\<lparr>free_list := n, refcount := refcount h + 1\<rparr>)) (bf(b \<mapsto> s)) pages"
proof (rule slab_okD [OF mem_okD(3) [OF mem s(1)]])
  fix h'
  assume h: "sl s = Some h'" "bufchain bf (free_list h') (FL s)" "refcount h' = int (4080 div z) - int (length (FL s))"
    "slab_addr s" "distinct (FL s)" "set (FL s) \<subseteq> bufctls z s" "\<And>b. b \<in> bufctls z s \<Longrightarrow> b \<notin> set (FL s) \<Longrightarrow> bf b = Some s"
  from h(2) F obtain n where n: "free_list h' = b" "bf b = Some n" "bufchain bf n F" by auto
  show thesis
  proof (rule that)
    show "free_list h = b" "bf b = Some n" using n h(1) s(2) by auto
    show "mem_ok z L (FL(s := F)) (sl(s \<mapsto> h\<lparr>free_list := n, refcount := refcount h + 1\<rparr>)) (bf(b \<mapsto> s)) pages"
    proof (rule mem_ok_upd [OF mem s z])
      show "b \<in> bufctls z s" using h(6) F by auto
      show "slab_ok z (sl(s \<mapsto> h\<lparr>free_list := n, refcount := refcount h + 1\<rparr>)) (bf(b \<mapsto> s)) F s"
      proof (rule slab_okI)
        show "bufchain (bf(b \<mapsto> s)) (free_list (h\<lparr>free_list := n, refcount := refcount h + 1\<rparr>)) F"
          using n(3) h(5) F by (auto intro: bufchain_cong)
      qed (use h F s(2) in auto)
    qed simp_all
  qed
qed

lemma mem_ok_put:
  assumes mem: "mem_ok z L FL sl bf pages" and s: "s \<in> set L" "sl s = Some h" and z: "4 \<le> z"
    and b: "b \<in> bufctls z s" "bf b = Some s"
  shows "mem_ok z L (FL(s := b # FL s)) (sl(s \<mapsto> h\<lparr>free_list := b, refcount := refcount h - 1\<rparr>)) (bf(b \<mapsto> free_list h)) pages"
    "0 \<le> refcount h - 1" "b \<notin> set (FL s)"
proof -
  obtain h' where h: "sl s = Some h'" "bufchain bf (free_list h') (FL s)" "refcount h' = int (4080 div z) - int (length (FL s))"
    "slab_addr s" "distinct (FL s)" "set (FL s) \<subseteq> bufctls z s" "\<And>b. b \<in> bufctls z s \<Longrightarrow> b \<notin> set (FL s) \<Longrightarrow> bf b = Some s"
    by (rule slab_okD [OF mem_okD(3) [OF mem s(1)]]) blast
  have small: "\<not> slab_addr x" if "x = 0 \<or> x \<in> set (FL s)" for x
    using that h(6) bufctlE [OF _ h(4) z, of x] by (auto simp: slab_addr_def)
  show nb: "b \<notin> set (FL s)" using slab_ok_free(2) [OF mem_okD(3) [OF mem s(1)] z _ b(2)] h(4) by blast
  have b0: "b \<noteq> 0" by (rule bufctlE [OF b(1) h(4) z])
  have "free_list h = 0 \<or> free_list h \<in> set (FL s)" using h(1,2) s(2) by (cases "FL s") auto
  then have v: "\<not> slab_addr (free_list h)" by (rule small)
  have ok: "slab_ok z (sl(s \<mapsto> h\<lparr>free_list := b, refcount := refcount h - 1\<rparr>)) (bf(b \<mapsto> free_list h)) (b # FL s) s"
  proof (rule slab_okI)
    show "bufchain (bf(b \<mapsto> free_list h)) (free_list (h\<lparr>free_list := b, refcount := refcount h - 1\<rparr>)) (b # FL s)"
      using h(1,2) s(2) nb b0 by (auto intro: bufchain_cong)
  qed (use h nb b s(2) in auto)
  show "mem_ok z L (FL(s := b # FL s)) (sl(s \<mapsto> h\<lparr>free_list := b, refcount := refcount h - 1\<rparr>)) (bf(b \<mapsto> free_list h)) pages"
    by (rule mem_ok_upd [OF mem s z]) (use b v ok in auto)
  show "0 \<le> refcount h - 1" using slab_ok_bound [OF ok z] h(1,3) s(2) by simp
qed

subsection \<open>Taking an object\<close>

lemma bufctl_ge: "b \<in> bufctls z s \<Longrightarrow> 4 \<le> z \<Longrightarrow> z - 4 \<le> b"
  by (auto simp: bufctls_def)

lemma live_upd:
  assumes "bufs st' = (bufs st)(c \<mapsto> v)" "sp_size (space st') = sp_size (space st)" "obj_size st - 4 \<le> c"
  shows "live st' = (if slab_addr v then insert (c - (obj_size st - 4)) (live st) else live st - {c - (obj_size st - 4)})"
  using assms by (auto simp: live_def)

lemma live_bufctl:
  assumes "obj_size st - 4 \<le> c"
  shows "c - (obj_size st - 4) \<in> live st \<longleftrightarrow> (\<exists>s. bufs st c = Some s \<and> slab_addr s)"
  using assms by (simp add: live_def)

lemma space_ok_size: "space_ok sp \<Longrightarrow> initialized sp \<Longrightarrow> 4 \<le> unat (sp_size sp) \<and> unat (sp_size sp) \<le> 4076"
  by (auto simp: space_ok_def valid_request_def)

lemma slab_repD:
  assumes "slab_rep held L FL st"
  shows "space_ok (space st)" "mem_ok (obj_size st) L FL (slabs st) (bufs st) (held (world st))"
    "slab_first (space st) = hdn L 0" "slab_last (space st) = last (0 # L)"
    "first_free (space st) = 0 \<Longrightarrow> s \<in> set L \<Longrightarrow> FL s = []"
    "first_free (space st) \<noteq> 0 \<Longrightarrow> first_free (space st) \<in> set L"
    "first_free (space st) \<noteq> 0 \<Longrightarrow> FL (first_free (space st)) \<noteq> []"
  using assms by (auto simp: slab_rep_def)

lemma slab_rep_geometry:
  assumes "slab_rep held L FL st" "L \<noteq> []"
  shows "initialized (space st)" "4 \<le> obj_size st" "full_refcount (space st) = int (4080 div obj_size st)"
proof -
  note R = slab_repD [OF assms(1)]
  show init: "initialized (space st)"
    using R(1,3) hdn_in [OF assms(2), of 0] dseg_nz [OF mem_okD(2) [OF R(2)]] by (auto simp: space_ok_def split: if_splits)
  then show "4 \<le> obj_size st" using space_ok_size R(1) by blast
  show "full_refcount (space st) = int (4080 div obj_size st)" using R(1) init by (simp add: space_ok_def)
qed

text \<open>What the search for a slab with a free object finds.\<close>

lemma find_new_first_rep:
  assumes mem: "mem_ok (obj_size st) L FL (slabs st) (bufs st) pages"
    and full: "L \<noteq> [] \<Longrightarrow> full_refcount (space st) = int (4080 div obj_size st)"
  obtains r where "find_new_first st (hdn L 0) = Some r" "r = 0 \<Longrightarrow> \<forall>s \<in> set L. FL s = []"
    "r \<noteq> 0 \<Longrightarrow> r \<in> set L \<and> FL r \<noteq> []"
proof -
  note M = mem_okD [OF mem]
  from find_new_first_seg [OF M(2)] obtain r where r: "find_new_first st (hdn L 0) = Some r"
    "if r = 0 then \<forall>x\<in>set L. \<exists>s. slabs st x = Some s \<and> refcount s = full_refcount (space st)
     else r \<in> set L \<and> (\<exists>s. slabs st r = Some s \<and> refcount s \<noteq> full_refcount (space st))" by blast
  have F: "FL x = [] \<longleftrightarrow> refcount h = full_refcount (space st)" if "x \<in> set L" "slabs st x = Some h" for x h
    using slab_ok_full [OF M(3) [OF that(1)] that(2)] full that(1) by fastforce
  show thesis
  proof (rule that [OF r(1)])
    show "\<forall>s \<in> set L. FL s = []" if "r = 0" using r(2) that F by fastforce
    show "r \<in> set L \<and> FL r \<noteq> []" if "r \<noteq> 0" using r(2) that F by fastforce
  qed
qed

lemma slab_take_rep:
  assumes rep: "slab_rep held L FL st" and ff: "first_free (space st) \<noteq> 0"
  obtains b st' FL' where "slab_take st = Some (b, st')" "slab_rep held L FL' st'" "b \<notin> live st"
    "live st' = insert b (live st)" "space st' = space st\<lparr>first_free := first_free (space st')\<rparr>" "world st' = world st"
proof -
  note R = slab_repD [OF rep]
  let ?f = "first_free (space st)" and ?z = "obj_size st"
  note fL = R(6) [OF ff]
  then have ne: "L \<noteq> []" by auto
  note G = slab_rep_geometry [OF rep ne]
  obtain c F where F: "FL ?f = c # F" using R(7) [OF ff] by (cases "FL ?f") auto
  obtain h where h: "slabs st ?f = Some h" using dseg_mapped [OF mem_okD(2) [OF R(2)] fL] by blast
  obtain n where n: "free_list h = c" "bufs st c = Some n"
      and mem: "mem_ok ?z L (FL(?f := F)) ((slabs st)(?f \<mapsto> h\<lparr>free_list := n, refcount := refcount h + 1\<rparr>)) ((bufs st)(c \<mapsto> ?f)) (held (world st))"
    using mem_ok_take [OF R(2) fL h G(2) F] by blast
  define st1 where "st1 = st\<lparr>slabs := (slabs st)(?f \<mapsto> h\<lparr>free_list := n, refcount := refcount h + 1\<rparr>), bufs := (bufs st)(c \<mapsto> ?f)\<rparr>"
  have mem1: "mem_ok (obj_size st1) L (FL(?f := F)) (slabs st1) (bufs st1) (held (world st1))" using mem by (simp add: st1_def)
  obtain r where r: "find_new_first st1 (hdn L 0) = Some r" "r = 0 \<Longrightarrow> \<forall>s \<in> set L. (FL(?f := F)) s = []"
      "r \<noteq> 0 \<Longrightarrow> r \<in> set L \<and> (FL(?f := F)) r \<noteq> []"
    using find_new_first_rep [OF mem1] G(3) by (auto simp: st1_def)
  define ff' where "ff' = (if refcount h + 1 = full_refcount (space st) then r else ?f)"
  define st2 where "st2 = upd_space (\<lambda>sp. sp\<lparr>first_free := ff'\<rparr>) st1"
  have take: "slab_take st = Some (c - (?z - 4), st2)"
  proof (cases "refcount h + 1 = full_refcount (space st)")
    case True
    then show ?thesis using h n r(1) R(3)
      by (simp add: slab_take_def upd_slab_def Let_def st2_def ff'_def upd_space_def st1_def True [symmetric])
  next
    case False
    then show ?thesis using h n by (simp add: slab_take_def upd_slab_def Let_def st2_def ff'_def upd_space_def st1_def)
  qed
  have full: "refcount h + 1 = full_refcount (space st) \<longleftrightarrow> F = []"
    using slab_ok_full [OF mem_okD(3) [OF mem1 fL]] G(3) by (simp add: st1_def)
  have rep2: "slab_rep held L (FL(?f := F)) st2"
    unfolding slab_rep_def using R(1,3,4) mem1 r(2,3) full ff fL
    by (auto simp: st2_def st1_def upd_space_def ff'_def space_ok_def valid_request_def)
  have A: "slab_addr ?f" by (rule mem_slab_addr [OF R(2) fL])
  note free = slab_ok_free [OF mem_okD(3) [OF R(2) fL] G(2), of c]
  have cb: "c \<in> bufctls ?z ?f" and "\<not> slab_addr n" using free F n(2) by auto
  then have new: "c - (?z - 4) \<notin> live st" using live_bufctl [OF bufctl_ge [OF cb G(2)]] n(2) by simp
  have "live st2 = insert (c - (?z - 4)) (live st)"
    using live_upd [OF _ _ bufctl_ge [OF cb G(2)], of st2 ?f] A by (simp add: st2_def st1_def upd_space_def)
  from that [OF take rep2 new this] show thesis by (simp add: st2_def st1_def upd_space_def)
qed

subsection \<open>Growing\<close>

text \<open>Memory outside of the slabs of the list.\<close>

lemma page_of_slab: "slab_addr s \<Longrightarrow> page_of s = s - 4080"
  by (simp add: page_of_def slab_addr_def)

lemma slab_addr_page: "slab_addr s \<Longrightarrow> slab_addr t \<Longrightarrow> page_of s = page_of t \<Longrightarrow> s = t"
  by (auto simp: page_of_slab) (auto simp: slab_addr_def)

lemma mem_ok_foreign:
  assumes mem: "mem_ok z L FL sl bf pages" and s: "s \<notin> set L" "slab_addr s" "page_of s \<in> pages" and z: "4 \<le> z"
    and b: "b \<in> bufctls z s" and v: "\<not> slab_addr v"
  shows "mem_ok z L FL (sl(s \<mapsto> h)) (bf(b \<mapsto> v)) pages"
proof (rule mem_okI)
  note M = mem_okD [OF mem] and A = mem_slab_addr [OF mem]
  show "distinct L" by (rule M(1))
  show "dseg (sl(s \<mapsto> h)) 0 L 0" using M(2) by (rule dseg_frame) (use s in auto)
  show "slab_ok z (sl(s \<mapsto> h)) (bf(b \<mapsto> v)) (FL t) t" if t: "t \<in> set L" for t
  proof (rule slab_ok_frame [OF M(3) [OF t]])
    show "(bf(b \<mapsto> v)) c = bf c" if "c \<in> bufctls z t" for c
      using bufctls_disjoint [OF b _ s(2) A [OF t] z] that t s(1) by auto
  qed (use t s(1) in auto)
  show "v' \<in> set L \<and> b' \<in> bufctls z v'" if "(bf(b \<mapsto> v)) b' = Some v'" "slab_addr v'" for b' v'
    using that M(4,5) v by (auto split: if_splits)
  have "page_of b = page_of s" by (rule bufctlE [OF b s(2) z])
  then show "page_of a \<in> pages" if "(sl(s \<mapsto> h)) a \<noteq> None \<or> (bf(b \<mapsto> v)) a \<noteq> None" for a
    using that M(6) [of a] s(3) by (auto split: if_splits)
qed

lemma unmap_range_page:
  assumes "p mod 4096 = 0"
  shows "unmap_range p 4096 m a = (if page_of a = p then None else m a)"
proof -
  obtain q where q: "p = 4096 * q" using assms by (metis mod_0_imp_dvd dvdE)
  have "p \<le> a \<and> a < p + 4096 \<longleftrightarrow> page_of a = p"
  proof
    assume "p \<le> a \<and> a < p + 4096"
    then obtain r where "a = 4096 * q + r" "r < 4096" using q by (metis add_less_cancel_left le_Suc_ex)
    then show "page_of a = p" using q by (simp add: page_of_def)
  next
    assume "page_of a = p"
    moreover have "a mod 4096 < 4096" "a mod 4096 \<le> a" by simp_all
    ultimately show "p \<le> a \<and> a < p + 4096" unfolding page_of_def by linarith
  qed
  then show ?thesis by (simp add: unmap_range_def)
qed

lemma mem_ok_unmap:
  assumes mem: "mem_ok z L FL sl bf pages" and p: "p mod 4096 = 0" and z: "L \<noteq> [] \<Longrightarrow> 4 \<le> z"
    and other: "\<And>s. s \<in> set L \<Longrightarrow> page_of s \<noteq> p"
    and left: "pages - {p} \<subseteq> pages'"
  shows "mem_ok z L FL (unmap_range p 4096 sl) (unmap_range p 4096 bf) pages'"
    "\<And>b v. slab_addr v \<Longrightarrow> unmap_range p 4096 bf b = Some v \<longleftrightarrow> bf b = Some v"
proof -
  note M = mem_okD [OF mem] and A = mem_slab_addr [OF mem] and U = unmap_range_page [OF p]
  have B: "page_of b \<noteq> p" if "s \<in> set L" "b \<in> bufctls z s" for b s
  proof -
    have "4 \<le> z" using z that(1) by (cases L) auto
    then have "page_of b = page_of s" by (rule bufctlE [OF that(2) A [OF that(1)]])
    with other [OF that(1)] show ?thesis by simp
  qed
  show "mem_ok z L FL (unmap_range p 4096 sl) (unmap_range p 4096 bf) pages'"
  proof (rule mem_okI)
    show "distinct L" by (rule M(1))
    show "dseg (unmap_range p 4096 sl) 0 L 0" using M(2) by (rule dseg_frame) (use other in \<open>auto simp: U\<close>)
    show "slab_ok z (unmap_range p 4096 sl) (unmap_range p 4096 bf) (FL t) t" if t: "t \<in> set L" for t
      by (rule slab_ok_frame [OF M(3) [OF t]]) (use t other B in \<open>auto simp: U\<close>)
    show "page_of a \<in> pages'" if "unmap_range p 4096 sl a \<noteq> None \<or> unmap_range p 4096 bf a \<noteq> None" for a
      using that M(6) [of a] left by (auto simp: U split: if_splits)
  qed (use M(4,5) in \<open>auto simp: U split: if_splits\<close>)
  show "unmap_range p 4096 bf b = Some v \<longleftrightarrow> bf b = Some v" if "slab_addr v" for b v
    using B [OF M(4) [of b v] M(5) [of b v]] that by (auto simp: U)
qed

definition same_live :: "'w slab_state \<Rightarrow> 'w slab_state \<Rightarrow> bool" where
  "same_live st st' \<longleftrightarrow> (\<forall>b v. slab_addr v \<longrightarrow> (bufs st' b = Some v \<longleftrightarrow> bufs st b = Some v))"

lemma same_live_refl [simp]: "same_live st st"
  by (simp add: same_live_def)

lemma same_live_trans: "same_live a b \<Longrightarrow> same_live b c \<Longrightarrow> same_live a c"
  by (simp add: same_live_def)

lemma same_live_live: "same_live st st' \<Longrightarrow> sp_size (space st') = sp_size (space st) \<Longrightarrow> live st' = live st"
  by (auto simp: same_live_def live_def)

text \<open>The state after \<open>k\<close> objects of the new page: their control words form the free list, the last object first.\<close>

definition new_bufs :: "nat \<Rightarrow> nat \<Rightarrow> nat \<Rightarrow> nat list" where
  "new_bufs z s k = rev (map (\<lambda>i. s - 4080 + i * z + z - 4) [0..<k])"

definition growing :: "('w \<Rightarrow> nat set) \<Rightarrow> nat list \<Rightarrow> (nat \<Rightarrow> nat list) \<Rightarrow> nat \<Rightarrow> nat \<Rightarrow> 'w slab_state \<Rightarrow> bool" where
  "growing held L FL s k st \<longleftrightarrow> slab_addr s \<and> s \<notin> set L
     \<and> mem_ok (obj_size st) L FL (slabs st) (bufs st) (held (world st))
     \<and> slabs st s = Some (zero_slab\<lparr>free_list := hdn (new_bufs (obj_size st) s k) 0\<rparr>)
     \<and> bufchain (bufs st) (hdn (new_bufs (obj_size st) s k) 0) (new_bufs (obj_size st) s k)"

lemma new_bufs_Suc: "new_bufs z s (Suc k) = (s - 4080 + k * z + z - 4) # new_bufs z s k"
  by (simp add: new_bufs_def)

lemma set_new_bufs: "set (new_bufs z s k) = (\<lambda>i. s - 4080 + i * z + z - 4) ` {..<k}"
  by (auto simp: new_bufs_def atLeast0LessThan)

lemma distinct_new_bufs: "4 \<le> z \<Longrightarrow> distinct (new_bufs z s k)"
  by (simp add: new_bufs_def distinct_map inj_bufctl)

text \<open>One object of the new page is put on the free list.\<close>

lemma growing_step:
  assumes g: "growing held L FL s k st" and z: "4 \<le> obj_size st" and k: "k < 4080 div obj_size st"
  defines "b \<equiv> s - 4080 + k * obj_size st + obj_size st - 4"
  defines "st' \<equiv> st\<lparr>bufs := (bufs st)(b \<mapsto> hdn (new_bufs (obj_size st) s k) 0),
      slabs := (slabs st)(s \<mapsto> zero_slab\<lparr>free_list := b\<rparr>)\<rparr>"
  shows "growing held L FL s (Suc k) st'" "same_live st st'"
proof -
  let ?z = "obj_size st"
  let ?F = "new_bufs ?z s k"
  from g have G: "slab_addr s" "s \<notin> set L" "mem_ok ?z L FL (slabs st) (bufs st) (held (world st))"
    "slabs st s = Some (zero_slab\<lparr>free_list := hdn ?F 0\<rparr>)" "bufchain (bufs st) (hdn ?F 0) ?F"
    by (simp_all add: growing_def)
  have b: "b \<in> bufctls ?z s" using k by (auto simp: b_def bufctls_def)
  have F: "set ?F \<subseteq> bufctls ?z s" using k by (auto simp: set_new_bufs bufctls_def)
  have nb: "b \<notin> set ?F" using distinct_new_bufs [OF z, of s "Suc k"] by (simp add: new_bufs_Suc b_def)
  have b0: "b \<noteq> 0" by (rule bufctlE [OF b G(1) z])
  have "hdn ?F 0 = 0 \<or> hdn ?F 0 \<in> bufctls ?z s" using F hdn_in [of ?F 0] by (cases "?F = []") auto
  then have v: "\<not> slab_addr (hdn ?F 0)" using bufctlE [OF _ G(1) z, of "hdn ?F 0"] by (auto simp: slab_addr_def)
  have "page_of s \<in> held (world st)" using mem_okD(6) [OF G(3), of s] G(4) by simp
  from mem_ok_foreign [OF G(3,2,1) this z b v]
  have "mem_ok ?z L FL (slabs st') (bufs st') (held (world st'))" by (simp add: st'_def)
  moreover have "bufchain (bufs st') b (b # ?F)" using G(5) nb b0 by (auto simp: st'_def intro: bufchain_cong)
  ultimately show "growing held L FL s (Suc k) st'"
    using G(1,2) by (simp add: growing_def new_bufs_Suc st'_def b_def)
  have "\<not> slab_addr w" if "bufs st b = Some w" for w
    using mem_okD(4,5) [OF G(3) that] bufctls_disjoint [OF b _ G(1) _ z, of w] G(2) by auto
  then show "same_live st st'" using v by (auto simp: same_live_def st'_def split: if_splits)
qed

text \<open>Giving back memory in which no slab of the list lies.\<close>

lemma page_mask_page_of: "page_mask a = page_of a"
proof -
  have "int a AND NOT (int getpagesize - 1) = int a AND NOT (mask 12)" by (simp add: mask_eq_exp_minus_1)
  also have "\<dots> = push_bit 12 (drop_bit 12 (int a))"
    by (rule bit_eqI) (auto simp: bit_and_iff bit_not_iff bit_mask_iff bit_push_bit_iff bit_drop_bit_eq)
  also have "\<dots> = int (a div 4096 * 4096)" by (simp add: push_bit_eq_mult drop_bit_eq_div zdiv_int)
  finally show ?thesis by (simp add: page_mask_def page_of_def minus_mod_eq_div_mult)
qed

lemma deallocate_buffer_foreign:
  assumes cb: "callbacks_ok sys held (space st)" and mem: "mem_ok z L FL (slabs st) (bufs st) (held (world st))"
    and z: "L \<noteq> [] \<Longrightarrow> 4 \<le> z" and other: "\<And>s. s \<in> set L \<Longrightarrow> page_of s \<noteq> page_of p"
    and d: "deallocate_buffer sys p getpagesize st = (e, st')"
  shows "mem_ok z L FL (slabs st') (bufs st') (held (world st'))" "same_live st st'"
    "space st' = space st" "nr_pages st' = nr_pages st"
    "page_dealloc sys (space st) p getpagesize (world st) = (e, world st')"
proof -
  obtain w where w: "page_dealloc sys (space st) p getpagesize (world st) = (e, w)"
      and st': "st' = (if e = 0 then st\<lparr>world := w, slabs := unmap_range (page_of p) getpagesize (slabs st),
              bufs := unmap_range (page_of p) getpagesize (bufs st)\<rparr> else st\<lparr>world := w\<rparr>)"
    using d by (auto simp: deallocate_buffer_def page_mask_page_of split: prod.splits)
  note P = pages_okD(3) [OF callbacks_okD(1) [OF cb] w]
  show "space st' = space st" "nr_pages st' = nr_pages st" by (simp_all add: st')
  show "page_dealloc sys (space st) p getpagesize (world st) = (e, world st')" using w by (simp add: st')
  have "mem_ok z L FL (slabs st') (bufs st') (held (world st')) \<and> same_live st st'"
  proof (cases "e = 0")
    case True
    have p: "page_of p mod 4096 = 0" by (simp add: page_of_def minus_mod_eq_mult_div)
    have "held (world st) - {page_of p} \<subseteq> held w" using P True by (auto simp: page_of_def split: if_splits)
    from mem_ok_unmap [OF mem p z other this] show ?thesis using True by (auto simp: st' same_live_def)
  next
    case False
    then show ?thesis using mem P by (simp add: st' same_live_def)
  qed
  then show "mem_ok z L FL (slabs st') (bufs st') (held (world st'))" "same_live st st'" by simp_all
qed

text \<open>The path of \<^verbatim>\<open>grow\<close> on which a constructor has failed: the objects that were constructed are destroyed, the last one
  first, and the address of the object is given to the deallocator.\<close>

lemma undo_page:
  assumes cb: "callbacks_ok sys held (space st)" and g: "growing held L FL s k st" and z: "4 \<le> obj_size st"
    and k: "k < 4080 div obj_size st" and p: "p = s - 4080 + k * obj_size st" and f: "destructor (space st) = Some f"
  shows "\<exists>st'. do {
        sl \<leftarrow> slabs st s;
        st \<leftarrow> destroy_buffers st (free_list sl);
        let (_, st) = deallocate_buffer sys p getpagesize st;
        Some (e, st) } = Some (e, st')
    \<and> space st' = space st \<and> nr_pages st' = nr_pages st \<and> same_live st st'
    \<and> mem_ok (obj_size st) L FL (slabs st') (bufs st') (held (world st'))
    \<and> world st' = snd (page_dealloc sys (space st) p getpagesize
        (destroy_all f (hook (space st)) (obj_size st) (new_bufs (obj_size st) s k) (world st)))"
proof -
  let ?z = "obj_size st"
  let ?F = "new_bufs ?z s k"
  from g have G: "slab_addr s" "s \<notin> set L" "mem_ok ?z L FL (slabs st) (bufs st) (held (world st))"
    "slabs st s = Some (zero_slab\<lparr>free_list := hdn ?F 0\<rparr>)" "bufchain (bufs st) (hdn ?F 0) ?F"
    by (simp_all add: growing_def)
  define st2 where "st2 = st\<lparr>world := destroy_all f (hook (space st)) ?z ?F (world st)\<rparr>"
  have d: "destroy_buffers st (hdn ?F 0) = Some st2" using destroy_buffers_chain [OF G(5) f] by (simp add: st2_def)
  obtain e' st3 where st3: "deallocate_buffer sys p getpagesize st2 = (e', st3)" by fastforce
  have cb2: "callbacks_ok sys held (space st2)" using cb by (simp add: st2_def)
  have hw: "held (world st2) = held (world st)" using held_destroy_all [OF cb f] by (simp add: st2_def)
  have mem2: "mem_ok ?z L FL (slabs st2) (bufs st2) (held (world st2))" using G(3) hw by (simp add: st2_def)
  have page: "page_of p = page_of s"
  proof -
    obtain q where "s = 4096 * q + 4080" by (rule slab_addrE [OF G(1)])
    then show ?thesis using obj_index [OF k] z p by (simp add: page_of_def)
  qed
  have other: "page_of t \<noteq> page_of p" if "t \<in> set L" for t
    using slab_addr_page [OF mem_slab_addr [OF G(3) that] G(1)] G(2) that page by auto
  note D = deallocate_buffer_foreign [OF cb2 mem2 z other st3]
  have "world st3 = snd (page_dealloc sys (space st) p getpagesize (world st2))" using D(5) by (simp add: st2_def)
  with D(1-4) d st3 G(4) show ?thesis by (auto simp: same_live_def st2_def)
qed

text \<open>The world after the objects from \<open>k\<close> up to \<open>i\<close> of the page of \<open>s\<close> have been constructed.\<close>

definition constructed :: "'w ctor_fn \<Rightarrow> nat \<Rightarrow> nat \<Rightarrow> nat \<Rightarrow> nat \<Rightarrow> nat \<Rightarrow> 'w \<Rightarrow> 'w" where
  "constructed f hk z p k i w = fold (\<lambda>j v. snd (f hk (p + j * z) v)) [k..<i] w"

text \<open>
  What the result \<open>e\<close> of the loop says of the constructor: all the objects from \<open>k\<close> on were constructed, or the
  constructor failed for the \<open>i\<close>-th one, the earlier ones were destroyed and the address of this one was given to the
  deallocator.
\<close>

definition ctor_report :: "'w system \<Rightarrow> 'w hurd_slab_space \<Rightarrow> nat \<Rightarrow> nat \<Rightarrow> errno \<Rightarrow> 'w \<Rightarrow> 'w \<Rightarrow> bool" where
  "ctor_report sys sp s k e w w' \<longleftrightarrow> (case constructor sp of None \<Rightarrow> e = 0 | Some f \<Rightarrow>
     let z = unat (sp_size sp); obj = (\<lambda>i. s - 4080 + i * z); v = (\<lambda>i. constructed f (hook sp) z (s - 4080) k i w)
     in if e = 0 then (\<forall>i. k \<le> i \<longrightarrow> i < 4080 div z \<longrightarrow> fst (f (hook sp) (obj i) (v i)) = 0)
        else (\<exists>i g. k \<le> i \<and> i < 4080 div z \<and> (\<forall>j. k \<le> j \<longrightarrow> j < i \<longrightarrow> fst (f (hook sp) (obj j) (v j)) = 0)
          \<and> fst (f (hook sp) (obj i) (v i)) = e \<and> destructor sp = Some g
          \<and> w' = snd (page_dealloc sys sp (obj i) getpagesize (destroy_all g (hook sp) z (new_bufs z s i) (v (Suc i))))))"

lemma constructed_from:
  "constructed f hk z p k k w = w"
  "k < i \<Longrightarrow> constructed f hk z p k i w = constructed f hk z p (Suc k) i (snd (f hk (p + k * z) w))"
  by (simp_all add: constructed_def upt_conv_Cons)

lemma ctor_report_fail:
  assumes f: "constructor sp = Some f" "f (hook sp) (s - 4080 + k * unat (sp_size sp)) w = (e, v)" and e: "e \<noteq> 0"
    and k: "k < 4080 div unat (sp_size sp)" and g: "destructor sp = Some g"
    and w': "w' = snd (page_dealloc sys sp (s - 4080 + k * unat (sp_size sp)) getpagesize
      (destroy_all g (hook sp) (unat (sp_size sp)) (new_bufs (unat (sp_size sp)) s k) v))"
  shows "ctor_report sys sp s k e w w'"
proof -
  let ?z = "unat (sp_size sp)"
  have v: "constructed f (hook sp) ?z (s - 4080) k (Suc k) w = v" "constructed f (hook sp) ?z (s - 4080) k k w = w"
    using f(2) by (simp_all add: constructed_def)
  have none: "\<forall>j. k \<le> j \<longrightarrow> j < k \<longrightarrow> fst (f (hook sp) (s - 4080 + j * ?z) (constructed f (hook sp) ?z (s - 4080) k j w)) = 0" by simp
  show ?thesis unfolding ctor_report_def f(1) option.case Let_def if_not_P [OF e]
    by (intro exI [of _ k] exI [of _ g] conjI none k g order_refl) (simp_all only: v f(2) fst_conv w')
qed

lemma ctor_report_Suc:
  assumes r: "ctor_report sys sp s (Suc k) e w w'"
    and f: "\<And>f. constructor sp = Some f \<Longrightarrow> f (hook sp) (s - 4080 + k * unat (sp_size sp)) w0 = (0, w)"
  shows "ctor_report sys sp s k e w0 w'"
proof (cases "constructor sp")
  case (Some f)
  let ?z = "unat (sp_size sp)"
  let ?obj = "\<lambda>i. s - 4080 + i * ?z" and ?v = "\<lambda>i. constructed f (hook sp) ?z (s - 4080) k i w0"
  have v: "?v i = constructed f (hook sp) ?z (s - 4080) (Suc k) i w" if "k < i" for i
    using constructed_from(2) [OF that, of f "hook sp" ?z "s - 4080" w0] f [OF Some] by simp
  have k: "fst (f (hook sp) (?obj k) (?v k)) = 0" using f [OF Some] by (simp add: constructed_from(1))
  show ?thesis
  proof (cases "e = 0")
    case True
    then have "fst (f (hook sp) (?obj i) (?v i)) = 0" if "k \<le> i" "i < 4080 div ?z" for i
      using r k v [of i] that Some by (cases "i = k") (auto simp: ctor_report_def Let_def)
    then show ?thesis using True Some by (simp add: ctor_report_def Let_def)
  next
    case False
    with r Some obtain i g where i: "Suc k \<le> i" "i < 4080 div ?z"
        "\<forall>j. Suc k \<le> j \<longrightarrow> j < i \<longrightarrow> fst (f (hook sp) (?obj j) (constructed f (hook sp) ?z (s - 4080) (Suc k) j w)) = 0"
        "fst (f (hook sp) (?obj i) (constructed f (hook sp) ?z (s - 4080) (Suc k) i w)) = e" "destructor sp = Some g"
        "w' = snd (page_dealloc sys sp (?obj i) getpagesize (destroy_all g (hook sp) ?z (new_bufs ?z s i)
          (constructed f (hook sp) ?z (s - 4080) (Suc k) (Suc i) w)))"
      by (auto simp: ctor_report_def Let_def)
    have "fst (f (hook sp) (?obj j) (?v j)) = 0" if "k \<le> j" "j < i" for j
      using i(3) k v [of j] that by (cases "j = k") auto
    then show ?thesis using False Some i v by (auto simp: ctor_report_def Let_def intro!: exI [of _ i])
  qed
qed (use r in \<open>simp add: ctor_report_def\<close>)

lemma grow_objs_ok:
  assumes "callbacks_ok sys held (space st)" "growing held L FL s k st" "4 \<le> obj_size st"
    "k + n = 4080 div obj_size st" "p = s - 4080 + k * obj_size st"
  shows "\<exists>e st'. grow_objs sys s n p st = Some (e, st') \<and> space st' = space st \<and> nr_pages st' = nr_pages st \<and> same_live st st'
    \<and> ctor_report sys (space st) s k e (world st) (world st')
    \<and> (e = 0 \<longrightarrow> growing held L FL s (4080 div obj_size st) st')
    \<and> (e \<noteq> 0 \<longrightarrow> mem_ok (obj_size st) L FL (slabs st') (bufs st') (held (world st')))"
  using assms
proof (induction n arbitrary: k p st)
  case 0
  then show ?case by (auto simp: ctor_report_def Let_def split: option.splits)
next
  case (Suc n)
  note cb = Suc.prems(1) and z = Suc.prems(3) and p = Suc.prems(5)
  let ?z = "obj_size st"
  let ?F = "new_bufs ?z s k"
  have k: "k < 4080 div ?z" using Suc.prems(4) by simp
  obtain e w where ew: "(case constructor (space st) of None \<Rightarrow> (0, st)
        | Some f \<Rightarrow> let (e, w) = f (hook (space st)) p (world st) in (e, st\<lparr>world := w\<rparr>)) = (e, st\<lparr>world := w\<rparr>)"
      and held: "held w = held (world st)" and con: "e \<noteq> 0 \<Longrightarrow> constructor (space st) \<noteq> None"
      and ev: "\<And>f. constructor (space st) = Some f \<Longrightarrow> f (hook (space st)) p (world st) = (e, w)"
  proof (cases "constructor (space st)")
    case None
    then show thesis using that [of 0 "world st"] by simp
  next
    case (Some f)
    show thesis
    proof (cases "f (hook (space st)) p (world st)")
      case (Pair e w)
      then have "held w = held (world st)" using callbacks_okD(2) [OF cb Some, of p "world st"] by simp
      with Pair show thesis by (intro that [of e w]) (simp_all add: Some)
    qed
  qed
  define st1 where "st1 = st\<lparr>world := w\<rparr>"
  have s1: "space st1 = space st" "nr_pages st1 = nr_pages st" "bufs st1 = bufs st" "world st1 = w" by (simp_all add: st1_def)
  from Suc.prems(2) held have g1: "growing held L FL s k st1" by (simp add: growing_def st1_def)
  then have h1: "slabs st1 s = Some (zero_slab\<lparr>free_list := hdn ?F 0\<rparr>)" by (simp add: growing_def s1)
  show ?case
  proof (cases "e = 0")
    case True
    let ?b = "s - 4080 + k * ?z + ?z - 4"
    define st2 where "st2 = st1\<lparr>bufs := (bufs st1)(?b \<mapsto> hdn ?F 0), slabs := (slabs st1)(s \<mapsto> zero_slab\<lparr>free_list := ?b\<rparr>)\<rparr>"
    have S: "growing held L FL s (Suc k) st2" "same_live st1 st2"
      using growing_step [OF g1] z k by (simp_all add: st2_def s1)
    have run: "grow_objs sys s (Suc n) p st = grow_objs sys s n (p + ?z) st2"
      using ew True h1 by (simp add: st2_def st1_def upd_slab_def Let_def p [symmetric])
    have sp: "space st2 = space st" "nr_pages st2 = nr_pages st" "world st2 = w"
      by (simp_all add: st2_def s1)
    have sl: "same_live st st2" using S(2) by (simp add: s1 same_live_def)
    have "callbacks_ok sys held (space st2)" "4 \<le> obj_size st2" "Suc k + n = 4080 div obj_size st2" "p + ?z = s - 4080 + Suc k * obj_size st2"
      using cb z Suc.prems(4) p by (simp_all add: sp)
    from Suc.IH [OF this(1) S(1) this(2-4)] obtain e' st' where I: "grow_objs sys s n (p + ?z) st2 = Some (e', st')"
        "space st' = space st" "nr_pages st' = nr_pages st" "same_live st2 st'"
        "ctor_report sys (space st) s (Suc k) e' w (world st')"
        "e' = 0 \<longrightarrow> growing held L FL s (4080 div ?z) st'"
        "e' \<noteq> 0 \<longrightarrow> mem_ok ?z L FL (slabs st') (bufs st') (held (world st'))" unfolding sp by blast
    have "ctor_report sys (space st) s k e' (world st) (world st')"
      by (rule ctor_report_Suc [OF I(5)]) (use ev True p in auto)
    then show ?thesis unfolding run using I same_live_trans [OF sl I(4)] by blast
  next
    case False
    then obtain c where c: "constructor (space st) = Some c" using con by blast
    then obtain f where f: "destructor (space st) = Some f"
      using callbacks_okD(4) [OF cb c, of p "world st"] ev [OF c] False by auto
    have "callbacks_ok sys held (space st1)" "4 \<le> obj_size st1" "k < 4080 div obj_size st1" "p = s - 4080 + k * obj_size st1"
        "destructor (space st1) = Some f" using cb z k p f by (simp_all add: s1)
    from undo_page [OF this(1) g1 this(2-5), of e] obtain st' where U: "do {
        sl \<leftarrow> slabs st1 s;
        st \<leftarrow> destroy_buffers st1 (free_list sl);
        let (_, st) = deallocate_buffer sys p getpagesize st;
        Some (e, st) } = Some (e, st')" "space st' = space st" "nr_pages st' = nr_pages st" "same_live st1 st'"
        "mem_ok ?z L FL (slabs st') (bufs st') (held (world st'))"
        "world st' = snd (page_dealloc sys (space st) p getpagesize (destroy_all f (hook (space st)) ?z ?F w))"
      unfolding s1 by blast
    have run: "grow_objs sys s (Suc n) p st = Some (e, st')" using ew False U(1) by (simp add: st1_def [symmetric])
    have "same_live st st'" using U(4) by (simp add: same_live_def s1)
    moreover have "ctor_report sys (space st) s k e (world st) (world st')"
      by (rule ctor_report_fail [OF c ev [OF c, unfolded p] False k f U(6) [unfolded p]])
    ultimately show ?thesis unfolding run using U False by blast
  qed
qed

lemma growing_slab_ok:
  assumes g: "growing held L FL s (4080 div obj_size st) st" and z: "4 \<le> obj_size st"
  shows "slab_ok (obj_size st) (slabs st) (bufs st) (new_bufs (obj_size st) s (4080 div obj_size st)) s"
proof (rule slab_okI)
  let ?F = "new_bufs (obj_size st) s (4080 div obj_size st)"
  show "slabs st s = Some (zero_slab\<lparr>free_list := hdn ?F 0\<rparr>)" using g by (simp add: growing_def)
  show "bufchain (bufs st) (free_list (zero_slab\<lparr>free_list := hdn ?F 0\<rparr>)) ?F" using g by (simp add: growing_def)
  show "refcount (zero_slab\<lparr>free_list := hdn ?F 0\<rparr>) = int (4080 div obj_size st) - int (length ?F)"
    by (simp add: zero_slab_def new_bufs_def)
qed (use g z in \<open>auto simp: growing_def set_new_bufs bufctls_def distinct_new_bufs\<close>)

text \<open>A segment with a new slab behind it.\<close>

lemma dseg_snoc:
  assumes d: "dseg h 0 L 0" "distinct L" and s: "s \<notin> set L" "s \<noteq> 0" "h s = Some hs" "slab_next hs = 0" "slab_prev hs = 0"
    and t: "L \<noteq> [] \<Longrightarrow> h (last L) = Some t"
  shows "dseg (if L = [] then h else h(last L \<mapsto> t\<lparr>slab_next := s\<rparr>, s \<mapsto> hs\<lparr>slab_prev := last L\<rparr>)) 0 (L @ [s]) 0"
proof (cases "L = []")
  case True
  then show ?thesis using s by simp
next
  case False
  then have "dseg (h(last L \<mapsto> t\<lparr>slab_next := s\<rparr>)) 0 L s" using dseg_set_last [OF d False t] by blast
  then have "dseg (h(last L \<mapsto> t\<lparr>slab_next := s\<rparr>, s \<mapsto> hs\<lparr>slab_prev := last L\<rparr>)) 0 L s"
    by (rule dseg_frame) (use s(1) in auto)
  then show ?thesis using False s by auto
qed

lemma insert_slab_ok:
  assumes g: "growing held L FL s (4080 div obj_size st) st" and z: "4 \<le> obj_size st"
    and sp: "slab_first (space st) = hdn L 0" "slab_last (space st) = last (0 # L)"
  shows "\<exists>sl. insert_slab s st = Some (st\<lparr>slabs := sl, space := space st\<lparr>slab_first := hdn (L @ [s]) 0, slab_last := s\<rparr>\<rparr>)
    \<and> mem_ok (obj_size st) (L @ [s]) (FL(s := new_bufs (obj_size st) s (4080 div obj_size st))) sl (bufs st) (held (world st))"
proof -
  let ?z = "obj_size st"
  let ?F = "new_bufs ?z s (4080 div ?z)"
  let ?hs = "zero_slab\<lparr>free_list := hdn ?F 0\<rparr>"
  from g have G: "slab_addr s" "s \<notin> set L" "mem_ok ?z L FL (slabs st) (bufs st) (held (world st))" "slabs st s = Some ?hs"
    by (simp_all add: growing_def)
  note M = mem_okD [OF G(3)] and A = mem_slab_addr [OF G(3)]
  have s0: "s \<noteq> 0" using G(1) by (auto simp: slab_addr_def)
  obtain t where t: "L \<noteq> [] \<Longrightarrow> slabs st (last L) = Some t" using dseg_mapped [OF M(2), of "last L"] last_in_set by blast
  define sl where "sl = (if L = [] then slabs st else (slabs st)(last L \<mapsto> t\<lparr>slab_next := s\<rparr>, s \<mapsto> ?hs\<lparr>slab_prev := last L\<rparr>))"
  have keep: "\<exists>h'. sl x = Some h' \<and> free_list h' = free_list h \<and> refcount h' = refcount h" if "slabs st x = Some h" for x h
    using that G(4) t by (auto simp: sl_def)
  have run: "insert_slab s st = Some (st\<lparr>slabs := sl, space := space st\<lparr>slab_first := hdn (L @ [s]) 0, slab_last := s\<rparr>\<rparr>)"
  proof (cases "L = []")
    case True
    then show ?thesis using G(4) sp by (simp add: insert_slab_def sl_def upd_space_def zero_slab_def)
  next
    case False
    then have "hdn L 0 \<noteq> 0" "last L \<noteq> s" "hdn L s = hdn L 0"
      using dseg_hdn [OF M(2)] G(2) last_in_set [OF False] by (auto simp: hdn_def split: list.splits)
    then show ?thesis using G(4) sp t False by (simp add: insert_slab_def sl_def upd_space_def upd_slab_def zero_slab_def Let_def)
  qed
  have "mem_ok ?z (L @ [s]) (FL(s := ?F)) sl (bufs st) (held (world st))"
  proof (rule mem_okI)
    show "distinct (L @ [s])" using M(1) G(2) by simp
    show "dseg sl 0 (L @ [s]) 0"
      unfolding sl_def by (rule dseg_snoc [OF M(2,1) G(2) s0 G(4)]) (simp_all add: zero_slab_def t)
    show "slab_ok ?z sl (bufs st) ((FL(s := ?F)) x) x" if "x \<in> set (L @ [s])" for x
      using that G(2) M(3) [of x] growing_slab_ok [OF g z] by (auto intro: slab_ok_frame [OF _ keep])
    show "v \<in> set (L @ [s]) \<and> b \<in> bufctls ?z v" if "bufs st b = Some v" "slab_addr v" for b v
      using M(4,5) [OF that] by simp
    show "page_of a \<in> held (world st)" if "sl a \<noteq> None \<or> bufs st a \<noteq> None" for a
      using that M(6) [of a] t G(4) by (auto simp: sl_def split: if_splits)
  qed
  with run show ?thesis by blast
qed

lemma init_space_ok:
  assumes rep: "slab_rep held L FL st" and ini: "\<not> initialized (space st)"
  obtains st' where "init_space st = Some st'" "slab_rep held L FL st'" "live st' = {}" "live st = {}" "initialized (space st')"
    "same_callbacks (space st) (space st')" "sp_lock (space st') = sp_lock (space st)" "nr_pages st' = nr_pages st"
    "first_free (space st') = 0" "L = []" "world st' = world st"
proof -
  note R = slab_repD [OF rep]
  let ?r = "slab_round (requested_size (space st)) (requested_align (space st))"
  have V: "4 \<le> unat ?r" "unat ?r \<le> 4076" using R(1) by (auto simp: space_ok_def valid_request_def)
  have sp: "slab_first (space st) = 0" "slab_last (space st) = 0" "first_free (space st) = 0"
    using R(1) ini by (simp_all add: space_ok_def)
  have L: "L = []" using dseg_hdn [OF mem_okD(2) [OF R(2)]] R(3) sp(1) by simp
  have none: "\<not> slab_addr v" if "bufs st b = Some v" for b v using mem_okD(4) [OF R(2) that] L by auto
  let ?st = "st\<lparr>space := space st\<lparr>sp_size := ?r, full_refcount := int (4080 div unat ?r), initialized := True\<rparr>\<rparr>"
  have c: "?r \<le> 4096 - 16 - 4" "?r \<noteq> 0" using V by (auto simp: word_le_nat_alt)
  have run: "init_space st = Some ?st" using c by (simp add: init_space_def Let_def upd_space_def)
  have rep': "slab_rep held L FL ?st"
    using R sp V L unfolding slab_rep_def by (auto simp: space_ok_def valid_request_def mem_ok_def)
  have "live ?st = {}" "live st = {}" using none by (auto simp: live_def)
  from that [OF run rep' this] show thesis using sp L by (simp add: same_callbacks_def)
qed

text \<open>The state with a fresh page, before its objects are laid out.\<close>

lemma fresh_page_growing:
  assumes rep: "slab_rep held L FL st" and cb: "callbacks_ok sys held (space st)" and z: "4 \<le> obj_size st"
    and a: "page_alloc sys (space st) (world st) = (Inr (p, hdr), w)"
  defines "st' \<equiv> st\<lparr>world := w, slabs := (slabs st)(p + 4080 \<mapsto> hdr), nr_pages := nr_pages st + 1\<rparr>"
  shows "growing held L FL (p + 4080) 0 st'" "same_live st st'"
proof -
  note R = slab_repD [OF rep] and P = pages_okD(2) [OF callbacks_okD(1) [OF cb] a]
  note M = mem_okD [OF R(2)]
  obtain q where q: "p = 4096 * q" using P by (metis mod_0_imp_dvd dvdE)
  have s: "slab_addr (p + 4080)" using P q by (auto simp: slab_addr_def)
  have ps: "page_of (p + 4080) = p" using q by (simp add: page_of_def)
  have notin: "p + 4080 \<notin> set L" using M(6) [of "p + 4080"] dseg_mapped [OF M(2), of "p + 4080"] ps P by auto
  have "mem_ok (obj_size st) L FL (slabs st') (bufs st') (held (world st'))"
  proof (rule mem_okI)
    show "dseg (slabs st') 0 L 0" using M(2) by (rule dseg_frame) (use notin in \<open>auto simp: st'_def\<close>)
    show "slab_ok (obj_size st) (slabs st') (bufs st') (FL t) t" if "t \<in> set L" for t
      by (rule slab_ok_frame [OF M(3) [OF that]]) (use that notin in \<open>auto simp: st'_def\<close>)
    show "page_of a \<in> held (world st')" if "slabs st' a \<noteq> None \<or> bufs st' a \<noteq> None" for a
      using that M(6) [of a] ps P by (auto simp: st'_def split: if_splits)
  qed (use M in \<open>auto simp: st'_def\<close>)
  then show "growing held L FL (p + 4080) 0 st'"
    using s notin P callbacks_okD(5) [OF cb a] by (simp add: growing_def st'_def new_bufs_def zero_slab_def)
  show "same_live st st'" by (simp add: st'_def same_live_def)
qed

lemma grow_ok:
  assumes rep: "slab_rep held L FL st" and cb: "callbacks_ok sys held (space st)" and ff: "first_free (space st) = 0"
  shows "\<exists>e st'. grow sys st = Some (e, st') \<and> same_callbacks (space st) (space st') \<and> sp_lock (space st') = sp_lock (space st)
    \<and> live st' = live st \<and> (if e = 0 then (\<exists>s. slab_rep held (L @ [s]) (FL(s := new_bufs (obj_size st') s (4080 div obj_size st'))) st'
        \<and> first_free (space st') \<noteq> 0) else slab_rep held L FL st')"
proof -
  obtain st0 where ini: "(if \<not> initialized (space st) then init_space st else Some st) = Some st0" "initialized (space st0)"
      and rep0: "slab_rep held L FL st0" and same0: "live st0 = live st" "same_callbacks (space st) (space st0)"
        "sp_lock (space st0) = sp_lock (space st)" "first_free (space st0) = 0"
  proof (cases "initialized (space st)")
    case True
    then show thesis using that [of st] rep ff by simp
  next
    case False
    show thesis by (rule init_space_ok [OF rep False]) (use that False in auto)
  qed
  note R = slab_repD [OF rep0]
  have cb0: "callbacks_ok sys held (space st0)" by (rule same_callbacks_ok [OF same0(2) cb])
  have z: "4 \<le> obj_size st0" using space_ok_size [OF R(1) ini(2)] by simp
  show ?thesis
  proof (cases "page_alloc sys (space st0) (world st0)")
    case (Pair r w)
    show ?thesis
    proof (cases r)
      case (Inl e)
      have run: "grow sys st = Some (e, st0\<lparr>world := w\<rparr>)"
        using ini(1) Pair Inl by (simp add: grow_def allocate_buffer_def)
      have "e \<noteq> 0 \<and> held w = held (world st0)" using pages_okD(1) [OF callbacks_okD(1) [OF cb0]] Pair Inl by blast
      moreover have "live (st0\<lparr>world := w\<rparr>) = live st0" by (simp add: live_def)
      ultimately show ?thesis unfolding run using rep0 same0 by (auto simp: slab_rep_def)
    next
      case (Inr ph)
      then obtain p hdr where a: "page_alloc sys (space st0) (world st0) = (Inr (p, hdr), w)" using Pair by (cases ph) auto
      let ?s = "p + 4080" and ?N = "4080 div obj_size st0"
      define st1 where "st1 = st0\<lparr>world := w, slabs := (slabs st0)(?s \<mapsto> hdr), nr_pages := nr_pages st0 + 1\<rparr>"
      have g: "growing held L FL ?s 0 st1" "same_live st0 st1"
        unfolding st1_def by (rule fresh_page_growing [OF rep0 cb0 z a])+
      have sp1: "space st1 = space st0" by (simp add: st1_def)
      have pre: "callbacks_ok sys held (space st1)" "4 \<le> obj_size st1" "0 + ?N = 4080 div obj_size st1" "p = ?s - 4080 + 0 * obj_size st1"
        using cb0 z sp1 by simp_all
      from grow_objs_ok [OF pre(1) g(1) pre(2-4)] obtain e st2 where st2: "grow_objs sys ?s ?N p st1 = Some (e, st2)"
          "space st2 = space st0" "same_live st1 st2"
          "(e = 0 \<longrightarrow> growing held L FL ?s ?N st2) \<and> (e \<noteq> 0 \<longrightarrow> mem_ok (obj_size st0) L FL (slabs st2) (bufs st2) (held (world st2)))"
        unfolding sp1 by blast
      have run: "grow sys st = (if e \<noteq> 0 then Some (e, st2)
           else do { st \<leftarrow> insert_slab ?s st2; Some (0, upd_space (\<lambda>sp. sp\<lparr>first_free := ?s\<rparr>) st) })"
        using ini(1) a st2(1) z by (simp add: grow_def allocate_buffer_def st1_def Let_def add.commute [of p])
      have live2: "live st2 = live st" using same_live_live [OF same_live_trans [OF g(2) st2(3)]] st2(2) same0(1) by simp
      show ?thesis
      proof (cases "e = 0")
        case False
        then have "slab_rep held L FL st2" using st2(2,4) R same0(4) by (auto simp: slab_rep_def)
        then show ?thesis using run False live2 st2(2) same0 by simp
      next
        case True
        then have g2: "growing held L FL ?s (4080 div obj_size st2) st2" using st2(2,4) by simp
        from insert_slab_ok [OF g2] z st2(2) R(3,4) obtain sl where
            i: "insert_slab ?s st2 = Some (st2\<lparr>slabs := sl, space := space st2\<lparr>slab_first := hdn (L @ [?s]) 0, slab_last := ?s\<rparr>\<rparr>)"
          and mem: "mem_ok (obj_size st2) (L @ [?s]) (FL(?s := new_bufs (obj_size st2) ?s (4080 div obj_size st2))) sl (bufs st2) (held (world st2))"
          by auto
        define st3 where "st3 = st2\<lparr>slabs := sl, space := space st2\<lparr>slab_first := hdn (L @ [?s]) 0, slab_last := ?s, first_free := ?s\<rparr>\<rparr>"
        have run3: "grow sys st = Some (0, st3)" using run True i by (simp add: st3_def upd_space_def)
        have "0 < 4080 div obj_size st0" using space_ok_size [OF R(1) ini(2)] by (auto simp: div_greater_zero_iff)
        then have ne: "new_bufs (obj_size st0) ?s ?N \<noteq> []" by (simp add: new_bufs_def)
        have "space_ok (space st3)" using R(1) ini(2) st2(2) by (simp add: st3_def space_ok_def valid_request_def)
        then have "slab_rep held (L @ [?s]) (FL(?s := new_bufs (obj_size st3) ?s (4080 div obj_size st3))) st3"
          using mem ne st2(2) by (simp add: slab_rep_def st3_def)
        moreover have "live st3 = live st" using live2 by (simp add: st3_def live_def)
        ultimately show ?thesis using run3 same0 st2(2)
          by (intro exI [of _ 0] exI [of _ st3]) (auto simp: st3_def same_callbacks_def)
      qed
    qed
  qed
qed

subsection \<open>Allocation and deallocation\<close>

lemma slab_rep_lock [simp]: "slab_rep held L FL (st\<lparr>space := space st\<lparr>sp_lock := l\<rparr>\<rparr>) \<longleftrightarrow> slab_rep held L FL st"
  by (simp add: slab_rep_def space_ok_def valid_request_def)

lemma live_lock [simp]: "live (st\<lparr>space := space st\<lparr>sp_lock := l\<rparr>\<rparr>) = live st"
  by (simp add: live_def)

lemma same_callbacks_fields [simp]:
  "same_callbacks sp (sp'\<lparr>sp_lock := l\<rparr>) \<longleftrightarrow> same_callbacks sp sp'"
  "same_callbacks (sp\<lparr>sp_lock := l\<rparr>) sp' \<longleftrightarrow> same_callbacks sp sp'"
  "same_callbacks sp (sp'\<lparr>first_free := f\<rparr>) \<longleftrightarrow> same_callbacks sp sp'"
  by (simp_all add: same_callbacks_def)

text \<open>The state between calls: the invariant holds, the lock is free and the callbacks keep their contract.\<close>

definition slab_ready :: "'w system \<Rightarrow> ('w \<Rightarrow> nat set) \<Rightarrow> 'w slab_state \<Rightarrow> bool" where
  "slab_ready sys held st \<longleftrightarrow> slab_inv held st \<and> callbacks_ok sys held (space st) \<and> \<not> sp_lock (space st)"

lemma slab_readyI:
  "slab_rep held L FL st \<Longrightarrow> callbacks_ok sys held sp \<Longrightarrow> same_callbacks sp (space st) \<Longrightarrow> \<not> sp_lock (space st)
    \<Longrightarrow> slab_ready sys held st"
  unfolding slab_ready_def slab_inv_def using same_callbacks_ok by blast

lemma hurd_slab_alloc_ok:
  assumes ready: "slab_ready sys held st"
  shows "\<exists>r st'. hurd_slab_alloc sys st = Some (r, st') \<and> slab_ready sys held st' \<and> same_callbacks (space st) (space st')
    \<and> (case r of Inl e \<Rightarrow> e \<noteq> 0 \<and> live st' = live st | Inr b \<Rightarrow> b \<notin> live st \<and> live st' = insert b (live st))"
proof -
  from ready obtain L FL where rep: "slab_rep held L FL st" and cb: "callbacks_ok sys held (space st)" and l: "\<not> sp_lock (space st)"
    by (auto simp: slab_ready_def slab_inv_def)
  define st1 where "st1 = st\<lparr>space := space st\<lparr>sp_lock := True\<rparr>\<rparr>"
  have cb1: "callbacks_ok sys held (space st1)" by (rule same_callbacks_ok [OF _ cb]) (simp add: st1_def)
  have rep1: "slab_rep held L FL st1" "live st1 = live st" using rep by (simp_all add: st1_def)
  obtain e st2 where g: "(if first_free (space st1) = 0 then grow sys st1 else Some (0, st1)) = Some (e, st2)"
      "same_callbacks (space st1) (space st2)" "live st2 = live st"
      "if e = 0 then \<exists>L FL. slab_rep held L FL st2 \<and> first_free (space st2) \<noteq> 0 else slab_rep held L FL st2"
  proof (cases "first_free (space st1) = 0")
    case True
    from grow_ok [OF rep1(1) cb1 True] obtain e st2 where "grow sys st1 = Some (e, st2)" "same_callbacks (space st1) (space st2)"
        "live st2 = live st1" "if e = 0 then (\<exists>s. slab_rep held (L @ [s]) (FL(s := new_bufs (obj_size st2) s (4080 div obj_size st2))) st2
        \<and> first_free (space st2) \<noteq> 0) else slab_rep held L FL st2" by blast
    then show thesis using that [of e st2] True rep1(2) by (cases "e = 0") auto
  next
    case False
    then show thesis using that [of 0 st1] rep1 by auto
  qed
  have same: "same_callbacks (space st) (space st2)" using g(2) by (simp add: st1_def)
  have lock: "slab_lock st = Some st1" using l by (simp add: slab_lock_def st1_def upd_space_def)
  show ?thesis
  proof (cases "e = 0")
    case False
    let ?st = "slab_unlock st2"
    have "slab_ready sys held ?st"
      by (rule slab_readyI [OF _ cb, where L = L and FL = FL]) (use g(4) False same in \<open>auto simp: slab_unlock_def upd_space_def\<close>)
    moreover have "hurd_slab_alloc sys st = Some (Inl e, ?st)" using lock g(1) False by (simp add: hurd_slab_alloc_def)
    ultimately show ?thesis using False g(3) same by (auto simp: slab_unlock_def upd_space_def)
  next
    case True
    with g(4) obtain L' FL' where rep2: "slab_rep held L' FL' st2" and ff: "first_free (space st2) \<noteq> 0" by auto
    show ?thesis
    proof (rule slab_take_rep [OF rep2 ff])
      fix b st3 FL3
      assume t: "slab_take st2 = Some (b, st3)" "slab_rep held L' FL3 st3" "b \<notin> live st2" "live st3 = insert b (live st2)"
        "space st3 = space st2\<lparr>first_free := first_free (space st3)\<rparr>"
      let ?st = "slab_unlock st3"
      have same3: "same_callbacks (space st) (space st3)" using same by (subst t(5)) simp
      have "slab_ready sys held ?st"
        by (rule slab_readyI [OF _ cb, where L = L' and FL = FL3]) (use t(2) same3 in \<open>auto simp: slab_unlock_def upd_space_def\<close>)
      moreover have "hurd_slab_alloc sys st = Some (Inr b, ?st)" using lock g(1) True t(1) by (simp add: hurd_slab_alloc_def)
      ultimately show ?thesis using g(3) same3 t(3,4) by (auto simp: slab_unlock_def upd_space_def)
    qed
  qed
qed

text \<open>An allocated object belongs to a slab of the list.\<close>

lemma live_slab:
  assumes rep: "slab_rep held L FL st" and b: "b \<in> live st"
  obtains s where "s \<in> set L" "bufs st (b + (obj_size st - 4)) = Some s" "b + (obj_size st - 4) \<in> bufctls (obj_size st) s"
    "slab_addr s" "initialized (space st)" "4 \<le> obj_size st"
proof -
  note R = slab_repD [OF rep]
  from b obtain s where s: "bufs st (b + (obj_size st - 4)) = Some s" "slab_addr s" by (auto simp: live_def)
  note M = mem_okD(4,5) [OF R(2) s]
  from M(1) have "L \<noteq> []" by auto
  from slab_rep_geometry [OF rep this] that M s show thesis by blast
qed

lemma hurd_slab_dealloc_ok:
  assumes ready: "slab_ready sys held st" and b: "b \<in> live st"
  shows "\<exists>st'. hurd_slab_dealloc b st = Some st' \<and> slab_ready sys held st' \<and> same_callbacks (space st) (space st')
    \<and> live st' = live st - {b}"
proof -
  from ready obtain L FL where rep: "slab_rep held L FL st" and cb: "callbacks_ok sys held (space st)" and l: "\<not> sp_lock (space st)"
    by (auto simp: slab_ready_def slab_inv_def)
  note R = slab_repD [OF rep]
  obtain s where s: "s \<in> set L" "bufs st (b + (obj_size st - 4)) = Some s" "b + (obj_size st - 4) \<in> bufctls (obj_size st) s"
    "slab_addr s" "initialized (space st)" "4 \<le> obj_size st" using live_slab [OF rep b] .
  let ?c = "b + (obj_size st - 4)" and ?ff = "first_free (space st)"
  obtain h where h: "slabs st s = Some h" using dseg_mapped [OF mem_okD(2) [OF R(2)] s(1)] by blast
  note P = mem_ok_put [OF R(2) s(1) h s(6,3,2)]
  let ?sl = "(slabs st)(s \<mapsto> h\<lparr>free_list := ?c, refcount := refcount h - 1\<rparr>)"
  obtain f where f: "?ff \<noteq> 0 \<Longrightarrow> ?sl ?ff = Some f" using dseg_mapped [OF mem_okD(2) [OF P(1)], of ?ff] R(6) by blast
  define ff' where "ff' = (if ?ff = 0 \<or> refcount h - 1 < refcount f then s else ?ff)"
  define st' where "st' = st\<lparr>slabs := ?sl, bufs := (bufs st)(?c \<mapsto> free_list h), space := space st\<lparr>first_free := ff', sp_lock := False\<rparr>\<rparr>"
  have run: "hurd_slab_dealloc b st = Some st'"
    using s(2,5) l h P(2) f
    by (auto simp: hurd_slab_dealloc_def slab_lock_def slab_unlock_def upd_space_def put_on_slab_list_def upd_slab_def Let_def
        st'_def ff'_def)
  have ffL: "ff' \<noteq> 0" "ff' \<in> set L" "(FL(s := ?c # FL s)) ff' \<noteq> []"
    using R(6,7) s(1) dseg_nz [OF mem_okD(2) [OF R(2)] s(1)] by (auto simp: ff'_def)
  then have "slab_rep held L (FL(s := ?c # FL s)) st'"
    using P(1) R(1,3,4) s(5) by (auto simp: slab_rep_def st'_def space_ok_def valid_request_def split: if_splits)
  then have "slab_ready sys held st'" by (rule slab_readyI [OF _ cb]) (simp_all add: st'_def same_callbacks_def)
  moreover have "\<not> slab_addr (free_list h)"
  proof -
    have "free_list h = 0 \<or> free_list h \<in> set (FL s)"
      by (rule slab_okD [OF mem_okD(3) [OF R(2) s(1)]], cases "FL s") (use h in auto)
    moreover have "\<not> slab_addr x" if "x \<in> set (FL s)" for x
      using slab_ok_free(1) [OF mem_okD(3) [OF R(2) s(1)] s(6) that] bufctlE [OF _ s(4,6)] by (auto simp: slab_addr_def)
    ultimately show ?thesis by (auto simp: slab_addr_def)
  qed
  then have "live st' = live st - {b}" using live_upd [of st' st ?c "free_list h"] by (simp add: st'_def)
  ultimately show ?thesis using run by (auto simp: st'_def same_callbacks_def)
qed

end
