(* ===== verification/Slab_Space.thy ===== *)
theory Slab_Space
  imports Slab_Alloc
begin

text \<open>
  The life of a slab space: initialisation with its size computation in 32-bit words, the layout of the allocated
  objects, reaping and destruction, and the histories of allocations and deallocations. The interface that a client
  relies on is the locale \<open>object_allocator\<close>; the slab allocator is its interpretation \<open>slab\<close>.
\<close>

subsection \<open>Removing a slab from the list\<close>

definition list_rep :: "('w \<Rightarrow> nat set) \<Rightarrow> nat list \<Rightarrow> (nat \<Rightarrow> nat list) \<Rightarrow> 'w slab_state \<Rightarrow> bool" where
  "list_rep held L FL st \<longleftrightarrow> initialized (space st) \<and> space_ok (space st)
     \<and> mem_ok (obj_size st) L FL (slabs st) (bufs st) (held (world st))
     \<and> slab_first (space st) = hdn L 0 \<and> slab_last (space st) = last (0 # L)"

lemma list_repD:
  assumes "list_rep held L FL st"
  shows "space_ok (space st)" "mem_ok (obj_size st) L FL (slabs st) (bufs st) (held (world st))"
    "slab_first (space st) = hdn L 0" "slab_last (space st) = last (0 # L)" "initialized (space st)" "4 \<le> obj_size st"
    "full_refcount (space st) = int (4080 div obj_size st)"
  using assms space_ok_size [of "space st"] by (auto simp: list_rep_def space_ok_def)

lemma remove_slab_ok:
  assumes rep: "list_rep held (xs @ s # ys) FL st"
  shows "\<exists>sl. remove_slab s st = Some (st\<lparr>slabs := sl, space := space st\<lparr>slab_first := hdn (xs @ ys) 0, slab_last := last (0 # xs @ ys)\<rparr>\<rparr>)
    \<and> dseg sl 0 (xs @ ys) 0 \<and> (\<forall>a. sl a = None \<longleftrightarrow> slabs st a = None)
    \<and> (\<forall>a h. slabs st a = Some h \<longrightarrow> (\<exists>h'. sl a = Some h' \<and> free_list h' = free_list h \<and> refcount h' = refcount h))"
proof -
  note R = list_repD [OF rep]
  note M = mem_okD(1,2) [OF R(2)]
  from M(2) obtain hs where hs: "slabs st s = Some hs" "slab_prev hs = last (0 # xs)" "slab_next hs = hdn ys 0"
      and xs: "dseg (slabs st) 0 xs s" and ys: "dseg (slabs st) s ys 0" by auto
  have d: "distinct xs" "distinct ys" "s \<notin> set xs" "s \<notin> set ys" "set xs \<inter> set ys = {}" using M(1) by auto
  have s0: "s \<noteq> 0" using dseg_nz [OF M(2)] by simp
  obtain t where t: "ys \<noteq> [] \<Longrightarrow> slabs st (hdn ys 0) = Some t" using dseg_mapped [OF ys] hdn_in by blast
  obtain u where u: "xs \<noteq> [] \<Longrightarrow> slabs st (last xs) = Some u" using dseg_mapped [OF xs] last_in_set by blast
  define sl1 where "sl1 = (if ys = [] then slabs st else (slabs st)(hdn ys 0 \<mapsto> t\<lparr>slab_prev := last (0 # xs)\<rparr>))"
  define sl where "sl = (if xs = [] then sl1 else sl1(last xs \<mapsto> u\<lparr>slab_next := hdn ys 0\<rparr>))"
  have cross: "xs \<noteq> [] \<Longrightarrow> last xs \<notin> set ys" using d(5) last_in_set by blast
  have ends: "ys \<noteq> [] \<Longrightarrow> hdn ys 0 \<in> set ys" "xs \<noteq> [] \<Longrightarrow> last xs \<in> set xs" by (simp_all add: hdn_in)
  have ne: "ys \<noteq> [] \<Longrightarrow> hdn ys 0 \<noteq> s \<and> hdn ys 0 \<noteq> 0" "xs \<noteq> [] \<Longrightarrow> last xs \<noteq> s \<and> last xs \<noteq> 0"
    "xs \<noteq> [] \<Longrightarrow> ys \<noteq> [] \<Longrightarrow> hdn ys 0 \<noteq> last xs"
    using ends d dseg_nz [OF xs] dseg_nz [OF ys] by (blast, blast, metis disjoint_iff)
  have y1: "dseg sl1 (last (0 # xs)) ys 0"
    using dseg_set_first [OF ys d(2) _ t] by (cases "ys = []") (auto simp: sl1_def)
  have x1: "dseg sl1 0 xs s" using xs by (rule dseg_frame) (use ends(1) d in \<open>auto simp: sl1_def\<close>)
  have "dseg sl (last (0 # xs)) ys 0" using y1 by (rule dseg_frame) (use cross in \<open>auto simp: sl_def\<close>)
  moreover have "dseg sl 0 xs (hdn ys 0)"
  proof (cases "xs = []")
    case False
    moreover have "sl1 (last xs) = Some u" using u [OF False] ne(3) [OF False] by (auto simp: sl1_def)
    ultimately show ?thesis using dseg_set_last [OF x1 d(1)] by (simp add: sl_def)
  qed simp
  moreover have "\<forall>a. sl a = None \<longleftrightarrow> slabs st a = None" using t u by (auto simp: sl_def sl1_def)
  moreover have "\<forall>a h. slabs st a = Some h \<longrightarrow> (\<exists>h'. sl a = Some h' \<and> free_list h' = free_list h \<and> refcount h' = refcount h)"
    using t u ne by (auto simp: sl_def sl1_def)
  moreover have "remove_slab s st = Some (st\<lparr>slabs := sl, space := space st\<lparr>slab_first := hdn (xs @ ys) 0, slab_last := last (0 # xs @ ys)\<rparr>\<rparr>)"
  proof -
    consider "xs = []" "ys = []" | "xs = []" "ys \<noteq> []" | "xs \<noteq> []" "ys = []" | "xs \<noteq> []" "ys \<noteq> []" by blast
    then show ?thesis
    proof cases
      case 1
      then show ?thesis using hs R(3,4) s0 by (simp add: remove_slab_def sl_def sl1_def upd_space_def)
    next
      case 2
      then have "last ys \<noteq> s" using d(4) last_in_set by metis
      with 2 show ?thesis using hs R(3,4) t ne(1) s0 by (simp add: remove_slab_def sl_def sl1_def upd_space_def upd_slab_def)
    next
      case 3
      then have "hdn xs s \<noteq> s" "hdn xs s = hdn xs 0" using d(3) by (auto simp: hdn_def split: list.splits)
      with 3 show ?thesis using hs R(3,4) u ne(2) s0 by (simp add: remove_slab_def sl_def sl1_def upd_space_def upd_slab_def)
    next
      case 4
      then have f: "hdn xs s \<noteq> s" "hdn xs s = hdn xs (hdn ys 0)" "last ys \<noteq> s"
        using d(3,4) last_in_set by (auto simp: hdn_def split: list.splits)
      then have "remove_slab s st = Some (st\<lparr>slabs := sl\<rparr>)"
        using 4 hs R(3,4) t u ne by (simp add: remove_slab_def sl_def sl1_def upd_slab_def)
      then show ?thesis using f 4 R(3,4) by simp
    qed
  qed
  ultimately show ?thesis unfolding dseg_append by blast
qed

subsection \<open>Reaping\<close>

lemma page_mask_slab:
  assumes "slab_addr s"
  shows "page_mask s = s - 4080" "page_mask s = page_of s" "page_mask s mod 4096 = 0"
proof -
  obtain q where "s = 4096 * q + 4080" by (rule slab_addrE [OF assms])
  then show "page_mask s = s - 4080" "page_mask s = page_of s" "page_mask s mod 4096 = 0"
    by (simp_all add: page_mask_page_of page_of_def)
qed

lemma mem_ok_remove:
  assumes mem: "mem_ok z (xs @ s # ys) FL sl bf pages" and z: "4 \<le> z" and F: "set (FL s) = bufctls z s"
    and d: "dseg sl' 0 (xs @ ys) 0" and dom: "\<And>a. sl' a = None \<longleftrightarrow> sl a = None"
    and keep: "\<And>a h. sl a = Some h \<Longrightarrow> \<exists>h'. sl' a = Some h' \<and> free_list h' = free_list h \<and> refcount h' = refcount h"
  shows "mem_ok z (xs @ ys) FL sl' bf pages"
proof (rule mem_okI)
  note M = mem_okD [OF mem]
  show "distinct (xs @ ys)" using M(1) by simp
  show "dseg sl' 0 (xs @ ys) 0" by (rule d)
  show "slab_ok z sl' bf (FL t) t" if "t \<in> set (xs @ ys)" for t
    by (rule slab_ok_frame [OF M(3) keep]) (use that in auto)
  show "v \<in> set (xs @ ys) \<and> b \<in> bufctls z v" if "bf b = Some v" "slab_addr v" for b v
  proof -
    have "v \<noteq> s" using M(5) [OF that] F slab_ok_free(2) [OF M(3) [of s] z _ that(1)] that(2) by auto
    then show ?thesis using M(4,5) [OF that] by auto
  qed
  show "page_of a \<in> pages" if "sl' a \<noteq> None \<or> bf a \<noteq> None" for a using M(6) [of a] that dom by simp
qed

text \<open>A complete slab is taken off the list, its objects are destroyed and its page is given back.\<close>

lemma reap_slab_ok:
  assumes rep: "list_rep held (xs @ s # ys) FL st" and cb: "callbacks_ok sys held (space st)"
    and h: "slabs st s = Some h" "refcount h = 0"
  shows "\<exists>e st'. reap_slab sys s st = Some (e, st') \<and> list_rep held (xs @ ys) FL st' \<and> same_live st st'
    \<and> same_callbacks (space st) (space st') \<and> sp_lock (space st') = sp_lock (space st) \<and> sp_size (space st') = sp_size (space st)
    \<and> (if e = 0 then held (world st') = held (world st) - {page_of s} \<and> nr_pages st' = nr_pages st - 1
        \<and> (\<exists>w. page_dealloc sys (space st) (s - 4080) getpagesize w = (0, world st')
            \<and> (\<forall>f. destructor (space st) = Some f \<longrightarrow> w = destroy_all f (hook (space st)) (obj_size st) (FL s) (world st)))
        else held (world st') = held (world st) \<and> nr_pages st' = nr_pages st
        \<and> (\<exists>p w. p \<in> held w \<and> page_dealloc sys (space st) p getpagesize w = (e, world st')))"
proof -
  note R = list_repD [OF rep]
  note M = mem_okD [OF R(2)]
  have sL: "s \<in> set (xs @ s # ys)" by simp
  have A: "slab_addr s" by (rule mem_slab_addr [OF R(2) sL])
  have F: "set (FL s) = bufctls (obj_size st) s" using slab_ok_complete [OF M(3) [OF sL] h(1) R(6)] h(2) by simp
  from remove_slab_ok [OF rep] obtain sl where rm: "remove_slab s st
        = Some (st\<lparr>slabs := sl, space := space st\<lparr>slab_first := hdn (xs @ ys) 0, slab_last := last (0 # xs @ ys)\<rparr>\<rparr>)"
      and sl: "dseg sl 0 (xs @ ys) 0" "\<And>a. sl a = None \<longleftrightarrow> slabs st a = None"
      "\<And>a h. slabs st a = Some h \<Longrightarrow> \<exists>h'. sl a = Some h' \<and> free_list h' = free_list h \<and> refcount h' = refcount h" by blast
  define st1 where "st1 = st\<lparr>slabs := sl, space := space st\<lparr>slab_first := hdn (xs @ ys) 0, slab_last := last (0 # xs @ ys)\<rparr>\<rparr>"
  have mem1: "mem_ok (obj_size st) (xs @ ys) FL (slabs st1) (bufs st1) (held (world st1))"
    using mem_ok_remove [OF R(2,6) F sl] by (simp add: st1_def)
  obtain h1 where h1: "slabs st1 s = Some h1" "free_list h1 = free_list h" using sl(3) [OF h(1)] by (auto simp: st1_def)
  have ch: "bufchain (bufs st1) (free_list h1) (FL s)"
    by (rule slab_okD [OF M(3) [OF sL]]) (use h(1) h1(2) in \<open>auto simp: st1_def\<close>)
  define st2 where "st2 = st1\<lparr>world := (case destructor (space st) of None \<Rightarrow> world st
      | Some f \<Rightarrow> destroy_all f (hook (space st)) (obj_size st) (FL s) (world st))\<rparr>"
  have d: "(if destructor (space st1) \<noteq> None then do { sl \<leftarrow> slabs st1 s; destroy_buffers st1 (free_list sl) } else Some st1) = Some st2"
  proof (cases "destructor (space st)")
    case None
    then show ?thesis by (simp add: st1_def st2_def)
  next
    case (Some f)
    then show ?thesis using destroy_buffers_chain [OF ch, of f] h1(1) by (simp add: st2_def) (simp add: st1_def)
  qed
  obtain e st3 where st3: "deallocate_buffer sys (page_mask s) getpagesize st2 = (e, st3)" by fastforce
  have run: "reap_slab sys s st = Some (if e \<noteq> 0 then (e, st3) else (0, st3\<lparr>nr_pages := nr_pages st3 - 1\<rparr>))"
    unfolding reap_slab_def rm st1_def [symmetric] using d st3 by (simp add: Let_def)
  have hw: "held (world st2) = held (world st)"
    by (cases "destructor (space st)") (auto simp: st2_def st1_def held_destroy_all [OF cb])
  have same: "same_callbacks (space st) (space st2)" by (simp add: st2_def st1_def same_callbacks_def)
  have cb2: "callbacks_ok sys held (space st2)" by (rule same_callbacks_ok [OF same cb])
  have mem2: "mem_ok (obj_size st) (xs @ ys) FL (slabs st2) (bufs st2) (held (world st2))" using mem1 hw by (simp add: st2_def) (simp add: st1_def)
  have pm: "page_of (page_mask s) = page_mask s" using page_mask_slab(3) [OF A] by (simp add: page_of_def)
  have other: "page_of t \<noteq> page_of (page_mask s)" if "t \<in> set (xs @ ys)" for t
    using slab_addr_page [OF mem_slab_addr [OF mem2 that] A] M(1) that page_mask_slab(2) [OF A] pm by auto
  have inh: "page_mask s \<in> held (world st2)" using M(6) [of s] h(1) hw page_mask_slab(2) [OF A] by simp
  note D = deallocate_buffer_foreign [OF cb2 mem2 R(6) other st3]
  have sp3: "space st3 = space st2" "space st2 = space st\<lparr>slab_first := hdn (xs @ ys) 0, slab_last := last (0 # xs @ ys)\<rparr>"
    using D(3) by (simp_all add: st2_def st1_def)
  have rep3: "list_rep held (xs @ ys) FL st3" using D(1) R(1,5) sp3 by (simp add: list_rep_def space_ok_def valid_request_def)
  have live3: "same_live st st3" using D(2) by (simp add: same_live_def st2_def st1_def)
  have hd: "if e \<noteq> 0 then held (world st3) = held (world st2) else held (world st3) = held (world st2) - {page_mask s}"
    using pages_okD(3) [OF callbacks_okD(1) [OF cb2] D(5)] inh page_mask_slab(3) [OF A] by (auto split: if_splits)
  from D(5) have pd: "page_dealloc sys (space st) (s - 4080) getpagesize (world st2) = (e, world st3)"
    using page_mask_slab(1) [OF A] same_callbacks_pages(2) [OF same] by simp
  show ?thesis
  proof (cases "e = 0")
    case True
    have "\<forall>f. destructor (space st) = Some f \<longrightarrow> world st2 = destroy_all f (hook (space st)) (obj_size st) (FL s) (world st)"
      by (simp add: st2_def)
    then have "\<exists>w. page_dealloc sys (space st) (s - 4080) getpagesize w = (0, world st3)
            \<and> (\<forall>f. destructor (space st) = Some f \<longrightarrow> w = destroy_all f (hook (space st)) (obj_size st) (FL s) (world st))"
      using pd True by blast
    moreover have "list_rep held (xs @ ys) FL (st3\<lparr>nr_pages := nr_pages st3 - 1\<rparr>)" using rep3 by (simp add: list_rep_def)
    moreover have "same_live st (st3\<lparr>nr_pages := nr_pages st3 - 1\<rparr>)" using live3 by (simp add: same_live_def)
    moreover have "held (world st3) = held (world st) - {page_of s}" "nr_pages st3 = nr_pages st"
      using D(4) hd True hw page_mask_slab(2) [OF A] by (simp_all add: st2_def st1_def)
    ultimately show ?thesis unfolding run using True same sp3
      by (intro exI [of _ 0] exI [of _ "st3\<lparr>nr_pages := nr_pages st3 - 1\<rparr>"]) simp
  next
    case False
    moreover have "held (world st3) = held (world st)" "nr_pages st3 = nr_pages st"
      using D(4) hd False hw by (simp_all add: st2_def st1_def)
    moreover have "s - 4080 \<in> held (world st2)" using inh page_mask_slab(1) [OF A] by simp
    ultimately show ?thesis unfolding run using rep3 live3 same sp3 pd by (intro exI [of _ e] exI [of _ st3]) auto
  qed
qed

text \<open>The slabs that reaping gives back: those all of whose objects are free.\<close>

definition complete :: "nat \<Rightarrow> (nat \<Rightarrow> nat list) \<Rightarrow> nat \<Rightarrow> bool" where
  "complete z FL s \<longleftrightarrow> set (FL s) = bufctls z s"

text \<open>What the loop of \<^verbatim>\<open>reap\<close> does to the rest \<open>td\<close> of the list, of which it leaves \<open>td'\<close>.\<close>

definition reaped :: "'w system \<Rightarrow> ('w \<Rightarrow> nat set) \<Rightarrow> (nat \<Rightarrow> nat list) \<Rightarrow> nat list \<Rightarrow> nat list \<Rightarrow> errno \<Rightarrow> 'w slab_state \<Rightarrow> 'w slab_state \<Rightarrow> bool" where
  "reaped sys held FL td td' e st st' \<longleftrightarrow>
     same_live st st' \<and> same_callbacks (space st) (space st') \<and> sp_lock (space st') = sp_lock (space st)
     \<and> sp_size (space st') = sp_size (space st) \<and> set td' \<subseteq> set td
     \<and> (e = 0 \<longrightarrow> td' = filter (\<lambda>s. \<not> complete (obj_size st) FL s) td
         \<and> held (world st') = held (world st) - page_of ` set (filter (complete (obj_size st) FL) td)
         \<and> nr_pages st' = nr_pages st - int (length (filter (complete (obj_size st) FL) td)))
     \<and> (e \<noteq> 0 \<longrightarrow> (\<exists>p w w'. p \<in> held w \<and> page_dealloc sys (space st) p getpagesize w = (e, w')))"

lemma reap_loop_ok:
  assumes "list_rep held (dn @ td) FL st" "callbacks_ok sys held (space st)"
  shows "\<exists>e st' td'. reap_loop sys st (hdn td 0) = Some (e, st') \<and> list_rep held (dn @ td') FL st' \<and> reaped sys held FL td td' e st st'"
  using assms
proof (induction td arbitrary: dn st)
  case Nil
  then show ?case by (simp add: reap_loop.simps reaped_def)
next
  case (Cons s td)
  note rep = Cons.prems(1) and cb = Cons.prems(2)
  note R = list_repD [OF rep]
  note M = mem_okD [OF R(2)]
  from M(2) obtain h where h: "slabs st s = Some h" "slab_next h = hdn td 0" "s \<noteq> 0" by auto
  have c: "refcount h = 0 \<longleftrightarrow> complete (obj_size st) FL s"
    using slab_ok_complete [OF M(3) h(1) R(6)] by (simp add: complete_def)
  show ?case
  proof (cases "refcount h = 0")
    case False
    have run: "reap_loop sys st (hdn (s # td) 0) = reap_loop sys st (hdn td 0)"
      using h False by (subst reap_loop.simps) simp
    have "list_rep held ((dn @ [s]) @ td) FL st" using rep by simp
    from Cons.IH [OF this cb] obtain e st' td' where IH: "reap_loop sys st (hdn td 0) = Some (e, st')"
      "list_rep held ((dn @ [s]) @ td') FL st'" "reaped sys held FL td td' e st st'" by blast
    have "reaped sys held FL (s # td) (s # td') e st st'" using IH(3) c False by (auto simp: reaped_def)
    moreover have "list_rep held (dn @ s # td') FL st'" using IH(2) by simp
    ultimately show ?thesis unfolding run using IH(1) by blast
  next
    case True
    from reap_slab_ok [OF rep cb h(1) True] obtain e st1 where S0: "reap_slab sys s st = Some (e, st1)" "list_rep held (dn @ td) FL st1"
      "same_live st st1" "same_callbacks (space st) (space st1)" "sp_lock (space st1) = sp_lock (space st)"
      "sp_size (space st1) = sp_size (space st)"
      "if e = 0 then held (world st1) = held (world st) - {page_of s} \<and> nr_pages st1 = nr_pages st - 1
        \<and> (\<exists>w. page_dealloc sys (space st) (s - 4080) getpagesize w = (0, world st1)
            \<and> (\<forall>f. destructor (space st) = Some f \<longrightarrow> w = destroy_all f (hook (space st)) (obj_size st) (FL s) (world st)))
        else held (world st1) = held (world st) \<and> nr_pages st1 = nr_pages st
        \<and> (\<exists>p w. p \<in> held w \<and> page_dealloc sys (space st) p getpagesize w = (e, world st1))" by blast
    have S1: "e = 0 \<Longrightarrow> held (world st1) = held (world st) - {page_of s} \<and> nr_pages st1 = nr_pages st - 1" using S0(7) by simp
    have S2: "\<exists>p w w'. p \<in> held w \<and> page_dealloc sys (space st) p getpagesize w = (e, w')" if "e \<noteq> 0" using S0(7) that by auto
    note S = S0(1-6) S1 S2
    show ?thesis
    proof (cases "e = 0")
      case False
      have "reap_loop sys st (hdn (s # td) 0) = Some (e, st1)" using h S(1) True False by (subst reap_loop.simps) simp
      moreover have "reaped sys held FL (s # td) td e st st1" using S False by (auto simp: reaped_def)
      ultimately show ?thesis using S(2) by blast
    next
      case e: True
      have run: "reap_loop sys st (hdn (s # td) 0) = reap_loop sys st1 (hdn td 0)"
        using h S(1) True e by (subst reap_loop.simps) simp
      from Cons.IH [OF S(2) same_callbacks_ok [OF S(4) cb]] obtain e' st' td' where IH: "reap_loop sys st1 (hdn td 0) = Some (e', st')"
        "list_rep held (dn @ td') FL st'" "reaped sys held FL td td' e' st1 st'" by blast
      have "reaped sys held FL (s # td) td' e' st st'"
        using IH(3) S(3-7) e c True same_callbacks_pages(2) [OF S(4), of sys] unfolding reaped_def
        by (auto intro: same_live_trans same_callbacks_trans)
      then show ?thesis unfolding run using IH(1,2) by blast
    qed
  qed
qed

lemma reap_ok:
  assumes rep: "slab_rep held L FL st" and cb: "callbacks_ok sys held (space st)"
  shows "\<exists>e st' L'. reap sys st = Some (e, st') \<and> slab_rep held L' FL st' \<and> reaped sys held FL L L' e st st'"
proof (cases "initialized (space st)")
  case False
  then have sp: "slab_first (space st) = 0" "first_free (space st) = 0" using slab_repD(1) [OF rep] by (simp_all add: space_ok_def)
  then have L: "L = []" using slab_repD(2,3) [OF rep] mem_okD(2) dseg_hdn by metis
  let ?st = "st\<lparr>space := space st\<lparr>first_free := 0\<rparr>\<rparr>"
  have "reap sys st = Some (0, ?st)"
    using sp(1) by (simp add: reap_def reap_loop.simps find_new_first.simps upd_space_def)
  moreover have "?st = st" using sp(2) by simp
  moreover have "reaped sys held FL L [] 0 st st" using L by (simp add: reaped_def)
  ultimately show ?thesis using rep L by auto
next
  case True
  then have "list_rep held ([] @ L) FL st" using slab_repD [OF rep] by (simp add: list_rep_def)
  from reap_loop_ok [OF this cb] obtain e st1 L' where r: "reap_loop sys st (hdn L 0) = Some (e, st1)"
    "list_rep held L' FL st1" "reaped sys held FL L L' e st st1" by auto
  note R = list_repD [OF r(2)]
  obtain f where f: "find_new_first st1 (hdn L' 0) = Some f" "f = 0 \<Longrightarrow> \<forall>s \<in> set L'. FL s = []" "f \<noteq> 0 \<Longrightarrow> f \<in> set L' \<and> FL f \<noteq> []"
    by (rule find_new_first_rep [OF R(2)]) (use R(7) in auto)
  let ?st = "st1\<lparr>space := space st1\<lparr>first_free := f\<rparr>\<rparr>"
  have "reap sys st = Some (e, ?st)"
    using r(1) f(1) slab_repD(3) [OF rep] R(3) by (simp add: reap_def upd_space_def)
  moreover have "slab_rep held L' FL ?st" using R(1-5) f(2,3) by (auto simp: slab_rep_def space_ok_def valid_request_def)
  moreover have "reaped sys held FL L L' e st ?st" using r(3) by (simp add: reaped_def same_live_def)
  ultimately show ?thesis by blast
qed

subsection \<open>The size of an object\<close>

lemma slab_round_pow2:
  assumes "unat al = 2 ^ k" "unat sz + 3 + 2 ^ k < 2 ^ 32"
  shows "unat (slab_round sz al) = (unat sz + 3 + 2 ^ k) div 2 ^ k * 2 ^ k"
proof -
  have k: "k < 32"
  proof (rule ccontr)
    assume "\<not> k < 32"
    then have "(2 :: nat) ^ 32 \<le> 2 ^ k" by (intro power_increasing) simp_all
    with assms(2) show False by simp
  qed
  have al: "al = shl 1 k" using assms(1) unat_shl_1 [where ?'a = 32, of k] k by (simp add: word_unat_eq_iff)
  let ?w = "sz + 4 + al - 1"
  have w: "?w = word_of_nat (unat sz + 3 + 2 ^ k)" by (simp flip: assms(1))
  have uw: "unat ?w = unat sz + 3 + 2 ^ k" unfolding w unsigned_of_nat of_nat_id by (rule take_bit_nat_eq_self) (use assms(2) in simp)
  have "slab_round sz al = shl (shr ?w k) k"
    unfolding slab_round_def al shl_1_minus_1
    by (rule bit_word_eqI) (auto simp: c_bits bit_not_iff)
  moreover have "unat (shr ?w k) * 2 ^ k < 2 ^ LENGTH(32)"
    unfolding unat_shr by (rule le_less_trans [OF div_times_less_eq_dividend unsigned_less])
  ultimately show ?thesis using unat_shl [of "shr ?w k" k] uw by (simp add: unat_shr)
qed

text \<open>A request that a C compiler makes for a type: the alignment is a power of two (0 stands for 4), and the size does not wrap around.\<close>

definition proper_request :: "u32 \<Rightarrow> u32 \<Rightarrow> bool" where
  "proper_request sz al \<longleftrightarrow> (\<exists>k. unat al = 2 ^ k \<and> unat sz + 3 + 2 ^ k < 2 ^ 32)"

lemma proper_request_round:
  assumes "proper_request sz al"
  shows "unat sz + 4 \<le> unat (slab_round sz al)" "unat al dvd unat (slab_round sz al)" "unat (slab_round sz al) < unat sz + 4 + unat al"
proof -
  from assms obtain k where k: "unat al = 2 ^ k" "unat sz + 3 + 2 ^ k < 2 ^ 32" by (auto simp: proper_request_def)
  note r = slab_round_pow2 [OF k]
  let ?n = "unat sz + 3 + 2 ^ k"
  have "?n div 2 ^ k * 2 ^ k + ?n mod 2 ^ k = ?n" by (rule div_mult_mod_eq)
  moreover have "?n mod 2 ^ k < 2 ^ k" by simp
  moreover note r k(1)
  ultimately show "unat sz + 4 \<le> unat (slab_round sz al)" "unat (slab_round sz al) < unat sz + 4 + unat al" by linarith+
  show "unat al dvd unat (slab_round sz al)" using r k(1) by simp
qed

definition fresh_state :: "'w hurd_slab_space \<Rightarrow> 'w \<Rightarrow> 'w slab_state" where
  "fresh_state sp w = \<lparr>space = sp, slabs = Map.empty, bufs = Map.empty, nr_pages = 0, world = w\<rparr>"

lemma hurd_slab_init_0:
  assumes "hurd_slab_init sz al a d c e hk = (0, sp)"
  shows "requested_size sp = sz" "requested_align sp = (if al = 0 then 4 else al)" "\<not> sp_lock sp" "\<not> initialized sp"
    "slab_first sp = 0" "slab_last sp = 0" "first_free sp = 0" "slab_round sz (if al = 0 then 4 else al) \<le> 4076"
  using assms unfolding hurd_slab_init_def by (auto simp: zero_space_def SLAB_EINVAL_def Let_def not_less split: if_splits)

lemma fresh_ready:
  assumes ini: "hurd_slab_init sz al a d c e hk = (0, sp)" and req: "proper_request sz (if al = 0 then 4 else al)"
    and cb: "callbacks_ok sys held sp"
  shows "slab_ready sys held (fresh_state sp w)" "live (fresh_state sp w) = {}"
proof -
  note I = hurd_slab_init_0 [OF ini]
  have "valid_request sp" using proper_request_round(1) [OF req] I(8) unfolding valid_request_def I(1,2) by (simp add: word_le_nat_alt)
  then have "slab_rep held [] (\<lambda>_. []) (fresh_state sp w)"
    using I by (simp add: slab_rep_def fresh_state_def space_ok_def mem_ok_def)
  then show "slab_ready sys held (fresh_state sp w)" using cb I(3) by (auto simp: slab_ready_def slab_inv_def fresh_state_def)
  show "live (fresh_state sp w) = {}" by (simp add: live_def fresh_state_def)
qed

subsection \<open>The layout of the allocated objects\<close>

lemma live_layout:
  assumes ready: "slab_ready sys held st" and b: "b \<in> live st"
  shows "unat (requested_size (space st)) + 4 \<le> obj_size st" "b + obj_size st \<le> page_of b + 4080" "0 < page_of b"
    "proper_request (requested_size (space st)) (requested_align (space st)) \<Longrightarrow> b mod unat (requested_align (space st)) = 0"
    "c \<in> live st \<Longrightarrow> b < c \<Longrightarrow> b + obj_size st \<le> c"
proof -
  from ready obtain L FL where rep: "slab_rep held L FL st" by (auto simp: slab_ready_def slab_inv_def)
  note R = slab_repD [OF rep]
  let ?z = "obj_size st"
  obtain s where s: "s \<in> set L" "b + (?z - 4) \<in> bufctls ?z s" "slab_addr s" "initialized (space st)" "4 \<le> ?z"
    by (rule live_slab [OF rep b])
  have sz: "sp_size (space st) = slab_round (requested_size (space st)) (requested_align (space st))"
    using R(1) s(4) by (simp add: space_ok_def)
  show "unat (requested_size (space st)) + 4 \<le> ?z" using R(1) sz by (simp add: space_ok_def valid_request_def)
  from s(2) obtain i where i: "i < 4080 div ?z" "b + (?z - 4) = s - 4080 + i * ?z + ?z - 4" by (auto simp: bufctls_def)
  obtain q where q: "s = 4096 * q + 4080" "0 < q" by (rule slab_addrE [OF s(3)])
  have bi: "b = 4096 * q + i * ?z" using i(2) q(1) s(5) by simp
  have "page_of b = 4096 * q" using bi obj_index [OF i(1)] s(5) by (simp add: page_of_def)
  then show "b + ?z \<le> page_of b + 4080" "0 < page_of b" using bi obj_index [OF i(1)] q(2) by simp_all
  show "b mod unat (requested_align (space st)) = 0" if req: "proper_request (requested_size (space st)) (requested_align (space st))"
  proof -
    note P = proper_request_round [OF req, folded sz]
    obtain k where k: "unat (requested_align (space st)) = 2 ^ k" using req by (auto simp: proper_request_def)
    have "(2::nat) ^ k \<le> 4076" using P(2) k space_ok_size [OF R(1) s(4)] s(5) by (metis dvd_imp_le le_trans not_gr_zero not_numeral_le_zero)
    then have "(2::nat) ^ k < 2 ^ 12" by simp
    then have "k < 12" by (rule power_less_imp_less_exp [rotated]) simp
    then have "(2::nat) ^ k dvd 2 ^ 12" by (intro le_imp_power_dvd) simp
    then have "2 ^ k dvd 4096 * q" by simp
    then show ?thesis using P(2) bi k by simp
  qed
  assume c: "c \<in> live st" and lt: "b < c"
  obtain t where t: "c + (?z - 4) \<in> bufctls ?z t" "slab_addr t" by (rule live_slab [OF rep c])
  from bufctls_apart [OF s(2) t(1) s(3) t(2) _ s(5)] lt show "b + ?z \<le> c" by simp
qed

subsection \<open>Destruction\<close>

lemma live_empty:
  assumes rep: "slab_rep held L FL st"
  shows "live st = {} \<longleftrightarrow> (\<forall>s \<in> set L. complete (obj_size st) FL s)"
proof
  note R = slab_repD [OF rep]
  let ?z = "obj_size st"
  assume none: "live st = {}"
  show "\<forall>s \<in> set L. complete ?z FL s"
  proof (rule ballI, rule ccontr)
    fix s
    assume s: "s \<in> set L" "\<not> complete ?z FL s"
    have z: "4 \<le> ?z" by (rule slab_rep_geometry(2) [OF rep]) (use s(1) in auto)
    note ok = mem_okD(3) [OF R(2) s(1)]
    from s(2) ok obtain c where c: "c \<in> bufctls ?z s" "c \<notin> set (FL s)" by (auto simp: complete_def slab_ok_def)
    then have "bufs st c = Some s" using ok by (auto simp: slab_ok_def)
    then have "c - (?z - 4) \<in> live st" using live_bufctl [OF bufctl_ge [OF c(1) z]] mem_slab_addr [OF R(2) s(1)] by blast
    with none show False by simp
  qed
next
  note R = slab_repD [OF rep]
  assume all: "\<forall>s \<in> set L. complete (obj_size st) FL s"
  show "live st = {}"
  proof (rule ccontr)
    assume "live st \<noteq> {}"
    then obtain b where "b \<in> live st" by blast
    then obtain s where s: "s \<in> set L" "bufs st (b + (obj_size st - 4)) = Some s" "b + (obj_size st - 4) \<in> bufctls (obj_size st) s"
      "slab_addr s" "4 \<le> obj_size st" by (rule live_slab [OF rep])
    then show False using slab_ok_free(2) [OF mem_okD(3) [OF R(2) s(1)] s(5) _ s(2)] all by (auto simp: complete_def)
  qed
qed

text \<open>C10: Destroying a space. \<^verbatim>\<open>hurd_slab_destroy\<close> returns 0 exactly if no object is allocated and \<^verbatim>\<open>EBUSY\<close> otherwise, unless the
  deallocator refuses a page of the space, whose error it then returns; no assertion fails and no memory that has been
  given back is read. If nothing is refused, the pages of exactly those slabs that have only free objects are given
  back. The allocated objects stay as they are, and the space stays usable unless it was destroyed. The callbacks keep
  the contract \<open>callbacks_ok\<close>; whether the deallocator succeeds is left open.
\<close>

theorem slab_destroy:
  assumes rep: "slab_rep held L FL st" and cb: "callbacks_ok sys held (space st)" and lock: "\<not> sp_lock (space st)"
  shows "\<exists>err st'. hurd_slab_destroy sys st = Some (err, st') \<and> live st' = live st \<and> (err \<noteq> 0 \<longrightarrow> slab_ready sys held st')
    \<and> (err = (if live st = {} then 0 else SLAB_EBUSY)
        \<and> held (world st') = held (world st) - page_of ` {s \<in> set L. set (FL s) = bufctls (obj_size st) s}
      \<or> err \<noteq> 0 \<and> (\<exists>p w w'. p \<in> held w \<and> page_dealloc sys (space st) p getpagesize w = (err, w')))"
proof -
  define st1 where "st1 = st\<lparr>space := space st\<lparr>sp_lock := True\<rparr>\<rparr>"
  have l: "slab_lock st = Some st1" using lock by (simp add: slab_lock_def st1_def upd_space_def)
  have s1: "slab_rep held L FL st1" "live st1 = live st" "obj_size st1 = obj_size st" "world st1 = world st" using rep by (simp_all add: st1_def)
  have same1: "same_callbacks (space st) (space st1)" by (simp add: st1_def)
  from reap_ok [OF s1(1) same_callbacks_ok [OF same1 cb]] obtain e st2 L' where
    r: "reap sys st1 = Some (e, st2)" "slab_rep held L' FL st2" "reaped sys held FL L L' e st1 st2" by blast
  have live2: "live st2 = live st" using r(3) same_live_live [of st1 st2] s1(2) by (simp add: reaped_def)
  have same2: "same_callbacks (space st) (space st2)" using r(3) same1 by (auto simp: reaped_def intro: same_callbacks_trans)
  have ready: "slab_ready sys held (slab_unlock st2)"
    by (rule slab_readyI [OF _ cb, where L = L' and FL = FL]) (use r(2) same2 in \<open>simp_all add: slab_unlock_def upd_space_def\<close>)
  have unl: "live (slab_unlock st2) = live st" "world (slab_unlock st2) = world st2"
    using live2 by (simp_all add: slab_unlock_def upd_space_def)
  show ?thesis
  proof (cases "e = 0")
    case False
    then have "\<exists>p w w'. p \<in> held w \<and> page_dealloc sys (space st) p getpagesize w = (e, w')"
      using r(3) same_callbacks_pages(2) [OF same1, of sys] unfolding reaped_def by metis
    moreover have "hurd_slab_destroy sys st = Some (e, slab_unlock st2)" using l r(1) False by (simp add: hurd_slab_destroy_def)
    ultimately show ?thesis using False ready unl by blast
  next
    case True
    then have L': "L' = filter (\<lambda>s. \<not> complete (obj_size st) FL s) L"
      and h: "held (world st2) = held (world st) - page_of ` set (filter (complete (obj_size st) FL) L)"
      using r(3) by (simp_all add: reaped_def s1)
    have "slab_first (space st2) = 0 \<longleftrightarrow> L' = []" using slab_repD(2,3) [OF r(2)] dseg_hdn mem_okD(2) by metis
    also have "\<dots> \<longleftrightarrow> live st = {}" unfolding live_empty [OF rep] L' by (auto simp: filter_empty_conv)
    finally have d: "hurd_slab_destroy sys st = Some (if live st = {} then (0, st2) else (SLAB_EBUSY, slab_unlock st2))"
      using l r(1) True by (auto simp: hurd_slab_destroy_def)
    have "set (filter (complete (obj_size st) FL) L) = {s \<in> set L. set (FL s) = bufctls (obj_size st) s}"
      by (auto simp: complete_def)
    then show ?thesis using d h live2 ready unl
      by (cases "live st = {}") auto
  qed
qed

subsection \<open>A constructor that fails\<close>

lemma destroy_new_bufs:
  assumes "4 \<le> z"
  shows "destroy_all g hk z (new_bufs z (p + 4080) i) v = fold (g hk) (rev (map (\<lambda>j. p + j * z) [0..<i])) v"
proof -
  have "map (\<lambda>b. b - (z - sizeof_bufctl)) (new_bufs z (p + 4080) i) = rev (map (\<lambda>j. p + j * z) [0..<i])"
    using assms by (simp add: new_bufs_def rev_map)
  then show ?thesis unfolding destroy_all_def by (metis (no_types, lifting) fold_map comp_def fold_cong)
qed

text \<open>C11: When the constructor fails for the \<open>i\<close>-th object of a new page, \<^verbatim>\<open>hurd_slab_alloc\<close> returns its error and the space is
  as before, usable and with the same slabs, free lists and objects. The objects that had been constructed are destroyed, the last one
  first, and then the deallocator is called with the address of the object that failed, \<open>p + i * size\<close>, although the page is
  at \<open>p\<close>; it depends on the deallocator whether the page is given back. No other page is affected, and the page
  stays counted in either case. The callbacks keep the contract \<open>callbacks_ok\<close>, which leaves open what a deallocator does
  with an address inside a page; one that does not return, as \<^verbatim>\<open>munmap\<close> of \<^verbatim>\<open>libhurd-mm/mmap.c\<close> for such an address, is not covered.
\<close>

theorem slab_constructor_failure:
  assumes rep: "slab_rep held L FL st" and cb: "callbacks_ok sys held (space st)" and lock: "\<not> sp_lock (space st)"
    and full: "initialized (space st)" "first_free (space st) = 0"
    and page: "page_alloc sys (space st) (world st) = (Inr (p, hdr), w)"
    and ctor: "constructor (space st) = Some f" and i: "i < 4080 div obj_size st"
    and before: "\<And>j. j < i \<Longrightarrow> fst (f (hook (space st)) (p + j * obj_size st) (constructed f (hook (space st)) (obj_size st) p 0 j w)) = 0"
    and fails: "f (hook (space st)) (p + i * obj_size st) (constructed f (hook (space st)) (obj_size st) p 0 i w) = (err, v)" "err \<noteq> 0"
  shows "\<exists>st' g. hurd_slab_alloc sys st = Some (Inl err, st') \<and> live st' = live st \<and> slab_ready sys held st' \<and> slab_rep held L FL st'
    \<and> destructor (space st) = Some g
    \<and> world st' = snd (page_dealloc sys (space st) (p + i * obj_size st) getpagesize
        (fold (g (hook (space st))) (rev (map (\<lambda>j. p + j * obj_size st) [0..<i])) v))
    \<and> (held (world st') = held (world st) \<or> held (world st') = insert p (held (world st))) \<and> nr_pages st' = nr_pages st + 1"
proof -
  note R = slab_repD [OF rep]
  let ?h = "hook (space st)" and ?z = "obj_size st"
  have z: "4 \<le> ?z" using space_ok_size [OF R(1) full(1)] by simp
  note P = pages_okD(2) [OF callbacks_okD(1) [OF cb] page]
  let ?s = "p + 4080" and ?N = "4080 div ?z"
  define st0 where "st0 = st\<lparr>space := space st\<lparr>sp_lock := True\<rparr>\<rparr>"
  have rep0: "slab_rep held L FL st0" and same0: "same_callbacks (space st) (space st0)" using rep by (simp_all add: st0_def)
  have cb0: "callbacks_ok sys held (space st0)" by (rule same_callbacks_ok [OF same0 cb])
  have page0: "page_alloc sys (space st0) (world st0) = (Inr (p, hdr), w)" using page same_callbacks_pages(1) [OF same0] by (simp add: st0_def)
  have z0: "4 \<le> obj_size st0" using z by (simp add: st0_def)
  define st1 where "st1 = st0\<lparr>world := w, slabs := (slabs st0)(?s \<mapsto> hdr), nr_pages := nr_pages st0 + 1\<rparr>"
  have g: "growing held L FL ?s 0 st1" "same_live st0 st1" unfolding st1_def by (rule fresh_page_growing [OF rep0 cb0 z0 page0])+
  have sp1: "space st1 = space st0" "obj_size st0 = ?z" "world st1 = w" by (simp_all add: st1_def st0_def)
  have pre: "callbacks_ok sys held (space st1)" "4 \<le> obj_size st1" "0 + ?N = 4080 div obj_size st1" "p = ?s - 4080 + 0 * obj_size st1"
    using cb0 z by (simp_all add: sp1)
  from grow_objs_ok [OF pre(1) g(1) pre(2-4)] obtain e st2 where st2: "grow_objs sys ?s ?N p st1 = Some (e, st2)" "space st2 = space st0"
      "nr_pages st2 = nr_pages st1" "same_live st1 st2" "ctor_report sys (space st0) ?s 0 e w (world st2)"
      "e \<noteq> 0 \<longrightarrow> mem_ok (obj_size st0) L FL (slabs st2) (bufs st2) (held (world st2))"
    unfolding sp1 by blast
  have c0: "constructor (space st0) = Some f" "hook (space st0) = ?h" "destructor (space st0) = destructor (space st)"
    using ctor by (simp_all add: st0_def)
  have report: "if e = 0 then \<forall>j. j < ?N \<longrightarrow> fst (f ?h (p + j * ?z) (constructed f ?h ?z p 0 j w)) = 0
      else \<exists>j g. j < ?N \<and> (\<forall>l. l < j \<longrightarrow> fst (f ?h (p + l * ?z) (constructed f ?h ?z p 0 l w)) = 0)
          \<and> fst (f ?h (p + j * ?z) (constructed f ?h ?z p 0 j w)) = e \<and> destructor (space st) = Some g
          \<and> world st2 = snd (page_dealloc sys (space st0) (p + j * ?z) getpagesize
              (destroy_all g ?h ?z (new_bufs ?z ?s j) (constructed f ?h ?z p 0 (Suc j) w)))"
    using st2(5) unfolding ctor_report_def c0 option.case Let_def sp1(2) by (simp cong: if_cong)
  have e0: "e \<noteq> 0"
  proof
    assume "e = 0"
    with report i have "fst (f ?h (p + i * ?z) (constructed f ?h ?z p 0 i w)) = 0" by simp
    then show False using fails by simp
  qed
  with report obtain j d where j: "\<forall>l. l < j \<longrightarrow> fst (f ?h (p + l * ?z) (constructed f ?h ?z p 0 l w)) = 0"
      "fst (f ?h (p + j * ?z) (constructed f ?h ?z p 0 j w)) = e" "destructor (space st) = Some d"
      "world st2 = snd (page_dealloc sys (space st0) (p + j * ?z) getpagesize
         (destroy_all d ?h ?z (new_bufs ?z ?s j) (constructed f ?h ?z p 0 (Suc j) w)))" by auto
  have "\<not> j < i" "\<not> i < j" using before [of j] j(1,2) e0 fails by auto
  then have ji: "j = i" by simp
  have e: "e = err" using j(2) fails(1) ji by simp
  have v: "constructed f ?h ?z p 0 (Suc i) w = v" using fails(1) by (simp add: constructed_def)
  let ?u = "fold (d ?h) (rev (map (\<lambda>j. p + j * ?z) [0..<i])) v"
  have w2: "world st2 = snd (page_dealloc sys (space st) (p + i * ?z) getpagesize ?u)"
    using j(4) unfolding ji v destroy_new_bufs [OF z] same_callbacks_pages(2) [OF same0] .
  have hu: "held ?u = insert p (held (world st))"
  proof -
    have "held (constructed f ?h ?z p 0 n w) = held w" for n
      using callbacks_okD(2) [OF cb ctor] by (induction n) (simp_all add: constructed_def)
    then have "held v = held w" using v by metis
    moreover have "held (destroy_all d ?h ?z (new_bufs ?z ?s i) v) = held v" by (rule held_destroy_all [OF cb j(3)])
    ultimately show ?thesis using P unfolding destroy_new_bufs [OF z] by simp
  qed
  have "page_of (p + i * ?z) = p"
  proof -
    obtain q where "p = 4096 * q" using P by (metis mod_0_imp_dvd dvdE)
    then show ?thesis using obj_index [OF i] z by (simp add: page_of_def)
  qed
  then have held2: "held (world st2) = held (world st) \<or> held (world st2) = insert p (held (world st))"
    using pages_okD(3) [OF callbacks_okD(1) [OF cb], of "p + i * ?z" ?u] hu P unfolding w2
    by (cases "page_dealloc sys (space st) (p + i * ?z) getpagesize ?u") (auto simp: page_of_def split: if_splits)
  have gr: "grow sys st0 = Some (err, st2)"
    using full page0 st2(1) e0 e z by (simp add: grow_def allocate_buffer_def st1_def Let_def st0_def add.commute [of p])
  define st' where "st' = slab_unlock st2"
  have run: "hurd_slab_alloc sys st = Some (Inl err, st')"
    using lock full gr fails(2) by (simp add: hurd_slab_alloc_def slab_lock_def st0_def upd_space_def st'_def)
  have rep2: "slab_rep held L FL st'" using st2(2,6) e0 slab_repD [OF rep0] full(2)
    by (auto simp: slab_rep_def st'_def slab_unlock_def upd_space_def space_ok_def valid_request_def st0_def)
  have "slab_ready sys held st'"
    by (rule slab_readyI [OF rep2 cb]) (simp_all add: st'_def slab_unlock_def upd_space_def st2(2) st0_def)
  moreover have "live st' = live st"
  proof -
    have "live st' = live st2" by (simp add: st'_def slab_unlock_def upd_space_def)
    also have "\<dots> = live st0" using same_live_live [OF same_live_trans [OF g(2) st2(4)]] st2(2) by simp
    finally show ?thesis by (simp add: st0_def)
  qed
  moreover have "world st' = world st2" "nr_pages st' = nr_pages st + 1"
    using st2(3) by (simp_all add: st'_def slab_unlock_def upd_space_def st1_def st0_def)
  ultimately show ?thesis using run rep2 j(3) w2 held2 by (intro exI [of _ st'] exI [of _ d]) simp
qed

subsection \<open>The interface\<close>

text \<open>A client keeps the objects that it has been given; it asks for an object or gives back its \<open>i\<close>-th object.\<close>

datatype request = Get | Put nat

fun run_client :: "('s \<Rightarrow> ((errno + nat) \<times> 's) option) \<Rightarrow> (nat \<Rightarrow> 's \<Rightarrow> 's option) \<Rightarrow> request list \<Rightarrow> 's \<Rightarrow> nat list \<Rightarrow> ('s \<times> nat list) option" where
  "run_client alloc dealloc [] s xs = Some (s, xs)"
| "run_client alloc dealloc (Get # rs) s xs = do {
     (r, s) \<leftarrow> alloc s;
     run_client alloc dealloc rs s (case r of Inl _ \<Rightarrow> xs | Inr b \<Rightarrow> b # xs)
   }"
| "run_client alloc dealloc (Put i # rs) s xs =
     (if i < length xs then do {
        s \<leftarrow> dealloc (xs ! i) s;
        run_client alloc dealloc rs s (take i xs @ drop (Suc i) xs)
      } else run_client alloc dealloc rs s xs)"

text \<open>The contract of an allocator of objects, and what follows for every client.\<close>

locale object_allocator =
  fixes ready :: "'s \<Rightarrow> bool" and objs :: "'s \<Rightarrow> nat set"
    and alloc :: "'s \<Rightarrow> ((errno + nat) \<times> 's) option" and dealloc :: "nat \<Rightarrow> 's \<Rightarrow> 's option"
  assumes alloc_law: "ready s \<Longrightarrow> \<exists>r s'. alloc s = Some (r, s') \<and> ready s'
      \<and> (case r of Inl e \<Rightarrow> e \<noteq> 0 \<and> objs s' = objs s | Inr b \<Rightarrow> b \<notin> objs s \<and> objs s' = insert b (objs s))"
    and dealloc_law: "ready s \<Longrightarrow> b \<in> objs s \<Longrightarrow> \<exists>s'. dealloc b s = Some s' \<and> ready s' \<and> objs s' = objs s - {b}"
begin

lemma client_run:
  "ready s \<Longrightarrow> distinct xs \<Longrightarrow> set xs = objs s \<Longrightarrow>
    \<exists>s' ys. run_client alloc dealloc rs s xs = Some (s', ys) \<and> ready s' \<and> distinct ys \<and> set ys = objs s'"
proof (induction rs arbitrary: s xs)
  case (Cons q rs)
  show ?case
  proof (cases q)
    case Get
    from alloc_law [OF Cons.prems(1)] obtain r s' where a: "alloc s = Some (r, s')" "ready s'"
      "case r of Inl e \<Rightarrow> e \<noteq> 0 \<and> objs s' = objs s | Inr b \<Rightarrow> b \<notin> objs s \<and> objs s' = insert b (objs s)" by blast
    let ?ys = "case r of Inl _ \<Rightarrow> xs | Inr b \<Rightarrow> b # xs"
    have "distinct ?ys" "set ?ys = objs s'" using a(3) Cons.prems(2,3) by (auto split: sum.splits)
    with Cons.IH [OF a(2)] a(1) Get show ?thesis by simp
  next
    case (Put i)
    show ?thesis
    proof (cases "i < length xs")
      case True
      then have "xs ! i \<in> objs s" using Cons.prems(3) nth_mem by blast
      from dealloc_law [OF Cons.prems(1) this] obtain s' where d: "dealloc (xs ! i) s = Some s'" "ready s'" "objs s' = objs s - {xs ! i}" by blast
      have xs: "xs = take i xs @ xs ! i # drop (Suc i) xs" using True by (simp add: id_take_nth_drop)
      have "distinct (take i xs @ xs ! i # drop (Suc i) xs)" "set (take i xs @ xs ! i # drop (Suc i) xs) = objs s"
        using Cons.prems(2,3) xs by simp_all
      then have "distinct (take i xs @ drop (Suc i) xs)" "set (take i xs @ drop (Suc i) xs) = objs s'" using d(3) by auto
      with Cons.IH [OF d(2)] d(1) True Put show ?thesis by simp
    next
      case False
      with Cons.IH [OF Cons.prems] Put show ?thesis by simp
    qed
  qed
qed simp

end

interpretation slab: object_allocator "\<lambda>st. slab_ready sys held st \<and> same_callbacks sp (space st)" live "hurd_slab_alloc sys" hurd_slab_dealloc
  for sys held sp
proof
  fix st :: "'a slab_state"
  assume st: "slab_ready sys held st \<and> same_callbacks sp (space st)"
  from hurd_slab_alloc_ok [of sys held st] st show "\<exists>r st'. hurd_slab_alloc sys st = Some (r, st') \<and> (slab_ready sys held st' \<and> same_callbacks sp (space st'))
      \<and> (case r of Inl e \<Rightarrow> e \<noteq> 0 \<and> live st' = live st | Inr b \<Rightarrow> b \<notin> live st \<and> live st' = insert b (live st))"
    by (blast intro: same_callbacks_trans)
  fix b
  assume "b \<in> live st"
  from hurd_slab_dealloc_ok [of sys held st b] this st show "\<exists>st'. hurd_slab_dealloc b st = Some st' \<and> (slab_ready sys held st' \<and> same_callbacks sp (space st'))
      \<and> live st' = live st - {b}"
    by (blast intro: same_callbacks_trans)
qed

text \<open>C9: Every client of a new slab space. Whatever a client asks for and gives back, no assertion fails and no unmapped
  memory is accessed; the objects that the client holds are exactly the allocated ones, they are aligned as requested,
  lie within a page in front of its slab structure, and neither they nor their control words overlap. The request is one
  for which the computation of the object size does not wrap around (\<open>proper_request\<close>), and the callbacks keep their contract
  \<open>callbacks_ok\<close>: fresh zeroed pages, constructors and destructors that leave the pages alone, and a destructor
  where the constructor can fail.
\<close>

theorem slab_clients:
  assumes ini: "hurd_slab_init sz al a d c e hk = (0, sp)" and req: "proper_request sz (if al = 0 then 4 else al)"
    and cb: "callbacks_ok sys held sp"
  shows "\<exists>st xs. run_client (hurd_slab_alloc sys) hurd_slab_dealloc rs (fresh_state sp w) [] = Some (st, xs)
    \<and> distinct xs \<and> set xs = live st \<and> slab_ready sys held st
    \<and> (\<forall>b \<in> set xs. b mod unat (if al = 0 then 4 else al) = 0 \<and> 0 < page_of b \<and> b + unat sz + 4 \<le> page_of b + 4080)
    \<and> (\<forall>b \<in> set xs. \<forall>b' \<in> set xs. b < b' \<longrightarrow> b + unat sz + 4 \<le> b')"
proof -
  note F = fresh_ready [OF ini req cb, of w]
  have same: "same_callbacks sp (space (fresh_state sp w))" by (simp add: fresh_state_def)
  from slab.client_run [of sys held "fresh_state sp w" sp "[]" rs] F same obtain st xs where
    r: "run_client (hurd_slab_alloc sys) hurd_slab_dealloc rs (fresh_state sp w) [] = Some (st, xs)" "slab_ready sys held st"
      "same_callbacks sp (space st)" "distinct xs" "set xs = live st" by auto
  have rq: "requested_size (space st) = sz" "requested_align (space st) = (if al = 0 then 4 else al)"
    using hurd_slab_init_0(1,2) [OF ini] r(3) by (simp_all add: same_callbacks_def)
  note lay = live_layout [OF r(2), unfolded rq]
  have one: "b mod unat (if al = 0 then 4 else al) = 0 \<and> 0 < page_of b \<and> b + unat sz + 4 \<le> page_of b + 4080" if "b \<in> live st" for b
    using lay(1-4) [OF that] req by (auto simp: add.assoc)
  have "b + unat sz + 4 \<le> b'" if "b \<in> live st" "b' \<in> live st" "b < b'" for b b'
    using lay(1) [OF that(1)] lay(5) [OF that] by linarith
  with one r show ?thesis by blast
qed

subsection \<open>A size that wraps around\<close>

text \<open>The check of \<^verbatim>\<open>hurd_slab_init\<close> accepts a size near the end of the range, and the first allocation divides by zero.\<close>

lemma slab_init_wraps:
  assumes "hurd_slab_init 0xFFFFFFFC 4 a d c e hk = (err, sp)"
  shows "err = 0" "hurd_slab_alloc sys (fresh_state sp w) = None"
proof -
  have r: "slab_round 0xFFFFFFFC 4 = 0" by (simp add: slab_round_def)
  with assms show err: "err = 0" by (simp add: hurd_slab_init_def)
  note I = hurd_slab_init_0 [OF assms [unfolded err]]
  show "hurd_slab_alloc sys (fresh_state sp w) = None"
    using I r by (simp add: hurd_slab_alloc_def slab_lock_def grow_def init_space_def fresh_state_def upd_space_def Let_def)
qed

subsection \<open>An instance of the callbacks\<close>

text \<open>A page allocator whose world is the list of the pages it holds; its deallocator chops the address, as those of
  \<^verbatim>\<open>libhurd-mm\<close> do.\<close>

definition demo_sys :: "nat list system" where
  "demo_sys = \<lparr>sys_mmap = (\<lambda>_ ps. let p = 4096 * Suc (sum_list ps) in (Inr (p, zero_slab), p # ps)),
     sys_munmap = (\<lambda>p _ ps. (0, filter (\<lambda>q. q \<noteq> page_of p) ps)),
     sys_malloc = (\<lambda>ps. (True, ps)), sys_free = (\<lambda>ps. ps)\<rparr>"

definition demo_held :: "nat list \<Rightarrow> nat set" where
  "demo_held ps = {p \<in> set ps. p mod 4096 = 0}"

lemma demo_pages_ok:
  assumes "sp_allocate_buffer sp = None" "sp_deallocate_buffer sp = None"
  shows "pages_ok demo_sys demo_held sp"
proof -
  have "4096 * Suc (sum_list ps) \<notin> set ps" for ps :: "nat list"
    using member_le_sum_list [of "4096 * Suc (sum_list ps)" ps] by auto
  then show ?thesis using assms
    by (auto simp: pages_ok_def page_alloc_def page_dealloc_def demo_sys_def demo_held_def page_of_def Let_def split: if_splits)
qed

lemma demo_pages_zeroed: "sp_allocate_buffer sp = None \<Longrightarrow> pages_zeroed demo_sys sp"
  by (simp add: pages_zeroed_def page_alloc_def demo_sys_def Let_def)

definition demo_space :: "nat list hurd_slab_space" where
  "demo_space = snd (hurd_slab_init 100 4 None None None None 0)"

lemma demo_space_simps:
  "hurd_slab_init 100 4 None None None None 0 = (0, demo_space)"
  "sp_allocate_buffer demo_space = None" "sp_deallocate_buffer demo_space = None" "constructor demo_space = None" "destructor demo_space = None"
  by (simp_all add: demo_space_def hurd_slab_init_def slab_round_def zero_space_def Let_def)

lemma demo_callbacks_ok: "callbacks_ok demo_sys demo_held demo_space"
  using demo_pages_ok [of demo_space] demo_pages_zeroed [of demo_space] by (simp add: callbacks_ok_def demo_space_simps)

lemma demo_request: "proper_request 100 4"
  by (auto simp: proper_request_def intro!: exI [of _ 2])

theorem slab_clients_witness:
  "\<exists>st xs. run_client (hurd_slab_alloc demo_sys) hurd_slab_dealloc [Get, Get, Put 1, Get] (fresh_state demo_space []) [] = Some (st, xs)
    \<and> distinct xs \<and> set xs = live st \<and> slab_ready demo_sys demo_held st
    \<and> (\<forall>b \<in> set xs. b mod unat (if (4 :: u32) = 0 then 4 else 4 :: u32) = 0 \<and> 0 < page_of b \<and> b + unat (100 :: u32) + 4 \<le> page_of b + 4080)
    \<and> (\<forall>b \<in> set xs. \<forall>b' \<in> set xs. b < b' \<longrightarrow> b + unat (100 :: u32) + 4 \<le> b')"
  by (rule slab_clients [OF demo_space_simps(1)]) (use demo_request demo_callbacks_ok in simp_all)

text \<open>A space for objects of 4072 bytes, one to a page, with two pages: the object of the first one is allocated.\<close>

definition demo_two :: "nat list slab_state" where
  "demo_two = \<lparr>space = zero_space\<lparr>initialized := True, requested_size := 4072, requested_align := 4, slab_first := 8176,
       slab_last := 12272, first_free := 12272, full_refcount := 1, sp_size := 4076\<rparr>,
     slabs = [8176 \<mapsto> \<lparr>slab_next = 12272, slab_prev = 0, refcount = 1, free_list = 0\<rparr>,
              12272 \<mapsto> \<lparr>slab_next = 0, slab_prev = 8176, refcount = 0, free_list = 12264\<rparr>],
     bufs = [8168 \<mapsto> 8176, 12264 \<mapsto> 0], nr_pages = 2, world = [4096, 8192]\<rparr>"

lemma demo_two_rep: "slab_rep demo_held [8176, 12272] ((\<lambda>_. [])(12272 := [12264])) demo_two"
proof -
  have z: "unat (sp_size (space demo_two)) = 4076" by (simp add: demo_two_def)
  have b: "bufctls 4076 8176 = {8168}" "bufctls 4076 12272 = {12264}" by (auto simp: bufctls_def)
  have "mem_ok 4076 [8176, 12272] ((\<lambda>_. [])(12272 := [12264])) (slabs demo_two) (bufs demo_two) (demo_held (world demo_two))"
  proof (rule mem_okI)
    show "v \<in> set [8176, 12272] \<and> c \<in> bufctls 4076 v" if "bufs demo_two c = Some v" "slab_addr v" for c v
      using that b by (auto simp: demo_two_def slab_addr_def split: if_splits)
    show "page_of a \<in> demo_held (world demo_two)" if "slabs demo_two a \<noteq> None \<or> bufs demo_two a \<noteq> None" for a
    proof -
      from that consider "a = 8176" | "a = 12272" | "a = 8168" | "a = 12264" by (auto simp: demo_two_def split: if_splits)
      then show ?thesis by cases (simp_all add: page_of_def demo_held_def demo_two_def)
    qed
    show "slab_ok 4076 (slabs demo_two) (bufs demo_two) (((\<lambda>_. [])(12272 := [12264])) t) t" if "t \<in> set [8176, 12272]" for t
    proof -
      from that consider "t = 8176" | "t = 12272" by auto
      then show ?thesis by cases (simp_all add: slab_ok_def demo_two_def b slab_addr_def)
    qed
  qed (simp_all add: demo_two_def)
  then show ?thesis unfolding slab_rep_def z
    by (simp add: demo_two_def space_ok_def valid_request_def slab_round_def zero_space_def)
qed

theorem slab_destroy_witness:
  "\<exists>st'. hurd_slab_destroy demo_sys demo_two = Some (SLAB_EBUSY, st') \<and> live st' = {4096} \<and> demo_held (world st') = {4096}
    \<and> slab_ready demo_sys demo_held st'"
proof -
  have b: "bufctls 4076 8176 = {8168}" "bufctls 4076 12272 = {12264}" by (auto simp: bufctls_def)
  have l: "live demo_two = {4096}" by (auto simp: live_def demo_two_def slab_addr_def split: if_splits)
  have cb: "callbacks_ok demo_sys demo_held (space demo_two)"
    using demo_pages_ok [of "space demo_two"] demo_pages_zeroed [of "space demo_two"] by (simp add: callbacks_ok_def demo_two_def zero_space_def)
  have lk: "\<not> sp_lock (space demo_two)" by (simp add: demo_two_def zero_space_def)
  have g: "e = 0" if "page_dealloc demo_sys (space demo_two) p getpagesize w = (e, w')" for p w e w'
    using that by (simp add: demo_two_def zero_space_def page_dealloc_def demo_sys_def)
  let ?C = "{s \<in> set [8176, 12272]. set (((\<lambda>_. [])(12272 := [12264])) s) = bufctls (obj_size demo_two) s}"
  from slab_destroy [OF demo_two_rep cb lk] obtain err st' where
    D: "hurd_slab_destroy demo_sys demo_two = Some (err, st')" "live st' = live demo_two" "err \<noteq> 0 \<longrightarrow> slab_ready demo_sys demo_held st'"
      "err = (if live demo_two = {} then 0 else SLAB_EBUSY) \<and> demo_held (world st') = demo_held (world demo_two) - page_of ` ?C
      \<or> err \<noteq> 0 \<and> (\<exists>p w w'. p \<in> demo_held w \<and> page_dealloc demo_sys (space demo_two) p getpagesize w = (err, w'))" by blast
  from D(4) g have "err = (if live demo_two = {} then 0 else SLAB_EBUSY) \<and> demo_held (world st') = demo_held (world demo_two) - page_of ` ?C"
    by blast
  then have d: "hurd_slab_destroy demo_sys demo_two = Some (err, st')" "live st' = {4096}" "err \<noteq> 0 \<longrightarrow> slab_ready demo_sys demo_held st'"
      "err = SLAB_EBUSY" "demo_held (world st') = demo_held (world demo_two) - page_of ` ?C"
    using D(1-3) unfolding l by simp_all
  have "?C = {12272}" using b by (auto simp: demo_two_def)
  moreover have "demo_held (world demo_two) = {4096, 8192}" by (auto simp: demo_held_def demo_two_def)
  ultimately have "demo_held (world st') = {4096}" using d(5) by (simp add: page_of_def insert_Diff_if)
  with d(1-4) show ?thesis by (simp add: SLAB_EBUSY_def)
qed

text \<open>A space whose constructor fails for the second object of the first page.\<close>

definition demo_failing :: "nat list slab_state" where
  "demo_failing = fresh_state (zero_space\<lparr>initialized := True, requested_size := 100, requested_align := 4, full_refcount := 39, sp_size := 104,
     constructor := Some (\<lambda>_ b w. (if b = 4200 then 5 else 0, w)), destructor := Some (\<lambda>_ _ w. w)\<rparr>) []"

theorem slab_constructor_failure_witness:
  "\<exists>st'. hurd_slab_alloc demo_sys demo_failing = Some (Inl 5, st') \<and> world st' = [] \<and> nr_pages st' = 1 \<and> live st' = live demo_failing"
proof -
  have rep: "slab_rep demo_held [] (\<lambda>_. []) demo_failing"
    by (simp add: slab_rep_def demo_failing_def fresh_state_def space_ok_def mem_ok_def valid_request_def slab_round_def zero_space_def)
  have cb: "callbacks_ok demo_sys demo_held (space demo_failing)"
    using demo_pages_ok [of "space demo_failing"] demo_pages_zeroed [of "space demo_failing"]
    by (simp add: callbacks_ok_def demo_failing_def fresh_state_def zero_space_def)
  have pg: "page_alloc demo_sys (space demo_failing) (world demo_failing) = (Inr (4096, zero_slab), [4096])"
    by (simp add: page_alloc_def demo_sys_def demo_failing_def fresh_state_def zero_space_def)
  let ?f = "\<lambda>_ b w. (if b = (4200 :: nat) then 5 else 0 :: nat, w)"
  have f: "constructor (space demo_failing) = Some ?f" and z: "obj_size demo_failing = 104"
    and s: "\<not> sp_lock (space demo_failing)" "initialized (space demo_failing)" "first_free (space demo_failing) = 0" "nr_pages demo_failing = 0"
    by (simp_all add: demo_failing_def fresh_state_def zero_space_def)
  have c: "constructed ?f (hook (space demo_failing)) 104 4096 0 1 [4096] = [4096]" by (simp add: constructed_def)
  have d: "snd (page_dealloc demo_sys (space demo_failing) 4200 getpagesize w) = filter (\<lambda>q. q \<noteq> 4096) w"
      "destructor (space demo_failing) = Some (\<lambda>_ _ w. w)" for w
    by (simp_all add: page_dealloc_def demo_sys_def demo_failing_def fresh_state_def zero_space_def page_of_def)
  have "?f (hook (space demo_failing)) (4096 + 1 * obj_size demo_failing)
      (constructed ?f (hook (space demo_failing)) (obj_size demo_failing) 4096 0 1 [4096]) = (5, [4096])"
    unfolding z c by simp
  from slab_constructor_failure [OF rep cb s(1-3) pg f _ _ this] obtain st' g where
    r: "hurd_slab_alloc demo_sys demo_failing = Some (Inl 5, st')" "live st' = live demo_failing" "nr_pages st' = nr_pages demo_failing + 1"
      "destructor (space demo_failing) = Some g"
      "world st' = snd (page_dealloc demo_sys (space demo_failing) (4096 + 1 * obj_size demo_failing) getpagesize
        (fold (g (hook (space demo_failing))) (rev (map (\<lambda>j. 4096 + j * obj_size demo_failing) [0..<1])) [4096]))"
    unfolding z by auto
  have "g = (\<lambda>_ _ w. w)" using r(4) d(2) by simp
  then have "world st' = []" using r(5) d(1) unfolding z by simp
  then show ?thesis using r(1-3) s(4) by auto
qed

end
