(* ===== verification/Pt_Queue.thy ===== *)
theory Pt_Queue
  imports Machine
begin

text \<open>
  The queues of waiting threads of the threads library (\<^verbatim>\<open>libpthread/pthread/pt-internal.h\<close>): singly linked lists
  whose members also hold the address of the pointer that designates them. An address of such a pointer is the head
  of a queue or the field \<open>next\<close> of a thread; \<open>prevp\<close> is \<open>None\<close> for a null pointer.

  The abstraction is the list of the threads of a queue. Threads enter and leave at the head.
\<close>

type_synonym tid = nat
type_synonym qid = nat

subsection \<open>State and operations\<close>

datatype link = Head qid | Next tid

record queues =
  qhead :: "qid \<Rightarrow> tid option"
  qnext :: "tid \<Rightarrow> tid option"
  prevp :: "tid \<Rightarrow> link option"

fun store :: "link \<Rightarrow> tid option \<Rightarrow> queues \<Rightarrow> queues" where
  "store (Head q) v s = s\<lparr>qhead := (qhead s)(q := v)\<rparr>"
| "store (Next t) v s = s\<lparr>qnext := (qnext s)(t := v)\<rparr>"

fun load :: "link \<Rightarrow> queues \<Rightarrow> tid option" where
  "load (Head q) s = qhead s q"
| "load (Next t) s = qnext s t"

definition set_prevp :: "tid \<Rightarrow> link option \<Rightarrow> queues \<Rightarrow> queues" where
  "set_prevp t l s = s\<lparr>prevp := (prevp s)(t := l)\<rparr>"

definition pthread_enqueue :: "queues \<Rightarrow> qid \<Rightarrow> tid \<Rightarrow> queues option" where
  "pthread_enqueue s head thread = do {
     c_assert (prevp s thread = None);
     let s = store (Next thread) (qhead s head) s;
     let s = set_prevp thread (Some (Head head)) s;
     let s = (case qhead s head of None \<Rightarrow> s | Some h \<Rightarrow> set_prevp h (Some (Next thread)) s);
     Some (store (Head head) (Some thread) s)
   }"

text \<open>Dequeuing a thread that is on no queue dereferences a null pointer.\<close>

definition pthread_dequeue :: "queues \<Rightarrow> tid \<Rightarrow> queues option" where
  "pthread_dequeue s thread = (case prevp s thread of
     None \<Rightarrow> None
   | Some l \<Rightarrow>
       let s = (case qnext s thread of None \<Rightarrow> s | Some n \<Rightarrow> set_prevp n (Some l) s);
           s = store l (qnext s thread) s
       in Some (set_prevp thread None s))"

text \<open>The iterators visit a chain of threads; the second one also detaches each.\<close>

partial_function (option) pthread_queue_iterate :: "queues \<Rightarrow> tid option \<Rightarrow> tid list option" where
  "pthread_queue_iterate s p = (case p of None \<Rightarrow> Some []
     | Some t \<Rightarrow> do { ts \<leftarrow> pthread_queue_iterate s (qnext s t); Some (t # ts) })"

partial_function (option) pthread_dequeuing_iterate :: "queues \<Rightarrow> tid option \<Rightarrow> (tid list \<times> queues) option" where
  "pthread_dequeuing_iterate s p = (case p of None \<Rightarrow> Some ([], s)
     | Some t \<Rightarrow> do {
         (ts, s) \<leftarrow> pthread_dequeuing_iterate (set_prevp t None s) (qnext s t);
         Some (t # ts, s)
       })"

subsection \<open>Representation\<close>

fun chain :: "queues \<Rightarrow> link \<Rightarrow> tid list \<Rightarrow> bool" where
  "chain s l [] \<longleftrightarrow> load l s = None"
| "chain s l (t # ts) \<longleftrightarrow> load l s = Some t \<and> prevp s t = Some l \<and> chain s (Next t) ts"

text \<open>Every queue holds a list of threads; a thread is on one queue at most, and detached threads have no \<open>prevp\<close>.\<close>

definition represents :: "queues \<Rightarrow> (qid \<Rightarrow> tid list) \<Rightarrow> bool" where
  "represents s Q \<longleftrightarrow> (\<forall>q. chain s (Head q) (Q q) \<and> distinct (Q q))
     \<and> (\<forall>q r. q \<noteq> r \<longrightarrow> set (Q q) \<inter> set (Q r) = {})
     \<and> (\<forall>t. prevp s t = None \<longleftrightarrow> (\<forall>q. t \<notin> set (Q q)))"

lemma load_store [simp]: "load m (store l v s) = (if m = l then v else load m s)"
  by (cases l; cases m) auto

lemma store_prevp [simp]: "prevp (store l v s) = prevp s"
  by (cases l) auto

lemma set_prevp_sel [simp]: "prevp (set_prevp t l s) = (prevp s)(t := l)" "load m (set_prevp t l s) = load m s"
  by (cases m; simp add: set_prevp_def)+

lemma load_simps: "qhead s q = load (Head q) s" "qnext s t = load (Next t) s"
  by simp_all

lemma chain_cong:
  "load l s' = load l s \<Longrightarrow> (\<And>t. t \<in> set ts \<Longrightarrow> load (Next t) s' = load (Next t) s \<and> prevp s' t = prevp s t)
     \<Longrightarrow> chain s' l ts = chain s l ts"
  by (induction ts arbitrary: l) (auto simp del: load.simps)

lemma chain_head: "chain s l ts \<Longrightarrow> load l s = (case ts of [] \<Rightarrow> None | t # _ \<Rightarrow> Some t)"
  by (cases ts) auto

lemma representsD:
  assumes "represents s Q"
  shows "chain s (Head q) (Q q)" "distinct (Q q)" "t \<in> set (Q q) \<Longrightarrow> t \<in> set (Q r) \<Longrightarrow> q = r"
    "prevp s t = None \<longleftrightarrow> (\<forall>q. t \<notin> set (Q q))"
  using assms unfolding represents_def by blast+

subsection \<open>The operations on lists\<close>

lemma pthread_enqueue_ok:
  assumes rep: "represents s Q" and new: "\<And>q. t \<notin> set (Q q)"
  shows "\<exists>s'. pthread_enqueue s q t = Some s' \<and> represents s' (Q(q := t # Q q))"
proof -
  note R = representsD [OF rep]
  have nil: "prevp s t = None" using R(4) new by blast
  define h where "h = load (Head q) s"
  define s' where "s' = store (Head q) (Some t)
    (case h of None \<Rightarrow> set_prevp t (Some (Head q)) (store (Next t) h s)
     | Some x \<Rightarrow> set_prevp x (Some (Next t)) (set_prevp t (Some (Head q)) (store (Next t) h s)))"
  have run: "pthread_enqueue s q t = Some s'"
    using nil by (cases h) (simp_all add: pthread_enqueue_def s'_def h_def Let_def set_prevp_def)
  have ld: "load m s' = (if m = Head q then Some t else if m = Next t then h else load m s)" for m
    unfolding s'_def by (cases h) (simp_all del: store.simps load.simps)
  have hq: "h = (case Q q of [] \<Rightarrow> None | x # _ \<Rightarrow> Some x)" using chain_head [OF R(1)] by (simp add: h_def del: load.simps)
  have pv: "prevp s' u = (if h = Some u then Some (Next t) else if u = t then Some (Head q) else prevp s u)" for u
    unfolding s'_def by (cases h) (auto simp del: store.simps load.simps)
  have ht: "h \<noteq> Some t" using hq new [of q] by (auto split: list.splits)
  have other: "chain s' (Head r) (Q r)" if "r \<noteq> q" for r
  proof -
    have "prevp s' u = prevp s u" "u \<noteq> t" if "u \<in> set (Q r)" for u
      using pv [of u] hq new [of r] R(3) [of u q r] that \<open>r \<noteq> q\<close> by (auto split: list.splits)
    then show ?thesis using R(1) [of r] that ld by (subst chain_cong [of _ _ s]) (auto simp del: load.simps)
  qed
  have "chain s' (Next t) (Q q)"
  proof (cases "Q q")
    case Nil
    then show ?thesis using hq ld by (simp del: load.simps)
  next
    case (Cons x xs)
    have "chain s (Next x) xs" "x \<notin> set xs" "t \<notin> set (x # xs)" using R(1,2) [of q] Cons new [of q] by auto
    then have "chain s' (Next x) xs"
      using ld pv hq Cons by (subst chain_cong [of _ _ s]) (auto simp del: load.simps)
    with Cons hq show ?thesis using ld pv by (simp del: load.simps)
  qed
  then have "chain s' (Head r) ((Q(q := t # Q q)) r)" for r
    using other [of r] ld pv ht by (cases "r = q") (simp_all del: load.simps)
  moreover have "distinct ((Q(q := t # Q q)) r)" for r using R(2) new by simp
  moreover have "set ((Q(q := t # Q q)) a) \<inter> set ((Q(q := t # Q q)) b) = {}" if "a \<noteq> b" for a b
    using R(3) new that by (auto split: if_splits)
  moreover have "prevp s' u = None \<longleftrightarrow> (\<forall>r. u \<notin> set ((Q(q := t # Q q)) r))" for u
  proof -
    have "h = Some u \<Longrightarrow> u \<in> set (Q q)" using hq by (auto split: list.splits)
    then show ?thesis using pv [of u] R(4) [of u] by auto
  qed
  ultimately show ?thesis using run unfolding represents_def by blast
qed

text \<open>The link that designates what follows \<open>xs\<close>.\<close>

definition tail_link :: "link \<Rightarrow> tid list \<Rightarrow> link" where
  "tail_link l xs = (if xs = [] then l else Next (last xs))"

lemma chain_append:
  "chain s l (xs @ ys) \<longleftrightarrow> (\<forall>k < length xs. load (tail_link l (take k xs)) s = Some (xs ! k)
     \<and> prevp s (xs ! k) = Some (tail_link l (take k xs))) \<and> chain s (tail_link l xs) ys"
proof (induction xs arbitrary: l)
  case (Cons x xs)
  have "tail_link l (take (Suc k) (x # xs)) = tail_link (Next x) (take k xs)" if "k \<le> length xs" for k
    using that by (auto simp: tail_link_def)
  moreover have "tail_link l (x # xs) = tail_link (Next x) xs" by (simp add: tail_link_def)
  ultimately show ?case
    using Cons.IH [of "Next x"] by (auto simp: All_less_Suc2 tail_link_def simp del: load.simps)
qed (simp add: tail_link_def)

lemma pthread_dequeue_ok:
  assumes rep: "represents s Q" and t: "t \<in> set (Q q)"
  shows "\<exists>s'. pthread_dequeue s t = Some s' \<and> represents s' (Q(q := remove1 t (Q q)))"
proof -
  note R = representsD [OF rep]
  obtain xs ys where xy: "Q q = xs @ t # ys" "t \<notin> set xs" using split_list_first [OF t] by blast
  have dist: "distinct (xs @ t # ys)" using R(2) [of q] xy by simp
  have ch: "chain s (Head q) (xs @ t # ys)" using R(1) [of q] xy by simp
  define l where "l = tail_link (Head q) xs"
  have l: "load l s = Some t" "prevp s t = Some l" "chain s (Next t) ys"
    using ch unfolding chain_append l_def by (auto simp del: load.simps)
  define n where "n = load (Next t) s"
  have n: "n = (case ys of [] \<Rightarrow> None | y # _ \<Rightarrow> Some y)" using chain_head [OF l(3)] by (simp add: n_def del: load.simps)
  define s' where "s' = set_prevp t None (store l n (case n of None \<Rightarrow> s | Some y \<Rightarrow> set_prevp y (Some l) s))"
  have run: "pthread_dequeue s t = Some s'"
    using l(2) by (cases n) (simp_all add: pthread_dequeue_def s'_def n_def Let_def set_prevp_def)
  have ld: "load m s' = (if m = l then n else load m s)" for m
    unfolding s'_def by (cases n) (simp_all del: store.simps load.simps)
  have pv: "prevp s' u = (if u = t then None else if n = Some u then Some l else prevp s u)" for u
    unfolding s'_def by (cases n) (auto simp del: store.simps load.simps)
  have lx: "l = Head q \<or> (\<exists>x\<in>set xs. l = Next x)" by (auto simp: l_def tail_link_def)
  have other: "chain s' (Head r) (Q r)" if "r \<noteq> q" for r
  proof -
    have "prevp s' u = prevp s u \<and> load (Next u) s' = load (Next u) s" if "u \<in> set (Q r)" for u
    proof -
      have "u \<notin> set (xs @ t # ys)" using R(3) [of u q r] that \<open>r \<noteq> q\<close> xy by auto
      then show ?thesis using pv [of u] ld [of "Next u"] lx n by (auto simp del: load.simps split: list.splits)
    qed
    moreover have "load (Head r) s' = load (Head r) s" using ld [of "Head r"] lx that by (auto simp del: load.simps)
    ultimately show ?thesis using R(1) [of r] by (subst chain_cong [of _ _ s]) (auto simp del: load.simps)
  qed
  have "chain s' (Head q) (xs @ ys)"
    unfolding chain_append
  proof (intro conjI allI impI)
    fix k assume k: "k < length xs"
    have old: "load (tail_link (Head q) (take k xs)) s = Some (xs ! k)" "prevp s (xs ! k) = Some (tail_link (Head q) (take k xs))"
      using ch k unfolding chain_append by (auto simp del: load.simps)
    have "xs ! k \<in> set xs" using k by simp
    then have "xs ! k \<noteq> t" "n \<noteq> Some (xs ! k)" using dist n by (auto split: list.splits)
    moreover from this have "tail_link (Head q) (take k xs) \<noteq> l" using old(1) l(1) by (auto simp del: load.simps)
    ultimately show "load (tail_link (Head q) (take k xs)) s' = Some (xs ! k)"
        "prevp s' (xs ! k) = Some (tail_link (Head q) (take k xs))"
      using old ld pv by (simp_all del: load.simps)
  next
    show "chain s' (tail_link (Head q) xs) ys"
    proof (cases ys)
      case Nil
      then show ?thesis using ld n by (simp add: l_def [symmetric] del: load.simps)
    next
      case (Cons y zs)
      have "chain s (Next y) zs" using l(3) Cons by simp
      moreover have "l \<noteq> Next u" "u \<noteq> t" if "u \<in> set ys" for u using lx dist that by auto
      moreover have "y \<notin> set zs" using dist Cons by simp
      ultimately have "chain s' (Next y) zs"
        using ld pv n Cons by (subst chain_cong [of _ _ s]) (auto simp del: load.simps)
      moreover have "y \<noteq> t" using dist Cons by auto
      ultimately show ?thesis using ld pv n Cons by (simp add: l_def [symmetric] del: load.simps)
    qed
  qed
  moreover have rm: "remove1 t (Q q) = xs @ ys" using xy by (simp add: remove1_append)
  ultimately have "chain s' (Head r) ((Q(q := remove1 t (Q q))) r)" for r using other [of r] by simp
  moreover have "distinct ((Q(q := remove1 t (Q q))) r)" for r using R(2) [of r] dist rm by simp
  moreover have "set ((Q(q := remove1 t (Q q))) a) \<inter> set ((Q(q := remove1 t (Q q))) b) = {}" if "a \<noteq> b" for a b
  proof -
    have "set ((Q(q := remove1 t (Q q))) r) \<subseteq> set (Q r)" for r using set_remove1_subset [of t "Q q"] by auto
    moreover have "set (Q a) \<inter> set (Q b) = {}" using R(3) that by blast
    ultimately show ?thesis by blast
  qed
  moreover have "prevp s' u = None \<longleftrightarrow> (\<forall>r. u \<notin> set ((Q(q := remove1 t (Q q))) r))" for u
  proof (cases "u = t")
    case True
    have "t \<notin> set ((Q(q := remove1 t (Q q))) r)" for r
      using R(3) [OF t, of r] dist rm by (cases "r = q") auto
    with True show ?thesis using pv [of u] by simp
  next
    case False
    have eq: "u \<in> set ((Q(q := remove1 t (Q q))) r) \<longleftrightarrow> u \<in> set (Q r)" for r
      using False by (cases "r = q") (simp_all add: in_set_remove1)
    have "n = Some u \<Longrightarrow> u \<in> set (Q q)" using n xy by (auto split: list.splits)
    then have "prevp s' u = None \<longleftrightarrow> prevp s u = None" using False pv [of u] R(4) [of u] by (cases "n = Some u") auto
    then show ?thesis unfolding eq using R(4) [of u] by simp
  qed
  ultimately show ?thesis using run unfolding represents_def by blast
qed

lemma pthread_queue_iterate_ok: "chain s l ts \<Longrightarrow> pthread_queue_iterate s (load l s) = Some ts"
proof (induction ts arbitrary: l)
  case (Cons t ts)
  then show ?case by (subst pthread_queue_iterate.simps) (simp add: load_simps del: load.simps)
qed (simp add: pthread_queue_iterate.simps)

text \<open>Taking a whole queue off its head and walking over it detaches exactly its members.\<close>

definition detach_all :: "tid list \<Rightarrow> queues \<Rightarrow> queues" where
  "detach_all ts s = s\<lparr>prevp := (\<lambda>t. if t \<in> set ts then None else prevp s t)\<rparr>"

lemma pthread_dequeuing_iterate_ok:
  "chain s l ts \<Longrightarrow> distinct ts \<Longrightarrow> pthread_dequeuing_iterate s (load l s) = Some (ts, detach_all ts s)"
proof (induction ts arbitrary: s l)
  case Nil
  then show ?case by (simp add: pthread_dequeuing_iterate.simps detach_all_def)
next
  case (Cons t ts)
  let ?s = "set_prevp t None s"
  have "chain ?s (Next t) ts"
    using Cons.prems by (subst chain_cong [of _ _ s]) (auto simp del: load.simps)
  from Cons.IH [OF this] Cons.prems(2)
  have "pthread_dequeuing_iterate ?s (load (Next t) s) = Some (ts, detach_all ts ?s)" by (simp del: load.simps)
  moreover have "detach_all ts ?s = detach_all (t # ts) s" by (auto simp: detach_all_def set_prevp_def fun_eq_iff)
  moreover have "load l s = Some t" using Cons.prems(1) by simp
  ultimately show ?case by (subst pthread_dequeuing_iterate.simps) (simp add: load_simps del: load.simps)
qed

definition take_queue :: "queues \<Rightarrow> qid \<Rightarrow> (tid list \<times> queues) option" where
  "take_queue s q = (let wakeup = qhead s q; s = store (Head q) None s in pthread_dequeuing_iterate s wakeup)"

lemma take_queue_ok:
  assumes rep: "represents s Q"
  shows "\<exists>s'. take_queue s q = Some (Q q, s') \<and> represents s' (Q(q := []))"
proof -
  note R = representsD [OF rep]
  let ?t = "store (Head q) None s" and ?s' = "detach_all (Q q) (store (Head q) None s)"
  have tl: "chain ?t (Next t) ts" if "chain s (Next t) ts" for t ts
    using that by (subst chain_cong [of _ _ s]) (auto simp del: load.simps store.simps)
  have "take_queue s q = Some (Q q, ?s')"
  proof (cases "Q q")
    case Nil
    then have "qhead s q = None" using chain_head [OF R(1) [of q]] by simp
    with Nil show ?thesis by (simp add: take_queue_def pthread_dequeuing_iterate.simps detach_all_def)
  next
    case (Cons t ts)
    then have c: "qhead s q = Some t" "chain s (Next t) ts" using R(1) [of q] by simp_all
    have d: "distinct ts" "t \<notin> set ts" using R(2) [of q] Cons by auto
    let ?u = "set_prevp t None ?t"
    have "chain ?u (Next t) ts"
      using tl [OF c(2)] d(2) by (subst chain_cong [of _ _ ?t]) (auto simp del: load.simps store.simps)
    from pthread_dequeuing_iterate_ok [OF this d(1)] c(1) Cons show ?thesis
      unfolding take_queue_def Let_def
      by (subst pthread_dequeuing_iterate.simps) (auto simp: detach_all_def set_prevp_def fun_eq_iff)
  qed
  moreover have "chain ?s' (Head r) ((Q(q := [])) r)" for r
  proof (cases "r = q")
    case False
    have "t \<notin> set (Q q)" if "t \<in> set (Q r)" for t using R(3) [of t r q] that False by blast
    with R(1) [of r] False show ?thesis
      by (simp del: store.simps, subst chain_cong [of _ _ s])
        (auto simp: detach_all_def load_simps simp del: load.simps store.simps, cases r, auto)
  qed (simp add: detach_all_def)
  moreover have "prevp ?s' t = None \<longleftrightarrow> (\<forall>r. t \<notin> set ((Q(q := [])) r))" for t
    using R(3) [of t q] R(4) [of t] by (auto simp: detach_all_def)
  moreover have "distinct ((Q(q := [])) r)" for r using R(2) by simp
  moreover have "a \<noteq> b \<Longrightarrow> set ((Q(q := [])) a) \<inter> set ((Q(q := [])) b) = {}" for a b using R(3) by auto
  ultimately show ?thesis unfolding represents_def by blast
qed

subsection \<open>The interface of waiter queues\<close>

locale waiter_queues =
  fixes rep :: "'s \<Rightarrow> (qid \<Rightarrow> tid list) \<Rightarrow> bool"
    and enq :: "'s \<Rightarrow> qid \<Rightarrow> tid \<Rightarrow> 's option" and deq :: "'s \<Rightarrow> tid \<Rightarrow> 's option"
    and first :: "'s \<Rightarrow> qid \<Rightarrow> tid option"
  assumes enq_rep: "rep s Q \<Longrightarrow> (\<And>r. t \<notin> set (Q r)) \<Longrightarrow> \<exists>s'. enq s q t = Some s' \<and> rep s' (Q(q := t # Q q))"
    and deq_rep: "rep s Q \<Longrightarrow> t \<in> set (Q q) \<Longrightarrow> \<exists>s'. deq s t = Some s' \<and> rep s' (Q(q := remove1 t (Q q)))"
    and first_rep: "rep s Q \<Longrightarrow> first s q = (case Q q of [] \<Rightarrow> None | t # _ \<Rightarrow> Some t)"
begin

fun enq_all :: "'s \<Rightarrow> qid \<Rightarrow> tid list \<Rightarrow> 's option" where
  "enq_all s q [] = Some s"
| "enq_all s q (t # ts) = do { s \<leftarrow> enq s q t; enq_all s q ts }"

fun wake_all :: "'s \<Rightarrow> qid \<Rightarrow> nat \<Rightarrow> (tid list \<times> 's) option" where
  "wake_all s q 0 = Some ([], s)"
| "wake_all s q (Suc n) = (case first s q of None \<Rightarrow> None
     | Some t \<Rightarrow> do { s \<leftarrow> deq s t; (ts, s) \<leftarrow> wake_all s q n; Some (t # ts, s) })"

lemma enq_all_rep:
  "rep s Q \<Longrightarrow> distinct ts \<Longrightarrow> (\<And>r. set ts \<inter> set (Q r) = {}) \<Longrightarrow>
     \<exists>s'. enq_all s q ts = Some s' \<and> rep s' (Q(q := rev ts @ Q q))"
proof (induction ts arbitrary: s Q)
  case (Cons t ts)
  have fresh: "t \<notin> set (Q r)" for r using Cons.prems(3) [of r] by auto
  from enq_rep [OF Cons.prems(1) this] obtain s1 where s1: "enq s q t = Some s1" "rep s1 (Q(q := t # Q q))" by blast
  have "set ts \<inter> set ((Q(q := t # Q q)) r) = {}" for r using Cons.prems(2) Cons.prems(3) [of r] by auto
  from Cons.IH [OF s1(2) _ this] Cons.prems(2) s1(1) show ?case by (auto simp del: fun_upd_apply simp: fun_upd_same)
qed (simp add: fun_upd_idem)

lemma wake_all_rep:
  "rep s Q \<Longrightarrow> distinct (Q q) \<Longrightarrow> n \<le> length (Q q) \<Longrightarrow>
     \<exists>s'. wake_all s q n = Some (take n (Q q), s') \<and> rep s' (Q(q := drop n (Q q)))"
proof (induction n arbitrary: s Q)
  case (Suc n)
  then obtain t ts where q: "Q q = t # ts" by (cases "Q q") auto
  from deq_rep [OF Suc.prems(1), of t q] q obtain s1 where s1: "deq s t = Some s1" "rep s1 (Q(q := ts))" by auto
  from Suc.IH [OF s1(2)] Suc.prems(2,3) q s1(1) first_rep [OF Suc.prems(1), of q] show ?case
    by (auto simp del: fun_upd_apply simp: fun_upd_same)
qed (simp add: fun_upd_idem)

lemma last_in_first_out:
  assumes "rep s Q" "Q q = []" "distinct ts" "\<And>r. set ts \<inter> set (Q r) = {}"
  shows "\<exists>s' s''. enq_all s q ts = Some s' \<and> wake_all s' q (length ts) = Some (rev ts, s'') \<and> rep s'' Q"
proof -
  from enq_all_rep [OF assms(1,3,4), of q] assms(2) obtain s' where s': "enq_all s q ts = Some s'" "rep s' (Q(q := rev ts))" by auto
  from wake_all_rep [OF s'(2), of q "length ts"] assms(2,3) obtain s'' where
    "wake_all s' q (length ts) = Some (rev ts, s'')" "rep s'' (Q(q := []))" by auto
  moreover have "Q(q := []) = Q" using assms(2) by (auto simp: fun_eq_iff)
  ultimately show ?thesis using s'(1) by auto
qed

end

interpretation pq: waiter_queues represents pthread_enqueue pthread_dequeue qhead
proof
  show "qhead s q = (case Q q of [] \<Rightarrow> None | t # _ \<Rightarrow> Some t)" if "represents s Q" for s Q q
    using chain_head [OF representsD(1) [OF that, of q]] by simp
qed (use pthread_enqueue_ok pthread_dequeue_ok in blast)+

definition no_waiters :: queues where
  "no_waiters = \<lparr>qhead = (\<lambda>_. None), qnext = (\<lambda>_. None), prevp = (\<lambda>_. None)\<rparr>"

lemma no_waiters_represents: "represents no_waiters (\<lambda>_. [])"
  by (simp add: represents_def no_waiters_def)

text \<open>C30: The linked queues of waiting threads are lists: a detached thread enters at the head, any member can leave,
  the threads of a queue are visited in order, a queue can be taken off and detached as a whole, and no
  operation changes another queue or fails an assertion.\<close>

theorem pt_queue_refines_lists:
  assumes rep: "represents s Q"
  shows "((\<forall>r. t \<notin> set (Q r)) \<longrightarrow> (\<exists>s'. pthread_enqueue s q t = Some s' \<and> represents s' (Q(q := t # Q q))))
    \<and> (t \<in> set (Q q) \<longrightarrow> (\<exists>s'. pthread_dequeue s t = Some s' \<and> represents s' (Q(q := remove1 t (Q q)))))
    \<and> pthread_queue_iterate s (qhead s q) = Some (Q q)
    \<and> (\<exists>s'. take_queue s q = Some (Q q, s') \<and> represents s' (Q(q := [])))
    \<and> ((\<forall>r. t \<notin> set (Q r)) \<longrightarrow> pthread_dequeue s t = None)"
proof (intro conjI impI)
  show "pthread_queue_iterate s (qhead s q) = Some (Q q)"
    using pthread_queue_iterate_ok [OF representsD(1) [OF rep, of q]] by simp
  show "pthread_dequeue s t = None" if "\<forall>r. t \<notin> set (Q r)"
    using that representsD(4) [OF rep, of t] by (simp add: pthread_dequeue_def)
qed (use pq.enq_rep [OF rep] pq.deq_rep [OF rep] take_queue_ok [OF rep] in \<open>blast+\<close>)

theorem pt_queue_refines_lists_witness:
  "\<exists>s'. pthread_enqueue no_waiters 0 3 = Some s' \<and> represents s' ((\<lambda>_. [])(0 := [3]))"
  using pt_queue_refines_lists [OF no_waiters_represents, of 3 0] by simp

end
