(* ===== verification/Pt_Rwlock.thy ===== *)
theory Pt_Rwlock
  imports Pt_Queue
begin

text \<open>
  The read-write locks of the threads library (\<^verbatim>\<open>libpthread/sysdeps/generic/pt-rwlock-*.c\<close>).

  The code between taking and dropping the spin lock \<open>__lock\<close> is one atomic action on the lock structure. It returns
  or asks the caller to block, and may leave threads to be woken. The queues are the lists of \<^verbatim>\<open>Pt_Queue\<close>. \<open>None\<close> is
  a failed assertion. In the machine of this theory any number of threads interleave these actions, the
  sending of wake-up messages and the resumption of blocked threads.
\<close>

subsection \<open>The lock structure\<close>

datatype pt_error = EBUSY | EINVAL | ETIMEDOUT | EDEADLK | EPERM | EAGAIN | ESRCH | ENOMEM | EOPNOTSUPP

record timespec =
  tv_sec :: int
  tv_nsec :: int

definition bad_time :: "timespec option \<Rightarrow> bool" where
  "bad_time abstime \<longleftrightarrow> (case abstime of None \<Rightarrow> False | Some t \<Rightarrow> tv_nsec t < 0 \<or> tv_nsec t \<ge> 1000000000)"

record rwlock =
  rw_held :: bool
  rw_lock :: bool
  readers :: int
  readerqueue :: "tid list"
  writerqueue :: "tid list"

definition PTHREAD_RWLOCK_INITIALIZER :: rwlock where
  "PTHREAD_RWLOCK_INITIALIZER = \<lparr>rw_held = False, rw_lock = False, readers = 0, readerqueue = [], writerqueue = []\<rparr>"

datatype outcome = Done | Fail pt_error | Block

definition rw_unlock_spin :: "rwlock \<Rightarrow> rwlock" where
  "rw_unlock_spin rw = rw\<lparr>rw_lock := False\<rparr>"

subsection \<open>The atomic actions\<close>

definition rw_unused :: "rwlock \<Rightarrow> bool" where
  "rw_unused rw \<longleftrightarrow> readerqueue rw = [] \<and> writerqueue rw = [] \<and> readers rw = 0"

text \<open>An invalid time-out returns with the spin lock held.\<close>

definition pthread_rwlock_timedrdlock :: "tid \<Rightarrow> timespec option \<Rightarrow> rwlock \<Rightarrow> (rwlock \<times> outcome) option" where
  "pthread_rwlock_timedrdlock self abstime rw =
     (let rw = rw\<lparr>rw_lock := True\<rparr> in
      if \<not> rw_held rw then do {
        let rw = rw\<lparr>rw_held := True\<rparr>;
        c_assert (rw_unused rw);
        Some (rw_unlock_spin (rw\<lparr>readers := 1\<rparr>), Done)
      }
      else if readers rw > 0 then do {
        c_assert (readerqueue rw = []);
        Some (rw_unlock_spin (rw\<lparr>readers := readers rw + 1\<rparr>), Done)
      }
      else do {
        c_assert (readers rw = 0);
        if bad_time abstime then Some (rw, Fail EINVAL)
        else Some (rw_unlock_spin (rw\<lparr>readerqueue := self # readerqueue rw\<rparr>), Block)
      })"

definition pthread_rwlock_timedwrlock :: "tid \<Rightarrow> timespec option \<Rightarrow> rwlock \<Rightarrow> (rwlock \<times> outcome) option" where
  "pthread_rwlock_timedwrlock self abstime rw =
     (let rw = rw\<lparr>rw_lock := True\<rparr> in
      if \<not> rw_held rw then do {
        let rw = rw\<lparr>rw_held := True\<rparr>;
        c_assert (rw_unused rw);
        Some (rw_unlock_spin rw, Done)
      }
      else if bad_time abstime then Some (rw, Fail EINVAL)
      else Some (rw_unlock_spin (rw\<lparr>writerqueue := self # writerqueue rw\<rparr>), Block))"

definition pthread_rwlock_tryrdlock :: "rwlock \<Rightarrow> (rwlock \<times> outcome) option" where
  "pthread_rwlock_tryrdlock rw =
     (let rw = rw\<lparr>rw_lock := True\<rparr> in
      if \<not> rw_held rw then do {
        let rw = rw\<lparr>rw_held := True\<rparr>;
        c_assert (rw_unused rw);
        Some (rw_unlock_spin (rw\<lparr>readers := 1\<rparr>), Done)
      }
      else if readers rw > 0 then do {
        c_assert (readerqueue rw = []);
        Some (rw_unlock_spin (rw\<lparr>readers := readers rw + 1\<rparr>), Done)
      }
      else Some (rw_unlock_spin rw, Fail EBUSY))"

definition pthread_rwlock_trywrlock :: "rwlock \<Rightarrow> (rwlock \<times> outcome) option" where
  "pthread_rwlock_trywrlock rw =
     (let rw = rw\<lparr>rw_lock := True\<rparr> in
      if \<not> rw_held rw then do {
        let rw = rw\<lparr>rw_held := True\<rparr>;
        c_assert (rw_unused rw);
        Some (rw_unlock_spin rw, Done)
      }
      else Some (rw_unlock_spin rw, Fail EBUSY))"

text \<open>Unlocking also returns the threads to wake.\<close>

definition pthread_rwlock_unlock :: "rwlock \<Rightarrow> (rwlock \<times> tid list) option" where
  "pthread_rwlock_unlock rw = do {
     let rw = rw\<lparr>rw_lock := True\<rparr>;
     c_assert (rw_held rw);
     if readers rw > 1 then Some (rw_unlock_spin (rw\<lparr>readers := readers rw - 1\<rparr>), [])
     else
       let rw = (if readers rw = 1 then rw\<lparr>readers := 0\<rparr> else rw) in
       case writerqueue rw of
         wakeup # rest \<Rightarrow> Some (rw_unlock_spin (rw\<lparr>writerqueue := rest\<rparr>), [wakeup])
       | [] \<Rightarrow>
           if readerqueue rw \<noteq> [] then
             let ts = readerqueue rw; rw = rw\<lparr>readers := readers rw + int (length ts), readerqueue := []\<rparr>
             in Some (rw_unlock_spin rw, ts)
           else Some (rw_unlock_spin (rw\<lparr>rw_held := False\<rparr>), [])
   }"

text \<open>A thread whose wait timed out leaves its queue if it is on one.\<close>

definition rwlock_timed_out :: "tid \<Rightarrow> rwlock \<Rightarrow> rwlock \<times> outcome" where
  "rwlock_timed_out self rw =
     (let rw = rw\<lparr>rw_lock := True\<rparr>;
          rw = rw\<lparr>readerqueue := remove1 self (readerqueue rw), writerqueue := remove1 self (writerqueue rw)\<rparr>
      in (rw_unlock_spin rw, Fail ETIMEDOUT))"

subsection \<open>Threads\<close>

datatype rw_pc = RwOut | RwRead | RwWrite | RwRdBlocked | RwWrBlocked | RwWake "tid list" | RwExpired | RwFailed

record rw_sys =
  rwl :: rwlock
  rw_pcs :: "tid \<Rightarrow> rw_pc"
  rw_msg :: "tid \<Rightarrow> bool"

fun rw_enter :: "rw_pc \<Rightarrow> rw_pc \<Rightarrow> tid \<Rightarrow> rw_sys \<Rightarrow> (rwlock \<times> outcome) option \<Rightarrow> rw_sys" where
  "rw_enter got blocked t s None = s\<lparr>rw_pcs := (rw_pcs s)(t := RwFailed)\<rparr>"
| "rw_enter got blocked t s (Some (rw, Done)) = s\<lparr>rwl := rw, rw_pcs := (rw_pcs s)(t := got)\<rparr>"
| "rw_enter got blocked t s (Some (rw, Block)) = s\<lparr>rwl := rw, rw_pcs := (rw_pcs s)(t := blocked)\<rparr>"
| "rw_enter got blocked t s (Some (rw, Fail e)) = s\<lparr>rwl := rw, rw_pcs := (rw_pcs s)(t := RwOut)\<rparr>"

fun rw_leave :: "tid \<Rightarrow> rw_sys \<Rightarrow> (rwlock \<times> tid list) option \<Rightarrow> rw_sys" where
  "rw_leave t s None = s\<lparr>rw_pcs := (rw_pcs s)(t := RwFailed)\<rparr>"
| "rw_leave t s (Some (rw, ts)) = s\<lparr>rwl := rw, rw_pcs := (rw_pcs s)(t := RwWake ts)\<rparr>"

text \<open>An action that takes the spin lock can only happen while it is free. A blocked thread resumes when it has received a
  message and then checks the number of readers.\<close>

inductive rw_step :: "rw_sys \<Rightarrow> rw_sys \<Rightarrow> bool" where
  rdlock: "rw_pcs s t = RwOut \<Longrightarrow> \<not> rw_lock (rwl s) \<Longrightarrow>
    rw_step s (rw_enter RwRead RwRdBlocked t s (pthread_rwlock_timedrdlock t None (rwl s)))"
| wrlock: "rw_pcs s t = RwOut \<Longrightarrow> \<not> rw_lock (rwl s) \<Longrightarrow>
    rw_step s (rw_enter RwWrite RwWrBlocked t s (pthread_rwlock_timedwrlock t None (rwl s)))"
| tryrdlock: "rw_pcs s t = RwOut \<Longrightarrow> \<not> rw_lock (rwl s) \<Longrightarrow>
    rw_step s (rw_enter RwRead RwRdBlocked t s (pthread_rwlock_tryrdlock (rwl s)))"
| trywrlock: "rw_pcs s t = RwOut \<Longrightarrow> \<not> rw_lock (rwl s) \<Longrightarrow>
    rw_step s (rw_enter RwWrite RwWrBlocked t s (pthread_rwlock_trywrlock (rwl s)))"
| unlock: "rw_pcs s t = RwRead \<or> rw_pcs s t = RwWrite \<Longrightarrow> \<not> rw_lock (rwl s) \<Longrightarrow>
    rw_step s (rw_leave t s (pthread_rwlock_unlock (rwl s)))"
| wake: "rw_pcs s t = RwWake (u # us) \<Longrightarrow>
    rw_step s (s\<lparr>rw_pcs := (rw_pcs s)(t := RwWake us), rw_msg := (rw_msg s)(u := True)\<rparr>)"
| woken: "rw_pcs s t = RwWake [] \<Longrightarrow> rw_step s (s\<lparr>rw_pcs := (rw_pcs s)(t := RwOut)\<rparr>)"
| resume_rd: "rw_pcs s t = RwRdBlocked \<Longrightarrow> rw_msg s t \<Longrightarrow>
    rw_step s (s\<lparr>rw_pcs := (rw_pcs s)(t := if readers (rwl s) > 0 then RwRead else RwFailed), rw_msg := (rw_msg s)(t := False)\<rparr>)"
| resume_wr: "rw_pcs s t = RwWrBlocked \<Longrightarrow> rw_msg s t \<Longrightarrow>
    rw_step s (s\<lparr>rw_pcs := (rw_pcs s)(t := if readers (rwl s) = 0 then RwWrite else RwFailed), rw_msg := (rw_msg s)(t := False)\<rparr>)"

definition rw_init :: rw_sys where
  "rw_init = \<lparr>rwl = PTHREAD_RWLOCK_INITIALIZER, rw_pcs = (\<lambda>_. RwOut), rw_msg = (\<lambda>_. False)\<rparr>"

subsection \<open>Who holds the lock\<close>

datatype grant = GNone | GRead | GWrite

definition rw_ok :: "rwlock \<Rightarrow> (tid \<Rightarrow> grant) \<Rightarrow> bool" where
  "rw_ok rw g \<longleftrightarrow> \<not> rw_lock rw \<and> distinct (readerqueue rw) \<and> distinct (writerqueue rw)
     \<and> finite {t. g t = GRead} \<and> readers rw = int (card {t. g t = GRead})
     \<and> (\<forall>t u. g t = GWrite \<longrightarrow> g u \<noteq> GNone \<longrightarrow> t = u)
     \<and> (rw_held rw \<longleftrightarrow> (\<exists>t. g t \<noteq> GNone))
     \<and> (readerqueue rw \<noteq> [] \<longrightarrow> (\<exists>t. g t = GWrite)) \<and> (writerqueue rw \<noteq> [] \<longrightarrow> rw_held rw)
     \<and> (\<forall>t \<in> set (readerqueue rw) \<union> set (writerqueue rw). g t = GNone)"

lemma rw_okD:
  assumes "rw_ok rw g"
  shows "\<not> rw_lock rw" "distinct (readerqueue rw)" "distinct (writerqueue rw)" "finite {t. g t = GRead}"
    "readers rw = int (card {t. g t = GRead})" "g t = GWrite \<Longrightarrow> g u \<noteq> GNone \<Longrightarrow> t = u"
    "rw_held rw \<longleftrightarrow> (\<exists>t. g t \<noteq> GNone)" "readerqueue rw \<noteq> [] \<Longrightarrow> \<exists>t. g t = GWrite" "writerqueue rw \<noteq> [] \<Longrightarrow> rw_held rw"
    "t \<in> set (readerqueue rw) \<Longrightarrow> g t = GNone" "t \<in> set (writerqueue rw) \<Longrightarrow> g t = GNone"
  using assms unfolding rw_ok_def by blast+

lemma rw_free:
  assumes "rw_ok rw g" "\<not> rw_held rw"
  shows "g t = GNone" "readers rw = 0" "readerqueue rw = []" "writerqueue rw = []"
proof -
  note D = rw_okD [OF assms(1)]
  show n: "g t = GNone" for t using D(7) assms(2) by blast
  then show "readers rw = 0" "readerqueue rw = []" "writerqueue rw = []" using D(5,8,9) assms(2) by auto
qed

lemma rw_readers:
  assumes "rw_ok rw g" "readers rw > 0"
  shows "g t \<noteq> GWrite" "readerqueue rw = []" "rw_held rw"
proof -
  note D = rw_okD [OF assms(1)]
  obtain r where r: "g r = GRead" using D(5) assms(2) by (metis (mono_tags, lifting) card_gt_0_iff empty_Collect_eq of_nat_0_less_iff)
  then show n: "g t \<noteq> GWrite" for t using D(6) [of t r] by auto
  show "rw_held rw" using D(7) r by auto
  show "readerqueue rw = []" using D(8) n by blast
qed

lemma card_grant_insert: "finite {t. g t = GRead} \<Longrightarrow> g t \<noteq> GRead \<Longrightarrow> card {u. (g(t := GRead)) u = GRead} = Suc (card {u. g u = GRead})"
proof -
  assume "finite {t. g t = GRead}" "g t \<noteq> GRead"
  moreover have "{u. (g(t := GRead)) u = GRead} = insert t {u. g u = GRead}" by auto
  ultimately show ?thesis by simp
qed

text \<open>A new reader.\<close>

lemma rw_ok_read:
  assumes ok: "rw_ok rw g" and t: "g t = GNone" and w: "\<And>u. g u \<noteq> GWrite" and q: "t \<notin> set (writerqueue rw)"
    and empty: "readerqueue rw = []"
  shows "rw_ok (rw\<lparr>rw_held := True, readers := readers rw + 1\<rparr>) (g(t := GRead))"
proof -
  note D = rw_okD [OF ok]
  have "{u. (g(t := GRead)) u = GRead} = insert t {u. g u = GRead}" by auto
  then have fin: "finite {u. (g(t := GRead)) u = GRead}" using D(4) by simp
  show ?thesis
    unfolding rw_ok_def using D(1,3,5,9,11) fin card_grant_insert [OF D(4), of t] t w q empty
    by (auto simp: rw_ok_def)
qed

lemma rdlock_cases:
  assumes ok: "rw_ok rw g" and t: "g t = GNone" "t \<notin> set (readerqueue rw)" "t \<notin> set (writerqueue rw)"
  obtains rw' where "pthread_rwlock_timedrdlock t None rw = Some (rw', Done)" "pthread_rwlock_tryrdlock rw = Some (rw', Done)"
      "rw_ok rw' (g(t := GRead))" "readerqueue rw' = readerqueue rw" "writerqueue rw' = writerqueue rw"
  | rw' where "pthread_rwlock_timedrdlock t None rw = Some (rw', Block)" "pthread_rwlock_tryrdlock rw = Some (rw, Fail EBUSY)"
      "rw_ok rw' g" "readerqueue rw' = t # readerqueue rw" "writerqueue rw' = writerqueue rw"
proof -
  note D = rw_okD [OF ok]
  have lk: "rw\<lparr>rw_lock := False\<rparr> = rw" using D(1) by simp
  consider (free) "\<not> rw_held rw" | (shared) "rw_held rw" "readers rw > 0" | (busy) "rw_held rw" "readers rw = 0"
    using D(5) by linarith
  then show ?thesis
  proof cases
    case free
    note F = rw_free [OF ok free]
    have w: "g u \<noteq> GWrite" for u using F(1) [of u] by simp
    show ?thesis
    proof (rule that(1))
      show "rw_ok (rw\<lparr>rw_held := True, readers := readers rw + 1\<rparr>) (g(t := GRead))"
        by (rule rw_ok_read [OF ok t(1) w t(3) F(3)])
    qed (use free F D(1) in \<open>simp_all add: pthread_rwlock_timedrdlock_def pthread_rwlock_tryrdlock_def rw_unused_def rw_unlock_spin_def Let_def\<close>)
  next
    case shared
    note F = rw_readers [OF ok shared(2)]
    have "rw\<lparr>rw_held := True, readers := readers rw + 1\<rparr> = rw\<lparr>readers := readers rw + 1\<rparr>" using shared(1) by simp
    from rw_ok_read [OF ok t(1) F(1) t(3) F(2), unfolded this] show ?thesis
      using shared F D(1)
      by (intro that(1) [of "rw\<lparr>readers := readers rw + 1\<rparr>"])
        (simp_all add: pthread_rwlock_timedrdlock_def pthread_rwlock_tryrdlock_def rw_unlock_spin_def Let_def)
  next
    case busy
    have "{t. g t = GRead} = {}" using D(4,5) busy(2) by simp
    moreover obtain u where "g u \<noteq> GNone" using D(7) busy(1) by blast
    ultimately have w: "g u = GWrite" by (cases "g u") auto
    then have "rw_ok (rw\<lparr>readerqueue := t # readerqueue rw\<rparr>) g"
      unfolding rw_ok_def using ok t by (auto simp: rw_ok_def)
    then show ?thesis
      using busy D(1) by (intro that(2) [of "rw\<lparr>readerqueue := t # readerqueue rw\<rparr>"])
        (simp_all add: pthread_rwlock_timedrdlock_def pthread_rwlock_tryrdlock_def bad_time_def rw_unlock_spin_def Let_def)
  qed
qed

lemma wrlock_cases:
  assumes ok: "rw_ok rw g" and t: "g t = GNone" "t \<notin> set (readerqueue rw)" "t \<notin> set (writerqueue rw)"
  obtains rw' where "pthread_rwlock_timedwrlock t None rw = Some (rw', Done)" "pthread_rwlock_trywrlock rw = Some (rw', Done)"
      "rw_ok rw' (g(t := GWrite))" "readerqueue rw' = readerqueue rw" "writerqueue rw' = writerqueue rw"
  | rw' where "pthread_rwlock_timedwrlock t None rw = Some (rw', Block)" "pthread_rwlock_trywrlock rw = Some (rw, Fail EBUSY)"
      "rw_ok rw' g" "readerqueue rw' = readerqueue rw" "writerqueue rw' = t # writerqueue rw"
proof (cases "rw_held rw")
  case False
  note D = rw_okD [OF ok] and F = rw_free [OF ok False]
  have "{u. (g(t := GWrite)) u = GRead} = {}" using F(1) by auto
  then have "rw_ok (rw\<lparr>rw_held := True\<rparr>) (g(t := GWrite))"
    unfolding rw_ok_def using F D(1) by auto
  then show ?thesis
    using False F D(1) by (intro that(1) [of "rw\<lparr>rw_held := True\<rparr>"])
      (simp_all add: pthread_rwlock_timedwrlock_def pthread_rwlock_trywrlock_def rw_unused_def rw_unlock_spin_def Let_def)
next
  case True
  note D = rw_okD [OF ok]
  have "rw_ok (rw\<lparr>writerqueue := t # writerqueue rw\<rparr>) g"
    unfolding rw_ok_def using ok t True by (auto simp: rw_ok_def)
  then show ?thesis
    using True D(1) by (intro that(2) [of "rw\<lparr>writerqueue := t # writerqueue rw\<rparr>"])
      (simp_all add: pthread_rwlock_timedwrlock_def pthread_rwlock_trywrlock_def bad_time_def rw_unlock_spin_def Let_def)
qed

text \<open>The grants after unlocking: the caller gives up its grant, and the woken threads get theirs.\<close>

definition regrant :: "rwlock \<Rightarrow> tid \<Rightarrow> tid list \<Rightarrow> (tid \<Rightarrow> grant) \<Rightarrow> tid \<Rightarrow> grant" where
  "regrant rw t ts g u = (if u \<in> set ts then (if u \<in> set (readerqueue rw) then GRead else GWrite)
     else if u = t then GNone else g u)"

lemma unlock_cases:
  assumes ok: "rw_ok rw g" and t: "g t \<noteq> GNone" and disj: "set (readerqueue rw) \<inter> set (writerqueue rw) = {}"
  obtains rw' ts where "pthread_rwlock_unlock rw = Some (rw', ts)" "rw_ok rw' (regrant rw t ts g)" "distinct ts"
    "set (readerqueue rw') = set (readerqueue rw) - set ts" "set (writerqueue rw') = set (writerqueue rw) - set ts"
    "set ts \<subseteq> set (readerqueue rw) \<union> set (writerqueue rw)"
proof -
  note D = rw_okD [OF ok]
  have held: "rw_held rw" using D(7) t by blast
  show ?thesis
  proof (cases "readers rw > 1")
    case True
    then have pos: "readers rw > 0" by simp
    note F = rw_readers [OF ok pos]
    have gt: "g t = GRead" using F(1) [of t] t by (cases "g t") auto
    have R: "{u. regrant rw t [] g u = GRead} = {u. g u = GRead} - {t}" by (auto simp: regrant_def)
    have card: "card {u. regrant rw t [] g u = GRead} = card {u. g u = GRead} - 1"
      unfolding R using D(4) gt by simp
    then have "card ({u. g u = GRead} - {t}) \<noteq> 0" using True D(5) unfolding R by simp
    then obtain r where r: "g r = GRead" "r \<noteq> t" by (metis (mono_tags, lifting) card.empty ex_in_conv mem_Collect_eq Diff_iff singletonI)
    have "rw_ok (rw\<lparr>readers := readers rw - 1\<rparr>) (regrant rw t [] g)"
      unfolding rw_ok_def using D F r True card R by (auto simp: regrant_def)
    then show ?thesis
      using True held D by (intro that [of "rw\<lparr>readers := readers rw - 1\<rparr>" "[]"])
        (simp_all add: pthread_rwlock_unlock_def rw_unlock_spin_def Let_def)
  next
    case False
    have only: "u = t" if "g u \<noteq> GNone" for u
    proof (cases "g t = GWrite")
      case True
      then show ?thesis using D(6) [OF True that] by simp
    next
      case f: False
      then have gt: "g t = GRead" using t by (cases "g t") auto
      then have "card {u. g u = GRead} = 1" using D(4,5) False by (metis (mono_tags, lifting) One_nat_def Suc_leI card_gt_0_iff empty_iff le_antisym mem_Collect_eq not_le of_nat_1 of_nat_less_iff)
      then have "{u. g u = GRead} = {t}" using gt by (metis (mono_tags, lifting) card_1_singletonE mem_Collect_eq singletonD)
      moreover have "g u \<noteq> GWrite" using D(6) [of u t] gt by auto
      ultimately show ?thesis using that by (cases "g u") auto
    qed
    define r where "r = (if readers rw = 1 then rw\<lparr>rw_lock := True, readers := 0\<rparr> else rw\<lparr>rw_lock := True\<rparr>)"
    have rw0: "readers r = 0" "readerqueue r = readerqueue rw" "writerqueue r = writerqueue rw" "rw_held r"
      using False D(5) held by (auto simp: r_def)
    have lk: "rw_lock (rw_unlock_spin x) = False" "readers (rw_unlock_spin x) = readers x"
        "readerqueue (rw_unlock_spin x) = readerqueue x" "writerqueue (rw_unlock_spin x) = writerqueue x"
        "rw_held (rw_unlock_spin x) = rw_held x" for x
      by (simp_all add: rw_unlock_spin_def)
    have unl: "pthread_rwlock_unlock rw = (case writerqueue rw of
         wakeup # rest \<Rightarrow> Some (rw_unlock_spin (r\<lparr>writerqueue := rest\<rparr>), [wakeup])
       | [] \<Rightarrow> if readerqueue rw \<noteq> [] then Some (rw_unlock_spin (r\<lparr>
             readers := int (length (readerqueue rw)), readerqueue := []\<rparr>), readerqueue rw)
           else Some (rw_unlock_spin (r\<lparr>rw_held := False\<rparr>), []))"
      using False held rw0 by (auto simp: pthread_rwlock_unlock_def Let_def r_def split: list.splits)
    consider (writer) w rest where "writerqueue rw = w # rest" | (readers) "writerqueue rw = []" "readerqueue rw \<noteq> []"
      | (nobody) "writerqueue rw = []" "readerqueue rw = []" by (cases "writerqueue rw") auto
    then show ?thesis
    proof cases
      case writer
      have w: "g w = GNone" "w \<notin> set rest" "w \<notin> set (readerqueue rw)" "distinct rest"
        using D(3) D(11) [of w] writer disj by auto
      have g: "regrant rw t [w] g u = (if u = w then GWrite else GNone)" for u
        using only [of u] w(3) by (auto simp: regrant_def)
      have "rw_ok (rw_unlock_spin (r\<lparr>writerqueue := rest\<rparr>)) (regrant rw t [w] g)"
        unfolding rw_ok_def lk using w rw0 D(2) by (auto simp: g)
      from that [OF _ this] show ?thesis
        using unl writer w D(3) by (auto simp: lk rw0)
    next
      case readers
      have g: "regrant rw t (readerqueue rw) g u = (if u \<in> set (readerqueue rw) then GRead else GNone)" for u
        using only [of u] by (auto simp: regrant_def)
      have R: "{u. regrant rw t (readerqueue rw) g u = GRead} = set (readerqueue rw)" by (auto simp: g)
      have "rw_ok (rw_unlock_spin (r\<lparr>readers := int (length (readerqueue rw)), readerqueue := []\<rparr>))
          (regrant rw t (readerqueue rw) g)"
        unfolding rw_ok_def lk R using rw0 readers D(2) distinct_card [OF D(2)]
        by (auto simp: g neq_Nil_conv)
      from that [OF _ this] show ?thesis
        using unl readers D(2) by (auto simp: lk rw0)
    next
      case nobody
      have g: "regrant rw t [] g u = GNone" for u using only [of u] by (auto simp: regrant_def)
      have "rw_ok (rw_unlock_spin (r\<lparr>rw_held := False\<rparr>)) (regrant rw t [] g)"
        unfolding rw_ok_def lk using rw0 nobody by (auto simp: g)
      from that [OF _ this] show ?thesis
        using unl nobody by (auto simp: lk rw0)
    qed
  qed
qed

subsection \<open>The invariant of the threads\<close>

definition rw_grant :: "rw_sys \<Rightarrow> tid \<Rightarrow> grant" where
  "rw_grant s t = (case rw_pcs s t of RwRead \<Rightarrow> GRead | RwWrite \<Rightarrow> GWrite
     | RwRdBlocked \<Rightarrow> (if t \<in> set (readerqueue (rwl s)) then GNone else GRead)
     | RwWrBlocked \<Rightarrow> (if t \<in> set (writerqueue (rwl s)) then GNone else GWrite) | _ \<Rightarrow> GNone)"

abbreviation rw_blocked :: "rw_sys \<Rightarrow> tid \<Rightarrow> bool" where
  "rw_blocked s t \<equiv> rw_pcs s t = RwRdBlocked \<or> rw_pcs s t = RwWrBlocked"

definition rw_handed :: "rw_sys \<Rightarrow> tid \<Rightarrow> bool" where
  "rw_handed s t \<longleftrightarrow> rw_blocked s t \<and> rw_grant s t \<noteq> GNone"

definition rw_waker :: "rw_sys \<Rightarrow> tid \<Rightarrow> tid \<Rightarrow> bool" where
  "rw_waker s u t \<longleftrightarrow> (\<exists>ts. rw_pcs s u = RwWake ts \<and> t \<in> set ts)"

text \<open>A blocked thread that was handed the lock has a message, or exactly one thread is about to send it one.\<close>

definition rw_wakes :: "rw_sys \<Rightarrow> bool" where
  "rw_wakes s \<longleftrightarrow> (\<forall>t. rw_handed s t \<longleftrightarrow> rw_msg s t \<or> (\<exists>u. rw_waker s u t))
     \<and> (\<forall>t u. rw_waker s u t \<longrightarrow> \<not> rw_msg s t) \<and> (\<forall>t u v. rw_waker s u t \<longrightarrow> rw_waker s v t \<longrightarrow> u = v)
     \<and> (\<forall>u ts. rw_pcs s u = RwWake ts \<longrightarrow> distinct ts)"

definition rw_inv :: "rw_sys \<Rightarrow> bool" where
  "rw_inv s \<longleftrightarrow> rw_ok (rwl s) (rw_grant s) \<and> (\<forall>t \<in> set (readerqueue (rwl s)). rw_pcs s t = RwRdBlocked)
     \<and> (\<forall>t \<in> set (writerqueue (rwl s)). rw_pcs s t = RwWrBlocked) \<and> (\<forall>t. rw_pcs s t \<noteq> RwFailed) \<and> rw_wakes s"

lemma rw_invD:
  assumes "rw_inv s"
  shows "rw_ok (rwl s) (rw_grant s)" "t \<in> set (readerqueue (rwl s)) \<Longrightarrow> rw_pcs s t = RwRdBlocked"
    "t \<in> set (writerqueue (rwl s)) \<Longrightarrow> rw_pcs s t = RwWrBlocked" "rw_pcs s t \<noteq> RwFailed" "rw_wakes s"
  using assms unfolding rw_inv_def by blast+

text \<open>Waking only looks at which threads were handed the lock, at the messages and at the wakers.\<close>

lemma rw_wakes_same:
  assumes "rw_wakes s" "\<And>u. rw_handed s' u = rw_handed s u" "rw_msg s' = rw_msg s" "\<And>u v. rw_waker s' u v = rw_waker s u v"
    "\<And>u ts. rw_pcs s' u = RwWake ts \<Longrightarrow> ts = [] \<or> rw_pcs s u = RwWake ts"
  shows "rw_wakes s'"
  using assms unfolding rw_wakes_def by (metis distinct.simps(1))

text \<open>Entering: a thread outside of the lock gets a grant or joins a queue.\<close>

lemma rw_enter_inv:
  assumes inv: "rw_inv s" and t: "rw_pcs s t = RwOut" and p: "p \<in> {RwRead, RwWrite, RwRdBlocked, RwWrBlocked, RwOut}"
    and s': "s' = s\<lparr>rwl := rw', rw_pcs := (rw_pcs s)(t := p)\<rparr>"
    and ok: "rw_ok rw' ((rw_grant s)(t := g))"
    and rq: "readerqueue rw' = (if p = RwRdBlocked then t # readerqueue (rwl s) else readerqueue (rwl s))"
    and wq: "writerqueue rw' = (if p = RwWrBlocked then t # writerqueue (rwl s) else writerqueue (rwl s))"
    and g: "g = (case p of RwRead \<Rightarrow> GRead | RwWrite \<Rightarrow> GWrite | _ \<Rightarrow> GNone)"
  shows "rw_inv s'"
proof -
  note I = rw_invD [OF inv]
  have notin: "t \<notin> set (readerqueue (rwl s))" "t \<notin> set (writerqueue (rwl s))" using I(2,3) [of t] t by auto
  have gr: "rw_grant s' = (rw_grant s)(t := g)"
    using p notin unfolding s' rw_grant_def fun_eq_iff by (auto simp: rq wq g split: rw_pc.splits)
  have "rw_handed s' u = rw_handed s u" for u
    using p t unfolding rw_handed_def gr by (auto simp: s' g)
  moreover have "rw_waker s' u v = rw_waker s u v" for u v
    using p t unfolding rw_waker_def by (auto simp: s')
  ultimately have "rw_wakes s'"
    by (intro rw_wakes_same [OF I(5)]) (use p in \<open>auto simp: s' split: if_splits\<close>)
  moreover have "\<forall>u \<in> set (readerqueue rw'). rw_pcs s' u = RwRdBlocked" "\<forall>u \<in> set (writerqueue rw'). rw_pcs s' u = RwWrBlocked"
    using I(2,3) notin by (auto simp: s' rq wq)
  ultimately show ?thesis
    using ok gr I(4) p by (auto simp: rw_inv_def s')
qed

lemma rw_leave_inv:
  assumes inv: "rw_inv s" and t: "rw_pcs s t = RwRead \<or> rw_pcs s t = RwWrite"
  shows "rw_inv (rw_leave t s (pthread_rwlock_unlock (rwl s)))"
proof -
  note I = rw_invD [OF inv]
  let ?rw = "rwl s"
  have disj: "set (readerqueue ?rw) \<inter> set (writerqueue ?rw) = {}" using I(2,3) by fastforce
  have gt: "rw_grant s t \<noteq> GNone" using t by (auto simp: rw_grant_def)
  from unlock_cases [OF I(1) gt disj] obtain rw' ts where u: "pthread_rwlock_unlock ?rw = Some (rw', ts)"
      "rw_ok rw' (regrant ?rw t ts (rw_grant s))" "distinct ts"
      "set (readerqueue rw') = set (readerqueue ?rw) - set ts" "set (writerqueue rw') = set (writerqueue ?rw) - set ts"
      "set ts \<subseteq> set (readerqueue ?rw) \<union> set (writerqueue ?rw)" by blast
  let ?s = "s\<lparr>rwl := rw', rw_pcs := (rw_pcs s)(t := RwWake ts)\<rparr>"
  have q: "rw_pcs s v = RwRdBlocked" if "v \<in> set (readerqueue ?rw)" for v using I(2) that .
  have q': "rw_pcs s v = RwWrBlocked" if "v \<in> set (writerqueue ?rw)" for v using I(3) that .
  have gr: "rw_grant ?s = regrant ?rw t ts (rw_grant s)"
  proof
    fix v
    consider "v = t" | "v \<noteq> t" "v \<in> set ts" "v \<in> set (readerqueue ?rw)" | "v \<noteq> t" "v \<in> set ts" "v \<notin> set (readerqueue ?rw)"
        "v \<in> set (writerqueue ?rw)" | "v \<noteq> t" "v \<notin> set ts" using u(6) by blast
    then show "rw_grant ?s v = regrant ?rw t ts (rw_grant s) v"
    proof cases
      case 1
      then have "v \<notin> set ts" using u(6) q [of v] q' [of v] t by auto
      with 1 show ?thesis by (simp add: rw_grant_def regrant_def)
    next
      case 2
      then show ?thesis using q [of v] u(4) by (simp add: rw_grant_def regrant_def)
    next
      case 3
      then show ?thesis using q' [of v] u(5) by (simp add: rw_grant_def regrant_def)
    next
      case 4
      then show ?thesis using u(4,5) by (simp add: rw_grant_def regrant_def split: rw_pc.splits)
    qed
  qed
  have nts: "t \<notin> set ts" using u(6) q [of t] q' [of t] t by auto
  have bl: "rw_blocked s v" "rw_grant s v = GNone" if "v \<in> set ts" for v
    using that u(6) q [of v] q' [of v] rw_okD(10,11) [OF I(1)] by auto
  have handed: "rw_handed ?s v \<longleftrightarrow> rw_handed s v \<or> v \<in> set ts" for v
    using bl [of v] nts t unfolding rw_handed_def gr by (auto simp: regrant_def)
  have waker: "rw_waker ?s x v \<longleftrightarrow> rw_waker s x v \<or> x = t \<and> v \<in> set ts" for x v
    using t unfolding rw_waker_def by auto
  note W = I(5) [unfolded rw_wakes_def]
  have new: "\<not> rw_msg s v" "\<not> rw_waker s x v" if "v \<in> set ts" for v x
    using bl(2) [OF that] W unfolding rw_handed_def by blast+
  have "rw_wakes ?s"
    unfolding rw_wakes_def handed waker
  proof (intro conjI allI impI)
    show "(rw_handed s v \<or> v \<in> set ts) = (rw_msg ?s v \<or> (\<exists>u. rw_waker s u v \<or> u = t \<and> v \<in> set ts))" for v
      using W by auto
    show "\<not> rw_msg ?s v" if "rw_waker s x v \<or> x = t \<and> v \<in> set ts" for v x using that W new by auto
    show "x = y" if "rw_waker s x v \<or> x = t \<and> v \<in> set ts" "rw_waker s y v \<or> y = t \<and> v \<in> set ts" for v x y
      using that W new by blast
    show "distinct us" if "rw_pcs ?s x = RwWake us" for x us using that W u(3) by (auto split: if_splits)
  qed
  moreover have "\<forall>v \<in> set (readerqueue rw'). rw_pcs ?s v = RwRdBlocked" "\<forall>v \<in> set (writerqueue rw'). rw_pcs ?s v = RwWrBlocked"
    using u(4,5) q q' t by auto
  ultimately have "rw_inv ?s" using u(2) gr I(4) by (simp add: rw_inv_def)
  then show ?thesis by (simp add: u(1))
qed

lemma rw_wake_inv:
  assumes inv: "rw_inv s" and t: "rw_pcs s t = RwWake (u # us)"
  shows "rw_inv (s\<lparr>rw_pcs := (rw_pcs s)(t := RwWake us), rw_msg := (rw_msg s)(u := True)\<rparr>)" (is "rw_inv ?s")
proof -
  note I = rw_invD [OF inv] and W = rw_invD(5) [OF inv, unfolded rw_wakes_def]
  have gr: "rw_grant ?s = rw_grant s" using t by (auto simp: rw_grant_def fun_eq_iff)
  have d: "u \<notin> set us" "distinct us" using W t by (metis distinct.simps(2))+
  have w: "rw_waker s t u" using t by (simp add: rw_waker_def)
  have waker: "rw_waker ?s x v \<longleftrightarrow> rw_waker s x v \<and> v \<noteq> u" for x v
  proof (cases "x = t")
    case True
    then show ?thesis using t d by (auto simp: rw_waker_def)
  next
    case False
    then have "rw_waker ?s x v \<longleftrightarrow> rw_waker s x v" by (simp add: rw_waker_def)
    moreover have "\<not> rw_waker s x u" using W w False by blast
    ultimately show ?thesis by blast
  qed
  have handed: "rw_handed ?s v \<longleftrightarrow> rw_handed s v" for v using t by (auto simp: rw_handed_def gr)
  have "rw_wakes ?s"
    unfolding rw_wakes_def handed waker
  proof (intro conjI allI impI)
    show "rw_handed s v = (rw_msg ?s v \<or> (\<exists>x. rw_waker s x v \<and> v \<noteq> u))" for v
      using W w by (cases "v = u") auto
    show "\<not> rw_msg ?s v" if "rw_waker s x v \<and> v \<noteq> u" for v x using that W by auto
    show "x = y" if "rw_waker s x v \<and> v \<noteq> u" "rw_waker s y v \<and> v \<noteq> u" for v x y using that W by blast
    show "distinct vs" if "rw_pcs ?s x = RwWake vs" for x vs using that W d by (auto split: if_splits)
  qed
  then show ?thesis using I(1-4) t gr by (auto simp: rw_inv_def)
qed

lemma rw_woken_inv:
  assumes inv: "rw_inv s" and t: "rw_pcs s t = RwWake []"
  shows "rw_inv (s\<lparr>rw_pcs := (rw_pcs s)(t := RwOut)\<rparr>)" (is "rw_inv ?s")
proof -
  note I = rw_invD [OF inv]
  have gr: "rw_grant ?s = rw_grant s" using t by (auto simp: rw_grant_def fun_eq_iff)
  have "rw_wakes ?s"
    by (rule rw_wakes_same [OF I(5)]) (use t in \<open>auto simp: rw_handed_def gr rw_waker_def split: if_splits\<close>)
  then show ?thesis using I(1-4) t gr by (auto simp: rw_inv_def)
qed

lemma rw_resume_inv:
  assumes inv: "rw_inv s" and t: "rw_blocked s t" "rw_msg s t"
  shows "rw_grant s t = (if rw_pcs s t = RwRdBlocked then GRead else GWrite)"
    "rw_inv (s\<lparr>rw_pcs := (rw_pcs s)(t := if rw_pcs s t = RwRdBlocked then RwRead else RwWrite), rw_msg := (rw_msg s)(t := False)\<rparr>)"
      (is "rw_inv ?s")
proof -
  note I = rw_invD [OF inv] and W = rw_invD(5) [OF inv, unfolded rw_wakes_def]
  have h: "rw_handed s t" using W t(2) by blast
  then show g: "rw_grant s t = (if rw_pcs s t = RwRdBlocked then GRead else GWrite)"
    using t(1) by (auto simp: rw_handed_def rw_grant_def split: if_splits)
  then have nq: "t \<notin> set (readerqueue (rwl s))" "t \<notin> set (writerqueue (rwl s))"
    using rw_okD(10,11) [OF I(1), of t] by (auto split: if_splits)
  have gr: "rw_grant ?s = rw_grant s"
  proof
    fix v show "rw_grant ?s v = rw_grant s v" using g by (cases "v = t") (simp_all add: rw_grant_def split: if_splits)
  qed
  have waker: "rw_waker ?s x v \<longleftrightarrow> rw_waker s x v" for x v using t(1) by (auto simp: rw_waker_def)
  have nw: "\<not> rw_waker s x t" for x using W t(2) by blast
  have handed: "rw_handed ?s v \<longleftrightarrow> rw_handed s v \<and> v \<noteq> t" for v by (auto simp: rw_handed_def gr)
  have "rw_wakes ?s"
    unfolding rw_wakes_def handed waker
  proof (intro conjI allI impI)
    show "(rw_handed s v \<and> v \<noteq> t) = (rw_msg ?s v \<or> (\<exists>x. rw_waker s x v))" for v
      using W nw by (cases "v = t") auto
    show "\<not> rw_msg ?s v" if "rw_waker s x v" for v x using that W by auto
    show "x = y" if "rw_waker s x v" "rw_waker s y v" for v x y using that W by blast
    show "distinct vs" if "rw_pcs ?s x = RwWake vs" for x vs using that W by (auto split: if_splits)
  qed
  then show "rw_inv ?s" using I(1-4) nq gr by (auto simp: rw_inv_def)
qed

lemma rw_step_inv: "rw_step s s' \<Longrightarrow> rw_inv s \<Longrightarrow> rw_inv s'"
proof (induction rule: rw_step.induct)
  case (rdlock s t)
  note I = rw_invD [OF rdlock.prems]
  have g: "rw_grant s t = GNone" "t \<notin> set (readerqueue (rwl s))" "t \<notin> set (writerqueue (rwl s))"
    using rdlock.hyps I(2,3) [of t] by (auto simp: rw_grant_def)
  show ?case
  proof (rule rdlock_cases [OF I(1) g])
    fix rw' assume "pthread_rwlock_timedrdlock t None (rwl s) = Some (rw', Done)" "rw_ok rw' ((rw_grant s)(t := GRead))"
      "readerqueue rw' = readerqueue (rwl s)" "writerqueue rw' = writerqueue (rwl s)"
    then show ?thesis by (intro rw_enter_inv [OF rdlock.prems rdlock.hyps(1), where p = RwRead and rw' = rw']) auto
  next
    fix rw' assume "pthread_rwlock_timedrdlock t None (rwl s) = Some (rw', Block)" "rw_ok rw' (rw_grant s)"
      "readerqueue rw' = t # readerqueue (rwl s)" "writerqueue rw' = writerqueue (rwl s)"
    then show ?thesis using g(1) by (intro rw_enter_inv [OF rdlock.prems rdlock.hyps(1), where p = RwRdBlocked and rw' = rw']) (auto simp: fun_upd_idem)
  qed
next
  case (wrlock s t)
  note I = rw_invD [OF wrlock.prems]
  have g: "rw_grant s t = GNone" "t \<notin> set (readerqueue (rwl s))" "t \<notin> set (writerqueue (rwl s))"
    using wrlock.hyps I(2,3) [of t] by (auto simp: rw_grant_def)
  show ?case
  proof (rule wrlock_cases [OF I(1) g])
    fix rw' assume "pthread_rwlock_timedwrlock t None (rwl s) = Some (rw', Done)" "rw_ok rw' ((rw_grant s)(t := GWrite))"
      "readerqueue rw' = readerqueue (rwl s)" "writerqueue rw' = writerqueue (rwl s)"
    then show ?thesis by (intro rw_enter_inv [OF wrlock.prems wrlock.hyps(1), where p = RwWrite and rw' = rw']) auto
  next
    fix rw' assume "pthread_rwlock_timedwrlock t None (rwl s) = Some (rw', Block)" "rw_ok rw' (rw_grant s)"
      "readerqueue rw' = readerqueue (rwl s)" "writerqueue rw' = t # writerqueue (rwl s)"
    then show ?thesis using g(1) by (intro rw_enter_inv [OF wrlock.prems wrlock.hyps(1), where p = RwWrBlocked and rw' = rw']) (auto simp: fun_upd_idem)
  qed
next
  case (tryrdlock s t)
  note I = rw_invD [OF tryrdlock.prems]
  have g: "rw_grant s t = GNone" "t \<notin> set (readerqueue (rwl s))" "t \<notin> set (writerqueue (rwl s))"
    using tryrdlock.hyps I(2,3) [of t] by (auto simp: rw_grant_def)
  show ?case
  proof (rule rdlock_cases [OF I(1) g])
    fix rw' assume "pthread_rwlock_tryrdlock (rwl s) = Some (rw', Done)" "rw_ok rw' ((rw_grant s)(t := GRead))"
      "readerqueue rw' = readerqueue (rwl s)" "writerqueue rw' = writerqueue (rwl s)"
    then show ?thesis by (intro rw_enter_inv [OF tryrdlock.prems tryrdlock.hyps(1), where p = RwRead and rw' = rw']) auto
  next
    assume "pthread_rwlock_tryrdlock (rwl s) = Some (rwl s, Fail EBUSY)"
    then show ?thesis using g(1) I(1) by (intro rw_enter_inv [OF tryrdlock.prems tryrdlock.hyps(1), where p = RwOut and rw' = "rwl s"]) (auto simp: fun_upd_idem)
  qed
next
  case (trywrlock s t)
  note I = rw_invD [OF trywrlock.prems]
  have g: "rw_grant s t = GNone" "t \<notin> set (readerqueue (rwl s))" "t \<notin> set (writerqueue (rwl s))"
    using trywrlock.hyps I(2,3) [of t] by (auto simp: rw_grant_def)
  show ?case
  proof (rule wrlock_cases [OF I(1) g])
    fix rw' assume "pthread_rwlock_trywrlock (rwl s) = Some (rw', Done)" "rw_ok rw' ((rw_grant s)(t := GWrite))"
      "readerqueue rw' = readerqueue (rwl s)" "writerqueue rw' = writerqueue (rwl s)"
    then show ?thesis by (intro rw_enter_inv [OF trywrlock.prems trywrlock.hyps(1), where p = RwWrite and rw' = rw']) auto
  next
    assume "pthread_rwlock_trywrlock (rwl s) = Some (rwl s, Fail EBUSY)"
    then show ?thesis using g(1) I(1) by (intro rw_enter_inv [OF trywrlock.prems trywrlock.hyps(1), where p = RwOut and rw' = "rwl s"]) (auto simp: fun_upd_idem)
  qed
next
  case (unlock s t)
  then show ?case by (intro rw_leave_inv)
next
  case (wake s t u us)
  then show ?case by (intro rw_wake_inv)
next
  case (woken s t)
  then show ?case by (intro rw_woken_inv)
next
  case (resume_rd s t)
  note I = rw_invD [OF resume_rd.prems] and D = rw_okD [OF rw_invD(1) [OF resume_rd.prems]]
  note r = rw_resume_inv [OF resume_rd.prems _ resume_rd.hyps(2)]
  have "t \<in> {u. rw_grant s u = GRead}" using r(1) resume_rd.hyps by simp
  then have "readers (rwl s) > 0" using D(4,5) by (metis card_gt_0_iff empty_iff of_nat_0_less_iff)
  then show ?case using r(2) resume_rd.hyps by simp
next
  case (resume_wr s t)
  note I = rw_invD [OF resume_wr.prems] and D = rw_okD [OF rw_invD(1) [OF resume_wr.prems]]
  note r = rw_resume_inv [OF resume_wr.prems _ resume_wr.hyps(2)]
  have "rw_grant s t = GWrite" using r(1) resume_wr.hyps by simp
  then have "rw_grant s u \<noteq> GRead" for u using D(6) [of t u] by auto
  then have "{u. rw_grant s u = GRead} = {}" by simp
  then have "readers (rwl s) = 0" using D(5) by simp
  then show ?case using r(2) resume_wr.hyps by simp
qed

lemma rw_init_inv: "rw_inv rw_init"
  by (simp add: rw_inv_def rw_ok_def rw_wakes_def rw_waker_def rw_handed_def rw_grant_def rw_init_def PTHREAD_RWLOCK_INITIALIZER_def)

interpretation rw: invariant_of rw_step rw_init rw_inv
  by unfold_locales (use rw_init_inv rw_step_inv in blast)+

text \<open>C28: Under every interleaving of read and write locks, attempts and unlocks by any number of threads, a writer excludes all
  other readers and writers, no assertion of the code fails, and the lock's counter is the number of threads
  that read or have been handed the lock for reading.\<close>

theorem rwlock_exclusion:
  assumes "reachable rw_step rw_init s"
  shows "(\<forall>t u. rw_pcs s t = RwWrite \<longrightarrow> rw_pcs s u = RwRead \<or> rw_pcs s u = RwWrite \<longrightarrow> t = u)
    \<and> (\<forall>t. rw_pcs s t \<noteq> RwFailed) \<and> \<not> rw_lock (rwl s)
    \<and> readers (rwl s) = int (card {t. rw_grant s t = GRead}) \<and> {t. rw_pcs s t = RwRead} \<subseteq> {t. rw_grant s t = GRead}"
proof -
  have inv: "rw_inv s" using assms by (rule rw.reachable_inv)
  note I = rw_invD [OF inv] and D = rw_okD [OF rw_invD(1) [OF inv]]
  have "t = u" if "rw_pcs s t = RwWrite" "rw_pcs s u = RwRead \<or> rw_pcs s u = RwWrite" for t u
    using D(6) [of t u] that by (auto simp: rw_grant_def)
  then show ?thesis using I(4) D(1,5) by (auto simp: rw_grant_def)
qed

text \<open>C29: No wake-up is lost: whenever a thread waits in a queue of the lock, some thread holds the lock or has been handed it,
  and every thread that has been handed the lock has its wake-up message or another thread is about to send it.\<close>

theorem rwlock_no_lost_wakeup:
  assumes "reachable rw_step rw_init s" "rw_blocked s t"
  shows "(rw_grant s t = GNone \<longrightarrow> (\<exists>u. rw_pcs s u = RwRead \<or> rw_pcs s u = RwWrite \<or> rw_handed s u))
    \<and> (rw_grant s t \<noteq> GNone \<longrightarrow> rw_msg s t \<or> (\<exists>u. rw_waker s u t))"
proof -
  have inv: "rw_inv s" using assms(1) by (rule rw.reachable_inv)
  note I = rw_invD [OF inv] and D = rw_okD [OF rw_invD(1) [OF inv]]
  have "\<exists>u. rw_grant s u \<noteq> GNone" if "rw_grant s t = GNone"
  proof -
    have "t \<in> set (readerqueue (rwl s)) \<or> t \<in> set (writerqueue (rwl s))"
      using that assms(2) by (auto simp: rw_grant_def split: if_splits)
    then have "rw_held (rwl s)" using D(7,8,9) by (metis empty_iff grant.distinct(3) list.set(1))
    then show ?thesis using D(7) by blast
  qed
  moreover have "rw_pcs s u = RwRead \<or> rw_pcs s u = RwWrite \<or> rw_handed s u" if "rw_grant s u \<noteq> GNone" for u
    using that by (auto simp: rw_grant_def rw_handed_def split: rw_pc.splits)
  ultimately show ?thesis using I(5) assms(2) unfolding rw_wakes_def rw_handed_def by blast
qed

text \<open>A run: thread 0 takes the lock for writing and thread 1 waits to read.\<close>

definition rw_example :: rw_sys where
  "rw_example = \<lparr>rwl = \<lparr>rw_held = True, rw_lock = False, readers = 0, readerqueue = [1], writerqueue = []\<rparr>,
     rw_pcs = (\<lambda>_. RwOut)(0 := RwWrite, 1 := RwRdBlocked), rw_msg = (\<lambda>_. False)\<rparr>"

lemma rw_example_reachable: "reachable rw_step rw_init rw_example"
proof -
  let ?s = "rw_enter RwWrite RwWrBlocked 0 rw_init (pthread_rwlock_timedwrlock 0 None (rwl rw_init))"
  have "reachable rw_step rw_init ?s"
    by (rule reachable.more, rule reachable.start, rule wrlock) (simp_all add: rw_init_def PTHREAD_RWLOCK_INITIALIZER_def)
  moreover have "?s = \<lparr>rwl = \<lparr>rw_held = True, rw_lock = False, readers = 0, readerqueue = [], writerqueue = []\<rparr>,
      rw_pcs = (\<lambda>_. RwOut)(0 := RwWrite), rw_msg = (\<lambda>_. False)\<rparr>" (is "_ = ?t")
    by (simp add: rw_init_def PTHREAD_RWLOCK_INITIALIZER_def pthread_rwlock_timedwrlock_def rw_unused_def rw_unlock_spin_def Let_def)
  ultimately have "reachable rw_step rw_init ?t" by simp
  moreover have "rw_step ?t (rw_enter RwRead RwRdBlocked 1 ?t (pthread_rwlock_timedrdlock 1 None (rwl ?t)))"
    by (rule rdlock) simp_all
  moreover have "rw_enter RwRead RwRdBlocked 1 ?t (pthread_rwlock_timedrdlock 1 None (rwl ?t)) = rw_example"
    by (simp add: rw_example_def pthread_rwlock_timedrdlock_def bad_time_def rw_unlock_spin_def Let_def)
  ultimately show ?thesis by (metis reachable.more)
qed

theorem rwlock_exclusion_witness:
  "rw_pcs rw_example 0 = RwWrite \<and> rw_pcs rw_example 5 \<noteq> RwFailed \<and> readers (rwl rw_example) = int (card {t. rw_grant rw_example t = GRead})"
  using rwlock_exclusion [OF rw_example_reachable] by (simp add: rw_example_def)

theorem rwlock_no_lost_wakeup_witness:
  "rw_grant rw_example 1 = GNone \<and> (\<exists>u. rw_pcs rw_example u = RwRead \<or> rw_pcs rw_example u = RwWrite \<or> rw_handed rw_example u)"
  using rwlock_no_lost_wakeup [OF rw_example_reachable, of 1] by (simp add: rw_grant_def rw_example_def)

subsection \<open>Time-outs\<close>

text \<open>An invalid time-out leaves the spin lock of a busy lock locked; from then on no operation on the lock can proceed.\<close>

theorem rwlock_einval_wedges:
  assumes "rw_held rw" "bad_time (Some time)" "readers rw \<ge> 0"
  shows "\<exists>rw'. pthread_rwlock_timedwrlock t (Some time) rw = Some (rw', Fail EINVAL) \<and> rw_lock rw'
    \<and> (readers rw = 0 \<longrightarrow> pthread_rwlock_timedrdlock t (Some time) rw = Some (rw', Fail EINVAL))
    \<and> (\<forall>s s'. rwl s = rw' \<longrightarrow> rw_step s s' \<longrightarrow> rwl s' = rw')"
proof -
  let ?rw = "rw\<lparr>rw_lock := True\<rparr>"
  have "rwl s' = ?rw" if "rw_step s s'" "rwl s = ?rw" for s s'
    using that by (cases rule: rw_step.cases) auto
  then show ?thesis
    using assms by (intro exI [of _ ?rw]) (auto simp: pthread_rwlock_timedwrlock_def pthread_rwlock_timedrdlock_def Let_def)
qed

theorem rwlock_einval_wedges_witness:
  "\<exists>rw'. pthread_rwlock_timedwrlock 1 (Some \<lparr>tv_sec = 0, tv_nsec = -1\<rparr>)
      \<lparr>rw_held = True, rw_lock = False, readers = 0, readerqueue = [], writerqueue = []\<rparr> = Some (rw', Fail EINVAL) \<and> rw_lock rw'"
proof -
  have "bad_time (Some \<lparr>tv_sec = 0, tv_nsec = -1\<rparr>)" by (simp add: bad_time_def)
  then show ?thesis
    using rwlock_einval_wedges [of "\<lparr>rw_held = True, rw_lock = False, readers = 0, readerqueue = [], writerqueue = []\<rparr>"
        "\<lparr>tv_sec = 0, tv_nsec = -1\<rparr>" 1] by auto
qed

text \<open>With an implementation of \<open>__pthread_timedblock\<close> that can time out (the one for viengoos never does), a
  thread whose timed wait for writing expires just before it is handed the lock gives up although it owns the lock:
  after the unlock that hands it the lock and its own clean-up, the lock is held by nobody.\<close>

theorem rwlock_timeout_loses_lock:
  "\<exists>rw rw'. pthread_rwlock_timedwrlock 1 (Some \<lparr>tv_sec = 1, tv_nsec = 0\<rparr>)
        \<lparr>rw_held = True, rw_lock = False, readers = 0, readerqueue = [], writerqueue = []\<rparr> = Some (rw, Block)
    \<and> pthread_rwlock_unlock rw = Some (rw', [1])
    \<and> rwlock_timed_out 1 rw' = (rw', Fail ETIMEDOUT)
    \<and> rw_held rw' \<and> readers rw' = 0 \<and> readerqueue rw' = [] \<and> writerqueue rw' = []"
  by (simp add: pthread_rwlock_timedwrlock_def bad_time_def pthread_rwlock_unlock_def rwlock_timed_out_def rw_unlock_spin_def Let_def)

end
