(* ===== verification/Pt_Wait.thy ===== *)
theory Pt_Wait
  imports Pt_Queue "HOL-Library.Multiset"
begin

text \<open>
  Threads that wait at an object of the threads library: the object keeps the waiting threads on queues; a thread that
  has to wait puts itself on a queue, drops the spin lock and blocks; another thread takes it off the queue and,
  after dropping the spin lock, sends it a wake-up message. The machine of this theory is common to mutexes,
  condition variables, semaphores and barriers. The code between taking and dropping a spin lock is one action; the
  wake-ups that it leaves to be sent and the resumption of a blocked thread are steps of their own.

  The locale shows once that no wake-up is lost or sent twice; its laws speak of single actions only.
\<close>

record ('o, 'p) wsys =
  wobj :: 'o
  wpc :: "tid \<Rightarrow> 'p"
  wout :: "tid \<Rightarrow> tid list"
  wmsg :: "tid \<Rightarrow> bool"

text \<open>\<open>cont p\<close> is where a thread continues that blocks at \<open>p\<close>.\<close>

inductive wstep :: "(tid \<Rightarrow> 'p \<Rightarrow> 'o \<Rightarrow> 'o \<Rightarrow> tid list \<Rightarrow> 'p \<Rightarrow> bool) \<Rightarrow> ('p \<Rightarrow> 'p option) \<Rightarrow> ('o, 'p) wsys \<Rightarrow> ('o, 'p) wsys \<Rightarrow> bool"
  for acts cont where
  act: "wout s t = [] \<Longrightarrow> cont (wpc s t) = None \<Longrightarrow> acts t (wpc s t) (wobj s) o' ts p' \<Longrightarrow>
    wstep acts cont s (s\<lparr>wobj := o', wpc := (wpc s)(t := p'), wout := (wout s)(t := ts)\<rparr>)"
| send: "wout s t = u # us \<Longrightarrow>
    wstep acts cont s (s\<lparr>wout := (wout s)(t := us), wmsg := (wmsg s)(u := True)\<rparr>)"
| resume: "wout s t = [] \<Longrightarrow> cont (wpc s t) = Some p' \<Longrightarrow> wmsg s t \<Longrightarrow>
    wstep acts cont s (s\<lparr>wpc := (wpc s)(t := p'), wmsg := (wmsg s)(t := False)\<rparr>)"

text \<open>Where a thread is that waits: on a queue, about to be sent a message by exactly one thread, or with a message.\<close>

definition waits_inv :: "('o \<Rightarrow> tid list) \<Rightarrow> ('p \<Rightarrow> bool) \<Rightarrow> ('o, 'p) wsys \<Rightarrow> bool" where
  "waits_inv queue waits s \<longleftrightarrow> distinct (queue (wobj s)) \<and> (\<forall>t. distinct (wout s t))
     \<and> (\<forall>t. waits (wpc s t) \<longleftrightarrow> t \<in> set (queue (wobj s)) \<or> wmsg s t \<or> (\<exists>u. t \<in> set (wout s u)))
     \<and> (\<forall>t u. t \<in> set (wout s u) \<longrightarrow> t \<notin> set (queue (wobj s)) \<and> \<not> wmsg s t)
     \<and> (\<forall>t. wmsg s t \<longrightarrow> t \<notin> set (queue (wobj s)))
     \<and> (\<forall>t u v. t \<in> set (wout s u) \<longrightarrow> t \<in> set (wout s v) \<longrightarrow> u = v)"

lemma waits_invD:
  assumes "waits_inv queue waits s"
  shows "distinct (queue (wobj s))" "distinct (wout s t)"
    "waits (wpc s t) \<longleftrightarrow> t \<in> set (queue (wobj s)) \<or> wmsg s t \<or> (\<exists>u. t \<in> set (wout s u))"
    "t \<in> set (wout s u) \<Longrightarrow> t \<notin> set (queue (wobj s))" "t \<in> set (wout s u) \<Longrightarrow> \<not> wmsg s t"
    "wmsg s t \<Longrightarrow> t \<notin> set (queue (wobj s))" "t \<in> set (wout s u) \<Longrightarrow> t \<in> set (wout s v) \<Longrightarrow> u = v"
  using assms unfolding waits_inv_def by blast+

lemma waits_invI:
  assumes "distinct (queue (wobj s))" "\<And>t. distinct (wout s t)"
    "\<And>t. waits (wpc s t) \<longleftrightarrow> t \<in> set (queue (wobj s)) \<or> wmsg s t \<or> (\<exists>u. t \<in> set (wout s u))"
    "\<And>t u. t \<in> set (wout s u) \<Longrightarrow> t \<notin> set (queue (wobj s)) \<and> \<not> wmsg s t"
    "\<And>t. wmsg s t \<Longrightarrow> t \<notin> set (queue (wobj s))" "\<And>t u v. t \<in> set (wout s u) \<Longrightarrow> t \<in> set (wout s v) \<Longrightarrow> u = v"
  shows "waits_inv queue waits s"
  unfolding waits_inv_def using assms by blast

text \<open>The law of an action: it enqueues the thread itself, or it takes the threads it will wake off the queues.\<close>

locale wait_object =
  fixes queue :: "'o \<Rightarrow> tid list" and waits :: "'p \<Rightarrow> bool"
    and acts :: "tid \<Rightarrow> 'p \<Rightarrow> 'o \<Rightarrow> 'o \<Rightarrow> tid list \<Rightarrow> 'p \<Rightarrow> bool" and cont :: "'p \<Rightarrow> 'p option"
  assumes act_law: "acts t p x x' ts p' \<Longrightarrow> distinct (queue x) \<Longrightarrow> (t \<in> set (queue x) \<Longrightarrow> waits p) \<Longrightarrow>
      \<not> waits p \<and> waits p' \<and> ts = [] \<and> mset (queue x') = add_mset t (mset (queue x))
      \<or> waits p' = waits p \<and> mset (queue x) = mset ts + mset (queue x')"
    and cont_law: "cont p = Some p' \<Longrightarrow> waits p \<and> \<not> waits p'"
begin

lemma act_waits:
  assumes inv: "waits_inv queue waits s" and idle: "wout s t = []" and a: "acts t (wpc s t) (wobj s) x' ts p'"
  shows "waits_inv queue waits (s\<lparr>wobj := x', wpc := (wpc s)(t := p'), wout := (wout s)(t := ts)\<rparr>)" (is "waits_inv _ _ ?s")
proof -
  note W = waits_invD [OF inv]
  from act_law [OF a W(1)] W(3) [of t] consider
      (block) "\<not> waits (wpc s t)" "waits p'" "ts = []" "mset (queue x') = add_mset t (mset (queue (wobj s)))"
    | (wake) "waits p' = waits (wpc s t)" "mset (queue (wobj s)) = mset ts + mset (queue x')" by blast
  then show ?thesis
  proof cases
    case block
    have q: "set (queue x') = insert t (set (queue (wobj s)))" using block(4) by (metis set_mset_add_mset_insert set_mset_mset)
    have nt: "t \<notin> set (queue (wobj s))" "\<not> wmsg s t" "t \<notin> set (wout s u)" for u using W(3) [of t] block(1) by blast+
    have "distinct (queue x')" using block(4) nt(1) W(1)
      by (metis mset.simps(2) distinct.simps(2) mset_eq_imp_distinct_iff)
    moreover have o: "wout ?s = wout s" using idle block(3) by auto
    ultimately show ?thesis
      by (intro waits_invI; unfold o) (use W nt block q in \<open>auto split: if_splits\<close>)
  next
    case wake
    have d: "distinct (ts @ queue x')" using wake(2) W(1) by (metis mset_append mset_eq_imp_distinct_iff)
    have q: "set (queue (wobj s)) = set ts \<union> set (queue x')" using wake(2) by (metis mset_append set_append mset_eq_setD)
    have o: "v \<in> set (wout ?s u) \<longleftrightarrow> v \<in> set (wout s u) \<or> u = t \<and> v \<in> set ts" for u v using idle by auto
    show ?thesis
    proof (rule waits_invI; (unfold o)?)
      show "distinct (queue (wobj ?s))" "distinct (wout ?s u)" for u using d W(2) by simp_all
      show "waits (wpc ?s v) \<longleftrightarrow> v \<in> set (queue (wobj ?s)) \<or> wmsg ?s v \<or> (\<exists>u. v \<in> set (wout s u) \<or> u = t \<and> v \<in> set ts)" for v
        using W(3) [of v] wake(1) q by auto
      show "v \<notin> set (queue (wobj ?s)) \<and> \<not> wmsg ?s v" if "v \<in> set (wout s u) \<or> u = t \<and> v \<in> set ts" for u v
        using that W(4-6) [of v] q d by auto
      show "v \<notin> set (queue (wobj ?s))" if "wmsg ?s v" for v using that W(6) [of v] q by auto
      show "u = u'" if "v \<in> set (wout s u) \<or> u = t \<and> v \<in> set ts" "v \<in> set (wout s u') \<or> u' = t \<and> v \<in> set ts" for u u' v
        using that W(4,7) q by blast
    qed
  qed
qed

lemma send_waits:
  assumes inv: "waits_inv queue waits s" and t: "wout s t = u # us"
  shows "waits_inv queue waits (s\<lparr>wout := (wout s)(t := us), wmsg := (wmsg s)(u := True)\<rparr>)" (is "waits_inv _ _ ?s")
proof -
  note W = waits_invD [OF inv]
  have d: "u \<notin> set us" "distinct us" using W(2) [of t] t by simp_all
  have o: "v \<in> set (wout ?s x) \<longleftrightarrow> v \<in> set (wout s x) \<and> v \<noteq> u" for v x
    using W(7) [of u x t] d t by (cases "x = t") auto
  have u: "u \<in> set (wout s t)" using t by simp
  show ?thesis
  proof (rule waits_invI; (unfold o)?)
    show "distinct (queue (wobj ?s))" "distinct (wout ?s v)" for v using d W(1,2) by simp_all
    show "waits (wpc ?s v) \<longleftrightarrow> v \<in> set (queue (wobj ?s)) \<or> wmsg ?s v \<or> (\<exists>x. v \<in> set (wout s x) \<and> v \<noteq> u)" for v
      using W(3) [of v] u by (cases "v = u") auto
    show "v \<notin> set (queue (wobj ?s)) \<and> \<not> wmsg ?s v" if "v \<in> set (wout s x) \<and> v \<noteq> u" for x v
      using that W(4,5) [of v x] by auto
    show "v \<notin> set (queue (wobj ?s))" if "wmsg ?s v" for v using that W(4) [OF u] W(6) [of v] by (auto split: if_splits)
    show "x = y" if "v \<in> set (wout s x) \<and> v \<noteq> u" "v \<in> set (wout s y) \<and> v \<noteq> u" for x y v
      using that W(7) by blast
  qed
qed

lemma resume_waits:
  assumes inv: "waits_inv queue waits s" and t: "cont (wpc s t) = Some p'" "wmsg s t"
  shows "waits_inv queue waits (s\<lparr>wpc := (wpc s)(t := p'), wmsg := (wmsg s)(t := False)\<rparr>)" (is "waits_inv _ _ ?s")
proof -
  note W = waits_invD [OF inv]
  have n: "t \<notin> set (queue (wobj s))" "t \<notin> set (wout s u)" for u using W(6) [OF t(2)] W(5) [of t u] t(2) by blast+
  show ?thesis
  proof (rule waits_invI)
    show "waits (wpc ?s v) \<longleftrightarrow> v \<in> set (queue (wobj ?s)) \<or> wmsg ?s v \<or> (\<exists>u. v \<in> set (wout ?s u))" for v
      using W(3) [of v] n cont_law [OF t(1)] by (cases "v = t") auto
    show "v \<notin> set (queue (wobj ?s)) \<and> \<not> wmsg ?s v" if "v \<in> set (wout ?s u)" for u v using that W(4,5) [of v u] by auto
    show "v \<notin> set (queue (wobj ?s))" if "wmsg ?s v" for v using that W(6) [of v] by (auto split: if_splits)
    show "x = y" if "v \<in> set (wout ?s x)" "v \<in> set (wout ?s y)" for x y v using that W(7) by auto
  qed (use W in simp_all)
qed

lemma step_waits: "wstep acts cont s s' \<Longrightarrow> waits_inv queue waits s \<Longrightarrow> waits_inv queue waits s'"
proof (induction rule: wstep.induct)
  case (act s t x' ts p')
  then show ?case by (intro act_waits)
next
  case (send s t u us)
  then show ?case by (intro send_waits)
next
  case (resume s t p')
  then show ?case by (intro resume_waits)
qed

text \<open>A thread that waits and is on no queue has a message or will get one.\<close>

lemma not_forgotten:
  "waits_inv queue waits s \<Longrightarrow> waits (wpc s t) \<Longrightarrow> t \<notin> set (queue (wobj s)) \<Longrightarrow> wmsg s t \<or> (\<exists>!u. t \<in> set (wout s u))"
  using waits_invD(3,7) [of queue waits s] by metis

end

end
