(* ===== verification/Pt_Mutex.thy ===== *)
theory Pt_Mutex
  imports Pt_Rwlock Pt_Wait
begin

text \<open>
  The mutexes and condition variables of the threads library (\<^verbatim>\<open>libpthread/sysdeps/generic/pt-mutex-*.c\<close>,
  \<^verbatim>\<open>pt-cond-*.c\<close>), built with assertions enabled. As for the read-write locks, the code between taking and dropping a
  spin lock is one action; \<open>None\<close> is a failed assertion or the macro \<open>LOSE\<close>. \<open>_pthread_self ()\<close> is an argument, \<open>None\<close>
  for the main thread before it has a thread control block.
\<close>

subsection \<open>Mutexes\<close>

datatype mutex_type = PTHREAD_MUTEX_NORMAL | PTHREAD_MUTEX_ERRORCHECK | PTHREAD_MUTEX_RECURSIVE | Mutex_type_other int

record pt_mutex =
  pm_held :: bool
  pm_lock :: bool
  pm_queue :: "tid list"
  pm_attr :: "mutex_type option"
  pm_owner :: "tid option"
  pm_locks :: u32

definition PTHREAD_MUTEX_INITIALIZER :: pt_mutex where
  "PTHREAD_MUTEX_INITIALIZER = \<lparr>pm_held = False, pm_lock = False, pm_queue = [], pm_attr = None, pm_owner = None, pm_locks = 0\<rparr>"

definition PTHREAD_RECURSIVE_MUTEX_INITIALIZER :: pt_mutex where
  "PTHREAD_RECURSIVE_MUTEX_INITIALIZER = PTHREAD_MUTEX_INITIALIZER\<lparr>pm_attr := Some PTHREAD_MUTEX_RECURSIVE\<rparr>"

text \<open>\<open>pthread_mutexattr_settype\<close> accepts the three types.\<close>

definition pthread_mutexattr_settype :: "mutex_type \<Rightarrow> mutex_type \<Rightarrow> pt_error + mutex_type" where
  "pthread_mutexattr_settype attr type = (case type of
     PTHREAD_MUTEX_NORMAL \<Rightarrow> Inr type | PTHREAD_MUTEX_ERRORCHECK \<Rightarrow> Inr type | PTHREAD_MUTEX_RECURSIVE \<Rightarrow> Inr type
   | Mutex_type_other _ \<Rightarrow> Inl EINVAL)"

definition pm_unlock_spin :: "pt_mutex \<Rightarrow> pt_mutex" where
  "pm_unlock_spin m = m\<lparr>pm_lock := False\<rparr>"

text \<open>What locking and trying do once the lock is acquired.\<close>

definition mutex_acquired :: "tid option \<Rightarrow> pt_mutex \<Rightarrow> pt_mutex option" where
  "mutex_acquired self m = do {
     m \<leftarrow> (if self \<noteq> None then do { c_assert (pm_owner m = None); Some (m\<lparr>pm_owner := self\<rparr>) } else Some m);
     case pm_attr m of
       None \<Rightarrow> Some m
     | Some PTHREAD_MUTEX_NORMAL \<Rightarrow> Some m
     | Some PTHREAD_MUTEX_RECURSIVE \<Rightarrow> Some (m\<lparr>pm_locks := 1, pm_owner := self\<rparr>)
     | Some PTHREAD_MUTEX_ERRORCHECK \<Rightarrow> Some (m\<lparr>pm_owner := self\<rparr>)
     | Some (Mutex_type_other _) \<Rightarrow> None
   }"

text \<open>The thread is put on the queue unless the time-out is invalid: then the spin lock stays held.\<close>

definition mutex_enqueue :: "tid \<Rightarrow> timespec option \<Rightarrow> pt_mutex \<Rightarrow> (pt_mutex \<times> outcome) option" where
  "mutex_enqueue self abstime m = do {
     c_assert (pm_owner m \<noteq> None);
     if bad_time abstime then Some (m, Fail EINVAL)
     else Some (pm_unlock_spin (m\<lparr>pm_queue := self # pm_queue m\<rparr>), Block)
   }"

definition pthread_mutex_timedlock :: "tid option \<Rightarrow> timespec option \<Rightarrow> pt_mutex \<Rightarrow> (pt_mutex \<times> outcome) option" where
  "pthread_mutex_timedlock self abstime m =
     (let m = m\<lparr>pm_lock := True\<rparr> in
      if \<not> pm_held m then do {
        m \<leftarrow> mutex_acquired self (m\<lparr>pm_held := True\<rparr>);
        Some (pm_unlock_spin m, Done)
      }
      else case self of
        None \<Rightarrow> None
      | Some t \<Rightarrow> (case pm_attr m of
          None \<Rightarrow> do { c_assert (pm_owner m \<noteq> self); mutex_enqueue t abstime m }
        | Some PTHREAD_MUTEX_NORMAL \<Rightarrow> do { c_assert (pm_owner m \<noteq> self); mutex_enqueue t abstime m }
        | Some PTHREAD_MUTEX_ERRORCHECK \<Rightarrow>
            if pm_owner m = self then Some (pm_unlock_spin m, Fail EDEADLK) else mutex_enqueue t abstime m
        | Some PTHREAD_MUTEX_RECURSIVE \<Rightarrow>
            if pm_owner m = self then Some (pm_unlock_spin (m\<lparr>pm_locks := pm_locks m + 1\<rparr>), Done)
            else mutex_enqueue t abstime m
        | Some (Mutex_type_other _) \<Rightarrow> None))"

text \<open>After \<open>__pthread_block\<close>: the lock was handed over.\<close>

definition mutex_resumed :: "tid \<Rightarrow> pt_mutex \<Rightarrow> pt_mutex option" where
  "mutex_resumed self m = do {
     c_assert (pm_owner m = Some self);
     case pm_attr m of
       None \<Rightarrow> Some m
     | Some PTHREAD_MUTEX_NORMAL \<Rightarrow> Some m
     | Some PTHREAD_MUTEX_RECURSIVE \<Rightarrow> do { c_assert (pm_locks m = 0); Some (m\<lparr>pm_locks := 1, pm_owner := Some self\<rparr>) }
     | Some PTHREAD_MUTEX_ERRORCHECK \<Rightarrow> Some (m\<lparr>pm_owner := Some self\<rparr>)
     | Some (Mutex_type_other _) \<Rightarrow> None
   }"

definition mutex_timed_out :: "tid \<Rightarrow> pt_mutex \<Rightarrow> pt_mutex \<times> outcome" where
  "mutex_timed_out self m =
     (let m = m\<lparr>pm_lock := True\<rparr>; m = m\<lparr>pm_queue := remove1 self (pm_queue m)\<rparr> in (pm_unlock_spin m, Fail ETIMEDOUT))"

definition pthread_mutex_trylock :: "tid option \<Rightarrow> pt_mutex \<Rightarrow> (pt_mutex \<times> outcome) option" where
  "pthread_mutex_trylock self m =
     (let m = m\<lparr>pm_lock := True\<rparr> in
      if \<not> pm_held m then do {
        m \<leftarrow> mutex_acquired self (m\<lparr>pm_held := True\<rparr>);
        Some (pm_unlock_spin m, Done)
      }
      else case pm_attr m of
        Some PTHREAD_MUTEX_RECURSIVE \<Rightarrow>
          if pm_owner m = self then Some (pm_unlock_spin (m\<lparr>pm_locks := pm_locks m + 1\<rparr>), Done)
          else Some (pm_unlock_spin m, Fail EBUSY)
      | Some (Mutex_type_other _) \<Rightarrow> None
      | _ \<Rightarrow> Some (pm_unlock_spin m, Fail EBUSY))"

text \<open>Hand the lock to the first waiting thread, or release it.\<close>

definition mutex_pass_on :: "pt_mutex \<Rightarrow> pt_mutex \<times> tid list" where
  "mutex_pass_on m = (case pm_queue m of
     [] \<Rightarrow> (pm_unlock_spin (m\<lparr>pm_held := False\<rparr>), [])
   | wakeup # rest \<Rightarrow> (pm_unlock_spin (m\<lparr>pm_queue := rest, pm_owner := Some wakeup\<rparr>), [wakeup]))"

definition pthread_mutex_unlock :: "tid option \<Rightarrow> pt_mutex \<Rightarrow> (pt_mutex \<times> tid list \<times> outcome) option" where
  "pthread_mutex_unlock self m =
     (let m = m\<lparr>pm_lock := True\<rparr> in
      if pm_attr m = None \<or> pm_attr m = Some PTHREAD_MUTEX_NORMAL then do {
        m \<leftarrow> (if self \<noteq> None then do {
                c_assert (pm_owner m \<noteq> None);
                c_assert (pm_owner m = self);
                Some (m\<lparr>pm_owner := None\<rparr>) }
              else Some m);
        let (m, ts) = mutex_pass_on m;
        Some (m, ts, Done)
      }
      else if pm_attr m = Some PTHREAD_MUTEX_ERRORCHECK \<or> pm_attr m = Some PTHREAD_MUTEX_RECURSIVE then
        (if pm_owner m \<noteq> self then Some (pm_unlock_spin m, [], Fail EPERM)
         else
           let m = (if pm_attr m = Some PTHREAD_MUTEX_RECURSIVE then m\<lparr>pm_locks := pm_locks m - 1\<rparr> else m) in
           if pm_attr m = Some PTHREAD_MUTEX_RECURSIVE \<and> pm_locks m > 0 then Some (pm_unlock_spin m, [], Done)
           else let (m, ts) = mutex_pass_on (m\<lparr>pm_owner := None\<rparr>) in Some (m, ts, Done))
      else None)"

text \<open>\<open>getid\<close> is the table of threads: the caller passes the mutex to another thread without a spin lock.\<close>

definition pthread_mutex_transfer_np :: "tid option \<Rightarrow> (nat \<Rightarrow> tid option) \<Rightarrow> nat \<Rightarrow> pt_mutex \<Rightarrow> (pt_mutex \<times> outcome) option" where
  "pthread_mutex_transfer_np self getid tid m = do {
     c_assert (pm_owner m = self);
     case getid tid of
       None \<Rightarrow> Some (m, Fail ESRCH)
     | Some thread \<Rightarrow>
         if Some thread = self then Some (m, Done)
         else if pm_attr m = Some PTHREAD_MUTEX_ERRORCHECK \<and> pm_owner m \<noteq> self then Some (m, Fail EPERM)
         else Some (m\<lparr>pm_owner := Some thread\<rparr>, Done)
   }"

subsection \<open>Condition variables\<close>

record pt_cond =
  pc_lock :: bool
  pc_queue :: "tid list"

definition PTHREAD_COND_INITIALIZER :: pt_cond where
  "PTHREAD_COND_INITIALIZER = \<lparr>pc_lock = False, pc_queue = []\<rparr>"

text \<open>The parts of waiting before the mutex is unlocked and after the thread was woken.\<close>

definition cond_enqueue :: "tid \<Rightarrow> timespec option \<Rightarrow> pt_cond \<Rightarrow> pt_cond \<times> outcome" where
  "cond_enqueue self abstime c =
     (if bad_time abstime then (c, Fail EINVAL)
      else let c = c\<lparr>pc_lock := True\<rparr>; c = c\<lparr>pc_queue := self # pc_queue c\<rparr> in (c\<lparr>pc_lock := False\<rparr>, Block))"

definition cond_cleanup :: "tid \<Rightarrow> pt_cond \<Rightarrow> pt_cond" where
  "cond_cleanup self c = (let c = c\<lparr>pc_lock := True\<rparr>; c = c\<lparr>pc_queue := remove1 self (pc_queue c)\<rparr> in c\<lparr>pc_lock := False\<rparr>)"

definition pthread_cond_signal :: "pt_cond \<Rightarrow> pt_cond \<times> tid list" where
  "pthread_cond_signal c = (let c = c\<lparr>pc_lock := True\<rparr> in
     case pc_queue c of [] \<Rightarrow> (c\<lparr>pc_lock := False\<rparr>, []) | wakeup # rest \<Rightarrow> (c\<lparr>pc_queue := rest, pc_lock := False\<rparr>, [wakeup]))"

definition pthread_cond_broadcast :: "pt_cond \<Rightarrow> pt_cond \<times> tid list" where
  "pthread_cond_broadcast c =
     (let c = c\<lparr>pc_lock := True\<rparr>; wakeup = pc_queue c; c = c\<lparr>pc_queue := []\<rparr> in (c\<lparr>pc_lock := False\<rparr>, wakeup))"

text \<open>\<open>memcmp\<close> is called with the size 0, so that attributes other than the null pointer are never taken for the default.
  They are copied unless they are the static ones for recursive mutexes; \<open>malloc\<close> says whether the memory for the
  copy is there.\<close>

definition pthread_mutex_init :: "mutex_type option \<Rightarrow> bool \<Rightarrow> bool \<Rightarrow> pt_mutex \<times> outcome" where
  "pthread_mutex_init attr static malloc = (let m = PTHREAD_MUTEX_INITIALIZER in
     case attr of None \<Rightarrow> (m, Done)
     | Some type \<Rightarrow>
         if static then (m\<lparr>pm_attr := Some type\<rparr>, Done)
         else if malloc then (m\<lparr>pm_attr := Some type\<rparr>, Done) else (m, Fail ENOMEM))"

subsection \<open>What a mutex promises\<close>

text \<open>The holder with the depth of its locks and the waiting threads. A thread that was handed the mutex and has not run
  yet holds it with depth 0. \<open>None\<close> is for calls that a program must not make.\<close>

type_synonym amutex = "(tid \<times> nat) option \<times> tid list"

definition reentrant :: "mutex_type option \<Rightarrow> bool" where
  "reentrant k \<longleftrightarrow> k = Some PTHREAD_MUTEX_RECURSIVE"

definition checked :: "mutex_type option \<Rightarrow> bool" where
  "checked k \<longleftrightarrow> k = Some PTHREAD_MUTEX_RECURSIVE \<or> k = Some PTHREAD_MUTEX_ERRORCHECK"

fun lock_spec :: "mutex_type option \<Rightarrow> tid \<Rightarrow> amutex \<Rightarrow> (amutex \<times> outcome) option" where
  "lock_spec k t (None, q) = Some ((Some (t, 1), q), Done)"
| "lock_spec k t (Some (u, n), q) =
     (if u \<noteq> t then Some ((Some (u, n), t # q), Block)
      else if reentrant k then Some ((Some (u, n + 1), q), Done)
      else if checked k then Some ((Some (u, n), q), Fail EDEADLK) else None)"

fun trylock_spec :: "mutex_type option \<Rightarrow> tid \<Rightarrow> amutex \<Rightarrow> (amutex \<times> outcome) option" where
  "trylock_spec k t (None, q) = Some ((Some (t, 1), q), Done)"
| "trylock_spec k t (Some (u, n), q) =
     (if u = t \<and> reentrant k then Some ((Some (u, n + 1), q), Done) else Some ((Some (u, n), q), Fail EBUSY))"

fun hand_on :: "tid list \<Rightarrow> amutex \<times> tid list" where
  "hand_on [] = ((None, []), [])"
| "hand_on (w # q) = ((Some (w, 0), q), [w])"

definition unlock_spec :: "mutex_type option \<Rightarrow> tid \<Rightarrow> amutex \<Rightarrow> (amutex \<times> tid list \<times> outcome) option" where
  "unlock_spec k t a =
     (case fst a of
        Some (u, n) \<Rightarrow>
          if u \<noteq> t then (if checked k then Some (a, [], Fail EPERM) else None)
          else if n > 1 then Some ((Some (u, n - 1), snd a), [], Done)
          else let (a', ts) = hand_on (snd a) in Some (a', ts, Done)
      | None \<Rightarrow> if checked k then Some (a, [], Fail EPERM) else None)"

definition mx_rep :: "pt_mutex \<Rightarrow> amutex \<Rightarrow> bool" where
  "mx_rep m a \<longleftrightarrow> \<not> pm_lock m \<and> (\<forall>i. pm_attr m \<noteq> Some (Mutex_type_other i)) \<and> pm_queue m = snd a
     \<and> (pm_held m \<longleftrightarrow> fst a \<noteq> None) \<and> pm_owner m = map_option fst (fst a) \<and> (fst a = None \<longrightarrow> snd a = [])
     \<and> (reentrant (pm_attr m) \<longrightarrow> pm_locks m = (case fst a of None \<Rightarrow> 0 | Some (_, n) \<Rightarrow> of_nat n))
     \<and> (\<forall>u n. fst a = Some (u, n) \<longrightarrow> n < 2 ^ 32 \<and> (reentrant (pm_attr m) \<or> n \<le> 1))"

lemma attr_cases [case_names plain normal errorcheck recursive other]:
  obtains "k = None" | "k = Some PTHREAD_MUTEX_NORMAL" | "k = Some PTHREAD_MUTEX_ERRORCHECK"
  | "k = Some PTHREAD_MUTEX_RECURSIVE" | i where "k = Some (Mutex_type_other i)"
  by (cases k; metis mutex_type.exhaust)

lemmas mutex_ops = pthread_mutex_timedlock_def pthread_mutex_trylock_def pthread_mutex_unlock_def mutex_acquired_def
  mutex_enqueue_def mutex_resumed_def mutex_pass_on_def pm_unlock_spin_def bad_time_def

text \<open>An implementation call and a call of the specification agree.\<close>

definition agree :: "pt_mutex \<Rightarrow> (pt_mutex \<times> 'r) option \<Rightarrow> (amutex \<times> 'r) option \<Rightarrow> bool" where
  "agree m x y \<longleftrightarrow> rel_option (\<lambda>(m', r) (a, r'). mx_rep m' a \<and> pm_attr m' = pm_attr m \<and> r = r') x y"

lemma agree_simps [simp]:
  "agree m None None" "\<not> agree m (Some p) None" "\<not> agree m None (Some p')"
  "agree m (Some (m', r)) (Some (a, r')) \<longleftrightarrow> mx_rep m' a \<and> pm_attr m' = pm_attr m \<and> r = r'"
  by (simp_all add: agree_def)

lemma lock_agrees:
  assumes "mx_rep m a" "\<And>n. fst a = Some (t, n) \<Longrightarrow> n + 1 < 2 ^ 32"
  shows "agree m (pthread_mutex_timedlock (Some t) None m) (lock_spec (pm_attr m) t a)"
    "agree m (pthread_mutex_trylock (Some t) m) (trylock_spec (pm_attr m) t a)"
  using assms
  by (cases a; cases "fst a"; cases "pm_attr m" rule: attr_cases;
      auto simp: mutex_ops mx_rep_def reentrant_def checked_def Let_def c_assert_bind_if add.commute split: if_splits)+

lemma of_nat_pred_gt:
  assumes "1 < n" "n < 2 ^ 32"
  shows "(0::u32) < of_nat n - 1" "of_nat (n - Suc 0) = (of_nat n - 1 :: u32)"
proof -
  have eq: "of_nat n - 1 = (of_nat (n - 1) :: u32)" using assms(1) by (simp add: of_nat_diff)
  then show "of_nat (n - Suc 0) = (of_nat n - 1 :: u32)" by simp
  have "unat (of_nat (n - 1) :: u32) = n - 1" unfolding unat_of_nat using assms by (simp add: take_bit_nat_eq_self)
  then show "(0::u32) < of_nat n - 1" unfolding eq using assms(1) by (simp add: word_less_nat_alt)
qed

lemma unlock_agrees:
  assumes rep: "mx_rep m a" and n: "\<And>n. fst a = Some (t, n) \<Longrightarrow> 1 \<le> n"
  shows "agree m (pthread_mutex_unlock (Some t) m) (unlock_spec (pm_attr m) t a)"
proof (cases "\<exists>k. fst a = Some (t, k) \<and> 1 < k")
  case True
  then obtain k where k: "fst a = Some (t, k)" "1 < k" by blast
  then have r: "pm_attr m = Some PTHREAD_MUTEX_RECURSIVE" "pm_locks m = of_nat k" "k < 2 ^ 32"
    using rep by (auto simp: mx_rep_def reentrant_def)
  show ?thesis using rep k r of_nat_pred_gt [OF k(2) r(3)]
    by (auto simp: mutex_ops unlock_spec_def mx_rep_def reentrant_def checked_def Let_def)
next
  case False
  then have one: "n = 1" if "fst a = Some (t, n)" for n using n that by force
  show ?thesis
    using rep one
    by (cases "fst a"; cases "snd a"; cases "pm_attr m" rule: attr_cases)
      (auto simp: mutex_ops unlock_spec_def mx_rep_def reentrant_def checked_def Let_def c_assert_bind_if)
qed

lemma resume_agrees:
  assumes "mx_rep m (Some (t, 0), q)"
  shows "\<exists>m'. mutex_resumed t m = Some m' \<and> mx_rep m' (Some (t, 1), q) \<and> pm_attr m' = pm_attr m"
  using assms by (cases "pm_attr m" rule: attr_cases) (auto simp: mutex_ops mx_rep_def reentrant_def)

lemma init_rep:
  assumes "fst (pthread_mutex_init k static malloc) = m" "\<And>i. k \<noteq> Some (Mutex_type_other i)"
  shows "mx_rep m (None, [])"
  using assms by (auto simp: pthread_mutex_init_def mx_rep_def PTHREAD_MUTEX_INITIALIZER_def Let_def split: option.splits if_splits)

text \<open>The holder passes the mutex on to a thread that does not wait for it.\<close>

lemma transfer_passes_on:
  assumes "mx_rep m (Some (t, n), q)" "getid tid = Some u"
  shows "\<exists>m'. pthread_mutex_transfer_np (Some t) getid tid m = Some (m', Done) \<and> mx_rep m' (Some (u, n), q) \<and> pm_attr m' = pm_attr m"
  using assms by (auto simp: pthread_mutex_transfer_np_def mx_rep_def)

text \<open>C25: A mutex of every type behaves as its specification says: locking and trying succeed when it is free, nest for its owner
  when it is recursive and report \<open>EDEADLK\<close> or \<open>EBUSY\<close> otherwise; unlocking by another thread gives \<open>EPERM\<close>, and the
  last unlock hands the mutex to the first waiting thread without releasing it. Calls that a program must not make
  fail an assertion; no other call does.\<close>

theorem pt_mutex_refines_spec:
  assumes rep: "mx_rep m a" and depth: "\<And>n. fst a = Some (t, n) \<Longrightarrow> 1 \<le> n \<and> n + 1 < 2 ^ 32"
  shows "agree m (pthread_mutex_timedlock (Some t) None m) (lock_spec (pm_attr m) t a)
    \<and> agree m (pthread_mutex_trylock (Some t) m) (trylock_spec (pm_attr m) t a)
    \<and> agree m (pthread_mutex_unlock (Some t) m) (unlock_spec (pm_attr m) t a)"
  using lock_agrees [OF rep] unlock_agrees [OF rep] depth by auto

theorem pt_mutex_refines_spec_witness:
  "agree PTHREAD_RECURSIVE_MUTEX_INITIALIZER (pthread_mutex_timedlock (Some 3) None PTHREAD_RECURSIVE_MUTEX_INITIALIZER)
     (Some ((Some (3, 1), []), Done))"
  using pt_mutex_refines_spec [of PTHREAD_RECURSIVE_MUTEX_INITIALIZER "(None, [])" 3]
  by (simp add: PTHREAD_RECURSIVE_MUTEX_INITIALIZER_def PTHREAD_MUTEX_INITIALIZER_def mx_rep_def)

subsection \<open>Threads that share a mutex and a condition variable\<close>

text \<open>\<open>MHold n\<close> holds the mutex \<open>n\<close> times. A thread that waits on the condition has put itself on the queue and is about to
  unlock the mutex (\<open>CEnqueued\<close>), is blocked, has been woken, and locks the mutex again; the number is what it keeps of a
  recursive mutex. \<open>MFailed\<close> is a failed assertion.\<close>

datatype mc_pc = MOut | MHold nat | MBlocked | MResumed | CEnqueued nat | CBlocked nat | CWoken nat | CRelock nat | MFailed mc_pc

fun mc_waits :: "mc_pc \<Rightarrow> bool" where
  "mc_waits MBlocked = True"
| "mc_waits (CEnqueued _) = True"
| "mc_waits (CBlocked _) = True"
| "mc_waits (MFailed p) = mc_waits p"
| "mc_waits _ = False"

fun mc_cont :: "mc_pc \<Rightarrow> mc_pc option" where
  "mc_cont MBlocked = Some MResumed"
| "mc_cont (CBlocked k) = Some (CWoken k)"
| "mc_cont _ = None"

fun at_depth :: "mc_pc \<Rightarrow> nat option" where
  "at_depth MOut = Some 0"
| "at_depth (MHold n) = Some n"
| "at_depth _ = None"

fun mc_locked :: "mc_pc \<Rightarrow> mc_pc \<Rightarrow> mc_pc \<Rightarrow> pt_mutex \<Rightarrow> (pt_mutex \<times> outcome) option \<Rightarrow> pt_mutex \<times> mc_pc" where
  "mc_locked p got err m None = (m, MFailed p)"
| "mc_locked p got err m (Some (m', Done)) = (m', got)"
| "mc_locked p got err m (Some (m', Block)) = (m', MBlocked)"
| "mc_locked p got err m (Some (m', Fail _)) = (m', err)"

fun mc_unlocked :: "mc_pc \<Rightarrow> mc_pc \<Rightarrow> mc_pc \<Rightarrow> pt_mutex \<Rightarrow> (pt_mutex \<times> tid list \<times> outcome) option \<Rightarrow> pt_mutex \<times> tid list \<times> mc_pc" where
  "mc_unlocked p ok err m None = (m, [], MFailed p)"
| "mc_unlocked p ok err m (Some (m', ts, out)) = (m', ts, if out = Done then ok else err)"

text \<open>A thread at depth \<open>n\<close> may lock, try, unlock, signal and broadcast. A program does not lock a normal mutex that it
  holds, does not unlock one that it does not hold, and does not nest deeper than the counter goes.\<close>

inductive mc_act :: "tid \<Rightarrow> mc_pc \<Rightarrow> pt_mutex \<times> pt_cond \<Rightarrow> pt_mutex \<times> pt_cond \<Rightarrow> tid list \<Rightarrow> mc_pc \<Rightarrow> bool" where
  lock: "at_depth p = Some n \<Longrightarrow> n = 0 \<or> checked (pm_attr m) \<Longrightarrow> n + 1 < 2 ^ 32 \<Longrightarrow> \<not> pm_lock m \<Longrightarrow>
    mc_locked p (MHold (n + 1)) p m (pthread_mutex_timedlock (Some t) None m) = (m', p') \<Longrightarrow> mc_act t p (m, c) (m', c) [] p'"
| trylock: "at_depth p = Some n \<Longrightarrow> n + 1 < 2 ^ 32 \<Longrightarrow> \<not> pm_lock m \<Longrightarrow>
    mc_locked p (MHold (n + 1)) p m (pthread_mutex_trylock (Some t) m) = (m', p') \<Longrightarrow> mc_act t p (m, c) (m', c) [] p'"
| unlock: "at_depth p = Some n \<Longrightarrow> n > 0 \<or> checked (pm_attr m) \<Longrightarrow> \<not> pm_lock m \<Longrightarrow>
    mc_unlocked p (if n \<le> 1 then MOut else MHold (n - 1)) p m (pthread_mutex_unlock (Some t) m) = (m', ts, p') \<Longrightarrow>
    mc_act t p (m, c) (m', c) ts p'"
| resumed: "(case mutex_resumed t m of None \<Rightarrow> (m, MFailed MResumed) | Some m' \<Rightarrow> (m', MHold 1)) = (m', p') \<Longrightarrow>
    mc_act t MResumed (m, c) (m', c) [] p'"
| cond_wait: "\<not> pc_lock c \<Longrightarrow> cond_enqueue t None c = (c', Block) \<Longrightarrow> mc_act t (MHold n) (m, c) (m, c') [] (CEnqueued n)"
| cond_unlock: "\<not> pm_lock m \<Longrightarrow>
    mc_unlocked (CEnqueued n) (CBlocked (n - 1)) (CBlocked (n - 1)) m (pthread_mutex_unlock (Some t) m) = (m', ts, p') \<Longrightarrow>
    mc_act t (CEnqueued n) (m, c) (m', c) ts p'"
| cond_woken: "\<not> pc_lock c \<Longrightarrow> mc_act t (CWoken k) (m, c) (m, cond_cleanup t c) [] (CRelock k)"
| cond_relock: "\<not> pm_lock m \<Longrightarrow>
    mc_locked (CRelock k) (MHold (k + 1)) (MFailed (CRelock k)) m (pthread_mutex_timedlock (Some t) None m) = (m', p') \<Longrightarrow>
    mc_act t (CRelock k) (m, c) (m', c) [] p'"
| signal: "at_depth p \<noteq> None \<Longrightarrow> \<not> pc_lock c \<Longrightarrow> pthread_cond_signal c = (c', ts) \<Longrightarrow> mc_act t p (m, c) (m, c') ts p"
| broadcast: "at_depth p \<noteq> None \<Longrightarrow> \<not> pc_lock c \<Longrightarrow> pthread_cond_broadcast c = (c', ts) \<Longrightarrow> mc_act t p (m, c) (m, c') ts p"

definition mc_queue :: "pt_mutex \<times> pt_cond \<Rightarrow> tid list" where
  "mc_queue mc = pm_queue (fst mc) @ pc_queue (snd mc)"

abbreviation "mc_step \<equiv> wstep mc_act mc_cont"

definition mc_init :: "mutex_type option \<Rightarrow> (pt_mutex \<times> pt_cond, mc_pc) wsys" where
  "mc_init k = \<lparr>wobj = (fst (pthread_mutex_init k False True), PTHREAD_COND_INITIALIZER), wpc = (\<lambda>_. MOut), wout = (\<lambda>_. []), wmsg = (\<lambda>_. False)\<rparr>"

subsection \<open>Waiting threads are never forgotten\<close>

lemma timedlock_queue:
  "pthread_mutex_timedlock (Some t) None m = Some (m', out) \<Longrightarrow> pm_queue m' = (if out = Block then t # pm_queue m else pm_queue m)"
  by (cases "pm_attr m" rule: attr_cases) (auto simp: mutex_ops Let_def c_assert_bind_if split: if_splits)

lemma trylock_queue: "pthread_mutex_trylock (Some t) m = Some (m', out) \<Longrightarrow> pm_queue m' = pm_queue m \<and> out \<noteq> Block"
  by (cases "pm_attr m" rule: attr_cases) (auto simp: mutex_ops Let_def c_assert_bind_if split: if_splits)

lemma unlock_queue: "pthread_mutex_unlock (Some t) m = Some (m', ts, out) \<Longrightarrow> pm_queue m = ts @ pm_queue m'"
  by (cases "pm_attr m" rule: attr_cases; cases "pm_queue m")
    (auto simp: mutex_ops Let_def c_assert_bind_if split: if_splits)

lemma at_depth_waits: "at_depth p = Some n \<Longrightarrow> \<not> mc_waits p"
  by (cases p) auto

interpretation mc: wait_object mc_queue mc_waits mc_act mc_cont
proof
  fix t p x x' ts p'
  assume "mc_act t p x x' ts p'" and d: "distinct (mc_queue x)" and w: "t \<in> set (mc_queue x) \<Longrightarrow> mc_waits p"
  then show "\<not> mc_waits p \<and> mc_waits p' \<and> ts = [] \<and> mset (mc_queue x') = add_mset t (mset (mc_queue x))
      \<or> mc_waits p' = mc_waits p \<and> mset (mc_queue x) = mset ts + mset (mc_queue x')"
  proof cases
    case (lock n m m' c)
    then show ?thesis using timedlock_queue [of t m] at_depth_waits [of p n]
      by (cases "(p, MHold (n + 1), p, m, pthread_mutex_timedlock (Some t) None m)" rule: mc_locked.cases) (auto simp: mc_queue_def)
  next
    case (trylock n m m' c)
    then show ?thesis using trylock_queue [of t m] at_depth_waits [of p n]
      by (cases "(p, MHold (n + 1), p, m, pthread_mutex_trylock (Some t) m)" rule: mc_locked.cases) (auto simp: mc_queue_def)
  next
    case (unlock n m m' c)
    then show ?thesis using unlock_queue [of t m] at_depth_waits [of p n]
      by (cases "pthread_mutex_unlock (Some t) m") (auto simp: mc_queue_def split: if_splits)
  next
    case (resumed m m' c)
    then show ?thesis
      by (cases "pm_attr m" rule: attr_cases) (auto simp: mc_queue_def mutex_resumed_def c_assert_bind_if split: if_splits)
  next
    case (cond_wait c c' n m)
    then show ?thesis by (auto simp: mc_queue_def cond_enqueue_def bad_time_def)
  next
    case (cond_unlock m n m' c)
    then show ?thesis using unlock_queue [of t m]
      by (cases "pthread_mutex_unlock (Some t) m") (auto simp: mc_queue_def)
  next
    case (cond_woken c k m)
    then have "t \<notin> set (pc_queue c)" using w by (auto simp: mc_queue_def)
    with cond_woken show ?thesis by (simp add: mc_queue_def cond_cleanup_def remove1_idem)
  next
    case (cond_relock m k m' c)
    then show ?thesis using timedlock_queue [of t m]
      by (cases "(p, MHold (k + 1), p, m, pthread_mutex_timedlock (Some t) None m)" rule: mc_locked.cases) (auto simp: mc_queue_def)
  next
    case (signal c c' m)
    then show ?thesis by (auto simp: mc_queue_def pthread_cond_signal_def Let_def split: list.splits)
  next
    case (broadcast c c' m)
    then show ?thesis by (auto simp: mc_queue_def pthread_cond_broadcast_def)
  qed
next
  show "mc_waits p \<and> \<not> mc_waits p'" if "mc_cont p = Some p'" for p p' using that by (cases p) auto
qed

subsection \<open>Who holds the mutex\<close>

fun depth_of :: "tid list \<Rightarrow> tid \<Rightarrow> mc_pc \<Rightarrow> nat option" where
  "depth_of q t (MHold n) = Some n"
| "depth_of q t (CEnqueued n) = Some n"
| "depth_of q t MResumed = Some 0"
| "depth_of q t MBlocked = (if t \<in> set q then None else Some 0)"
| "depth_of q t (CBlocked k) = (if k = 0 then None else Some k)"
| "depth_of q t (CWoken k) = (if k = 0 then None else Some k)"
| "depth_of q t (CRelock k) = (if k = 0 then None else Some k)"
| "depth_of q t _ = None"

definition holds :: "(tid \<times> nat) option \<Rightarrow> tid \<Rightarrow> nat option" where
  "holds h t = (case h of None \<Rightarrow> None | Some (u, n) \<Rightarrow> if t = u then Some n else None)"

fun pc_ok :: "mutex_type option \<Rightarrow> mc_pc \<Rightarrow> bool" where
  "pc_ok k (MHold n) \<longleftrightarrow> n > 0"
| "pc_ok k (CEnqueued n) \<longleftrightarrow> n > 0"
| "pc_ok k (CBlocked j) \<longleftrightarrow> j + 1 < 2 ^ 32 \<and> (reentrant k \<or> j = 0)"
| "pc_ok k (CWoken j) \<longleftrightarrow> j + 1 < 2 ^ 32 \<and> (reentrant k \<or> j = 0)"
| "pc_ok k (CRelock j) \<longleftrightarrow> j + 1 < 2 ^ 32 \<and> (reentrant k \<or> j = 0)"
| "pc_ok k (MFailed _) \<longleftrightarrow> False"
| "pc_ok k _ \<longleftrightarrow> True"

fun in_cond :: "mc_pc \<Rightarrow> bool" where
  "in_cond (CEnqueued _) = True"
| "in_cond (CBlocked _) = True"
| "in_cond _ = False"

definition mc_ok :: "pt_mutex \<Rightarrow> pt_cond \<Rightarrow> (tid \<Rightarrow> mc_pc) \<Rightarrow> (tid \<times> nat) option \<Rightarrow> bool" where
  "mc_ok m c P h \<longleftrightarrow> mx_rep m (h, pm_queue m) \<and> (\<forall>u. depth_of (pm_queue m) u (P u) = holds h u) \<and> \<not> pc_lock c
     \<and> (\<forall>u \<in> set (pm_queue m). P u = MBlocked) \<and> (\<forall>u \<in> set (pc_queue c). in_cond (P u)) \<and> (\<forall>u. pc_ok (pm_attr m) (P u))"

lemma mc_okD:
  assumes "mc_ok m c P h"
  shows "mx_rep m (h, pm_queue m)" "depth_of (pm_queue m) u (P u) = holds h u" "\<not> pc_lock c"
    "u \<in> set (pm_queue m) \<Longrightarrow> P u = MBlocked" "u \<in> set (pc_queue c) \<Longrightarrow> in_cond (P u)" "pc_ok (pm_attr m) (P u)"
  using assms unfolding mc_ok_def by blast+

text \<open>A thread changes its own state and the mutex, and joins a queue at most.\<close>

lemma mc_ok_self:
  assumes ok: "mc_ok m c P h" and rep: "mx_rep m' (h', pm_queue m')" "pm_attr m' = pm_attr m"
    and q: "set (pm_queue m') = set (pm_queue m) \<or> set (pm_queue m') = insert t (set (pm_queue m)) \<and> p' = MBlocked"
    and qc: "set (pc_queue c') \<subseteq> insert t (set (pc_queue c))" "\<not> pc_lock c'" "t \<in> set (pc_queue c') \<Longrightarrow> in_cond p'"
    and t: "t \<notin> set (pm_queue m)" "depth_of (pm_queue m') t p' = holds h' t" "pc_ok (pm_attr m) p'"
    and same: "\<And>u. u \<noteq> t \<Longrightarrow> holds h' u = holds h u"
  shows "mc_ok m' c' (P(t := p')) h'"
proof -
  note M = mc_okD [OF ok]
  have dq: "depth_of (pm_queue m') u p = depth_of (pm_queue m) u p" if "u \<noteq> t" for u p
    using q that by (cases "(pm_queue m, u, p)" rule: depth_of.cases) auto
  show ?thesis
    unfolding mc_ok_def using rep qc(2) M(3)
  proof (intro conjI allI ballI)
    show "depth_of (pm_queue m') u ((P(t := p')) u) = holds h' u" for u
      using t(2) dq [of u] same [of u] M(2) [of u] by (cases "u = t") auto
    show "(P(t := p')) u = MBlocked" if "u \<in> set (pm_queue m')" for u using that q t(1) M(4) [of u] by auto
    show "in_cond ((P(t := p')) u)" if "u \<in> set (pc_queue c')" for u using that qc M(5) [of u] by auto
    show "pc_ok (pm_attr m') ((P(t := p')) u)" for u using rep(2) t(3) M(6) [of u] by simp
  qed auto
qed

text \<open>The mutex is handed to the first waiting thread.\<close>

lemma mc_ok_hand:
  assumes ok: "mc_ok m c P h" and rep: "mx_rep m' (Some (w, 0), r)" "pm_attr m' = pm_attr m"
    and q: "pm_queue m = w # r" "w \<notin> set r" and t: "holds h t \<noteq> None" "depth_of r t p' = None" "pc_ok (pm_attr m) p'"
    and qc: "t \<in> set (pc_queue c) \<Longrightarrow> in_cond p'"
  shows "mc_ok m' c (P(t := p')) (Some (w, 0))"
proof -
  note M = mc_okD [OF ok]
  have q': "pm_queue m' = r" using rep(1) by (simp add: mx_rep_def)
  have nt: "t \<notin> set (pm_queue m)" using M(2) [of t] M(4) [of t] t(1) by auto
  have others: "holds h u = None" if "u \<noteq> t" for u using t(1) that by (auto simp: holds_def split: option.splits if_splits)
  have "depth_of r u ((P(t := p')) u) = holds (Some (w, 0)) u" for u
  proof -
    consider "u = t" | "u = w" "u \<noteq> t" | "u \<noteq> w" "u \<noteq> t" by blast
    then show ?thesis
    proof cases
      case 1
      then show ?thesis using t(2) nt q by (auto simp: holds_def)
    next
      case 2
      then show ?thesis using M(4) [of w] q by (simp add: holds_def)
    next
      case 3
      then have "depth_of r u (P u) = depth_of (pm_queue m) u (P u)"
        using q(1) by (cases "(r, u, P u)" rule: depth_of.cases) auto
      then show ?thesis using 3 M(2) [of u] others [of u] by (simp add: holds_def)
    qed
  qed
  then show ?thesis
    unfolding mc_ok_def q' using rep q' M(3-6) q nt t(3) qc by auto
qed

lemma holds_None: "holds h t = None \<longleftrightarrow> (\<forall>n. h \<noteq> Some (t, n))" and holds_Some: "holds h t = Some n \<longleftrightarrow> h = Some (t, n)"
  by (auto simp: holds_def split: option.splits)

lemma mc_lock_ok:
  assumes ok: "mc_ok m c P h" and t: "t \<notin> set (pm_queue m)" "t \<notin> set (pc_queue c)"
    and n: "holds h t = (if n = 0 then None else Some n)" "n + 1 < 2 ^ 32" "n = 0 \<or> checked (pm_attr m)"
    and err: "n \<noteq> 0 \<Longrightarrow> \<not> reentrant (pm_attr m) \<Longrightarrow> err = P t"
    and res: "mc_locked p (MHold (n + 1)) err m (pthread_mutex_timedlock (Some t) None m) = (m', p')"
  shows "\<exists>h'. mc_ok m' c (P(t := p')) h'"
proof -
  note M = mc_okD [OF ok]
  let ?a = "(h, pm_queue m)"
  have "agree m (pthread_mutex_timedlock (Some t) None m) (lock_spec (pm_attr m) t ?a)"
    using n by (intro lock_agrees [OF M(1)]) (auto simp: holds_def split: if_splits)
  moreover have "lock_spec (pm_attr m) t ?a \<noteq> None"
    using n by (cases h) (auto simp: holds_def split: if_splits)
  ultimately obtain m1 a1 out where r: "pthread_mutex_timedlock (Some t) None m = Some (m1, out)"
      "lock_spec (pm_attr m) t ?a = Some (a1, out)" "mx_rep m1 a1" "pm_attr m1 = pm_attr m"
    by (cases "pthread_mutex_timedlock (Some t) None m"; cases "lock_spec (pm_attr m) t ?a") auto
  have q1: "pm_queue m1 = snd a1" using r(3) by (simp add: mx_rep_def)
  consider (got) "a1 = (Some (t, n + 1), pm_queue m)" "out = Done" "\<And>u. u \<noteq> t \<Longrightarrow> holds h u = None"
    | (block) "a1 = (h, t # pm_queue m)" "out = Block" "holds h t = None"
    | (dead) "a1 = ?a" "out = Fail EDEADLK" "n \<noteq> 0" "\<not> reentrant (pm_attr m)"
    using r(2) n by (cases h) (auto simp: holds_def split: if_splits)
  then show ?thesis
  proof cases
    case got
    have "mc_ok m1 c (P(t := MHold (n + 1))) (Some (t, n + 1))"
      by (rule mc_ok_self [OF ok]) (use r q1 got t M(3) in \<open>auto simp: holds_def\<close>)
    then show ?thesis using res r(1) got(2) by auto
  next
    case block
    have "mc_ok m1 c (P(t := MBlocked)) h"
      by (rule mc_ok_self [OF ok]) (use r q1 block t M(3) in \<open>auto\<close>)
    then show ?thesis using res r(1) block(2) by auto
  next
    case dead
    have "mc_ok m1 c (P(t := P t)) h"
      by (rule mc_ok_self [OF ok]) (use r q1 dead t M(2,3,6) in \<open>auto\<close>)
    then show ?thesis using res r(1) dead(2) err [OF dead(3,4)] by auto
  qed
qed

lemma mc_trylock_ok:
  assumes ok: "mc_ok m c P h" and t: "t \<notin> set (pm_queue m)" "t \<notin> set (pc_queue c)"
    and n: "holds h t = (if n = 0 then None else Some n)" "n + 1 < 2 ^ 32"
    and res: "mc_locked p (MHold (n + 1)) (P t) m (pthread_mutex_trylock (Some t) m) = (m', p')"
  shows "\<exists>h'. mc_ok m' c (P(t := p')) h'"
proof -
  note M = mc_okD [OF ok]
  let ?a = "(h, pm_queue m)"
  have "agree m (pthread_mutex_trylock (Some t) m) (trylock_spec (pm_attr m) t ?a)"
    using n by (intro lock_agrees [OF M(1)]) (auto simp: holds_def split: if_splits)
  moreover have "trylock_spec (pm_attr m) t ?a \<noteq> None"
    using n by (cases h) (auto simp: holds_def split: if_splits)
  ultimately obtain m1 a1 out where r: "pthread_mutex_trylock (Some t) m = Some (m1, out)"
      "trylock_spec (pm_attr m) t ?a = Some (a1, out)" "mx_rep m1 a1" "pm_attr m1 = pm_attr m"
    by (cases "pthread_mutex_trylock (Some t) m"; cases "trylock_spec (pm_attr m) t ?a") auto
  have q1: "pm_queue m1 = snd a1" using r(3) by (simp add: mx_rep_def)
  consider (got) "a1 = (Some (t, n + 1), pm_queue m)" "out = Done" "\<And>u. u \<noteq> t \<Longrightarrow> holds h u = None"
    | (busy) "a1 = ?a" "out = Fail EBUSY"
    using r(2) n by (cases h) (auto simp: holds_def split: if_splits)
  then show ?thesis
  proof cases
    case got
    have "mc_ok m1 c (P(t := MHold (n + 1))) (Some (t, n + 1))"
      by (rule mc_ok_self [OF ok]) (use r q1 got t M(3) in \<open>auto simp: holds_def\<close>)
    then show ?thesis using res r(1) got(2) by auto
  next
    case busy
    have "mc_ok m1 c (P(t := P t)) h"
      by (rule mc_ok_self [OF ok]) (use r q1 busy t M(2,3,6) in \<open>auto\<close>)
    then show ?thesis using res r(1) busy(2) by auto
  qed
qed

lemma unlock_spec_cases:
  assumes "unlock_spec k t (h, q) = Some (a, ts, out)"
  obtains "a = (h, q)" "out = Fail EPERM" "holds h t = None"
  | j where "h = Some (t, j)" "a = (Some (t, j - 1), q)" "out = Done" "j > 1"
  | j where "h = Some (t, j)" "a = (None, [])" "q = []" "out = Done" "j \<le> 1"
  | j w r where "h = Some (t, j)" "a = (Some (w, 0), r)" "q = w # r" "out = Done" "j \<le> 1"
proof (cases "holds h t")
  case None
  then show ?thesis using assms that(1) by (auto simp: unlock_spec_def holds_def split: option.splits if_splits)
next
  case (Some j)
  then have h: "h = Some (t, j)" by (auto simp: holds_def split: option.splits if_splits)
  show ?thesis
  proof (cases "j > 1")
    case True
    then show ?thesis using assms h that(2) by (auto simp: unlock_spec_def)
  next
    case False
    then show ?thesis using assms h that(3,4) by (cases q) (auto simp: unlock_spec_def)
  qed
qed

lemma mc_unlock_ok:
  assumes ok: "mc_ok m c P h" and d: "distinct (pm_queue m)"
    and n: "holds h t = (if n = 0 then None else Some n)" "n > 0 \<or> checked (pm_attr m) \<and> P t = err"
    and p: "depth_of (pm_queue m) t fin = (if n \<le> 1 then None else Some (n - 1))" "n > 0 \<Longrightarrow> pc_ok (pm_attr m) fin" "fin \<noteq> MBlocked"
      "t \<in> set (pc_queue c) \<Longrightarrow> in_cond fin \<and> in_cond err"
    and t: "t \<notin> set (pm_queue m)"
    and res: "mc_unlocked p fin err m (pthread_mutex_unlock (Some t) m) = (m', ts, p')"
  shows "\<exists>h'. mc_ok m' c (P(t := p')) h'"
proof -
  note M = mc_okD [OF ok]
  let ?a = "(h, pm_queue m)"
  have "agree m (pthread_mutex_unlock (Some t) m) (unlock_spec (pm_attr m) t ?a)"
    using n by (intro unlock_agrees [OF M(1)]) (auto simp: holds_def split: if_splits)
  moreover have "unlock_spec (pm_attr m) t ?a \<noteq> None"
    using n by (cases h) (auto simp: holds_def unlock_spec_def Let_def split: if_splits prod.splits)
  ultimately obtain m1 a1 ts1 out where r: "pthread_mutex_unlock (Some t) m = Some (m1, ts1, out)"
      "unlock_spec (pm_attr m) t ?a = Some (a1, ts1, out)" "mx_rep m1 a1" "pm_attr m1 = pm_attr m"
    by (cases "pthread_mutex_unlock (Some t) m"; cases "unlock_spec (pm_attr m) t ?a") auto
  have q1: "pm_queue m1 = snd a1" using r(3) by (simp add: mx_rep_def)
  have dd: "depth_of q t fin = depth_of (pm_queue m) t fin" for q using p(3) by (cases "(q, t, fin)" rule: depth_of.cases) auto
  have jn: "j = n \<and> n \<noteq> 0" if "h = Some (t, j)" for j using n(1) that by (simp add: holds_def split: if_splits)
  from r(2) show ?thesis
  proof (cases rule: unlock_spec_cases)
    case 1
    then have z: "n = 0" using n(1) by (simp split: if_splits)
    have "mc_ok m1 c (P(t := P t)) h"
      by (rule mc_ok_self [OF ok]) (use r q1 1 z t M(2,3,6) p(4) n(2) in \<open>auto\<close>)
    then show ?thesis using res r(1) 1(2) z n(2) by auto
  next
    case (2 j)
    note nested = 2 and e = jn [OF 2(1)]
    have "mc_ok m1 c (P(t := fin)) (Some (t, n - 1))"
      by (rule mc_ok_self [OF ok]) (use r q1 nested e t M(3) p dd in \<open>auto simp: holds_def\<close>)
    then show ?thesis using res r(1) nested e by auto
  next
    case (3 j)
    note free = 3 and e = jn [OF 3(1)]
    have "mc_ok m1 c (P(t := fin)) None"
      by (rule mc_ok_self [OF ok]) (use r q1 free e t M(3) p dd in \<open>auto simp: holds_def\<close>)
    then show ?thesis using res r(1) free by auto
  next
    case (4 j w q)
    note hand = 4 and e = jn [OF 4(1)]
    have "mc_ok m1 c (P(t := fin)) (Some (w, 0))"
      by (rule mc_ok_hand [OF ok, where r = q]) (use r hand e d p dd in \<open>auto simp: holds_def\<close>)
    then show ?thesis using res r(1) hand by auto
  qed
qed

lemma at_depth_holds:
  assumes "mc_ok m c P h" "at_depth (P t) = Some n"
  shows "holds h t = (if n = 0 then None else Some n)" "t \<notin> set (pm_queue m)" "t \<notin> set (pc_queue c)"
  using mc_okD(2,4,5,6) [OF assms(1), of t] assms(2) by (cases "P t"; auto)+

lemma mc_resumed_ok:
  assumes ok: "mc_ok m c P h" and t: "P t = MResumed"
    and res: "(case mutex_resumed t m of None \<Rightarrow> (m, MFailed MResumed) | Some m' \<Rightarrow> (m', MHold 1)) = (m', p')"
  shows "\<exists>h'. mc_ok m' c (P(t := p')) h'"
proof -
  note M = mc_okD [OF ok]
  have h: "h = Some (t, 0)" using M(2) [of t] t by (simp add: holds_Some [symmetric])
  obtain m1 where m1: "mutex_resumed t m = Some m1" "mx_rep m1 (Some (t, 1), pm_queue m)" "pm_attr m1 = pm_attr m"
    using resume_agrees M(1) h by blast
  then have q: "pm_queue m1 = pm_queue m" by (simp add: mx_rep_def)
  have "mc_ok m1 c (P(t := MHold 1)) (Some (t, 1))"
    by (rule mc_ok_self [OF ok]) (use m1 q h t M(3) M(4,5) [of t] in \<open>auto simp: holds_def\<close>)
  then show ?thesis using res m1(1) by auto
qed

text \<open>Actions on the condition only.\<close>

lemma mc_cond_ok:
  assumes ok: "mc_ok m c P h" and q: "set (pc_queue c') \<subseteq> insert t (set (pc_queue c))" "\<not> pc_lock c'" "t \<in> set (pc_queue c') \<Longrightarrow> in_cond p'"
    and t: "t \<notin> set (pm_queue m)" "depth_of (pm_queue m) t p' = depth_of (pm_queue m) t (P t)" "pc_ok (pm_attr m) p'"
  shows "\<exists>h'. mc_ok m c' (P(t := p')) h'"
proof -
  note M = mc_okD [OF ok]
  have "mc_ok m c' (P(t := p')) h"
    by (rule mc_ok_self [OF ok M(1) refl _ q t(1) _ t(3)]) (use t(2) M(2) in auto)
  then show ?thesis ..
qed

lemma mc_act_ok:
  assumes "mc_act t (P t) x x' ts p'" and ok: "mc_ok (fst x) (snd x) P h" and d: "distinct (mc_queue x)"
  shows "\<exists>h'. mc_ok (fst x') (snd x') (P(t := p')) h'"
  using assms(1)
proof cases
  case (lock n m m' c)
  note A = at_depth_holds [OF ok lock(4)]
  show ?thesis using mc_lock_ok [OF ok, where n = n and p' = p'] lock A by auto
next
  case (trylock n m m' c)
  note A = at_depth_holds [OF ok trylock(4)]
  show ?thesis using mc_trylock_ok [OF ok, where n = n and p' = p'] trylock A by auto
next
  case (unlock n m m' c)
  note A = at_depth_holds [OF ok unlock(3)]
  have "\<exists>h'. mc_ok m' (snd x) (P(t := p')) h'"
    by (rule mc_unlock_ok [OF ok, where n = n and fin = "if n \<le> 1 then MOut else MHold (n - 1)" and err = "P t" and ts = ts and p = "P t"])
      (use A unlock d in \<open>auto simp: mc_queue_def\<close>)
  then show ?thesis using unlock by simp
next
  case (resumed m m' c)
  have ok': "mc_ok m c P h" using ok resumed by simp
  show ?thesis by (rule mc_resumed_ok [OF ok', where t = t and p' = p' and m' = m', THEN exE]) (use resumed in auto)
next
  case (cond_wait c c' n m)
  have "\<exists>h'. mc_ok (fst x) c' (P(t := p')) h'"
    by (rule mc_cond_ok [OF ok]) (use cond_wait mc_okD(4,6) [OF ok, of t] in \<open>auto simp: cond_enqueue_def bad_time_def\<close>)
  then show ?thesis using cond_wait by simp
next
  case (cond_unlock m n m' c)
  have h: "n > 0" "holds h t = Some n" "t \<notin> set (pm_queue m)"
    using mc_okD(2,4,6) [OF ok, of t] cond_unlock by auto
  then have "h = Some (t, n)" by (simp add: holds_Some)
  then have "n < 2 ^ 32 \<and> (reentrant (pm_attr m) \<or> n \<le> 1)"
    using mc_okD(1) [OF ok] cond_unlock(2) unfolding mx_rep_def by simp
  note n = h conjunct1 [OF this] conjunct2 [OF this]
  have "\<exists>h'. mc_ok m' (snd x) (P(t := p')) h'"
    by (rule mc_unlock_ok [OF ok, where n = n and fin = "CBlocked (n - 1)" and err = "CBlocked (n - 1)" and ts = ts and p = "P t"])
      (use n cond_unlock d in \<open>auto simp: mc_queue_def\<close>)
  then show ?thesis using cond_unlock by simp
next
  case (cond_woken c k m)
  then have "t \<notin> set (pc_queue c)" using mc_okD(5) [OF ok, of t] by auto
  then have "pc_queue (cond_cleanup t c) = pc_queue c" "\<not> pc_lock (cond_cleanup t c)"
    by (simp_all add: cond_cleanup_def remove1_idem)
  then have "\<exists>h'. mc_ok (fst x) (cond_cleanup t c) (P(t := p')) h'"
    using cond_woken mc_okD(4,5,6) [OF ok, of t] by (intro mc_cond_ok [OF ok]) auto
  then show ?thesis using cond_woken by simp
next
  case (cond_relock m k m' c)
  have k: "holds h t = (if k = 0 then None else Some k)" "t \<notin> set (pm_queue m)" "t \<notin> set (pc_queue c)" "k + 1 < 2 ^ 32"
      "reentrant (pm_attr m) \<or> k = 0"
    using mc_okD(2,4,5,6) [OF ok, of t] cond_relock by auto
  show ?thesis
    using mc_lock_ok [OF ok, where n = k and p' = p' and err = "MFailed (CRelock k)" and p = "P t"] k cond_relock
    by (auto simp: reentrant_def checked_def)
next
  case (signal c c' m)
  obtain n where n: "at_depth (P t) = Some n" using signal by auto
  have "\<exists>h'. mc_ok (fst x) c' (P(t := p')) h'"
    by (rule mc_cond_ok [OF ok])
      (use signal at_depth_holds [OF ok n] mc_okD(6) [OF ok, of t] in \<open>auto simp: pthread_cond_signal_def Let_def split: list.splits\<close>)
  then show ?thesis using signal by simp
next
  case (broadcast c c' m)
  obtain n where n: "at_depth (P t) = Some n" using broadcast by auto
  have "\<exists>h'. mc_ok (fst x) c' (P(t := p')) h'"
    by (rule mc_cond_ok [OF ok])
      (use broadcast at_depth_holds [OF ok n] mc_okD(6) [OF ok, of t] in \<open>auto simp: pthread_cond_broadcast_def\<close>)
  then show ?thesis using broadcast by simp
qed

definition mc_inv :: "(pt_mutex \<times> pt_cond, mc_pc) wsys \<Rightarrow> bool" where
  "mc_inv s \<longleftrightarrow> waits_inv mc_queue mc_waits s \<and> (\<exists>h. mc_ok (fst (wobj s)) (snd (wobj s)) (wpc s) h)"

lemma mc_step_inv: "mc_step s s' \<Longrightarrow> mc_inv s \<Longrightarrow> mc_inv s'"
proof -
  assume step: "mc_step s s'" and inv: "mc_inv s"
  then have w: "waits_inv mc_queue mc_waits s" "waits_inv mc_queue mc_waits s'"
    using mc.step_waits by (auto simp: mc_inv_def)
  obtain h where ok: "mc_ok (fst (wobj s)) (snd (wobj s)) (wpc s) h" using inv by (auto simp: mc_inv_def)
  from step have "\<exists>h'. mc_ok (fst (wobj s')) (snd (wobj s')) (wpc s') h'"
  proof cases
    case (act t x' ts p')
    then show ?thesis using mc_act_ok [OF _ ok waits_invD(1) [OF w(1)]] by auto
  next
    case (send t u us)
    then show ?thesis using ok by auto
  next
    case (resume t p')
    have nq: "t \<notin> set (mc_queue (wobj s))" using waits_invD(6) [OF w(1) resume(4)] .
    have "mc_ok (fst (wobj s)) (snd (wobj s)) ((wpc s)(t := p')) h"
      by (rule mc_ok_self [OF ok mc_okD(1) [OF ok] refl])
        (use resume nq mc_okD(3) [OF ok] mc_okD(2,6) [OF ok, of t] in \<open>cases "wpc s t"; auto simp: mc_queue_def\<close>)+
    then show ?thesis using resume by auto
  qed
  with w(2) show ?thesis by (simp add: mc_inv_def)
qed

definition known_type :: "mutex_type option \<Rightarrow> bool" where
  "known_type k \<longleftrightarrow> (\<forall>i. k \<noteq> Some (Mutex_type_other i))"

lemma mc_init_inv: "known_type k \<Longrightarrow> mc_inv (mc_init k)"
proof -
  assume k: "known_type k"
  have m: "mx_rep (fst (pthread_mutex_init k False True)) (None, [])" using k by (intro init_rep) (auto simp: known_type_def)
  then have q: "pm_queue (fst (pthread_mutex_init k False True)) = []" by (simp add: mx_rep_def)
  have "mc_ok (fst (wobj (mc_init k))) (snd (wobj (mc_init k))) (wpc (mc_init k)) None"
    using m q by (simp add: mc_ok_def mc_init_def holds_def PTHREAD_COND_INITIALIZER_def)
  moreover have "waits_inv mc_queue mc_waits (mc_init k)"
    using q by (simp add: waits_inv_def mc_init_def mc_queue_def PTHREAD_COND_INITIALIZER_def)
  ultimately show ?thesis by (auto simp: mc_inv_def)
qed

lemma mc_reachable_inv:
  assumes "known_type k" "reachable mc_step (mc_init k) s"
  shows "mc_inv s"
  by (rule reachable_invariant [OF assms(2), of mc_inv]) (use mc_init_inv [OF assms(1)] mc_step_inv in blast)+

text \<open>C26: Threads that share a mutex of any type and a condition variable, under every interleaving of untimed locks, attempts,
  unlocks, waits, signals and broadcasts. In no reachable state has an assertion of the code failed, whether or not
  anybody holds the mutex. At most one thread holds the mutex, and the owner and the lock count that the
  mutex records are those of that thread.\<close>

theorem mutex_cond_exclusion:
  assumes "known_type k" "reachable mc_step (mc_init k) s"
  shows "(\<forall>u p. wpc s u \<noteq> MFailed p)
    \<and> (\<forall>t n. wpc s t = MHold n \<longrightarrow> pm_owner (fst (wobj s)) = Some t \<and> pm_held (fst (wobj s))
        \<and> (if reentrant (pm_attr (fst (wobj s))) then pm_locks (fst (wobj s)) = of_nat n \<and> n < 2 ^ 32 else n = 1)
        \<and> (\<forall>u j. wpc s u = MHold j \<longrightarrow> u = t))"
proof -
  obtain h where ok: "mc_ok (fst (wobj s)) (snd (wobj s)) (wpc s) h"
    using mc_reachable_inv [OF assms] by (auto simp: mc_inv_def)
  note M = mc_okD [OF ok]
  have "pm_owner (fst (wobj s)) = Some t \<and> pm_held (fst (wobj s))
        \<and> (if reentrant (pm_attr (fst (wobj s))) then pm_locks (fst (wobj s)) = of_nat n \<and> n < 2 ^ 32 else n = 1)
        \<and> (\<forall>u j. wpc s u = MHold j \<longrightarrow> u = t)" if t: "wpc s t = MHold n" for t n
  proof -
    have "holds h t = Some n" and n: "n > 0" using M(2,6) [of t] t by simp_all
    then have h: "h = Some (t, n)" by (simp add: holds_Some)
    have "u = t" if "wpc s u = MHold j" for u j using M(2) [of u] that h by (simp add: holds_def split: if_splits)
    then show ?thesis using M(1) h n by (auto simp: mx_rep_def)
  qed
  moreover have "wpc s u \<noteq> MFailed p" for u p using M(6) [of u] by auto
  ultimately show ?thesis by blast
qed

theorem mutex_cond_exclusion_witness:
  "\<exists>s. reachable mc_step (mc_init None) s \<and> wpc s 4 = MHold 1 \<and> pm_owner (fst (wobj s)) = Some 4 \<and> (\<forall>u j. wpc s u = MHold j \<longrightarrow> u = 4)"
proof -
  define s where "s = (mc_init None)\<lparr>wobj := (PTHREAD_MUTEX_INITIALIZER\<lparr>pm_held := True, pm_owner := Some 4\<rparr>, PTHREAD_COND_INITIALIZER),
    wpc := (\<lambda>_. MOut)(4 := MHold 1)\<rparr>"
  have "mc_act 4 MOut (PTHREAD_MUTEX_INITIALIZER, PTHREAD_COND_INITIALIZER)
      (PTHREAD_MUTEX_INITIALIZER\<lparr>pm_held := True, pm_owner := Some 4\<rparr>, PTHREAD_COND_INITIALIZER) [] (MHold 1)"
    by (rule mc_act.lock [where n = 0]) (simp_all add: PTHREAD_MUTEX_INITIALIZER_def mutex_ops Let_def)
  then have "mc_step (mc_init None) s"
    using wstep.act [of "mc_init None" 4 mc_cont mc_act "(PTHREAD_MUTEX_INITIALIZER\<lparr>pm_held := True, pm_owner := Some 4\<rparr>, PTHREAD_COND_INITIALIZER)"
      "[]" "MHold 1"] by (simp add: mc_init_def s_def pthread_mutex_init_def fun_upd_idem)
  then have r: "reachable mc_step (mc_init None) s" by (rule reachable.more [OF reachable.start])
  moreover have pc: "wpc s 4 = MHold 1" by (simp add: s_def)
  ultimately have "pm_owner (fst (wobj s)) = Some 4 \<and> (\<forall>u j. wpc s u = MHold j \<longrightarrow> u = 4)"
    using mutex_cond_exclusion [of None s] r pc unfolding known_type_def by blast
  with r pc show ?thesis by blast
qed

text \<open>A signal, or a broadcast, by thread \<open>t\<close>: the threads it takes off the queue are those it has to send a message to.\<close>

definition mc_signal :: "tid \<Rightarrow> (pt_mutex \<times> pt_cond, mc_pc) wsys \<Rightarrow> (pt_mutex \<times> pt_cond, mc_pc) wsys" where
  "mc_signal t s = (let (c, ts) = pthread_cond_signal (snd (wobj s)) in s\<lparr>wobj := (fst (wobj s), c), wout := (wout s)(t := ts)\<rparr>)"

definition mc_broadcast :: "tid \<Rightarrow> (pt_mutex \<times> pt_cond, mc_pc) wsys \<Rightarrow> (pt_mutex \<times> pt_cond, mc_pc) wsys" where
  "mc_broadcast t s = (let (c, ts) = pthread_cond_broadcast (snd (wobj s)) in s\<lparr>wobj := (fst (wobj s), c), wout := (wout s)(t := ts)\<rparr>)"

lemma mc_signal_step:
  assumes t: "wout s t = []" "at_depth (wpc s t) \<noteq> None" and c: "\<not> pc_lock (snd (wobj s))"
  shows "mc_step s (mc_signal t s)" "mc_step s (mc_broadcast t s)"
proof -
  obtain m c0 where o: "wobj s = (m, c0)" by (cases "wobj s")
  obtain c' ts where sg: "pthread_cond_signal c0 = (c', ts)" by (cases "pthread_cond_signal c0")
  obtain d us where bc: "pthread_cond_broadcast c0 = (d, us)" by (cases "pthread_cond_broadcast c0")
  have cont: "mc_cont (wpc s t) = None" using t(2) by (cases "wpc s t") auto
  have "mc_act t (wpc s t) (wobj s) (m, c') ts (wpc s t)" unfolding o by (rule mc_act.signal) (use t c o sg in auto)
  from wstep.act [of s t mc_cont mc_act, OF t(1) cont this] show "mc_step s (mc_signal t s)" by (simp add: mc_signal_def o sg)
  have "mc_act t (wpc s t) (wobj s) (m, d) us (wpc s t)" unfolding o by (rule mc_act.broadcast) (use t c o bc in auto)
  from wstep.act [of s t mc_cont mc_act, OF t(1) cont this] show "mc_step s (mc_broadcast t s)" by (simp add: mc_broadcast_def o bc)
qed

lemma mc_signal_effect:
  "pc_queue (snd (wobj (mc_signal t s))) = drop 1 (pc_queue (snd (wobj s)))" "wout (mc_signal t s) t = take 1 (pc_queue (snd (wobj s)))"
  "pc_queue (snd (wobj (mc_broadcast t s))) = []" "wout (mc_broadcast t s) t = pc_queue (snd (wobj s))"
  "wpc (mc_signal t s) = wpc s" "wpc (mc_broadcast t s) = wpc s"
  by (simp_all add: mc_signal_def mc_broadcast_def pthread_cond_signal_def pthread_cond_broadcast_def Let_def split: list.splits)

text \<open>C27: No wake-up is lost between a mutex and a condition variable. A thread blocked in \<open>pthread_mutex_lock\<close> is on the mutex's
  queue while another thread owns the mutex, or it owns the mutex and has a message or exactly one thread about to send
  it one; nobody is blocked on a free mutex. A thread blocked in \<open>pthread_cond_wait\<close> is on the condition's queue or
  has, or will get, a message. The threads on the condition's queue are in \<open>pthread_cond_wait\<close>. A thread can always signal
  and broadcast; a signal takes the first waiting thread off the queue, if there is one, and owes it a
  message, and a broadcast does so with all of them, so that no signal is lost either.\<close>

theorem mutex_cond_no_lost_wakeup:
  assumes "known_type k" "reachable mc_step (mc_init k) s"
  shows "(wpc s t = MBlocked \<longrightarrow>
      (if t \<in> set (pm_queue (fst (wobj s))) then \<exists>u. pm_owner (fst (wobj s)) = Some u \<and> u \<notin> set (pm_queue (fst (wobj s)))
       else pm_owner (fst (wobj s)) = Some t \<and> (wmsg s t \<or> (\<exists>!u. t \<in> set (wout s u)))))
    \<and> (\<not> pm_held (fst (wobj s)) \<longrightarrow> wpc s t \<noteq> MBlocked)
    \<and> (wpc s t = CBlocked n \<longrightarrow> t \<in> set (pc_queue (snd (wobj s))) \<or> wmsg s t \<or> (\<exists>!u. t \<in> set (wout s u)))
    \<and> (\<forall>u \<in> set (pc_queue (snd (wobj s))). \<exists>j. wpc s u = CEnqueued j \<or> wpc s u = CBlocked j)
    \<and> (wout s t = [] \<longrightarrow> at_depth (wpc s t) \<noteq> None \<longrightarrow>
        mc_step s (mc_signal t s) \<and> wout (mc_signal t s) t = take 1 (pc_queue (snd (wobj s)))
        \<and> pc_queue (snd (wobj (mc_signal t s))) = drop 1 (pc_queue (snd (wobj s)))
        \<and> mc_step s (mc_broadcast t s) \<and> wout (mc_broadcast t s) t = pc_queue (snd (wobj s))
        \<and> pc_queue (snd (wobj (mc_broadcast t s))) = [])"
proof -
  have inv: "waits_inv mc_queue mc_waits s" using mc_reachable_inv [OF assms] by (simp add: mc_inv_def)
  obtain h where ok: "mc_ok (fst (wobj s)) (snd (wobj s)) (wpc s) h"
    using mc_reachable_inv [OF assms] by (auto simp: mc_inv_def)
  note M = mc_okD [OF ok]
  let ?m = "fst (wobj s)" and ?q = "pc_queue (snd (wobj s))"
  have rep: "pm_owner ?m = map_option fst h" "pm_held ?m \<longleftrightarrow> h \<noteq> None" "h = None \<longrightarrow> pm_queue ?m = []"
    using M(1) by (auto simp: mx_rep_def)
  have queued: "\<exists>u. pm_owner ?m = Some u \<and> u \<notin> set (pm_queue ?m)" if inq: "t \<in> set (pm_queue ?m)"
  proof -
    obtain u j where h: "h = Some (u, j)" using rep(3) inq by (cases h) fastforce+
    have "u \<notin> set (pm_queue ?m)" using M(2) [of u] M(4) [of u] h by (auto simp: holds_def)
    then show ?thesis using rep(1) h by simp
  qed
  have own: "h = Some (t, 0)" if "wpc s t = MBlocked" "t \<notin> set (pm_queue ?m)"
    using M(2) [of t] that by (simp add: holds_Some [symmetric])
  have nq: "t \<notin> set (mc_queue (wobj s))" if "wpc s t = MBlocked" "t \<notin> set (pm_queue ?m)"
    using M(5) [of t] that by (auto simp: mc_queue_def)
  have nc: "t \<notin> set (mc_queue (wobj s))" if "wpc s t = CBlocked n" "t \<notin> set ?q"
    using M(4) [of t] that by (auto simp: mc_queue_def)
  have mx: "(wpc s t = MBlocked \<longrightarrow>
      (if t \<in> set (pm_queue ?m) then \<exists>u. pm_owner ?m = Some u \<and> u \<notin> set (pm_queue ?m)
       else pm_owner ?m = Some t \<and> (wmsg s t \<or> (\<exists>!u. t \<in> set (wout s u)))))
    \<and> (\<not> pm_held ?m \<longrightarrow> wpc s t \<noteq> MBlocked)
    \<and> (wpc s t = CBlocked n \<longrightarrow> t \<in> set ?q \<or> wmsg s t \<or> (\<exists>!u. t \<in> set (wout s u)))"
    using queued own nq nc mc.not_forgotten [OF inv, of t] rep by (cases "t \<in> set (pm_queue ?m)") auto
  have "\<exists>j. wpc s u = CEnqueued j \<or> wpc s u = CBlocked j" if "u \<in> set ?q" for u using M(5) [OF that] by (cases "wpc s u") auto
  with mx mc_signal_step [of s t] M(3) show ?thesis by (simp add: mc_signal_effect)
qed

text \<open>A run: thread 4 locks the mutex, waits on the condition and blocks.\<close>

definition one_waits :: "(pt_mutex \<times> pt_cond, mc_pc) wsys" where
  "one_waits = (mc_init None)\<lparr>wobj := (PTHREAD_MUTEX_INITIALIZER, PTHREAD_COND_INITIALIZER\<lparr>pc_queue := [4]\<rparr>), wpc := (\<lambda>_. MOut)(4 := CBlocked 0)\<rparr>"

lemma mc_act_step:
  assumes "mc_act t (wpc s t) (wobj s) x [] p" "wout s t = []" "mc_cont (wpc s t) = None" "reachable mc_step i s"
  shows "reachable mc_step i (s\<lparr>wobj := x, wpc := (wpc s)(t := p)\<rparr>)"
proof -
  have "mc_step s (s\<lparr>wobj := x, wpc := (wpc s)(t := p), wout := (wout s)(t := [])\<rparr>)" by (rule wstep.act) (use assms in auto)
  moreover have "(wout s)(t := []) = wout s" using assms(2) by auto
  ultimately show ?thesis using reachable.more [OF assms(4)] by simp
qed

lemma one_waits_reachable: "reachable mc_step (mc_init None) one_waits"
proof -
  let ?m = "PTHREAD_MUTEX_INITIALIZER\<lparr>pm_held := True, pm_owner := Some 4\<rparr>" and ?c = PTHREAD_COND_INITIALIZER
  let ?c' = "PTHREAD_COND_INITIALIZER\<lparr>pc_queue := [4]\<rparr>"
  have a1: "mc_act 4 MOut (PTHREAD_MUTEX_INITIALIZER, ?c) (?m, ?c) [] (MHold 1)"
    by (rule mc_act.lock [where n = 0]) (simp_all add: PTHREAD_MUTEX_INITIALIZER_def mutex_ops Let_def)
  have a2: "mc_act 4 (MHold 1) (?m, ?c) (?m, ?c') [] (CEnqueued 1)"
    by (rule mc_act.cond_wait) (simp_all add: cond_enqueue_def bad_time_def PTHREAD_COND_INITIALIZER_def)
  have a3: "mc_act 4 (CEnqueued 1) (?m, ?c') (PTHREAD_MUTEX_INITIALIZER, ?c') [] (CBlocked 0)"
    by (rule mc_act.cond_unlock) (simp_all add: PTHREAD_MUTEX_INITIALIZER_def mutex_ops Let_def)
  let ?s1 = "(mc_init None)\<lparr>wobj := (?m, ?c), wpc := (\<lambda>_. MOut)(4 := MHold 1)\<rparr>"
  have "reachable mc_step (mc_init None) ?s1"
    using mc_act_step [of 4 "mc_init None" "(?m, ?c)" "MHold 1", OF _ _ _ reachable.start] a1
    by (simp add: mc_init_def pthread_mutex_init_def)
  then have "reachable mc_step (mc_init None) (?s1\<lparr>wobj := (?m, ?c'), wpc := (wpc ?s1)(4 := CEnqueued 1)\<rparr>)"
    by (rule mc_act_step [rotated 3]) (use a2 in \<open>simp_all add: mc_init_def\<close>)
  from mc_act_step [OF _ _ _ this, of 4 "(PTHREAD_MUTEX_INITIALIZER, ?c')" "CBlocked 0"] a3
  show ?thesis by (simp add: one_waits_def mc_init_def)
qed

theorem mutex_cond_no_lost_wakeup_witness:
  "reachable mc_step (mc_init None) one_waits \<and> wpc one_waits 4 = CBlocked 0 \<and> pc_queue (snd (wobj one_waits)) = [4]
    \<and> mc_step one_waits (mc_signal 5 one_waits) \<and> wout (mc_signal 5 one_waits) 5 = [4] \<and> pc_queue (snd (wobj (mc_signal 5 one_waits))) = []"
proof -
  have "wout one_waits 5 = []" "at_depth (wpc one_waits 5) \<noteq> None" "pc_queue (snd (wobj one_waits)) = [4]" "wpc one_waits 4 = CBlocked 0"
    by (simp_all add: one_waits_def mc_init_def)
  with mutex_cond_no_lost_wakeup [OF _ one_waits_reachable, of 5 0] one_waits_reachable show ?thesis by (simp add: known_type_def)
qed

end
