(* ===== verification/Pt_Sync.thy ===== *)
theory Pt_Sync
  imports Pt_Rwlock Pt_Wait
begin

text \<open>
  The semaphores, barriers and one-time initialisations of the threads library
  (\<^verbatim>\<open>libpthread/sysdeps/generic/sem-*.c\<close>, \<^verbatim>\<open>pt-barrier-*.c\<close>, \<^verbatim>\<open>pt-once.c\<close>). The code between taking and dropping a
  spin lock is one action. The value of a semaphore is a signed and the counters of a barrier are unsigned 32-bit
  integers.
\<close>

subsection \<open>Semaphores\<close>

record pt_sem =
  sem_lock :: bool
  sem_queue :: "tid list"
  sem_value :: u32

text \<open>\<open>sem_max\<close> is \<open>SEM_VALUE_MAX\<close>, if the system defines it.\<close>

definition sem_init :: "u32 option \<Rightarrow> bool \<Rightarrow> u32 \<Rightarrow> pt_error + pt_sem" where
  "sem_init sem_max pshared value =
     (if pshared then Inl EOPNOTSUPP
      else if sem_max \<noteq> None \<and> value > the sem_max then Inl EINVAL
      else Inr \<lparr>sem_lock = False, sem_queue = [], sem_value = value\<rparr>)"

definition sem_destroy :: "pt_sem \<Rightarrow> outcome" where
  "sem_destroy sem = (if sem_queue sem \<noteq> [] then Fail EBUSY else Done)"

definition sem_getvalue :: "pt_sem \<Rightarrow> int" where
  "sem_getvalue sem = sint (sem_value sem)"

text \<open>An invalid time-out returns with the spin lock held.\<close>

definition sem_timedwait :: "tid \<Rightarrow> timespec option \<Rightarrow> pt_sem \<Rightarrow> pt_sem \<times> outcome" where
  "sem_timedwait self timeout sem =
     (let sem = sem\<lparr>sem_lock := True\<rparr> in
      if sint (sem_value sem) > 0 then (sem\<lparr>sem_value := sem_value sem - 1, sem_lock := False\<rparr>, Done)
      else if bad_time timeout then (sem, Fail EINVAL)
      else (sem\<lparr>sem_queue := self # sem_queue sem, sem_lock := False\<rparr>, Block))"

definition sem_timed_out :: "tid \<Rightarrow> pt_sem \<Rightarrow> pt_sem \<times> outcome" where
  "sem_timed_out self sem =
     (let sem = sem\<lparr>sem_lock := True\<rparr>; sem = sem\<lparr>sem_queue := remove1 self (sem_queue sem)\<rparr> in
      (sem\<lparr>sem_lock := False\<rparr>, Fail ETIMEDOUT))"

definition sem_trywait :: "pt_sem \<Rightarrow> pt_sem \<times> outcome" where
  "sem_trywait sem =
     (let sem = sem\<lparr>sem_lock := True\<rparr> in
      if sint (sem_value sem) > 0 then (sem\<lparr>sem_value := sem_value sem - 1, sem_lock := False\<rparr>, Done)
      else (sem\<lparr>sem_lock := False\<rparr>, Fail EAGAIN))"

definition sem_post :: "pt_sem \<Rightarrow> (pt_sem \<times> tid list) option" where
  "sem_post sem =
     (let sem = sem\<lparr>sem_lock := True\<rparr> in
      if sint (sem_value sem) > 0 then do {
        c_assert (sem_queue sem = []);
        Some (sem\<lparr>sem_value := sem_value sem + 1, sem_lock := False\<rparr>, [])
      }
      else case sem_queue sem of
        [] \<Rightarrow> Some (sem\<lparr>sem_value := 1, sem_lock := False\<rparr>, [])
      | wakeup # rest \<Rightarrow> Some (sem\<lparr>sem_queue := rest, sem_lock := False\<rparr>, [wakeup]))"

subsection \<open>Counting\<close>

text \<open>A sequence of calls: how many threads pass, at once or because they are woken, and how many attempts are refused.\<close>

datatype sem_call = Sem_wait tid | Sem_trywait | Sem_post

fun sem_do :: "sem_call \<Rightarrow> pt_sem \<Rightarrow> (pt_sem \<times> nat \<times> nat) option" where
  "sem_do (Sem_wait t) sem = (let (sem', out) = sem_timedwait t None sem in Some (sem', of_bool (out = Done), 0))"
| "sem_do Sem_trywait sem = (let (sem', out) = sem_trywait sem in Some (sem', of_bool (out = Done), of_bool (out \<noteq> Done)))"
| "sem_do Sem_post sem = do { (sem', ts) \<leftarrow> sem_post sem; Some (sem', length ts, 0) }"

fun sem_run :: "sem_call list \<Rightarrow> pt_sem \<Rightarrow> (pt_sem \<times> nat \<times> nat) option" where
  "sem_run [] sem = Some (sem, 0, 0)"
| "sem_run (c # cs) sem = do {
     (sem1, passed, refused) \<leftarrow> sem_do c sem;
     (sem', passed', refused') \<leftarrow> sem_run cs sem1;
     Some (sem', passed + passed', refused + refused')
   }"

fun is_post :: "sem_call \<Rightarrow> bool" where
  "is_post Sem_post = True"
| "is_post _ = False"

definition sem_posts :: "sem_call list \<Rightarrow> nat" where
  "sem_posts cs = length (filter is_post cs)"

definition sem_waits :: "sem_call list \<Rightarrow> nat" where
  "sem_waits cs = length (filter (\<lambda>c. \<not> is_post c) cs)"

text \<open>The state of a semaphore as units and waiting threads, of which one is always zero.\<close>

definition sem_rep :: "pt_sem \<Rightarrow> nat \<Rightarrow> nat \<Rightarrow> bool" where
  "sem_rep sem units waiting \<longleftrightarrow> \<not> sem_lock sem \<and> sem_value sem = of_nat units \<and> units < 2 ^ 31
     \<and> length (sem_queue sem) = waiting \<and> (units = 0 \<or> waiting = 0)"

lemma sint_of_nat: "n < 2 ^ 31 \<Longrightarrow> sint (of_nat n :: u32) = int n"
  by (simp add: signed_of_nat signed_take_bit_int_eq_self)

lemma sem_rep_positive: "sem_rep sem u w \<Longrightarrow> sint (sem_value sem) > 0 \<longleftrightarrow> u > 0"
  by (simp add: sem_rep_def sint_of_nat)

lemma wait_rep:
  assumes "sem_rep sem u w"
  obtains j where "u = Suc j" "\<And>t. sem_timedwait t None sem = (sem\<lparr>sem_value := of_nat j\<rparr>, Done)"
      "sem_trywait sem = (sem\<lparr>sem_value := of_nat j\<rparr>, Done)" "sem_rep (sem\<lparr>sem_value := of_nat j\<rparr>) j 0"
  | "u = 0" "\<And>t. sem_timedwait t None sem = (sem\<lparr>sem_queue := t # sem_queue sem\<rparr>, Block)"
      "sem_trywait sem = (sem, Fail EAGAIN)" "\<And>t. sem_rep (sem\<lparr>sem_queue := t # sem_queue sem\<rparr>) 0 (Suc w)"
proof (cases u)
  case 0
  then show ?thesis using assms sem_rep_positive [OF assms]
    by (intro that(2)) (auto simp: sem_rep_def sem_timedwait_def sem_trywait_def bad_time_def)
next
  case (Suc j)
  then show ?thesis using assms sem_rep_positive [OF assms]
    by (intro that(1) [OF Suc]) (auto simp: sem_rep_def sem_timedwait_def sem_trywait_def)
qed

lemma post_rep:
  assumes "sem_rep sem u w" "u + 1 < 2 ^ 31"
  obtains (unit) sem' where "w = 0" "sem_post sem = Some (sem', [])" "sem_rep sem' (Suc u) 0"
  | (wake) j t ts where "w = Suc j" "u = 0" "sem_queue sem = t # ts" "sem_post sem = Some (sem\<lparr>sem_queue := ts\<rparr>, [t])" "sem_rep (sem\<lparr>sem_queue := ts\<rparr>) 0 j"
proof (cases w)
  case 0
  define sem' where "sem' = sem\<lparr>sem_value := of_nat (Suc u)\<rparr>"
  have q: "sem_queue sem = []" "\<not> sem_lock sem" "sem_value sem = of_nat u" using 0 assms(1) by (auto simp: sem_rep_def)
  have "sem_post sem = Some (sem', [])"
    using q sem_rep_positive [OF assms(1)] by (cases u) (auto simp: sem_post_def Let_def sem'_def add.commute)
  moreover have "sem_rep sem' (Suc u) 0" using q assms(2) by (simp add: sem_rep_def sem'_def)
  ultimately show ?thesis using 0 by (intro that(1))
next
  case (Suc j)
  then obtain t ts where q: "sem_queue sem = t # ts" "u = 0" using assms(1) by (cases "sem_queue sem") (auto simp: sem_rep_def)
  show ?thesis using q Suc assms(1) sem_rep_positive [OF assms(1)]
    by (intro that(2) [OF Suc q(2,1)]) (auto simp: sem_rep_def sem_post_def)
qed

text \<open>Units and threads are neither lost nor made up.\<close>

lemma sem_do_counts:
  assumes rep: "sem_rep sem u w" and b: "u + of_bool (is_post c) < 2 ^ 31"
  shows "\<exists>s p r u' w'. sem_do c sem = Some (s, p, r) \<and> sem_rep s u' w'
    \<and> u + of_bool (is_post c) = u' + p \<and> w + of_bool (\<not> is_post c) = w' + p + r"
proof (cases c)
  case (Sem_wait t)
  from rep show ?thesis
  proof (cases rule: wait_rep)
    case (1 j)
    then show ?thesis using Sem_wait rep by (auto simp: sem_rep_def)
  next
    case 2
    then show ?thesis using Sem_wait 2(4) [of t] by auto
  qed
next
  case Sem_trywait
  from rep show ?thesis
  proof (cases rule: wait_rep)
    case (1 j)
    then show ?thesis using Sem_trywait rep by (auto simp: sem_rep_def)
  next
    case 2
    then show ?thesis using Sem_trywait rep by auto
  qed
next
  case Sem_post
  have "u + 1 < 2 ^ 31" using b Sem_post by simp
  with rep show ?thesis
  proof (cases rule: post_rep)
    case (unit sem')
    then show ?thesis using Sem_post by auto
  next
    case (wake j t ts)
    then show ?thesis using Sem_post by auto
  qed
qed

lemma sem_run_counts:
  "sem_rep sem u w \<Longrightarrow> u + sem_posts cs < 2 ^ 31 \<Longrightarrow>
     \<exists>s p r u' w'. sem_run cs sem = Some (s, p, r) \<and> sem_rep s u' w'
       \<and> u + sem_posts cs = u' + p \<and> w + sem_waits cs = w' + p + r"
proof (induction cs arbitrary: sem u w)
  case Nil
  then show ?case by (auto simp: sem_posts_def sem_waits_def)
next
  case (Cons c cs)
  have ps: "sem_posts (c # cs) = of_bool (is_post c) + sem_posts cs" "sem_waits (c # cs) = of_bool (\<not> is_post c) + sem_waits cs"
    by (simp_all add: sem_posts_def sem_waits_def)
  have "u + of_bool (is_post c) < 2 ^ 31" using Cons.prems(2) ps(1) by linarith
  from sem_do_counts [OF Cons.prems(1) this] obtain s1 p r u1 w1 where one: "sem_do c sem = Some (s1, p, r)" "sem_rep s1 u1 w1"
    "u + of_bool (is_post c) = u1 + p" "w + of_bool (\<not> is_post c) = w1 + p + r" by blast
  then have "u1 + sem_posts cs < 2 ^ 31" using Cons.prems(2) ps(1) by linarith
  from Cons.IH [OF one(2) this] obtain s p' r' u' w' where more: "sem_run cs s1 = Some (s, p', r')" "sem_rep s u' w'"
    "u1 + sem_posts cs = u' + p'" "w1 + sem_waits cs = w' + p' + r'" by blast
  have "sem_run (c # cs) sem = Some (s, p + p', r + r')" using one(1) more(1) by simp
  moreover have "u + sem_posts (c # cs) = u' + (p + p')" "w + sem_waits (c # cs) = w' + (p + p') + (r + r')"
    using one(3,4) more(3,4) ps by linarith+
  ultimately show ?case using more(2) by blast
qed

text \<open>C31: A semaphore counts. After any sequence of posts, waits and attempts from \<open>sem_init\<close> with value \<open>v\<close>, no assertion has
  failed, the number of threads that passed is the smaller of the units provided and the threads that asked and were
  not refused, the remaining units are the value and the remaining threads are on the queue.\<close>

theorem semaphore_counts:
  assumes init: "sem_init sem_max False (of_nat v) = Inr sem" and bound: "v + sem_posts cs < 2 ^ 31"
  shows "\<exists>s passed refused. sem_run cs sem = Some (s, passed, refused)
    \<and> passed = min (v + sem_posts cs) (sem_waits cs - refused) \<and> refused \<le> sem_waits cs
    \<and> sem_getvalue s = int (v + sem_posts cs) - int passed
    \<and> length (sem_queue s) = sem_waits cs - refused - passed \<and> \<not> sem_lock s"
proof -
  have "sem_rep sem v 0" using init bound by (auto simp: sem_init_def sem_rep_def split: if_splits)
  from sem_run_counts [OF this bound] obtain s p r u' w' where run: "sem_run cs sem = Some (s, p, r)" and rep: "sem_rep s u' w'"
    and n: "v + sem_posts cs = u' + p" "sem_waits cs = w' + p + r" by auto
  have "sem_getvalue s = int u'" "length (sem_queue s) = w'" "\<not> sem_lock s" "u' = 0 \<or> w' = 0"
    using rep by (auto simp: sem_rep_def sem_getvalue_def sint_of_nat)
  then show ?thesis using run n by (intro exI [of _ s] exI [of _ p] exI [of _ r]) auto
qed

theorem semaphore_counts_witness:
  "\<exists>s passed refused. sem_run [Sem_wait 1, Sem_wait 2, Sem_trywait, Sem_post]
       \<lparr>sem_lock = False, sem_queue = [], sem_value = 1\<rparr> = Some (s, passed, refused) \<and> passed = min 2 (3 - refused)"
proof -
  define cs where "cs = [Sem_wait 1, Sem_wait 2, Sem_trywait, Sem_post]"
  have "sem_init None False (of_nat 1) = Inr \<lparr>sem_lock = False, sem_queue = [], sem_value = 1\<rparr>" by (simp add: sem_init_def)
  moreover have n: "sem_posts cs = 1" "sem_waits cs = 3" by (simp_all add: cs_def sem_posts_def sem_waits_def)
  ultimately show ?thesis unfolding cs_def [symmetric]
    using semaphore_counts [of None 1 "\<lparr>sem_lock = False, sem_queue = [], sem_value = 1\<rparr>" cs, unfolded n] by fastforce
qed

text \<open>Posting has no overflow check: at the largest value the count becomes negative, so that everybody waits, and the next post
  makes it 1, whatever was posted before.\<close>

lemma sem_post_overflow:
  assumes "sem_value sem = 2 ^ 31 - 1" "sem_queue sem = []"
  shows "\<exists>s s'. sem_post sem = Some (s, []) \<and> sem_getvalue s = - (2 ^ 31) \<and> snd (sem_trywait s) = Fail EAGAIN
    \<and> sem_post s = Some (s', []) \<and> sem_getvalue s' = 1"
  using assms by (simp add: sem_post_def sem_trywait_def sem_getvalue_def Let_def)

subsection \<open>Threads at a semaphore\<close>

datatype sem_pc = SIdle | SBlocked | SFailed

fun sem_cont :: "sem_pc \<Rightarrow> sem_pc option" where
  "sem_cont SBlocked = Some SIdle"
| "sem_cont _ = None"

inductive sem_act :: "tid \<Rightarrow> sem_pc \<Rightarrow> pt_sem \<Rightarrow> pt_sem \<Rightarrow> tid list \<Rightarrow> sem_pc \<Rightarrow> bool" where
  wait: "\<not> sem_lock sem \<Longrightarrow> sem_timedwait t None sem = (sem', out) \<Longrightarrow>
    sem_act t SIdle sem sem' [] (if out = Block then SBlocked else SIdle)"
| trywait: "\<not> sem_lock sem \<Longrightarrow> sem_trywait sem = (sem', out) \<Longrightarrow> sem_act t SIdle sem sem' [] SIdle"
| post: "\<not> sem_lock sem \<Longrightarrow> sint (sem_value sem) < 2 ^ 31 - 1 \<Longrightarrow> sem_post sem = Some (sem', ts) \<Longrightarrow> sem_act t SIdle sem sem' ts SIdle"
| post_fails: "\<not> sem_lock sem \<Longrightarrow> sem_post sem = None \<Longrightarrow> sem_act t SIdle sem sem [] SFailed"

abbreviation "sem_step \<equiv> wstep sem_act sem_cont"

definition sem_start :: "nat \<Rightarrow> (pt_sem, sem_pc) wsys" where
  "sem_start v = \<lparr>wobj = \<lparr>sem_lock = False, sem_queue = [], sem_value = of_nat v\<rparr>, wpc = (\<lambda>_. SIdle), wout = (\<lambda>_. []), wmsg = (\<lambda>_. False)\<rparr>"

interpretation sem: wait_object sem_queue "\<lambda>p. p = SBlocked" sem_act sem_cont
proof
  fix t p x x' ts p'
  assume "sem_act t p x x' ts p'"
  then show "p \<noteq> SBlocked \<and> p' = SBlocked \<and> ts = [] \<and> mset (sem_queue x') = add_mset t (mset (sem_queue x))
      \<or> (p' = SBlocked) = (p = SBlocked) \<and> mset (sem_queue x) = mset ts + mset (sem_queue x')"
    by cases (auto simp: sem_timedwait_def sem_trywait_def sem_post_def Let_def bad_time_def split: if_splits list.splits)
next
  show "p = SBlocked \<and> p' \<noteq> SBlocked" if "sem_cont p = Some p'" for p p' using that by (cases p) auto
qed

definition sem_inv :: "(pt_sem, sem_pc) wsys \<Rightarrow> bool" where
  "sem_inv s \<longleftrightarrow> waits_inv sem_queue (\<lambda>p. p = SBlocked) s \<and> (\<exists>u w. sem_rep (wobj s) u w) \<and> (\<forall>t. wpc s t \<noteq> SFailed)"

lemma sem_act_rep:
  assumes "sem_act t p x x' ts p'" "sem_rep x u w"
  shows "(\<exists>u' w'. sem_rep x' u' w') \<and> p' \<noteq> SFailed"
  using assms(1)
proof cases
  case (wait out)
  from assms(2) show ?thesis
    by (cases rule: wait_rep) (use wait in auto)
next
  case (trywait out)
  from assms(2) show ?thesis
    by (cases rule: wait_rep) (use trywait assms(2) in auto)
next
  case post
  have "u + 1 < 2 ^ 31" using post(4) assms(2) by (auto simp: sem_rep_def sint_of_nat)
  with assms(2) show ?thesis
    by (cases rule: post_rep) (use post in auto)
next
  case post_fails
  then show ?thesis using assms(2) by (auto simp: sem_post_def Let_def sem_rep_def sint_of_nat c_assert_bind_if split: if_splits list.splits)
qed

lemma sem_step_inv: "sem_inv s \<Longrightarrow> sem_step s s' \<Longrightarrow> sem_inv s'"
proof -
  assume inv: "sem_inv s" and step: "sem_step s s'"
  then have w: "waits_inv sem_queue (\<lambda>p. p = SBlocked) s'" using sem.step_waits by (auto simp: sem_inv_def)
  obtain u j where rep: "sem_rep (wobj s) u j" using inv by (auto simp: sem_inv_def)
  from step show ?thesis
  proof cases
    case (act t x' ts p')
    then show ?thesis using w inv sem_act_rep [OF act(4) rep] by (auto simp: sem_inv_def)
  next
    case (send t v us)
    then show ?thesis using w inv by (auto simp: sem_inv_def)
  next
    case (resume t p')
    then show ?thesis using w inv by (cases "wpc s t") (auto simp: sem_inv_def)
  qed
qed

lemma sem_start_inv: "v < 2 ^ 31 \<Longrightarrow> sem_inv (sem_start v)"
  by (auto simp: sem_inv_def sem_start_def waits_inv_def sem_rep_def)

lemma sem_reachable_inv: "v < 2 ^ 31 \<Longrightarrow> reachable sem_step (sem_start v) s \<Longrightarrow> sem_inv s"
  by (rule reachable_invariant [of sem_step "sem_start v" s sem_inv]) (auto intro: sem_start_inv sem_step_inv)

text \<open>Threads that wait and post at a semaphore in any interleaving: no assertion fails, and a thread blocked in \<open>sem_wait\<close> is on the
  queue of a semaphore whose value is zero, or has a message, or will be sent one by exactly one thread.\<close>

lemma semaphore_no_lost_wakeup:
  assumes "v < 2 ^ 31" "reachable sem_step (sem_start v) s"
  shows "wpc s t \<noteq> SFailed \<and> 0 \<le> sem_getvalue (wobj s)
    \<and> (wpc s t = SBlocked \<longrightarrow> (if t \<in> set (sem_queue (wobj s)) then sem_getvalue (wobj s) = 0 else wmsg s t \<or> (\<exists>!u. t \<in> set (wout s u))))"
proof -
  have inv: "sem_inv s" using sem_reachable_inv [OF assms] .
  then obtain u w where rep: "sem_rep (wobj s) u w" and wi: "waits_inv sem_queue (\<lambda>p. p = SBlocked) s" and nf: "wpc s t \<noteq> SFailed"
    by (auto simp: sem_inv_def)
  have "sem_getvalue (wobj s) = int u" "sem_queue (wobj s) \<noteq> [] \<longrightarrow> u = 0"
    using rep by (auto simp: sem_rep_def sem_getvalue_def sint_of_nat)
  then show ?thesis using nf sem.not_forgotten [OF wi, of t] by auto
qed

subsection \<open>Barriers\<close>

record pt_barrier =
  b_lock :: bool
  b_queue :: "tid list"
  b_pending :: u32
  b_count :: u32

text \<open>\<open>attr\<close> says whether attributes were given: they are always copied, into memory that \<open>malloc\<close> may refuse.\<close>

definition pthread_barrier_init :: "bool \<Rightarrow> bool \<Rightarrow> u32 \<Rightarrow> pt_error + pt_barrier" where
  "pthread_barrier_init attr malloc n =
     (if n = 0 then Inl EINVAL
      else if attr \<and> \<not> malloc then Inl ENOMEM
      else Inr \<lparr>b_lock = False, b_queue = [], b_pending = n, b_count = n\<rparr>)"

datatype arrival = Serial "tid list" | Waits

text \<open>The last thread of a round gets the threads to wake. With a count of 1 it returns with the spin lock held.\<close>

definition pthread_barrier_wait :: "tid \<Rightarrow> pt_barrier \<Rightarrow> pt_barrier \<times> arrival" where
  "pthread_barrier_wait self b =
     (let b = b\<lparr>b_lock := True, b_pending := b_pending b - 1\<rparr> in
      if b_pending b = 0 then
        let b = b\<lparr>b_pending := b_count b\<rparr> in
        if b_count b > 1 then (let wakeup = b_queue b in (b\<lparr>b_queue := [], b_lock := False\<rparr>, Serial wakeup))
        else (b, Serial [])
      else (b\<lparr>b_queue := self # b_queue b, b_lock := False\<rparr>, Waits))"

text \<open>Threads arrive one after the other; every round gives the list of the threads it lets through.\<close>

fun arrivals :: "tid list \<Rightarrow> pt_barrier \<Rightarrow> pt_barrier \<times> tid list list" where
  "arrivals [] b = (b, [])"
| "arrivals (t # ts) b = (case pthread_barrier_wait t b of
     (b', Waits) \<Rightarrow> arrivals ts b'
   | (b', Serial us) \<Rightarrow> let (b'', rounds) = arrivals ts b' in (b'', (t # us) # rounds))"

definition barrier_rep :: "nat \<Rightarrow> pt_barrier \<Rightarrow> bool" where
  "barrier_rep n b \<longleftrightarrow> \<not> b_lock b \<and> n < 2 ^ 32 \<and> b_count b = of_nat n \<and> length (b_queue b) < n
     \<and> b_pending b = of_nat (n - length (b_queue b))"

lemma of_nat_u32_eq_iff: "m < 2 ^ 32 \<Longrightarrow> n < 2 ^ 32 \<Longrightarrow> (of_nat m :: u32) = of_nat n \<longleftrightarrow> m = n"
  by (simp add: word_unat_eq_iff unat_of_nat take_bit_nat_eq_self)

lemma barrier_wait_cases:
  assumes rep: "barrier_rep n b" and n: "n > 1"
  obtains (last) b' where "pthread_barrier_wait t b = (b', Serial (b_queue b))" "barrier_rep n b'" "b_queue b' = []"
      "Suc (length (b_queue b)) = n"
  | (waits) b' where "pthread_barrier_wait t b = (b', Waits)" "barrier_rep n b'" "b_queue b' = t # b_queue b"
proof -
  let ?k = "n - Suc (length (b_queue b))"
  have R: "\<not> b_lock b" "n < 2 ^ 32" "b_count b = of_nat n" "length (b_queue b) < n" "b_pending b = of_nat (n - length (b_queue b))"
    using rep by (simp_all add: barrier_rep_def)
  have "n - length (b_queue b) = Suc ?k" using R(4) by simp
  then have p: "b_pending b - 1 = of_nat ?k" using R(5) by simp
  have z: "(of_nat ?k :: u32) = 0 \<longleftrightarrow> ?k = 0" using of_nat_u32_eq_iff [of ?k 0] R(2) by simp
  have c: "(1::u32) < of_nat n" using n R(2) by (simp add: word_less_nat_alt unat_of_nat take_bit_nat_eq_self)
  show ?thesis
  proof (cases "?k = 0")
    case True
    then show ?thesis using R p c n
      by (intro last [of "b\<lparr>b_pending := of_nat n, b_queue := []\<rparr>"]) (simp_all add: pthread_barrier_wait_def barrier_rep_def Let_def)
  next
    case False
    then have "b_pending b \<noteq> 1" using p z by (metis diff_self)
    then show ?thesis using False R p
      by (intro waits [of "b\<lparr>b_pending := of_nat ?k, b_queue := t # b_queue b\<rparr>"]) (simp_all add: pthread_barrier_wait_def barrier_rep_def Let_def)
  qed
qed

text \<open>The rounds and the waiting threads, in the order of arrival, are all the threads that arrived.\<close>

lemma arrivals_rounds:
  assumes n: "n > 1"
  shows "barrier_rep n b \<Longrightarrow> arrivals ts b = (b', rounds) \<Longrightarrow>
    barrier_rep n b' \<and> (\<forall>r \<in> set rounds. length r = n) \<and> concat (map rev rounds) @ rev (b_queue b') = rev (b_queue b) @ ts"
proof (induction ts arbitrary: b rounds)
  case (Cons t ts)
  from Cons.prems(1) n show ?case
  proof (cases rule: barrier_wait_cases [where t = t])
    case (last b1)
    obtain rs where rs: "arrivals ts b1 = (b', rs)" "rounds = (t # b_queue b) # rs"
      using Cons.prems(2) last(1) by (auto split: prod.splits)
    then show ?thesis using Cons.IH [OF last(2) rs(1)] last(3,4) by simp
  next
    case (waits b1)
    then show ?thesis using Cons.IH [OF waits(2)] Cons.prems(2) by simp
  qed
qed simp

text \<open>C32: A barrier for \<open>n > 1\<close> threads lets the threads through in rounds of \<open>n\<close>, in the order of their arrival: every round is \<open>n\<close>
  consecutive arrivals, nobody is in two rounds, fewer than \<open>n\<close> threads are left waiting, and the counter is reset
  after each round.\<close>

theorem barrier_rounds:
  assumes "pthread_barrier_init attr malloc (of_nat n) = Inr b" "1 < n" "n < 2 ^ 32" "arrivals ts b = (b', rounds)"
  shows "concat (map rev rounds) @ rev (b_queue b') = ts \<and> (\<forall>r \<in> set rounds. length r = n)
    \<and> length (b_queue b') < n \<and> b_pending b' = of_nat (n - length (b_queue b')) \<and> \<not> b_lock b' \<and> length rounds = length ts div n"
proof -
  have b: "barrier_rep n b" "b_queue b = []" using assms(1-3) by (auto simp: pthread_barrier_init_def barrier_rep_def split: if_splits)
  note A = arrivals_rounds [OF assms(2) b(1) assms(4)]
  have "length (concat (map rev rs)) = n * length rs" if "\<forall>r \<in> set rs. length r = n" for rs :: "tid list list"
    using that by (induction rs) auto
  then have "length ts = n * length rounds + length (b_queue b')" using A b(2) by (metis append_Nil length_append length_rev rev.simps(1))
  then have "length rounds = length ts div n" using A by (simp add: barrier_rep_def)
  then show ?thesis using A b(2) by (simp add: barrier_rep_def)
qed

theorem barrier_rounds_witness:
  "\<exists>b b' rounds. pthread_barrier_init False True 2 = Inr b \<and> arrivals [7, 8, 9] b = (b', rounds) \<and> length rounds = 1 \<and> length (b_queue b') < 2"
proof -
  define b where "b = \<lparr>b_lock = False, b_queue = [], b_pending = 2, b_count = 2\<rparr>"
  have i: "pthread_barrier_init False True (of_nat 2) = Inr b" by (simp add: pthread_barrier_init_def b_def)
  obtain b' rounds where r: "arrivals [7, 8, 9] b = (b', rounds)" by fastforce
  show ?thesis using barrier_rounds [OF i _ _ r] i r by (intro exI [of _ b] exI [of _ b'] exI [of _ rounds]) simp
qed

text \<open>A barrier for one thread keeps its spin lock: the call returns, but every later call waits for the spin lock forever.\<close>

lemma barrier_of_one_keeps_spin_lock:
  "pthread_barrier_init attr True 1 = Inr b \<Longrightarrow> \<exists>b'. pthread_barrier_wait t b = (b', Serial []) \<and> b_lock b'"
  by (auto simp: pthread_barrier_init_def pthread_barrier_wait_def Let_def)

text \<open>The threads of a barrier are instances of waiting threads: nobody is forgotten.\<close>

datatype barrier_pc = BIdle | BBlocked

fun barrier_cont :: "barrier_pc \<Rightarrow> barrier_pc option" where
  "barrier_cont BBlocked = Some BIdle"
| "barrier_cont BIdle = None"

inductive barrier_act :: "tid \<Rightarrow> barrier_pc \<Rightarrow> pt_barrier \<Rightarrow> pt_barrier \<Rightarrow> tid list \<Rightarrow> barrier_pc \<Rightarrow> bool" where
  last: "\<not> b_lock b \<Longrightarrow> pthread_barrier_wait t b = (b', Serial ts) \<Longrightarrow> barrier_act t BIdle b b' ts BIdle"
| waits: "\<not> b_lock b \<Longrightarrow> pthread_barrier_wait t b = (b', Waits) \<Longrightarrow> barrier_act t BIdle b b' [] BBlocked"

abbreviation "barrier_step \<equiv> wstep barrier_act barrier_cont"

interpretation bar: wait_object b_queue "\<lambda>p. p = BBlocked" barrier_act barrier_cont
proof
  fix t p x x' ts p'
  assume "barrier_act t p x x' ts p'"
  then show "p \<noteq> BBlocked \<and> p' = BBlocked \<and> ts = [] \<and> mset (b_queue x') = add_mset t (mset (b_queue x))
      \<or> (p' = BBlocked) = (p = BBlocked) \<and> mset (b_queue x) = mset ts + mset (b_queue x')"
    by cases (auto simp: pthread_barrier_wait_def Let_def split: if_splits)
next
  show "p = BBlocked \<and> p' \<noteq> BBlocked" if "barrier_cont p = Some p'" for p p' using that by (cases p) auto
qed

definition barrier_start :: "pt_barrier \<Rightarrow> (pt_barrier, barrier_pc) wsys" where
  "barrier_start b = \<lparr>wobj = b, wpc = (\<lambda>_. BIdle), wout = (\<lambda>_. []), wmsg = (\<lambda>_. False)\<rparr>"

definition barrier_inv :: "nat \<Rightarrow> (pt_barrier, barrier_pc) wsys \<Rightarrow> bool" where
  "barrier_inv n s \<longleftrightarrow> waits_inv b_queue (\<lambda>p. p = BBlocked) s \<and> barrier_rep n (wobj s)"

lemma barrier_step_inv: "1 < n \<Longrightarrow> barrier_inv n s \<Longrightarrow> barrier_step s s' \<Longrightarrow> barrier_inv n s'"
proof -
  assume n: "1 < n" and inv: "barrier_inv n s" and step: "barrier_step s s'"
  then have w: "waits_inv b_queue (\<lambda>p. p = BBlocked) s'" using bar.step_waits by (auto simp: barrier_inv_def)
  have rep: "barrier_rep n (wobj s)" using inv by (simp add: barrier_inv_def)
  from step have "barrier_rep n (wobj s')"
  proof cases
    case (act t x' ts p')
    have "barrier_rep n x'"
      using act(4) by cases (use barrier_wait_cases [OF rep n, of t] in auto)
    then show ?thesis using act by simp
  qed (use rep in simp_all)
  with w show ?thesis by (simp add: barrier_inv_def)
qed

text \<open>Threads that meet at a barrier in any interleaving: a blocked thread is on the queue of a round that is not complete, or has a
  message, or will be sent one by exactly one thread; in particular a thread on the queue still has threads to
  wait for.\<close>

lemma barrier_no_lost_wakeup:
  assumes "pthread_barrier_init attr malloc (of_nat n) = Inr b" "1 < n" "n < 2 ^ 32" "reachable barrier_step (barrier_start b) s"
  shows "length (b_queue (wobj s)) < n \<and> b_pending (wobj s) = of_nat (n - length (b_queue (wobj s))) \<and> \<not> b_lock (wobj s)
    \<and> (wpc s t = BBlocked \<longleftrightarrow> t \<in> set (b_queue (wobj s)) \<or> wmsg s t \<or> (\<exists>u. t \<in> set (wout s u)))"
proof -
  have "barrier_inv n (barrier_start b)"
    using assms(1-3) by (auto simp: barrier_inv_def waits_inv_def barrier_start_def pthread_barrier_init_def barrier_rep_def split: if_splits)
  then have "barrier_inv n s"
    by (intro reachable_invariant [OF assms(4), of "barrier_inv n"]) (use barrier_step_inv [OF assms(2)] in blast)+
  then show ?thesis using waits_invD(3) [of b_queue "\<lambda>p. p = BBlocked" s t] by (auto simp: barrier_inv_def barrier_rep_def)
qed

subsection \<open>One-time initialisation\<close>

text \<open>\<open>pthread_once\<close> reads \<open>run\<close> without the spin lock, then again with it. \<open>runs\<close> and \<open>complete\<close> record how often the
  initialisation was begun and completed. Reads and writes are sequentially consistent.\<close>

record once =
  o_run :: bool
  o_lock :: bool
  runs :: nat
  complete :: nat

datatype once_pc = OEnter | OSpin | OLocked | OInit | OUnlock | OReturned

inductive once_step :: "once \<times> (tid \<Rightarrow> once_pc) \<Rightarrow> once \<times> (tid \<Rightarrow> once_pc) \<Rightarrow> bool" where
  enter: "P t = OEnter \<Longrightarrow> once_step (c, P) (c, P(t := if o_run c then OReturned else OSpin))"
| spin_lock: "P t = OSpin \<Longrightarrow> \<not> o_lock c \<Longrightarrow> once_step (c, P) (c\<lparr>o_lock := True\<rparr>, P(t := OLocked))"
| check_run: "P t = OLocked \<Longrightarrow> o_run c \<Longrightarrow> once_step (c, P) (c, P(t := OUnlock))"
| init_routine: "P t = OLocked \<Longrightarrow> \<not> o_run c \<Longrightarrow> once_step (c, P) (c\<lparr>runs := runs c + 1\<rparr>, P(t := OInit))"
| init_done: "P t = OInit \<Longrightarrow> once_step (c, P) (c\<lparr>complete := complete c + 1, o_run := True\<rparr>, P(t := OUnlock))"
| spin_unlock: "P t = OUnlock \<Longrightarrow> once_step (c, P) (c\<lparr>o_lock := False\<rparr>, P(t := OReturned))"

definition ONCE_INIT :: "once \<times> (tid \<Rightarrow> once_pc)" where
  "ONCE_INIT = (\<lparr>o_run = False, o_lock = False, runs = 0, complete = 0\<rparr>, \<lambda>_. OEnter)"

fun inside :: "once_pc \<Rightarrow> bool" where
  "inside OLocked = True"
| "inside OInit = True"
| "inside OUnlock = True"
| "inside _ = False"

definition once_inv :: "once \<times> (tid \<Rightarrow> once_pc) \<Rightarrow> bool" where
  "once_inv s \<longleftrightarrow> (let (c, P) = s in
     (o_lock c \<longleftrightarrow> (\<exists>t. inside (P t))) \<and> (\<forall>t u. inside (P t) \<longrightarrow> inside (P u) \<longrightarrow> t = u)
     \<and> complete c = of_bool (o_run c) \<and> runs c = of_bool (o_run c \<or> (\<exists>t. P t = OInit))
     \<and> (\<forall>t. P t = OInit \<longrightarrow> \<not> o_run c) \<and> (\<forall>t. P t = OUnlock \<or> P t = OReturned \<longrightarrow> o_run c))"

lemma inside_iff: "inside p \<longleftrightarrow> p = OLocked \<or> p = OInit \<or> p = OUnlock"
  by (cases p) auto

lemma once_step_inv: "once_step s s' \<Longrightarrow> once_inv s \<Longrightarrow> once_inv s'"
proof (induction rule: once_step.induct)
  case (enter P t c)
  then have "\<not> inside (P t)" "P t \<noteq> OInit" by simp_all
  then have i: "inside ((P(t := if o_run c then OReturned else OSpin)) u) = inside (P u)"
      "((P(t := if o_run c then OReturned else OSpin)) u = OInit) = (P u = OInit)" for u by auto
  have "o_run c" if "u \<noteq> t" "P u = OUnlock \<or> P u = OReturned" for u using enter.prems that by (auto simp: once_inv_def)
  then show ?case using enter.prems unfolding once_inv_def Let_def prod.case i by auto
next
  case (spin_lock P t c)
  then have no: "\<not> inside (P u)" for u by (auto simp: once_inv_def)
  then have "P u \<noteq> OInit" for u by (metis inside.simps(2))
  with no spin_lock show ?case by (auto simp: once_inv_def)
next
  case (check_run P t c)
  then have o: "inside (P u) \<longleftrightarrow> u = t" for u by (auto simp: once_inv_def)
  have "P u \<noteq> OInit" for u using o [of u] check_run.hyps by auto
  with o check_run show ?case by (auto simp: once_inv_def)
next
  case (init_routine P t c)
  then have o: "inside (P u) \<longleftrightarrow> u = t" for u by (auto simp: once_inv_def)
  have "P u \<noteq> OInit" for u using o [of u] init_routine.hyps by auto
  with o init_routine show ?case by (auto simp: once_inv_def)
next
  case (init_done P t c)
  then have o: "inside (P u) \<longleftrightarrow> u = t" for u by (auto simp: once_inv_def)
  have "P u \<noteq> OInit" if "u \<noteq> t" for u using o [of u] that by auto
  with o init_done show ?case by (auto simp: once_inv_def)
next
  case (spin_unlock P t c)
  then have o: "inside (P u) \<longleftrightarrow> u = t" for u by (auto simp: once_inv_def)
  have "P u \<noteq> OInit" for u using o [of u] spin_unlock.hyps by auto
  with o spin_unlock show ?case by (auto simp: once_inv_def)
qed

interpretation once: invariant_of once_step ONCE_INIT once_inv
  by unfold_locales (use once_step_inv in \<open>auto simp: once_inv_def ONCE_INIT_def\<close>)

text \<open>C33: Under every interleaving of the callers of \<open>pthread_once\<close> the initialisation runs at most once, nobody returns before it has
  completed, and as long as some caller has not returned a step is possible.\<close>

theorem once_exactly_once:
  assumes "reachable once_step ONCE_INIT (c, P)"
  shows "runs c \<le> 1 \<and> (P t = OReturned \<longrightarrow> runs c = 1 \<and> complete c = 1)
    \<and> (P t \<noteq> OReturned \<longrightarrow> (\<exists>s'. once_step (c, P) s'))"
proof -
  have inv: "once_inv (c, P)" using assms by (rule once.reachable_inv)
  have "\<exists>s'. once_step (c, P) s'" if "P t \<noteq> OReturned"
  proof (cases "\<exists>u. inside (P u)")
    case True
    then obtain u where "P u = OLocked \<or> P u = OInit \<or> P u = OUnlock" by (auto simp: inside_iff)
    then show ?thesis by (metis check_run init_routine init_done spin_unlock)
  next
    case False
    then have "\<not> o_lock c" "P t = OEnter \<or> P t = OSpin" using inv that False by (cases "P t"; auto simp: once_inv_def inside_iff)+
    then show ?thesis by (metis enter spin_lock)
  qed
  then show ?thesis using inv by (auto simp: once_inv_def of_bool_def)
qed

text \<open>A run in which two threads find the initialisation missing, the first one performs it, and the second waits for the lock.\<close>

definition once_race :: "once \<times> (tid \<Rightarrow> once_pc)" where
  "once_race = (\<lparr>o_run = True, o_lock = False, runs = 1, complete = 1\<rparr>, (\<lambda>_. OEnter)(0 := OReturned, 1 := OSpin))"

lemma once_race_reachable: "reachable once_step ONCE_INIT once_race"
proof -
  note R = reachable.more [of once_step ONCE_INIT]
  have "reachable once_step ONCE_INIT (fst ONCE_INIT, (\<lambda>_. OEnter)(0 := OSpin))"
    using R [OF reachable.start, of "(fst ONCE_INIT, (\<lambda>_. OEnter)(0 := OSpin))"] once_step.enter [of "\<lambda>_. OEnter" 0 "fst ONCE_INIT"] by (simp add: ONCE_INIT_def)
  from R [OF this once_step.enter [of _ 1]]
  have "reachable once_step ONCE_INIT (fst ONCE_INIT, (\<lambda>_. OEnter)(0 := OSpin, 1 := OSpin))" by (simp add: ONCE_INIT_def)
  from R [OF this once_step.spin_lock [of _ 0]]
  have "reachable once_step ONCE_INIT ((fst ONCE_INIT)\<lparr>o_lock := True\<rparr>, (\<lambda>_. OEnter)(0 := OLocked, 1 := OSpin))"
    by (simp add: ONCE_INIT_def fun_upd_twist)
  from R [OF this once_step.init_routine [of _ 0]]
  have "reachable once_step ONCE_INIT ((fst ONCE_INIT)\<lparr>o_lock := True, runs := 1\<rparr>, (\<lambda>_. OEnter)(0 := OInit, 1 := OSpin))"
    by (simp add: ONCE_INIT_def fun_upd_twist)
  from R [OF this once_step.init_done [of _ 0]]
  have "reachable once_step ONCE_INIT
      (\<lparr>o_run = True, o_lock = True, runs = 1, complete = 1\<rparr>, (\<lambda>_. OEnter)(0 := OUnlock, 1 := OSpin))"
    by (simp add: ONCE_INIT_def fun_upd_twist)
  from R [OF this once_step.spin_unlock [of _ 0]] show ?thesis by (simp add: once_race_def fun_upd_twist)
qed

theorem once_exactly_once_witness:
  "reachable once_step ONCE_INIT once_race \<and> snd once_race 0 = OReturned \<and> runs (fst once_race) = 1 \<and>
    complete (fst once_race) = 1 \<and> snd once_race 1 = OSpin \<and> (\<exists>s'. once_step once_race s')"
  using once_exactly_once [of "fst once_race" "snd once_race" 0] once_exactly_once [of "fst once_race" "snd once_race" 1]
    once_race_reachable by (simp add: once_race_def)

end
