(* ===== verification/Spec2Isabelle.thy ===== *)
theory Spec2Isabelle
  imports Prelude L4_Math Addr Addr_Trans Cap Bits As_Lookup Bit_Array Circular_List Ihash Ihash_Probe
    Zalloc Folio Wait_Queue Mutex Claim Pager Activity Activity_Tree
    Slab Slab_Alloc Slab_Space Btree
    Pt_Queue Pt_Rwlock Pt_Wait Pt_Mutex Pt_Sync
begin

text \<open>
  A verification library for the Hurd on L4: the resource manager \<^verbatim>\<open>viengoos\<close>, its user-space run-time
  and the libraries they share.

  \<^bold>\<open>The program.\<close> Viengoos is an object-capability kernel on top of the L4 microkernel. Storage is
  divided into folios of 128 pages; an object is a page of a folio (data page, page of capabilities,
  activity, thread). Threads designate objects by capability addresses, which are translated through
  trees of capability pages with guards and subpages (\<^verbatim>\<open>hurd/addr.h\<close>, \<^verbatim>\<open>hurd/addr-trans.h\<close>,
  \<^verbatim>\<open>hurd/cap.h\<close>, \<^verbatim>\<open>libhurd-mm/as-lookup.c\<close>). Objects in memory are found through a hash table
  from object identifiers (\<^verbatim>\<open>libhurd-ihash\<close>), linked into lists (\<^verbatim>\<open>viengoos/list.h\<close>) and live in
  physical memory that a buddy allocator hands out (\<^verbatim>\<open>viengoos/zalloc.c\<close>). A folio's header page
  describes its objects with the help of bit arrays (\<^verbatim>\<open>hurd/folio.h\<close>, \<^verbatim>\<open>libbitarray\<close>) and names the
  head of every object's queue of waiting threads (\<^verbatim>\<open>viengoos/object.c\<close>).

  \<^bold>\<open>Theories and sources.\<close>
  \<^item> \<^verbatim>\<open>Prelude\<close>: words of the machine's widths, assertions as \<open>option\<close>, shifts, searches in intervals.
  \<^item> \<^verbatim>\<open>L4_Math\<close>: \<^verbatim>\<open>libl4/l4/math.h\<close>, most and least significant set bits. Both searches are characterised
    by the bits of the word (\<open>l4_lsb64_Suc\<close>, \<open>l4_msb64_Suc\<close>).
  \<^item> \<^verbatim>\<open>Addr\<close>: \<^verbatim>\<open>hurd/addr.h\<close>. A 64-bit word encodes a prefix and its depth; round trips of
    construction, extension, chopping, addition.
  \<^item> \<^verbatim>\<open>Addr_Trans\<close>: \<^verbatim>\<open>hurd/addr-trans.h\<close>. Guard, guard depth, subpage and subpage count share two bit
    fields; what the setter accepts is read back.
  \<^item> \<^verbatim>\<open>Cap\<close>: \<^verbatim>\<open>hurd/cap.h\<close>. The records of both builds, the type lattice, and \<open>cap_copy_x\<close> in its kernel
    form with \<open>cap_shootdown\<close> as a parameter; copies never gain authority.
  \<^item> \<^verbatim>\<open>Bits\<close>, \<^verbatim>\<open>As_Lookup\<close>: \<^verbatim>\<open>libhurd-mm/bits.h\<close>, \<^verbatim>\<open>as-lookup.c\<close>, \<^verbatim>\<open>as-compute-gbits.h\<close>. The walker is a
    loop over steps, compared with an inductive translation relation in both directions.
  \<^item> \<^verbatim>\<open>Bit_Array\<close>: \<^verbatim>\<open>libbitarray/bit-array.h\<close> as a set of numbers; the locale \<open>bit_allocator\<close> and its
    interpretation \<open>bitmap\<close>.
  \<^item> \<^verbatim>\<open>Circular_List\<close>: \<^verbatim>\<open>viengoos/list.h\<close> on a heap of list nodes whose links carry a sentinel bit; the
    locale \<open>node_lists\<close> and its interpretation \<open>lst\<close>.
  \<^item> \<^verbatim>\<open>Ihash\<close>, \<^verbatim>\<open>Ihash_Probe\<close>: \<^verbatim>\<open>libhurd-ihash\<close>. Invariant and abstraction to a finite map, the locale
    \<open>finite_table\<close>, and the number theory that makes the two-sided quadratic probing reach every slot
    for primes congruent to 3 modulo 4. Sizes are computed at the width of \<^verbatim>\<open>size_t\<close>; the properties of insertion hold for tables
    of up to 225023 slots, the sizes of the source that are shown to be such primes.
  \<^item> \<^verbatim>\<open>Zalloc\<close>: \<^verbatim>\<open>viengoos/zalloc.c\<close>. Zones as ordered lists of block addresses; the abstraction is the set
    of free bytes. Histories of donations, allocations and frees are the inductive relation \<open>zreach\<close>, whose first argument
    is the end of the memory; the properties need an end of at most 2 GiB, because above it the source overruns its array of zones.
  \<^item> \<^verbatim>\<open>Folio\<close>: \<^verbatim>\<open>hurd/folio.h\<close> in the kernel's form, \<open>folio_policy\<close>, and the header updates and the result of
    \<open>folio_object_alloc\<close>; the abstraction is a finite map from positions to object descriptions, and what the header holds
    besides (owner, links, policy, checksums) is framed.
  \<^item> \<^verbatim>\<open>Wait_Queue\<close>: the wait queues of \<^verbatim>\<open>viengoos/object.c\<close>, with the folios of \<^verbatim>\<open>Folio\<close> in the state; the
    locale \<open>thread_queues\<close> and its interpretation \<open>wq\<close>.
  \<^item> \<^verbatim>\<open>Machine\<close>: reachable states and the locale \<open>invariant_of\<close> of the invariant method.
  \<^item> \<^verbatim>\<open>Mutex\<close>: \<^verbatim>\<open>hurd/mutex.h\<close>, \<^verbatim>\<open>viengoos/mutex.h\<close>, \<^verbatim>\<open>hurd/rmutex.h\<close>. Threads with program counters interleave the
    atomic actions of locking and unlocking; mutual exclusion and the absence, or the possibility, of lost
    wake-ups.
  \<^item> \<^verbatim>\<open>Claim\<close>: \<^verbatim>\<open>object_desc_claim\<close> of \<^verbatim>\<open>viengoos/object.c\<close> with \<open>activity_charge\<close>. The abstraction is a ledger
    that places every object on one list of one activity and charges its frame to an activity; claiming
    updates the ledger at one object.
  \<^item> \<^verbatim>\<open>Pager\<close>: \<^verbatim>\<open>reclaim_from\<close> of \<^verbatim>\<open>viengoos/pager.c\<close> with \<open>is_clean\<close>, on the ledger of \<^verbatim>\<open>Claim\<close>: the order of eviction, in which the
    objects with a priority come as the tree of \<^verbatim>\<open>Btree\<close> orders them, the counters, and exactly when reclaiming fails.
  \<^item> \<^verbatim>\<open>Activity\<close>: the memory of a destroyed activity goes to its parent (\<^verbatim>\<open>activity_destroy\<close>), on the ledger of \<^verbatim>\<open>Claim\<close>.
  \<^item> \<^verbatim>\<open>Activity_Tree\<close>: the rest of \<^verbatim>\<open>viengoos/activity.c\<close>: the list of children on disk by its links, the list of children in
    memory and its order; \<open>activity_create\<close> and \<open>activity_destroy\<close> put the parts together, with the loops that free the
    folios and children of the victim.
  \<^item> \<^verbatim>\<open>Slab\<close>, \<^verbatim>\<open>Slab_Alloc\<close>, \<^verbatim>\<open>Slab_Space\<close>: \<^verbatim>\<open>libhurd-slab/slab.c\<close>, at the level of the slab structures and control words in
    its pages. The invariant gives every slab a free list; the abstraction is the set of allocated objects. The locale
    \<open>object_allocator\<close> with its interpretation \<open>slab\<close> carries the histories of clients; reaping and destruction give back exactly
    the pages without allocated objects, unless the deallocator refuses one.
  \<^item> \<^verbatim>\<open>Btree\<close>: the traversal of the threaded trees of \<^verbatim>\<open>libhurd-btree\<close>, with all threads and with threads missing, against the
    inorder list of a tree of node addresses; the place of an inserted node in that list.
  \<^item> \<^verbatim>\<open>Pt_Queue\<close>: the queues of waiting threads of \<^verbatim>\<open>libpthread\<close>, linked lists with back pointers; the locale
    \<open>waiter_queues\<close> and its interpretation \<open>pq\<close>.
  \<^item> \<^verbatim>\<open>Pt_Rwlock\<close>: \<^verbatim>\<open>libpthread/sysdeps/generic/pt-rwlock-*.c\<close> as interleavings of the sections under the spin lock;
    exclusion, hand-over and wake-ups.
  \<^item> \<^verbatim>\<open>Pt_Wait\<close>: the machine of threads that wait at an object of \<^verbatim>\<open>libpthread\<close> and the locale \<open>wait_object\<close>, which shows
    from a law about single actions that no wake-up is lost or sent twice.
  \<^item> \<^verbatim>\<open>Pt_Mutex\<close>: \<^verbatim>\<open>pt-mutex-*.c\<close> and \<^verbatim>\<open>pt-cond-*.c\<close>. Mutexes refine a specification with owner, depth and waiting threads;
    the threads that share a mutex and a condition variable are the interpretation \<open>mc\<close> of the locale.
  \<^item> \<^verbatim>\<open>Pt_Sync\<close>: \<^verbatim>\<open>sem-*.c\<close>, \<^verbatim>\<open>pt-barrier-*.c\<close>, \<^verbatim>\<open>pt-once.c\<close>. Counting, rounds, interpretations \<open>sem\<close> and \<open>bar\<close> of the
    locale, and the one-time initialisation as a machine.
  \<^bold>\<open>How state and effects are modelled.\<close> A structure is a record, an enumeration a datatype, a bit field a
  word of its width. A function that contains an assertion or a panic returns an \<open>option\<close> and \<open>None\<close> is
  the failure, so that a theorem with \<open>Some\<close> in its conclusion also says that no assertion fails.
  Pointers are word addresses where the code does arithmetic on them or aliases them (\<^verbatim>\<open>Circular_List\<close>) and
  names of objects elsewhere. Out-of-range accesses are failures.

  \<^bold>\<open>Loops.\<close> Bounded searches are \<open>List.find\<close> over the interval they scan. Loops whose termination depends on
  the data are \<open>partial_function (option)\<close> (the walker, the frees of a range, probing, the traversals of
  the lists and queues); the properties state that they return. No fuel is used anywhere.

  \<^bold>\<open>Parameters.\<close> Code outside of the repository and interfaces of other components appear as arguments:
  \<open>cap_shootdown\<close> in \<open>cap_copy_x\<close>, the allocation function in the growing hash table, the objects that
  \<open>object_find\<close> can bring into memory in \<^verbatim>\<open>Wait_Queue\<close>, the page allocator, constructor and destructor in \<^verbatim>\<open>Slab\<close>, whose
  contract is \<open>callbacks_ok\<close>; \<open>folio_free\<close> and \<open>object_free\<close> in \<^verbatim>\<open>Activity_Tree\<close>; the system calls of L4 that unmap and flush
  pages, and the contents of pages, in \<^verbatim>\<open>Pager\<close>, about which nothing is assumed. The contract \<open>callbacks_ok\<close> asks for fresh,
  aligned and zeroed pages and that a page given back with success is gone; for any other address the deallocator may give back
  the page around it or nothing, so that it holds of the callbacks of \<^verbatim>\<open>libhurd-mm\<close>, which chop the address.

  \<^bold>\<open>Not modelled.\<close> The RPC stubs (\<^verbatim>\<open>hurd/rpc.h\<close> and the interfaces built on it) and the dispatch loop of
  \<^verbatim>\<open>viengoos/server.c\<close>; the system calls of L4 (\<^verbatim>\<open>libl4\<close> apart from its arithmetic); boot loaders, consoles
  and drivers (\<^verbatim>\<open>laden\<close>, \<^verbatim>\<open>deva\<close>, \<^verbatim>\<open>viengoos/output*\<close>), which are input and output; debugging output;
  vendored code (\<^verbatim>\<open>malloc.c\<close>, \<^verbatim>\<open>elf.h\<close>, \<^verbatim>\<open>newlib\<close>). The machines of the threads library interleave calls without a time-out; the
  sections that a time-out runs are definitions (\<open>mutex_timed_out\<close>, \<open>rwlock_timed_out\<close>, \<open>sem_timed_out\<close>) outside of them.

  \<^bold>\<open>Plan.\<close> The largest parts of the program's own code that are left are the construction of address spaces
  (\<^verbatim>\<open>libhurd-mm/as-build.c\<close>) and the storage and capability allocators, whose state lies on both sides of the RPC interface of
  the kernel and needs a model of that interface first; the object cache of \<^verbatim>\<open>viengoos/object.c\<close>, which needs the paging
  of folios from disk; and the rotations of insertion into and removal from the
  threaded red-black trees of \<^verbatim>\<open>libhurd-btree\<close> (taken from the GNU C Library). They are not modelled; in this order they would extend the library.
\<close>

end
